(* ===== verification/Prelude.thy ===== *)
theory Prelude
  imports Main "HOL-Library.Word" "HOL-Library.Multiset"
begin

text \<open>
  Shared ground of the development: the machine integer types of the C code, the collections
  of simplification rules the component proofs use, generic facts on lists, the relational
  abstraction of intrusive singly linked lists (the \<open>next\<close> chains of
  \<open>suspenders_cr_t\<close> and \<open>suspenders_wq_node_t\<close>), reachability of a step
  relation, and the interfaces (locales) that several components provide:
  \<open>fifo\<close> (a queue seen through the list it stands for), \<open>machine\<close> (a step
  relation with an inductive invariant), \<open>min_queue\<close> (a priority queue seen through its
  multiset of entries) and \<open>codec\<close> (an encoder with a decoder that undoes it in front of
  any suffix).
\<close>

unbundle bit_operations_syntax

type_synonym u8 = "8 word"
type_synonym u16 = "16 word"
type_synonym u32 = "32 word"
type_synonym u64 = "64 word"
type_synonym bytes = "8 word list"

named_theorems rt_simps "unfolding rules of the runtime operations"
named_theorems wire_simps "unfolding rules of the wire-format operations"

section \<open>Lists\<close>

lemma remove1_append_notin: "x \<notin> set xs \<Longrightarrow> remove1 x (xs @ x # ys) = xs @ ys"
  by (induction xs) auto

lemma distinct_remove1_set: "distinct xs \<Longrightarrow> set (remove1 x xs) = set xs - {x}"
  by (rule set_remove1_eq)

lemma last_remove1_butlast:
  "distinct (xs @ [x]) \<Longrightarrow> remove1 x (xs @ [x]) = xs"
  by (simp add: remove1_append)

lemma nth_append_Suc: "i < length xs \<Longrightarrow> (xs @ ys) ! i = xs ! i"
  by (rule nth_append_left)

section \<open>Intrusive linked lists\<close>

text \<open>
  \<open>chain nxt p xs\<close>: following the link field \<open>nxt\<close> from the pointer \<open>p\<close>
  (\<open>None\<close> is \<open>NULL\<close>) visits exactly the cells \<open>xs\<close> and ends in \<open>NULL\<close>.
\<close>

primrec chain :: "('a \<Rightarrow> 'a option) \<Rightarrow> 'a option \<Rightarrow> 'a list \<Rightarrow> bool" where
  "chain nxt p [] = (p = None)"
| "chain nxt p (x # xs) = (p = Some x \<and> chain nxt (nxt x) xs)"

lemma chain_None [simp]: "chain nxt None xs = (xs = [])"
  by (cases xs) auto

lemma chain_Some: "chain nxt (Some a) xs \<longleftrightarrow> (\<exists>ys. xs = a # ys \<and> chain nxt (nxt a) ys)"
  by (cases xs) auto

lemma chain_upd_notin [simp]: "a \<notin> set xs \<Longrightarrow> chain (nxt(a := v)) p xs = chain nxt p xs"
  by (induction xs arbitrary: p) (auto simp: fun_upd_apply)

lemma chain_unique: "chain nxt p xs \<Longrightarrow> chain nxt p ys \<Longrightarrow> xs = ys"
proof (induction xs arbitrary: p ys)
  case (Cons x xs)
  then show ?case by (cases ys) auto
qed simp

lemma chain_snoc:
  assumes "chain nxt p (xs @ [l])" and "distinct (xs @ [l])" and "n \<notin> set (xs @ [l])"
  shows "chain (nxt(n := None, l := Some n)) p (xs @ [l, n])"
  using assms by (induction xs arbitrary: p) (auto simp: fun_upd_apply)

lemma chain_delete:
  assumes "chain nxt p (xs @ [a, b] @ ys)" and "distinct (xs @ [a, b] @ ys)"
  shows "chain (nxt(a := nxt b, b := None)) p (xs @ [a] @ ys)"
  using assms
proof (induction xs arbitrary: p)
  case Nil
  then have f: "a \<noteq> b" "a \<notin> set ys" "b \<notin> set ys" "chain nxt (nxt b) ys" "p = Some a" by auto
  then have "chain (nxt(a := nxt b, b := None)) (nxt b) ys" by (metis chain_upd_notin)
  with f show ?case by (simp del: fun_upd_apply) (simp add: fun_upd_apply)
next
  case (Cons x xs)
  then show ?case by (auto simp: fun_upd_apply)
qed

section \<open>Sums over lists\<close>

lemma sum_update: "i < length xs \<Longrightarrow> sum_list (map f (xs[i := x])) + f (xs ! i) = sum_list (map f xs) + (f x :: 'a :: comm_monoid_add)"
proof (induction xs arbitrary: i)
  case (Cons y ys)
  show ?case
  proof (cases i)
    case (Suc j)
    with Cons.IH [of j] Cons.prems show ?thesis by (simp add: ac_simps)
  qed (simp add: ac_simps)
qed simp

lemma mset_take_drop: "i < length xs \<Longrightarrow> mset xs = add_mset (xs ! i) (mset (take i xs @ drop (Suc i) xs))"
  by (metis id_take_nth_drop mset_append mset.simps(2) union_mset_add_mset_right)

section \<open>Reachable states of a step relation\<close>

inductive reach :: "('s \<Rightarrow> bool) \<Rightarrow> ('s \<Rightarrow> 's \<Rightarrow> bool) \<Rightarrow> 's \<Rightarrow> bool"
  for init :: "'s \<Rightarrow> bool" and step :: "'s \<Rightarrow> 's \<Rightarrow> bool" where
  reach_init: "init s \<Longrightarrow> reach init step s"
| reach_step: "reach init step s \<Longrightarrow> step s t \<Longrightarrow> reach init step t"

locale machine =
  fixes init :: "'s \<Rightarrow> bool" and step :: "'s \<Rightarrow> 's \<Rightarrow> bool" and inv :: "'s \<Rightarrow> bool"
  assumes inv_init: "init s \<Longrightarrow> inv s"
    and inv_step: "inv s \<Longrightarrow> step s t \<Longrightarrow> inv t"
begin

lemma reach_inv: "reach init step s \<Longrightarrow> inv s"
proof (induction rule: reach.induct)
  case (reach_init s)
  then show ?case by (rule inv_init)
next
  case (reach_step s t)
  then show ?case by (blast intro: inv_step)
qed

lemma steps_inv: "step\<^sup>*\<^sup>* s t \<Longrightarrow> inv s \<Longrightarrow> inv t"
  by (induction rule: rtranclp_induct) (auto intro: inv_step)

end

section \<open>First-in first-out queues\<close>

text \<open>
  The contract of a FIFO queue: \<open>contents\<close> is the list it stands for; \<open>room\<close> says
  when a \<open>push\<close> is allowed, and \<open>pop\<close> takes the oldest entry.
\<close>

locale fifo =
  fixes inv :: "'q \<Rightarrow> bool" and contents :: "'q \<Rightarrow> 'a list"
    and room :: "'q \<Rightarrow> 'a \<Rightarrow> bool"
    and push :: "'q \<Rightarrow> 'a \<Rightarrow> 'q" and pop :: "'q \<Rightarrow> 'a option \<times> 'q"
  assumes push_inv: "inv q \<Longrightarrow> room q x \<Longrightarrow> inv (push q x)"
    and push_contents: "inv q \<Longrightarrow> room q x \<Longrightarrow> contents (push q x) = contents q @ [x]"
    and pop_empty: "inv q \<Longrightarrow> contents q = [] \<Longrightarrow> pop q = (None, q)"
    and pop_some: "inv q \<Longrightarrow> contents q = x # xs \<Longrightarrow>
          \<exists>q'. pop q = (Some x, q') \<and> inv q' \<and> contents q' = xs"
begin

lemma pop_inv: "inv q \<Longrightarrow> pop q = (r, q') \<Longrightarrow> inv q'"
  by (cases "contents q") (use pop_empty pop_some in fastforce)+

lemma pop_result:
  assumes "inv q" and "pop q = (r, q')"
  shows "r = (case contents q of [] \<Rightarrow> None | x # _ \<Rightarrow> Some x) \<and> contents q' = tl (contents q)"
  using assms by (cases "contents q") (use pop_empty pop_some in fastforce)+

text \<open>Draining a queue returns its contents, oldest first.\<close>

fun drain :: "nat \<Rightarrow> 'q \<Rightarrow> 'a list" where
  "drain 0 q = []"
| "drain (Suc n) q = (case pop q of (None, _) \<Rightarrow> [] | (Some x, q') \<Rightarrow> x # drain n q')"

lemma drain_contents: "inv q \<Longrightarrow> length (contents q) \<le> n \<Longrightarrow> drain n q = contents q"
proof (induction n arbitrary: q)
  case (Suc n)
  show ?case
  proof (cases "contents q")
    case Nil
    with Suc.prems show ?thesis by (simp add: pop_empty)
  next
    case (Cons x xs)
    with Suc.prems obtain q' where q': "pop q = (Some x, q')" "inv q'" "contents q' = xs"
      using pop_some by blast
    with Cons Suc show ?thesis by simp
  qed
qed simp

lemma push_drain:
  assumes "inv q" and "room q x" and "length (contents q) \<le> n"
  shows "drain (Suc n) (push q x) = drain n q @ [x]"
proof -
  have "drain (Suc n) (push q x) = contents (push q x)"
    using assms by (intro drain_contents) (auto simp: push_inv push_contents)
  then show ?thesis using assms by (simp add: push_contents drain_contents)
qed

end

section \<open>Priority queues\<close>

locale min_queue =
  fixes inv :: "'q \<Rightarrow> bool" and entries :: "'q \<Rightarrow> 'a multiset" and key :: "'a \<Rightarrow> 'k::linorder"
    and insert_q :: "'q \<Rightarrow> 'a \<Rightarrow> 'q" and pop_min :: "'q \<Rightarrow> 'a option \<times> 'q"
  assumes insert_inv: "inv q \<Longrightarrow> inv (insert_q q x)"
    and insert_entries: "inv q \<Longrightarrow> entries (insert_q q x) = add_mset x (entries q)"
    and pop_min_empty: "inv q \<Longrightarrow> entries q = {#} \<Longrightarrow> pop_min q = (None, q)"
    and pop_min_some: "inv q \<Longrightarrow> entries q \<noteq> {#} \<Longrightarrow>
          \<exists>x q'. pop_min q = (Some x, q') \<and> inv q' \<and> entries q = add_mset x (entries q') \<and>
                 (\<forall>y \<in># entries q. key x \<le> key y)"
begin

text \<open>Emptying a priority queue yields its entries in ascending order of their keys.\<close>

fun pops :: "nat \<Rightarrow> 'q \<Rightarrow> 'a list" where
  "pops 0 q = []"
| "pops (Suc n) q = (case pop_min q of (None, _) \<Rightarrow> [] | (Some x, q') \<Rightarrow> x # pops n q')"

lemma pops_sorted:
  "inv q \<Longrightarrow> size (entries q) \<le> n \<Longrightarrow>
   mset (pops n q) = entries q \<and> sorted (map key (pops n q))"
proof (induction n arbitrary: q)
  case (Suc n)
  show ?case
  proof (cases "entries q = {#}")
    case True
    with Suc.prems show ?thesis by (simp add: pop_min_empty)
  next
    case False
    with Suc.prems obtain x q' where q': "pop_min q = (Some x, q')" "inv q'"
      "entries q = add_mset x (entries q')" "\<forall>y \<in># entries q. key x \<le> key y"
      using pop_min_some by blast
    with Suc have IH: "mset (pops n q') = entries q'" "sorted (map key (pops n q'))" by auto
    have "\<forall>y \<in> set (pops n q'). key x \<le> key y"
      using q'(3,4) IH(1) by (auto simp flip: set_mset_mset)
    with q' IH show ?thesis by simp
  qed
qed simp

end

section \<open>Encoders and decoders\<close>

locale codec =
  fixes valid :: "'a \<Rightarrow> bool" and encode :: "'a \<Rightarrow> 'b list"
    and decode :: "'b list \<Rightarrow> ('a \<times> 'b list) option"
  assumes decode_encode: "valid x \<Longrightarrow> decode (encode x @ rest) = Some (x, rest)"
begin

lemma encode_inj: "valid x \<Longrightarrow> valid y \<Longrightarrow> encode x = encode y \<Longrightarrow> x = y"
  by (metis decode_encode option.inject prod.inject)

lemma encode_prefix_free:
  assumes "valid x" and "valid y" and "encode x @ xs = encode y @ ys"
  shows "x = y \<and> xs = ys"
proof -
  from decode_encode [OF assms(1), of xs] decode_encode [OF assms(2), of ys]
  have "Some (x, xs) = Some (y, ys)" unfolding assms(3) by (rule trans [OF sym])
  then show ?thesis by simp
qed

fun decode_many :: "nat \<Rightarrow> 'b list \<Rightarrow> ('a list \<times> 'b list) option" where
  "decode_many 0 bs = Some ([], bs)"
| "decode_many (Suc n) bs = (case decode bs of None \<Rightarrow> None
     | Some (x, bs') \<Rightarrow> (case decode_many n bs' of None \<Rightarrow> None
         | Some (xs, r) \<Rightarrow> Some (x # xs, r)))"

lemma decode_many_encode:
  "list_all valid xs \<Longrightarrow>
   decode_many (length xs) (concat (map encode xs) @ rest) = Some (xs, rest)"
  by (induction xs) (auto simp: decode_encode)

end

end
