(* ===== verification/Errors.thy ===== *)
theory Errors
  imports Prelude
begin

text \<open>
  The error codes of the public API (the anonymous enum of \<open>suspenders.h\<close>), the QoS
  levels, the marker of an undecided wait, and \<open>suspenders_strerror\<close>. The codes are C
  \<open>int\<close>s: fallible operations of the model return them as \<open>int\<close> and mirror
  them in the \<open>rt_errno\<close> field of the runtime state.
\<close>

definition SUSPENDERS_OK :: int where
  [simp]: "SUSPENDERS_OK = 0"

definition SUSPENDERS_ERROR :: int where
  [simp]: "SUSPENDERS_ERROR = -1"

definition SUSPENDERS_INVAL :: int where
  [simp]: "SUSPENDERS_INVAL = -2"

definition SUSPENDERS_NOMEM :: int where
  [simp]: "SUSPENDERS_NOMEM = -3"

definition SUSPENDERS_TIMEDOUT :: int where
  [simp]: "SUSPENDERS_TIMEDOUT = -4"

definition SUSPENDERS_CANCELED :: int where
  [simp]: "SUSPENDERS_CANCELED = -5"

definition SUSPENDERS_CLOSED :: int where
  [simp]: "SUSPENDERS_CLOSED = -6"

definition SUSPENDERS_EMPTY :: int where
  [simp]: "SUSPENDERS_EMPTY = -7"

definition SUSPENDERS_FULL :: int where
  [simp]: "SUSPENDERS_FULL = -8"

definition SUSPENDERS_BUSY :: int where
  [simp]: "SUSPENDERS_BUSY = -9"

definition SUSPENDERS_NOTINIT :: int where
  [simp]: "SUSPENDERS_NOTINIT = -10"

definition SUSPENDERS_NOTFOUND :: int where
  [simp]: "SUSPENDERS_NOTFOUND = -11"

definition SUSPENDERS_PERM :: int where
  [simp]: "SUSPENDERS_PERM = -12"

definition S_WQ_WAITING :: int where
  [simp]: "S_WQ_WAITING = 1"

definition SUSPENDERS_QOS_COUNT :: int where
  [simp]: "SUSPENDERS_QOS_COUNT = 4"

definition SUSPENDERS_QOS_NORMAL :: int where
  [simp]: "SUSPENDERS_QOS_NORMAL = 2"

definition suspenders_strerror :: "int \<Rightarrow> string" where
  "suspenders_strerror err =
     (if err = SUSPENDERS_OK then ''ok'' else
     (if err = SUSPENDERS_ERROR then ''system error'' else
     (if err = SUSPENDERS_INVAL then ''invalid argument'' else
     (if err = SUSPENDERS_NOMEM then ''out of memory'' else
     (if err = SUSPENDERS_TIMEDOUT then ''deadline expired'' else
     (if err = SUSPENDERS_CANCELED then ''operation canceled'' else
     (if err = SUSPENDERS_CLOSED then ''channel closed'' else
     (if err = SUSPENDERS_EMPTY then ''channel empty'' else
     (if err = SUSPENDERS_FULL then ''channel full'' else
     (if err = SUSPENDERS_BUSY then ''resource busy'' else
     (if err = SUSPENDERS_NOTINIT then ''runtime not initialized'' else
     (if err = SUSPENDERS_NOTFOUND then ''not found'' else
     (if err = SUSPENDERS_PERM then ''operation not permitted'' else
      ''unknown error'')))))))))))))"

definition error_codes :: "int list" where
  "error_codes = [SUSPENDERS_OK, SUSPENDERS_ERROR, SUSPENDERS_INVAL, SUSPENDERS_NOMEM, SUSPENDERS_TIMEDOUT, SUSPENDERS_CANCELED, SUSPENDERS_CLOSED, SUSPENDERS_EMPTY, SUSPENDERS_FULL, SUSPENDERS_BUSY, SUSPENDERS_NOTINIT, SUSPENDERS_NOTFOUND, SUSPENDERS_PERM]"

text \<open>The documented codes are pairwise different, and so are their messages.\<close>

lemma error_codes_distinct: "distinct error_codes"
  by (simp add: error_codes_def)

lemma strerror_inj: "inj_on suspenders_strerror (set error_codes)"
  by (simp add: error_codes_def suspenders_strerror_def)

lemma strerror_known: "e \<in> set error_codes \<Longrightarrow> suspenders_strerror e \<noteq> ''unknown error''"
  by (auto simp: error_codes_def suspenders_strerror_def)

text \<open>A decided status is never the waiting marker: every code is at most 0.\<close>

lemma error_code_not_waiting: "e \<in> set error_codes \<Longrightarrow> e \<noteq> S_WQ_WAITING"
  by (auto simp: error_codes_def)

end
