(* ===== verification/Ticket_Lock.thy ===== *)
theory Ticket_Lock
  imports Prelude
begin

text \<open>
  The ticket spin lock (\<open>suspenders_ticket_lock_t\<close>): a 32-bit ticket counter and a
  32-bit serving counter. Every atomic access of the C functions is one step of a step
  relation over any number of threads, so that every interleaving of
  \<open>suspenders_ticket_lock\<close> and \<open>suspenders_ticket_unlock\<close> is a path.
  The counters wrap; with fewer than \<open>2 ^ 32\<close> threads the lock is nevertheless a mutual
  exclusion lock and serves in the order the tickets were drawn.
\<close>

record ticket_lock =
  next_ticket :: u32
  now_serving :: u32

definition suspenders_ticket_init :: ticket_lock where
  "suspenders_ticket_init = \<lparr>next_ticket = 0, now_serving = 0\<rparr>"

text \<open>The atomic accesses: fetch-and-add of \<open>suspenders_ticket_lock\<close>, its loop test,
  and the load and the store of \<open>suspenders_ticket_unlock\<close>.\<close>

definition ticket_draw :: "ticket_lock \<Rightarrow> u32 \<times> ticket_lock" where
  "ticket_draw l = (next_ticket l, l\<lparr>next_ticket := next_ticket l + 1\<rparr>)"

definition ticket_must_spin :: "ticket_lock \<Rightarrow> u32 \<Rightarrow> bool" where
  "ticket_must_spin l my_ticket = (now_serving l \<noteq> my_ticket)"

definition ticket_unlock_store :: "ticket_lock \<Rightarrow> u32 \<Rightarrow> ticket_lock" where
  "ticket_unlock_store l current = l\<lparr>now_serving := current + 1\<rparr>"

text \<open>The pause loop of one failed test: how many pauses, and the next backoff exponent.\<close>

definition ticket_backoff :: "nat \<Rightarrow> nat \<times> nat" where
  "ticket_backoff spins = (if spins < 6 then 2 ^ spins else 64, if spins < 10 then spins + 1 else spins)"

lemma ticket_backoff_bounds:
  "ticket_backoff spins = (n, spins') \<Longrightarrow> 0 < n \<and> n \<le> 64 \<and> (spins \<le> 10 \<longrightarrow> spins' \<le> 10)"
proof -
  assume h: "ticket_backoff spins = (n, spins')"
  have "(2::nat) ^ spins \<le> 2 ^ 6" if "spins < 6" using that by (intro power_increasing) auto
  with h show ?thesis by (auto simp: ticket_backoff_def split: if_splits)
qed

section \<open>Threads contending for one lock\<close>

text \<open>Where a thread stands: outside; spinning with its ticket; inside the critical section;
  in \<open>suspenders_ticket_unlock\<close> between its load and its store.\<close>

datatype tl_pc = TIdle | TSpin u32 | TCrit u32 | TUnlock u32 u32

text \<open>\<open>arrivals\<close> is a history variable: the threads that have drawn a ticket and not yet
  released, in the order of their draws. No guard reads it.\<close>

record tl_sys =
  tl_lock :: ticket_lock
  tl_pcs :: "nat \<Rightarrow> tl_pc"
  arrivals :: "nat list"

definition tl_init :: "nat \<Rightarrow> tl_sys \<Rightarrow> bool" where
  "tl_init N s \<longleftrightarrow> N < 2 ^ 32 \<and> tl_lock s = suspenders_ticket_init \<and> (\<forall>i. tl_pcs s i = TIdle) \<and> arrivals s = []"

inductive tl_step :: "nat \<Rightarrow> tl_sys \<Rightarrow> tl_sys \<Rightarrow> bool" for N :: nat where
  draw: "i < N \<Longrightarrow> tl_pcs s i = TIdle \<Longrightarrow> ticket_draw (tl_lock s) = (t, l) \<Longrightarrow>
     tl_step N s (s\<lparr>tl_lock := l, tl_pcs := (tl_pcs s)(i := TSpin t), arrivals := arrivals s @ [i]\<rparr>)"
| spin: "tl_pcs s i = TSpin t \<Longrightarrow> ticket_must_spin (tl_lock s) t \<Longrightarrow> tl_step N s s"
| enter: "tl_pcs s i = TSpin t \<Longrightarrow> \<not> ticket_must_spin (tl_lock s) t \<Longrightarrow>
     tl_step N s (s\<lparr>tl_pcs := (tl_pcs s)(i := TCrit t)\<rparr>)"
| unlock_load: "tl_pcs s i = TCrit t \<Longrightarrow>
     tl_step N s (s\<lparr>tl_pcs := (tl_pcs s)(i := TUnlock t (now_serving (tl_lock s)))\<rparr>)"
| unlock_store: "tl_pcs s i = TUnlock t current \<Longrightarrow>
     tl_step N s (s\<lparr>tl_lock := ticket_unlock_store (tl_lock s) current,
                    tl_pcs := (tl_pcs s)(i := TIdle), arrivals := remove1 i (arrivals s)\<rparr>)"

fun ticket_of :: "tl_pc \<Rightarrow> u32 option" where
  "ticket_of TIdle = None"
| "ticket_of (TSpin t) = Some t"
| "ticket_of (TCrit t) = Some t"
| "ticket_of (TUnlock t c) = Some t"

fun in_section :: "tl_pc \<Rightarrow> bool" where
  "in_section (TCrit t) = True"
| "in_section (TUnlock t c) = True"
| "in_section _ = False"

text \<open>The invariant: the pending threads hold consecutive tickets from \<open>now_serving\<close> on,
  in the order of arrival, and whoever is in the section is the head of that order.\<close>

definition tl_inv :: "nat \<Rightarrow> tl_sys \<Rightarrow> bool" where
  "tl_inv N s \<longleftrightarrow> N < 2 ^ 32 \<and>
     distinct (arrivals s) \<and> set (arrivals s) \<subseteq> {..<N} \<and>
     (\<forall>i. tl_pcs s i \<noteq> TIdle \<longleftrightarrow> i \<in> set (arrivals s)) \<and>
     next_ticket (tl_lock s) = now_serving (tl_lock s) + of_nat (length (arrivals s)) \<and>
     (\<forall>k < length (arrivals s). ticket_of (tl_pcs s (arrivals s ! k)) =
          Some (now_serving (tl_lock s) + of_nat k)) \<and>
     (\<forall>i. in_section (tl_pcs s i) \<longrightarrow> ticket_of (tl_pcs s i) = Some (now_serving (tl_lock s))) \<and>
     (\<forall>i t c. tl_pcs s i = TUnlock t c \<longrightarrow> c = now_serving (tl_lock s))"

lemma of_nat_u32_inj:
  assumes "(of_nat a :: u32) = of_nat b" and "a < 2 ^ 32" and "b < 2 ^ 32"
  shows "a = b"
proof -
  have "unat (of_nat a :: u32) = unat (of_nat b :: u32)" by (simp only: assms(1))
  then show ?thesis using assms(2,3) by (simp add: unat_of_nat)
qed

lemma arrivals_small:
  assumes "tl_inv N s"
  shows "length (arrivals s) < 2 ^ 32"
proof -
  have "length (arrivals s) = card (set (arrivals s))"
    using assms by (simp add: tl_inv_def distinct_card)
  also have "\<dots> \<le> card {..<N}" using assms by (intro card_mono) (auto simp: tl_inv_def)
  finally show ?thesis using assms by (simp add: tl_inv_def)
qed

text \<open>A thread that holds the serving ticket is the first of the arrivals.\<close>

lemma serving_is_head:
  assumes inv: "tl_inv N s"
    and t: "ticket_of (tl_pcs s i) = Some (now_serving (tl_lock s))"
  shows "\<exists>rest. arrivals s = i # rest"
proof -
  have "i \<in> set (arrivals s)" using inv t by (cases "tl_pcs s i") (auto simp: tl_inv_def)
  then obtain k where k: "k < length (arrivals s)" "arrivals s ! k = i" by (auto simp: in_set_conv_nth)
  with inv t have "(of_nat k :: u32) = of_nat 0" by (auto simp: tl_inv_def)
  moreover have "k < 2 ^ 32" using k(1) arrivals_small [OF inv] by simp
  ultimately have "k = 0" using of_nat_u32_inj [of k 0] by simp
  with k show ?thesis by (cases "arrivals s") auto
qed

lemma tl_inv_draw:
  assumes inv: "tl_inv N s" and i: "i < N" "tl_pcs s i = TIdle"
  shows "tl_inv N (s\<lparr>tl_lock := (tl_lock s)\<lparr>next_ticket := next_ticket (tl_lock s) + 1\<rparr>,
            tl_pcs := (tl_pcs s)(i := TSpin (next_ticket (tl_lock s))), arrivals := arrivals s @ [i]\<rparr>)"
proof -
  have "i \<notin> set (arrivals s)" using inv i by (auto simp: tl_inv_def)
  with inv i show ?thesis
    unfolding tl_inv_def by (auto simp: nth_append less_Suc_eq in_set_conv_nth)
qed

lemma tl_inv_store:
  assumes inv: "tl_inv N s" and i: "tl_pcs s i = TUnlock t c"
  shows "tl_inv N (s\<lparr>tl_lock := ticket_unlock_store (tl_lock s) c,
            tl_pcs := (tl_pcs s)(i := TIdle), arrivals := remove1 i (arrivals s)\<rparr>)"
proof -
  have c: "c = now_serving (tl_lock s)" and tk: "ticket_of (tl_pcs s i) = Some (now_serving (tl_lock s))"
    using inv i unfolding tl_inv_def by (fastforce, metis in_section.simps(2))
  obtain rest where rest: "arrivals s = i # rest" using serving_is_head [OF inv tk] by blast
  have others: "\<not> in_section (tl_pcs s j)" if "j \<noteq> i" for j
  proof
    assume "in_section (tl_pcs s j)"
    then have "ticket_of (tl_pcs s j) = Some (now_serving (tl_lock s))" using inv by (simp add: tl_inv_def)
    from serving_is_head [OF inv this] rest that show False by auto
  qed
  then have noU: "tl_pcs s j \<noteq> TUnlock a b" if "j \<noteq> i" for j a b using that by fastforce
  have ord: "ticket_of (tl_pcs s (rest ! k)) = Some (now_serving (tl_lock s) + 1 + of_nat k)"
    if "k < length rest" for k
    using inv that rest unfolding tl_inv_def by (auto dest!: spec [of _ "Suc k"] simp: algebra_simps)
  have d: "i \<notin> set rest" "distinct rest" using inv rest by (auto simp: tl_inv_def)
  show ?thesis
    using inv rest others noU ord d c unfolding tl_inv_def ticket_unlock_store_def
    by (auto simp: in_set_conv_nth algebra_simps)
qed

interpretation tl: machine "tl_init N" "tl_step N" "tl_inv N" for N
proof unfold_locales
  fix s show "tl_init N s \<Longrightarrow> tl_inv N s"
    by (auto simp: tl_init_def tl_inv_def suspenders_ticket_init_def)
next
  fix s t assume inv: "tl_inv N s" and "tl_step N s t"
  from this(2) show "tl_inv N t"
  proof cases
    case (draw i t l)
    then show ?thesis using tl_inv_draw [OF inv] by (auto simp: ticket_draw_def)
  next
    case (enter i t)
    then show ?thesis using inv
      unfolding tl_inv_def by (auto simp: ticket_must_spin_def fun_upd_apply)
  next
    case (unlock_load i t)
    moreover from this have "t = now_serving (tl_lock s)"
      using inv unfolding tl_inv_def by (metis in_section.simps(1) option.inject ticket_of.simps(3))
    ultimately show ?thesis using inv unfolding tl_inv_def by (auto simp: fun_upd_apply)
  next
    case (unlock_store i t c)
    then show ?thesis using tl_inv_store [OF inv] by simp
  qed (use inv in simp)
qed

section \<open>The lock's promises\<close>

text \<open>C18. Mutual exclusion of the ticket lock: in every state that any interleaving of lock and
  unlock calls of fewer than \<open>2 ^ 32\<close> threads can reach, at most one thread is between its
  acquisition and the store that ends its release, although both counters wrap.\<close>

theorem ticket_mutual_exclusion:
  assumes "reach (tl_init N) (tl_step N) s"
    and "in_section (tl_pcs s i)" and "in_section (tl_pcs s j)"
  shows "i = j"
proof -
  have inv: "tl_inv N s" using assms(1) by (rule tl.reach_inv)
  from assms(2,3) have "ticket_of (tl_pcs s i) = Some (now_serving (tl_lock s))"
    "ticket_of (tl_pcs s j) = Some (now_serving (tl_lock s))" using inv by (simp_all add: tl_inv_def)
  then obtain r r' where "arrivals s = i # r" "arrivals s = j # r'"
    using serving_is_head [OF inv] by metis
  then show ?thesis by simp
qed

definition tl_two_threads :: tl_sys where
  "tl_two_threads = \<lparr>tl_lock = \<lparr>next_ticket = 2, now_serving = 0\<rparr>,
     tl_pcs = (\<lambda>_. TIdle)(0 := TCrit 0, 1 := TSpin 1), arrivals = [0, 1]\<rparr>"

lemma tl_two_threads_reach: "reach (tl_init 2) (tl_step 2) tl_two_threads"
proof -
  let ?s0 = "\<lparr>tl_lock = suspenders_ticket_init, tl_pcs = \<lambda>_. TIdle, arrivals = []\<rparr>"
  let ?s1 = "\<lparr>tl_lock = \<lparr>next_ticket = 1, now_serving = 0\<rparr>, tl_pcs = (\<lambda>_. TIdle)(0 := TSpin 0), arrivals = [0]\<rparr>"
  let ?s2 = "\<lparr>tl_lock = \<lparr>next_ticket = 2, now_serving = 0\<rparr>,
     tl_pcs = (\<lambda>_. TIdle)(0 := TSpin 0, 1 := TSpin 1), arrivals = [0, 1]\<rparr>"
  have r0: "reach (tl_init 2) (tl_step 2) ?s0" by (rule reach_init) (simp add: tl_init_def)
  have "tl_step 2 ?s0 ?s1"
    using tl_step.draw [of 0 2 ?s0 0] by (simp add: ticket_draw_def suspenders_ticket_init_def)
  with r0 have r1: "reach (tl_init 2) (tl_step 2) ?s1" by (rule reach_step)
  have "tl_step 2 ?s1 ?s2"
    using tl_step.draw [of 1 2 ?s1 1] by (simp add: ticket_draw_def)
  with r1 have r2: "reach (tl_init 2) (tl_step 2) ?s2" by (rule reach_step)
  have "tl_step 2 ?s2 tl_two_threads"
    using tl_step.enter [of ?s2 0 0 2]
    by (simp add: ticket_must_spin_def tl_two_threads_def fun_upd_twist)
  with r2 show ?thesis by (rule reach_step)
qed

theorem ticket_mutual_exclusion_witness:
  "reach (tl_init 2) (tl_step 2) tl_two_threads \<and> in_section (tl_pcs tl_two_threads 0) \<and>
   \<not> in_section (tl_pcs tl_two_threads 1)"
  using ticket_mutual_exclusion [OF tl_two_threads_reach, of 0 1] tl_two_threads_reach
  by (auto simp: tl_two_threads_def)

text \<open>C19. First come, first served, without starvation: a spinning thread's loop test lets it in
  exactly when it is the oldest of the threads that have drawn a ticket and not yet released.\<close>

theorem ticket_fifo:
  assumes "reach (tl_init N) (tl_step N) s" and "tl_pcs s i = TSpin t"
  shows "\<not> ticket_must_spin (tl_lock s) t \<longleftrightarrow> hd (arrivals s) = i"
proof -
  have inv: "tl_inv N s" using assms(1) by (rule tl.reach_inv)
  have "i \<in> set (arrivals s)" using inv assms(2) by (auto simp: tl_inv_def)
  then have "arrivals s \<noteq> []" by auto
  then have hd: "ticket_of (tl_pcs s (hd (arrivals s))) = Some (now_serving (tl_lock s))"
    using inv unfolding tl_inv_def by (force simp: hd_conv_nth)
  show ?thesis
  proof
    assume "\<not> ticket_must_spin (tl_lock s) t"
    with assms(2) serving_is_head [OF inv, of i] show "hd (arrivals s) = i"
      by (auto simp: ticket_must_spin_def)
  next
    assume "hd (arrivals s) = i"
    with hd assms(2) show "\<not> ticket_must_spin (tl_lock s) t" by (simp add: ticket_must_spin_def)
  qed
qed

theorem ticket_fifo_witness:
  "tl_pcs tl_two_threads 1 = TSpin 1 \<and>
   (\<not> ticket_must_spin (tl_lock tl_two_threads) 1 \<longleftrightarrow> hd (arrivals tl_two_threads) = 1)"
  using ticket_fifo [OF tl_two_threads_reach, of 1 1] by (simp add: tl_two_threads_def)

end
