(* ===== verification/Wait_Queue.thy ===== *)
theory Wait_Queue
  imports Prelude
begin

text \<open>
  The intrusive FIFO wait queue (\<open>suspenders_wq_list_t\<close> with \<open>s_wq_push\<close>,
  \<open>s_wq_pop\<close> and \<open>s_wq_remove\<close>) at the level of its pointers: \<open>nxt\<close> is the
  \<open>next\<close> field of every node, \<open>None\<close> is \<open>NULL\<close>. Each operation is shown to
  act as append, head removal and deletion on the list of nodes the queue stands for, and to
  leave every disjoint queue alone. The other theories describe their wait lists by those lists.
\<close>

record 'n wq_list =
  wq_head :: "'n option"
  wq_tail :: "'n option"

type_synonym 'n links = "'n \<Rightarrow> 'n option"

definition s_wq_push :: "'n links \<times> 'n wq_list \<Rightarrow> 'n \<Rightarrow> 'n links \<times> 'n wq_list" where
  "s_wq_push q n =
     (let nxt = (fst q)(n := None); l = snd q in
      case wq_tail l of
        Some t \<Rightarrow> (nxt(t := Some n), l\<lparr>wq_tail := Some n\<rparr>)
      | None \<Rightarrow> (nxt, l\<lparr>wq_head := Some n, wq_tail := Some n\<rparr>))"

definition s_wq_pop :: "'n links \<times> 'n wq_list \<Rightarrow> 'n option \<times> 'n links \<times> 'n wq_list" where
  "s_wq_pop q =
     (let nxt = fst q; l = snd q in
      case wq_head l of
        None \<Rightarrow> (None, nxt, l)
      | Some n \<Rightarrow>
          (let h = nxt n in
           (Some n, nxt(n := None), \<lparr>wq_head = h, wq_tail = (if h = None then None else wq_tail l)\<rparr>)))"

text \<open>The loop of \<open>s_wq_remove\<close>: \<open>prev\<close> is the node whose \<open>next\<close> field
  \<open>pp\<close> points to (\<open>None\<close>: \<open>pp\<close> is \<open>&l->head\<close>), \<open>cur\<close> is \<open>*pp\<close>.
  On a cyclic chain the walk would not end, hence the partial function.\<close>

partial_function (option) s_wq_remove_loop ::
    "'n \<Rightarrow> 'n links \<Rightarrow> 'n wq_list \<Rightarrow> 'n option \<Rightarrow> 'n option \<Rightarrow> ('n links \<times> 'n wq_list) option" where
  "s_wq_remove_loop n nxt l prev cur =
     (case cur of
        None \<Rightarrow> Some (nxt, l)
      | Some c \<Rightarrow>
          (if c = n then
             (let (nxt1, l1) = (case prev of None \<Rightarrow> (nxt, l\<lparr>wq_head := nxt n\<rparr>)
                                | Some p \<Rightarrow> (nxt(p := nxt n), l));
                  l2 = (if wq_tail l1 = Some n then l1\<lparr>wq_tail := prev\<rparr> else l1)
              in Some (nxt1(n := None), l2))
           else s_wq_remove_loop n nxt l (Some c) (nxt c)))"

definition s_wq_remove :: "'n links \<times> 'n wq_list \<Rightarrow> 'n \<Rightarrow> ('n links \<times> 'n wq_list) option" where
  "s_wq_remove q n = s_wq_remove_loop n (fst q) (snd q) None (wq_head (snd q))"

section \<open>The list a queue stands for\<close>

definition wq_repr :: "'n links \<times> 'n wq_list \<Rightarrow> 'n list \<Rightarrow> bool" where
  "wq_repr q xs \<longleftrightarrow> chain (fst q) (wq_head (snd q)) xs \<and> distinct xs \<and>
     wq_tail (snd q) = (if xs = [] then None else Some (last xs))"

lemma wq_repr_unique: "wq_repr q xs \<Longrightarrow> wq_repr q ys \<Longrightarrow> xs = ys"
  by (auto simp: wq_repr_def dest: chain_unique)

lemma wq_repr_empty: "wq_repr (nxt, \<lparr>wq_head = None, wq_tail = None\<rparr>) []"
  by (simp add: wq_repr_def)

lemma s_wq_push_repr:
  assumes "wq_repr q xs" and "n \<notin> set xs"
  shows "wq_repr (s_wq_push q n) (xs @ [n])"
proof (cases xs rule: rev_cases)
  case Nil
  with assms show ?thesis by (simp add: wq_repr_def s_wq_push_def)
next
  case (snoc ys t)
  with assms have "chain ((fst q)(n := None, t := Some n)) (wq_head (snd q)) (ys @ [t, n])"
    by (intro chain_snoc) (auto simp: wq_repr_def)
  with snoc assms show ?thesis by (auto simp: wq_repr_def s_wq_push_def Let_def)
qed

lemma s_wq_pop_repr:
  assumes "wq_repr q (x # xs)"
  shows "\<exists>q'. s_wq_pop q = (Some x, q') \<and> wq_repr q' xs \<and> fst q' x = None"
proof -
  have h: "wq_head (snd q) = Some x" "chain (fst q) (fst q x) xs" "x \<notin> set xs" "distinct xs"
    "wq_tail (snd q) = Some (last (x # xs))"
    using assms by (auto simp: wq_repr_def)
  have "fst q x = None \<longleftrightarrow> xs = []" using h(2) by (cases xs) auto
  with h show ?thesis
    by (auto simp: s_wq_pop_def Let_def wq_repr_def)
qed

lemma s_wq_pop_empty: "wq_repr q [] \<Longrightarrow> s_wq_pop q = (None, q)"
  by (cases q) (simp add: wq_repr_def s_wq_pop_def)

text \<open>The walk finds a node behind any prefix that does not hold it.\<close>

lemma remove_loop_skip:
  "chain nxt cur (ys @ zs) \<Longrightarrow> n \<notin> set ys \<Longrightarrow>
   \<exists>cur'. chain nxt cur' zs \<and>
     s_wq_remove_loop n nxt l prev cur =
     s_wq_remove_loop n nxt l (if ys = [] then prev else Some (last ys)) cur'"
proof (induction ys arbitrary: cur prev)
  case (Cons y ys)
  then have c: "cur = Some y" "chain nxt (nxt y) (ys @ zs)" "y \<noteq> n" by auto
  from Cons.IH [OF c(2), of "Some y"] Cons.prems(2) obtain cur' where
    "chain nxt cur' zs" "s_wq_remove_loop n nxt l (Some y) (nxt y) =
     s_wq_remove_loop n nxt l (if ys = [] then Some y else Some (last ys)) cur'" by auto
  moreover have "s_wq_remove_loop n nxt l prev cur = s_wq_remove_loop n nxt l (Some y) (nxt y)"
    using c by (subst s_wq_remove_loop.simps) simp
  ultimately show ?case by auto
qed auto

lemma s_wq_remove_absent:
  assumes "wq_repr q xs" and "n \<notin> set xs"
  shows "s_wq_remove q n = Some q"
proof -
  obtain cur' where "chain (fst q) cur' []" "s_wq_remove q n =
      s_wq_remove_loop n (fst q) (snd q) (if xs = [] then None else Some (last xs)) cur'"
    using remove_loop_skip [of "fst q" "wq_head (snd q)" xs "[]" n "snd q" None] assms
    by (auto simp: wq_repr_def s_wq_remove_def)
  then show ?thesis by (subst (asm) s_wq_remove_loop.simps) simp
qed

lemma s_wq_remove_present:
  assumes r: "wq_repr q (ys @ n # zs)"
  shows "\<exists>q'. s_wq_remove q n = Some q' \<and> wq_repr q' (ys @ zs)"
proof -
  have ch: "chain (fst q) (wq_head (snd q)) (ys @ n # zs)" and d: "distinct (ys @ n # zs)"
    and tl: "wq_tail (snd q) = Some (last (n # zs))"
    using r by (auto simp: wq_repr_def)
  obtain cur' where c: "chain (fst q) cur' (n # zs)" "s_wq_remove q n =
      s_wq_remove_loop n (fst q) (snd q) (if ys = [] then None else Some (last ys)) cur'"
    using remove_loop_skip [OF ch] d by (auto simp: s_wq_remove_def)
  have tail_iff: "last (n # zs) = n \<longleftrightarrow> zs = []" using d by (cases zs rule: rev_cases) auto
  show ?thesis
  proof (cases ys rule: rev_cases)
    case Nil
    have "chain ((fst q)(n := None)) (fst q n) zs" using c(1) d by simp
    with Nil c tl tail_iff d show ?thesis
      by (subst (asm) s_wq_remove_loop.simps) (auto simp: wq_repr_def)
  next
    case (snoc ps p)
    have "chain ((fst q)(p := fst q n, n := None)) (wq_head (snd q)) (ps @ [p] @ zs)"
      using ch d snoc by (intro chain_delete) auto
    with snoc c tl tail_iff d show ?thesis
      by (subst (asm) s_wq_remove_loop.simps) (auto simp: wq_repr_def)
  qed
qed

text \<open>Removing a node deletes it from the list, wherever it stands, and always returns.\<close>

lemma s_wq_remove_repr:
  assumes "wq_repr q xs"
  shows "\<exists>q'. s_wq_remove q n = Some q' \<and> wq_repr q' (remove1 n xs)"
proof (cases "n \<in> set xs")
  case True
  then obtain ys zs where "xs = ys @ n # zs" "n \<notin> set ys" by (meson split_list_first)
  with s_wq_remove_present [of q ys n zs] assms show ?thesis by (simp add: remove1_append)
next
  case False
  with assms show ?thesis by (simp add: s_wq_remove_absent remove1_idem)
qed

definition wq_contents :: "'n links \<times> 'n wq_list \<Rightarrow> 'n list" where
  "wq_contents q = (THE xs. wq_repr q xs)"

lemma wq_contents_eq: "wq_repr q xs \<Longrightarrow> wq_contents q = xs"
  unfolding wq_contents_def by (blast intro: the_equality dest: wq_repr_unique)

interpretation wq: fifo "\<lambda>q. \<exists>xs. wq_repr q xs" wq_contents "\<lambda>q n. n \<notin> set (wq_contents q)"
    s_wq_push s_wq_pop
proof unfold_locales
  fix q :: "'a links \<times> 'a wq_list" and x xs
  assume ex: "\<exists>xs. wq_repr q xs"
  then obtain ys where ys: "wq_repr q ys" by blast
  show "x \<notin> set (wq_contents q) \<Longrightarrow> \<exists>xs. wq_repr (s_wq_push q x) xs"
    using s_wq_push_repr [OF ys] wq_contents_eq [OF ys] by auto
  show "x \<notin> set (wq_contents q) \<Longrightarrow> wq_contents (s_wq_push q x) = wq_contents q @ [x]"
    using s_wq_push_repr [OF ys] by (simp add: wq_contents_eq [OF ys] wq_contents_eq)
  show "wq_contents q = [] \<Longrightarrow> s_wq_pop q = (None, q)"
    using ys by (simp add: wq_contents_eq [OF ys] s_wq_pop_empty)
  show "wq_contents q = x # xs \<Longrightarrow>
      \<exists>q'. s_wq_pop q = (Some x, q') \<and> (\<exists>xs. wq_repr q' xs) \<and> wq_contents q' = xs"
    using s_wq_pop_repr [of q x xs] ys by (auto simp: wq_contents_eq [OF ys] wq_contents_eq)
qed

section \<open>Disjoint queues\<close>

lemma s_wq_push_frame:
  assumes "wq_repr q xs" and "chain (fst q) p ys" and "set ys \<inter> insert n (set xs) = {}"
  shows "chain (fst (s_wq_push q n)) p ys"
proof -
  have "wq_tail (snd q) = Some t \<Longrightarrow> t \<notin> set ys" for t
    using assms(1,3) last_in_set [of xs] by (auto simp: wq_repr_def split: if_splits)
  with assms show ?thesis by (auto simp: s_wq_push_def Let_def split: option.splits)
qed

lemma s_wq_pop_frame:
  assumes "wq_repr q xs" and "chain (fst q) p ys" and "set ys \<inter> set xs = {}"
  shows "chain (fst (snd (s_wq_pop q))) p ys"
  using assms by (cases xs) (auto simp: s_wq_pop_def Let_def wq_repr_def)

section \<open>The wait queue's promises\<close>

text \<open>C22. The pointer operations implement a FIFO list of waiters: pushing a node that is not queued
  appends it, popping takes the oldest node or reports an empty queue, and removing a node from the
  middle always terminates and deletes exactly that node, with head and tail kept right in every case.\<close>

theorem wait_queue_refines_list:
  assumes "wq_repr q xs"
  shows "(n \<notin> set xs \<longrightarrow> wq_repr (s_wq_push q n) (xs @ [n])) \<and>
         (case xs of [] \<Rightarrow> s_wq_pop q = (None, q)
          | x # rest \<Rightarrow> \<exists>q'. s_wq_pop q = (Some x, q') \<and> wq_repr q' rest) \<and>
         (\<exists>q'. s_wq_remove q n = Some q' \<and> wq_repr q' (remove1 n xs))"
proof (intro conjI impI)
  show "wq_repr (s_wq_push q n) (xs @ [n])" if "n \<notin> set xs"
    using assms that by (rule s_wq_push_repr)
  show "case xs of [] \<Rightarrow> s_wq_pop q = (None, q)
        | x # rest \<Rightarrow> \<exists>q'. s_wq_pop q = (Some x, q') \<and> wq_repr q' rest"
  proof (cases xs)
    case Nil
    with assms show ?thesis by (simp add: s_wq_pop_empty)
  next
    case (Cons x rest)
    with assms s_wq_pop_repr [of q x rest] show ?thesis unfolding Cons list.case by blast
  qed
  show "\<exists>q'. s_wq_remove q n = Some q' \<and> wq_repr q' (remove1 n xs)"
    using assms by (rule s_wq_remove_repr)
qed

definition wq_pair :: "nat links \<times> nat wq_list" where
  "wq_pair = s_wq_push (s_wq_push (\<lambda>_. None, \<lparr>wq_head = None, wq_tail = None\<rparr>) 7) 9"

lemma wq_pair_repr: "wq_repr wq_pair [7, 9]"
  by (simp add: wq_pair_def s_wq_push_def wq_repr_def)

theorem wait_queue_refines_list_witness:
  "wq_repr wq_pair [7, 9] \<and> wq_repr (s_wq_push wq_pair 8) [7, 9, 8] \<and>
   (\<exists>q'. s_wq_remove wq_pair 9 = Some q' \<and> wq_repr q' [7])"
  using wait_queue_refines_list [OF wq_pair_repr, of 8] wait_queue_refines_list [OF wq_pair_repr, of 9]
    wq_pair_repr by simp

end
