(* ===== verification/Ready_Queue.thy ===== *)
theory Ready_Queue
  imports Wait_Queue Errors
begin

text \<open>
  A worker's four ready lists (\<open>ready_queue_heads\<close>, \<open>ready_queue_tails\<close> and the
  \<open>next\<close> field of the coroutines) at pointer level, with \<open>suspenders_clamp_qos\<close>,
  \<open>suspenders_ready_enqueue\<close>, \<open>suspenders_ready_dequeue\<close> and
  \<open>suspenders_ready_queue_empty\<close>, and their refinement to four lists of coroutines. The
  global injector (\<open>s_injector_heads\<close>, \<open>s_injector_tails\<close>) has the same shape.
\<close>

definition suspenders_clamp_qos :: "int \<Rightarrow> nat" where
  "suspenders_clamp_qos qos =
     (if qos < 0 then 0 else if qos \<ge> SUSPENDERS_QOS_COUNT then 3 else nat qos)"

lemma clamp_qos_range: "suspenders_clamp_qos qos < 4"
  by (auto simp: suspenders_clamp_qos_def)

lemma clamp_qos_id: "0 \<le> qos \<Longrightarrow> qos < 4 \<Longrightarrow> int (suspenders_clamp_qos qos) = qos"
  by (simp add: suspenders_clamp_qos_def)

lemma clamp_qos_mono: "a \<le> b \<Longrightarrow> suspenders_clamp_qos a \<le> suspenders_clamp_qos b"
  by (auto simp: suspenders_clamp_qos_def)

record 'c ready_ptrs =
  rq_heads :: "nat \<Rightarrow> 'c option"
  rq_tails :: "nat \<Rightarrow> 'c option"
  rq_next :: "'c \<Rightarrow> 'c option"

definition suspenders_ready_enqueue_ptr :: "('c \<Rightarrow> int) \<Rightarrow> 'c ready_ptrs \<Rightarrow> 'c \<Rightarrow> 'c ready_ptrs" where
  "suspenders_ready_enqueue_ptr effective_qos rq cr =
     (let nxt = (rq_next rq)(cr := None);
          qos = suspenders_clamp_qos (effective_qos cr) in
      case rq_tails rq qos of
        Some t \<Rightarrow> rq\<lparr>rq_next := nxt(t := Some cr), rq_tails := (rq_tails rq)(qos := Some cr)\<rparr>
      | None \<Rightarrow> rq\<lparr>rq_next := nxt, rq_heads := (rq_heads rq)(qos := Some cr),
                  rq_tails := (rq_tails rq)(qos := Some cr)\<rparr>)"

text \<open>The scan \<open>for (qos = 0; qos < SUSPENDERS_QOS_COUNT; qos++)\<close>; the first argument
  counts the levels still to visit.\<close>

fun ready_dequeue_scan :: "nat \<Rightarrow> nat \<Rightarrow> 'c ready_ptrs \<Rightarrow> 'c option \<times> 'c ready_ptrs" where
  "ready_dequeue_scan 0 qos rq = (None, rq)"
| "ready_dequeue_scan (Suc k) qos rq =
     (case rq_heads rq qos of
        Some cr \<Rightarrow>
          (let h = rq_next rq cr in
           (Some cr, rq\<lparr>rq_heads := (rq_heads rq)(qos := h),
              rq_tails := (if h = None then (rq_tails rq)(qos := None) else rq_tails rq),
              rq_next := (rq_next rq)(cr := None)\<rparr>))
      | None \<Rightarrow> ready_dequeue_scan k (Suc qos) rq)"

definition suspenders_ready_dequeue_ptr :: "'c ready_ptrs \<Rightarrow> 'c option \<times> 'c ready_ptrs" where
  "suspenders_ready_dequeue_ptr rq = ready_dequeue_scan 4 0 rq"

definition suspenders_ready_queue_empty_ptr :: "'c ready_ptrs \<Rightarrow> bool" where
  "suspenders_ready_queue_empty_ptr rq = list_all (\<lambda>qos. rq_heads rq qos = None) [0..<4]"

section \<open>Four lists\<close>

type_synonym 'c ready_lists = "nat \<Rightarrow> 'c list"

definition ready_push :: "'c ready_lists \<Rightarrow> nat \<Rightarrow> 'c \<Rightarrow> 'c ready_lists" where
  "ready_push qs q c = qs(q := qs q @ [c])"

fun ready_take_from :: "nat \<Rightarrow> nat \<Rightarrow> 'c ready_lists \<Rightarrow> 'c option \<times> 'c ready_lists" where
  "ready_take_from 0 q qs = (None, qs)"
| "ready_take_from (Suc k) q qs =
     (case qs q of c # cs \<Rightarrow> (Some c, qs(q := cs)) | [] \<Rightarrow> ready_take_from k (Suc q) qs)"

definition ready_take :: "'c ready_lists \<Rightarrow> 'c option \<times> 'c ready_lists" where
  "ready_take qs = ready_take_from 4 0 qs"

definition ready_all :: "'c ready_lists \<Rightarrow> 'c list" where
  "ready_all qs = concat (map qs [0..<4])"

lemma upt4: "[0..<4] = [0, 1, 2, 3 :: nat]"
  by (simp add: upt_rec)

lemma set_ready_all: "c \<in> set (ready_all qs) \<longleftrightarrow> (\<exists>q < 4. c \<in> set (qs q))"
  by (auto simp: ready_all_def)

text \<open>Strict priority: what is taken is the head of the first nonempty list.\<close>

lemma ready_take_from_result:
  "ready_take_from k q qs = (r, qs') \<Longrightarrow>
   (case r of
      None \<Rightarrow> qs' = qs \<and> (\<forall>i. q \<le> i \<and> i < q + k \<longrightarrow> qs i = [])
    | Some c \<Rightarrow> (\<exists>i cs. q \<le> i \<and> i < q + k \<and> qs i = c # cs \<and> (\<forall>j. q \<le> j \<and> j < i \<longrightarrow> qs j = []) \<and>
                 qs' = qs(i := cs)))"
proof (induction k arbitrary: q)
  case (Suc k)
  show ?case
  proof (cases "qs q")
    case Nil
    with Suc.prems have "ready_take_from k (Suc q) qs = (r, qs')" by simp
    from Suc.IH [OF this] show ?thesis
    proof (cases r)
      case None
      with Suc.IH [OF \<open>ready_take_from k (Suc q) qs = (r, qs')\<close>] Nil show ?thesis
        by (auto simp: le_Suc_eq) (metis Suc_leI le_eq_less_or_eq)
    next
      case (Some c)
      with Suc.IH [OF \<open>ready_take_from k (Suc q) qs = (r, qs')\<close>] obtain i cs where
        i: "Suc q \<le> i" "i < Suc q + k" "qs i = c # cs" "\<forall>j. Suc q \<le> j \<and> j < i \<longrightarrow> qs j = []" "qs' = qs(i := cs)"
        by auto
      have "\<forall>j. q \<le> j \<and> j < i \<longrightarrow> qs j = []" using i(4) Nil by (metis Suc_leI le_eq_less_or_eq)
      with i Some show ?thesis by (auto intro!: exI [of _ i])
    qed
  next
    case (Cons c cs)
    with Suc.prems show ?thesis by (auto intro!: exI [of _ q])
  qed
qed auto

lemma ready_take_result:
  "ready_take qs = (r, qs') \<Longrightarrow>
   (case r of
      None \<Rightarrow> qs' = qs \<and> (\<forall>q < 4. qs q = [])
    | Some c \<Rightarrow> (\<exists>q cs. q < 4 \<and> qs q = c # cs \<and> (\<forall>j < q. qs j = []) \<and> qs' = qs(q := cs)))"
  using ready_take_from_result [of 4 0 qs r qs'] by (auto simp: ready_take_def split: option.splits)

section \<open>The pointers implement the lists\<close>

definition ready_repr :: "'c ready_ptrs \<Rightarrow> 'c ready_lists \<Rightarrow> bool" where
  "ready_repr rq qs \<longleftrightarrow>
     (\<forall>q < 4. wq_repr (rq_next rq, \<lparr>wq_head = rq_heads rq q, wq_tail = rq_tails rq q\<rparr>) (qs q)) \<and>
     (\<forall>q < 4. \<forall>p < 4. p \<noteq> q \<longrightarrow> set (qs p) \<inter> set (qs q) = {})"

lemma wq_list_surj [simp]: "\<lparr>wq_head = wq_head l, wq_tail = wq_tail l\<rparr> = (l :: 'c wq_list)"
  by simp

lemma ready_enqueue_wq:
  "suspenders_ready_enqueue_ptr eq rq cr =
     (let qos = suspenders_clamp_qos (eq cr);
          (nxt, l) = s_wq_push (rq_next rq, \<lparr>wq_head = rq_heads rq qos, wq_tail = rq_tails rq qos\<rparr>) cr
      in rq\<lparr>rq_next := nxt, rq_heads := (rq_heads rq)(qos := wq_head l),
            rq_tails := (rq_tails rq)(qos := wq_tail l)\<rparr>)"
  by (simp add: suspenders_ready_enqueue_ptr_def s_wq_push_def Let_def split: option.splits)

lemma ready_enqueue_repr:
  assumes r: "ready_repr rq qs" and new: "cr \<notin> set (ready_all qs)"
  shows "ready_repr (suspenders_ready_enqueue_ptr eq rq cr)
           (ready_push qs (suspenders_clamp_qos (eq cr)) cr)"
proof -
  define qos where "qos = suspenders_clamp_qos (eq cr)"
  define w where "w = (rq_next rq, \<lparr>wq_head = rq_heads rq qos, wq_tail = rq_tails rq qos\<rparr>)"
  obtain nxt l where p: "s_wq_push w cr = (nxt, l)" by fastforce
  have qos: "qos < 4" by (simp add: qos_def clamp_qos_range)
  have w: "wq_repr w (qs qos)" using r qos by (simp add: ready_repr_def w_def)
  have out: "cr \<notin> set (qs q)" if "q < 4" for q using new that by (auto simp: set_ready_all)
  have here: "wq_repr (nxt, l) (qs qos @ [cr])" using s_wq_push_repr [OF w out [OF qos]] p by simp
  have others: "wq_repr (nxt, \<lparr>wq_head = rq_heads rq q, wq_tail = rq_tails rq q\<rparr>) (qs q)"
    if q: "q < 4" "q \<noteq> qos" for q
  proof -
    have "wq_repr (rq_next rq, \<lparr>wq_head = rq_heads rq q, wq_tail = rq_tails rq q\<rparr>) (qs q)"
      "set (qs q) \<inter> insert cr (set (qs qos)) = {}"
      using r q qos out by (auto simp: ready_repr_def)
    then show ?thesis using s_wq_push_frame [OF w, of "rq_heads rq q" "qs q" cr] p
      by (auto simp: wq_repr_def w_def)
  qed
  have eq': "suspenders_ready_enqueue_ptr eq rq cr =
      rq\<lparr>rq_next := nxt, rq_heads := (rq_heads rq)(qos := wq_head l), rq_tails := (rq_tails rq)(qos := wq_tail l)\<rparr>"
    using p by (simp add: ready_enqueue_wq Let_def qos_def w_def)
  show ?thesis
    unfolding ready_repr_def eq' qos_def [symmetric]
    using here others r out qos by (auto simp: ready_push_def ready_repr_def)
qed

lemma ready_scan_repr:
  assumes r: "ready_repr rq qs"
  shows "q + k \<le> 4 \<Longrightarrow> \<exists>rq'. ready_dequeue_scan k q rq = (fst (ready_take_from k q qs), rq') \<and>
     ready_repr rq' (snd (ready_take_from k q qs))"
proof (induction k arbitrary: q)
  case 0
  with r show ?case by simp
next
  case (Suc k)
  let ?w = "(rq_next rq, \<lparr>wq_head = rq_heads rq q, wq_tail = rq_tails rq q\<rparr>)"
  have w: "wq_repr ?w (qs q)" using r Suc.prems by (simp add: ready_repr_def)
  show ?case
  proof (cases "qs q")
    case Nil
    with w have "rq_heads rq q = None" by (simp add: wq_repr_def)
    with Nil Suc show ?thesis by simp
  next
    case (Cons c cs)
    have h: "rq_heads rq q = Some c" using w Cons by (simp add: wq_repr_def)
    let ?h = "rq_next rq c"
    let ?rq = "rq\<lparr>rq_heads := (rq_heads rq)(q := ?h),
              rq_tails := (if ?h = None then (rq_tails rq)(q := None) else rq_tails rq),
              rq_next := (rq_next rq)(c := None)\<rparr>"
    obtain w' where p: "s_wq_pop ?w = (Some c, w')" "wq_repr w' cs" using s_wq_pop_repr w Cons by metis
    have w': "w' = ((rq_next rq)(c := None), \<lparr>wq_head = ?h, wq_tail = (if ?h = None then None else rq_tails rq q)\<rparr>)"
      using p h by (auto simp: s_wq_pop_def Let_def)
    have others: "wq_repr ((rq_next rq)(c := None), \<lparr>wq_head = rq_heads rq j, wq_tail = rq_tails rq j\<rparr>) (qs j)"
      if "j < 4" "j \<noteq> q" for j
    proof -
      have "q < 4" using Suc.prems by simp
      with r that have "set (qs j) \<inter> set (qs q) = {}" unfolding ready_repr_def by blast
      with Cons have "c \<notin> set (qs j)" by auto
      then show ?thesis using r that by (simp add: ready_repr_def wq_repr_def)
    qed
    have "ready_repr ?rq (qs(q := cs))"
      unfolding ready_repr_def
    proof (intro conjI allI impI)
      fix j :: nat assume j: "j < 4"
      show "wq_repr (rq_next ?rq, \<lparr>wq_head = rq_heads ?rq j, wq_tail = rq_tails ?rq j\<rparr>) ((qs(q := cs)) j)"
        using others [OF j] p(2) w' by (cases "j = q") auto
    next
      fix a b :: nat assume "a < 4" "b < 4" "b \<noteq> a"
      with r have "set (qs b) \<inter> set (qs a) = {}" unfolding ready_repr_def by blast
      then show "set ((qs(q := cs)) b) \<inter> set ((qs(q := cs)) a) = {}"
        using Cons \<open>b \<noteq> a\<close> by auto
    qed
    moreover have "ready_dequeue_scan (Suc k) q rq = (Some c, ?rq)" using h by (simp add: Let_def)
    moreover have "ready_take_from (Suc k) q qs = (Some c, qs(q := cs))" using Cons by simp
    ultimately show ?thesis unfolding fst_conv snd_conv by (metis fst_conv snd_conv)
  qed
qed

text \<open>C21. The linked ready lists implement four FIFO lists with strict priority: enqueueing a
  coroutine appends it to the list of its clamped effective QoS, dequeueing takes the head of the
  lowest-numbered nonempty list and only that, and the emptiness test is exact.\<close>

theorem ready_queue_refines_lists:
  assumes r: "ready_repr rq qs" and new: "cr \<notin> set (ready_all qs)"
  shows "ready_repr (suspenders_ready_enqueue_ptr eq rq cr)
            (ready_push qs (suspenders_clamp_qos (eq cr)) cr) \<and>
         (\<exists>rq'. suspenders_ready_dequeue_ptr rq = (fst (ready_take qs), rq') \<and>
                ready_repr rq' (snd (ready_take qs))) \<and>
         (case ready_take qs of
            (None, _) \<Rightarrow> \<forall>q < 4. qs q = []
          | (Some c, qs') \<Rightarrow> \<exists>q cs. q < 4 \<and> qs q = c # cs \<and> (\<forall>j < q. qs j = []) \<and> qs' = qs(q := cs)) \<and>
         (suspenders_ready_queue_empty_ptr rq \<longleftrightarrow> ready_all qs = [])"
proof -
  have heads: "rq_heads rq q = None \<longleftrightarrow> qs q = []" if "q < 4" for q
    using r that by (cases "qs q") (auto simp: ready_repr_def wq_repr_def)
  obtain res qs' where t: "ready_take qs = (res, qs')" by fastforce
  have "case ready_take qs of
            (None, _) \<Rightarrow> \<forall>q < 4. qs q = []
          | (Some c, qs') \<Rightarrow> \<exists>q cs. q < 4 \<and> qs q = c # cs \<and> (\<forall>j < q. qs j = []) \<and> qs' = qs(q := cs)"
    using ready_take_result [OF t] by (cases res) (auto simp: t)
  moreover have "suspenders_ready_queue_empty_ptr rq \<longleftrightarrow> ready_all qs = []"
    using heads by (simp add: suspenders_ready_queue_empty_ptr_def ready_all_def upt4)
  ultimately show ?thesis
    using ready_enqueue_repr [OF r new] ready_scan_repr [OF r, of 0 4]
    by (simp add: suspenders_ready_dequeue_ptr_def ready_take_def)
qed

definition ready_none :: "nat ready_ptrs" where
  "ready_none = \<lparr>rq_heads = \<lambda>_. None, rq_tails = \<lambda>_. None, rq_next = \<lambda>_. None\<rparr>"

lemma ready_none_repr: "ready_repr ready_none (\<lambda>_. [])"
  by (simp add: ready_repr_def ready_none_def wq_repr_def)

theorem ready_queue_refines_lists_witness:
  "ready_repr (suspenders_ready_enqueue_ptr (\<lambda>_. 7) ready_none 5) ((\<lambda>_. [])(3 := [5])) \<and>
   suspenders_ready_queue_empty_ptr ready_none"
  using ready_queue_refines_lists [OF ready_none_repr, of 5 "\<lambda>_. 7"]
  by (simp add: ready_all_def upt4 ready_push_def suspenders_clamp_qos_def)

end
