(* ===== verification/Timer_Heap.thy ===== *)
theory Timer_Heap
  imports Prelude
begin

text \<open>
  The per-thread timer heap (\<open>suspenders_timer_heap_t\<close>): a binary min-heap of timer
  pointers in an array, ordered by \<open>deadline_ns\<close>. The used part \<open>data[0 .. count-1]\<close>
  of the array is a list, the deadline of a timer is given by \<open>key\<close>, and the answer of the
  allocator to a request of a number of bytes is the parameter \<open>alloc\<close>.
\<close>

record 't theap =
  th_data :: "'t list"
  th_cap :: nat

definition timer_heap_empty :: "'t theap" where
  "timer_heap_empty = \<lparr>th_data = [], th_cap = 0\<rparr>"

section \<open>Operations\<close>

text \<open>\<open>while (new_cap < needed) new_cap *= 2\<close>; the loop starts from 16 or twice a nonzero
  capacity, never from 0.\<close>

function timer_cap_double :: "nat \<Rightarrow> nat \<Rightarrow> nat" where
  "timer_cap_double needed new_cap =
     (if 0 < new_cap \<and> new_cap < needed then timer_cap_double needed (new_cap * 2) else new_cap)"
  by pat_completeness auto
termination
  by (relation "measure (\<lambda>(needed, new_cap). needed - new_cap)") auto

declare timer_cap_double.simps [simp del]

definition suspenders_timer_heap_ensure_cap ::
    "(nat \<Rightarrow> bool) \<Rightarrow> 't theap \<Rightarrow> nat \<Rightarrow> bool \<times> 't theap" where
  "suspenders_timer_heap_ensure_cap alloc h needed =
     (if needed \<le> th_cap h then (True, h)
      else (let new_cap = timer_cap_double needed (if th_cap h \<noteq> 0 then th_cap h * 2 else 16) in
            if \<not> alloc (new_cap * 8) then (False, h) else (True, h\<lparr>th_cap := new_cap\<rparr>)))"

definition suspenders_timer_heap_swap :: "'t list \<Rightarrow> nat \<Rightarrow> nat \<Rightarrow> 't list" where
  "suspenders_timer_heap_swap xs a b = xs[a := xs ! b, b := xs ! a]"

text \<open>The index of the parent node: \<open>(idx - 1) / 2\<close>.\<close>

definition parent :: "nat \<Rightarrow> nat" where
  "parent j = (j - 1) div 2"

lemma parent_less: "0 < j \<Longrightarrow> parent j < j"
  by (simp add: parent_def)

function suspenders_timer_heap_sift_up :: "('t \<Rightarrow> u64) \<Rightarrow> 't list \<Rightarrow> nat \<Rightarrow> 't list" where
  "suspenders_timer_heap_sift_up key xs idx =
     (if idx > 0 then
        (let p = parent idx in
         if key (xs ! p) \<le> key (xs ! idx) then xs
         else suspenders_timer_heap_sift_up key (suspenders_timer_heap_swap xs p idx) p)
      else xs)"
  by pat_completeness auto
termination
  by (relation "measure (\<lambda>(key, xs, idx). idx)") (auto simp: parent_less)

definition sift_smallest :: "('t \<Rightarrow> u64) \<Rightarrow> 't list \<Rightarrow> nat \<Rightarrow> nat" where
  "sift_smallest key xs idx =
     (let left = idx * 2 + 1; right = idx * 2 + 2;
          s1 = (if left < length xs \<and> key (xs ! left) < key (xs ! idx) then left else idx)
      in if right < length xs \<and> key (xs ! right) < key (xs ! s1) then right else s1)"

lemma sift_smallest_range:
  "sift_smallest key xs idx \<noteq> idx \<Longrightarrow>
   idx < sift_smallest key xs idx \<and> sift_smallest key xs idx < length xs"
  by (auto simp: sift_smallest_def Let_def split: if_splits)

function suspenders_timer_heap_sift_down :: "('t \<Rightarrow> u64) \<Rightarrow> 't list \<Rightarrow> nat \<Rightarrow> 't list" where
  "suspenders_timer_heap_sift_down key xs idx =
     (let smallest = sift_smallest key xs idx in
      if smallest = idx then xs
      else suspenders_timer_heap_sift_down key (suspenders_timer_heap_swap xs idx smallest) smallest)"
  by pat_completeness auto
termination
  by (relation "measure (\<lambda>(key, xs, idx). length xs - idx)")
     (auto simp: suspenders_timer_heap_swap_def dest: sift_smallest_range)

declare suspenders_timer_heap_sift_up.simps [simp del] suspenders_timer_heap_sift_down.simps [simp del]

definition suspenders_timer_heap_push ::
    "(nat \<Rightarrow> bool) \<Rightarrow> ('t \<Rightarrow> u64) \<Rightarrow> 't theap \<Rightarrow> 't \<Rightarrow> bool \<times> 't theap" where
  "suspenders_timer_heap_push alloc key h t =
     (case suspenders_timer_heap_ensure_cap alloc h (length (th_data h) + 1) of
        (False, h1) \<Rightarrow> (False, h1)
      | (True, h1) \<Rightarrow>
          (True, h1\<lparr>th_data := suspenders_timer_heap_sift_up key (th_data h1 @ [t]) (length (th_data h1))\<rparr>))"

definition suspenders_timer_heap_pop :: "('t \<Rightarrow> u64) \<Rightarrow> 't theap \<Rightarrow> 't option \<times> 't theap" where
  "suspenders_timer_heap_pop key h =
     (if th_data h = [] then (None, h)
      else (let t = th_data h ! 0;
                xs = butlast ((th_data h)[0 := last (th_data h)])
            in (Some t, h\<lparr>th_data := (if xs \<noteq> [] then suspenders_timer_heap_sift_down key xs 0 else xs)\<rparr>)))"

text \<open>The search loop of \<open>suspenders_timer_heap_remove\<close>: the first index that holds \<open>t\<close>.\<close>

fun index_from :: "'t list \<Rightarrow> 't \<Rightarrow> nat \<Rightarrow> nat option" where
  "index_from [] t i = None"
| "index_from (x # xs) t i = (if x = t then Some i else index_from xs t (Suc i))"

definition suspenders_timer_heap_remove :: "('t \<Rightarrow> u64) \<Rightarrow> 't theap \<Rightarrow> 't \<Rightarrow> 't theap" where
  "suspenders_timer_heap_remove key h t =
     (case index_from (th_data h) t 0 of
        None \<Rightarrow> h
      | Some i \<Rightarrow>
          (let xs = butlast ((th_data h)[i := last (th_data h)]) in
           h\<lparr>th_data := (if i < length xs
                          then suspenders_timer_heap_sift_up key (suspenders_timer_heap_sift_down key xs i) i
                          else xs)\<rparr>))"

section \<open>Heap order\<close>

definition edge_ok :: "('t \<Rightarrow> u64) \<Rightarrow> 't list \<Rightarrow> nat \<Rightarrow> bool" where
  "edge_ok key xs j \<longleftrightarrow> key (xs ! parent j) \<le> key (xs ! j)"

definition heap_ok :: "('t \<Rightarrow> u64) \<Rightarrow> 't list \<Rightarrow> bool" where
  "heap_ok key xs \<longleftrightarrow> (\<forall>j < length xs. 0 < j \<longrightarrow> edge_ok key xs j)"

text \<open>The children of \<open>i\<close> are not below its parent.\<close>

definition bypass_ok :: "('t \<Rightarrow> u64) \<Rightarrow> 't list \<Rightarrow> nat \<Rightarrow> bool" where
  "bypass_ok key xs i \<longleftrightarrow>
     (0 < i \<longrightarrow> (\<forall>c < length xs. 0 < c \<and> parent c = i \<longrightarrow> key (xs ! parent i) \<le> key (xs ! c)))"

text \<open>Heap order but for the edge above \<open>i\<close>; heap order but for the edges at \<open>i\<close>.\<close>

definition up_ok :: "('t \<Rightarrow> u64) \<Rightarrow> 't list \<Rightarrow> nat \<Rightarrow> bool" where
  "up_ok key xs i \<longleftrightarrow> (\<forall>j < length xs. 0 < j \<and> j \<noteq> i \<longrightarrow> edge_ok key xs j) \<and> bypass_ok key xs i"

definition hole_ok :: "('t \<Rightarrow> u64) \<Rightarrow> 't list \<Rightarrow> nat \<Rightarrow> bool" where
  "hole_ok key xs i \<longleftrightarrow>
     (\<forall>j < length xs. 0 < j \<and> j \<noteq> i \<and> parent j \<noteq> i \<longrightarrow> edge_ok key xs j) \<and> bypass_ok key xs i"

lemma parent_le: "parent j \<le> j"
  by (simp add: parent_def)

lemma child_cases: "0 < c \<Longrightarrow> parent c = i \<longleftrightarrow> c = i * 2 + 1 \<or> c = i * 2 + 2"
  unfolding parent_def by presburger

lemma length_swap [simp]: "length (suspenders_timer_heap_swap xs a b) = length xs"
  by (simp add: suspenders_timer_heap_swap_def)

lemma nth_swap:
  "a < length xs \<Longrightarrow> b < length xs \<Longrightarrow>
   suspenders_timer_heap_swap xs a b ! k = (if k = b then xs ! a else if k = a then xs ! b else xs ! k)"
  by (auto simp: suspenders_timer_heap_swap_def nth_list_update)

lemma mset_heap_swap:
  "a < length xs \<Longrightarrow> b < length xs \<Longrightarrow> mset (suspenders_timer_heap_swap xs a b) = mset xs"
  by (simp add: suspenders_timer_heap_swap_def mset_swap)

subsection \<open>Sifting up\<close>

lemma sift_up_mset:
  "idx < length xs \<Longrightarrow>
   length (suspenders_timer_heap_sift_up key xs idx) = length xs \<and>
   mset (suspenders_timer_heap_sift_up key xs idx) = mset xs"
proof (induction key xs idx rule: suspenders_timer_heap_sift_up.induct)
  case (1 key xs idx)
  have "parent idx < length xs" using 1(2) parent_le [of idx] by simp
  with 1 show ?case
    by (subst (1 2) suspenders_timer_heap_sift_up.simps) (auto simp: Let_def mset_heap_swap)
qed

lemma up_ok_swap:
  assumes u: "up_ok key xs i" and i: "i < length xs" "0 < i"
    and gt: "key (xs ! i) < key (xs ! parent i)"
  shows "up_ok key (suspenders_timer_heap_swap xs (parent i) i) (parent i)"
proof -
  let ?p = "parent i" let ?ys = "suspenders_timer_heap_swap xs ?p i"
  have p: "?p < length xs" "?p < i" using i parent_less [of i] by auto
  have nth: "?ys ! k = (if k = i then xs ! ?p else if k = ?p then xs ! i else xs ! k)" for k
    using p i by (simp add: nth_swap)
  have "edge_ok key ?ys j" if j: "j < length xs" "0 < j" "j \<noteq> ?p" for j
  proof -
    consider "j = i" | "j \<noteq> i" "parent j = i" | "j \<noteq> i" "parent j = ?p" | "j \<noteq> i" "parent j \<noteq> i" "parent j \<noteq> ?p"
      by blast
    then show ?thesis
    proof cases
      case 1
      then show ?thesis using p gt by (simp add: edge_ok_def nth)
    next
      case 2
      then show ?thesis using u j i p by (simp add: edge_ok_def nth up_ok_def bypass_ok_def)
    next
      case 3
      then have "key (xs ! ?p) \<le> key (xs ! j)" using u j by (auto simp: up_ok_def edge_ok_def)
      with 3 j p gt show ?thesis by (simp add: edge_ok_def nth)
    next
      case 4
      then show ?thesis using u j by (simp add: edge_ok_def nth up_ok_def)
    qed
  qed
  moreover have "bypass_ok key ?ys ?p"
    unfolding bypass_ok_def
  proof (intro impI allI)
    fix c assume c: "0 < ?p" "c < length ?ys" "0 < c \<and> parent c = ?p"
    have pp: "parent ?p < ?p" using c(1) by (rule parent_less)
    have a: "key (xs ! parent ?p) \<le> key (xs ! ?p)"
      using u c(1) p by (auto simp: up_ok_def edge_ok_def)
    have "key (xs ! ?p) \<le> key (?ys ! c)"
    proof (cases "c = i")
      case False
      moreover have "c \<noteq> ?p" using c parent_less [of ?p] by auto
      ultimately show ?thesis using u c by (auto simp: nth up_ok_def edge_ok_def)
    qed (simp add: nth)
    with a pp p show "key (?ys ! parent ?p) \<le> key (?ys ! c)" by (simp add: nth)
  qed
  ultimately show ?thesis by (simp add: up_ok_def)
qed

lemma sift_up_heap:
  "idx < length xs \<Longrightarrow> up_ok key xs idx \<Longrightarrow> heap_ok key (suspenders_timer_heap_sift_up key xs idx)"
proof (induction key xs idx rule: suspenders_timer_heap_sift_up.induct)
  case (1 key xs idx)
  show ?case
  proof (cases "0 < idx \<and> \<not> key (xs ! parent idx) \<le> key (xs ! idx)")
    case True
    then have "up_ok key (suspenders_timer_heap_swap xs (parent idx) idx) (parent idx)"
      using up_ok_swap [OF 1(3,2)] by auto
    moreover have "parent idx < length xs" using 1(2) parent_le [of idx] by simp
    ultimately show ?thesis using True 1
      by (subst suspenders_timer_heap_sift_up.simps) (auto simp: Let_def)
  next
    case False
    with 1(3) have "heap_ok key xs" by (force simp: heap_ok_def up_ok_def edge_ok_def)
    with False show ?thesis by (subst suspenders_timer_heap_sift_up.simps) (auto simp: Let_def)
  qed
qed

subsection \<open>Sifting down\<close>

lemma sift_smallest_child:
  "sift_smallest key xs i \<noteq> i \<Longrightarrow> parent (sift_smallest key xs i) = i \<and>
   key (xs ! sift_smallest key xs i) < key (xs ! i)"
  by (auto simp: sift_smallest_def Let_def parent_def split: if_splits)

lemma sift_smallest_least:
  "c < length xs \<Longrightarrow> 0 < c \<Longrightarrow> parent c = i \<Longrightarrow> key (xs ! sift_smallest key xs i) \<le> key (xs ! c)"
  using child_cases [of c i] by (auto simp: sift_smallest_def Let_def not_less)

lemma sift_down_frame:
  "i < length xs \<Longrightarrow>
   length (suspenders_timer_heap_sift_down key xs i) = length xs \<and>
   mset (suspenders_timer_heap_sift_down key xs i) = mset xs \<and>
   (\<forall>k < i. suspenders_timer_heap_sift_down key xs i ! k = xs ! k)"
proof (induction key xs i rule: suspenders_timer_heap_sift_down.induct)
  case (1 key xs i)
  let ?s = "sift_smallest key xs i"
  show ?case
  proof (cases "?s = i")
    case False
    then have s: "i < ?s" "?s < length xs" using sift_smallest_range by blast+
    let ?ys = "suspenders_timer_heap_sift_down key (suspenders_timer_heap_swap xs i ?s) ?s"
    have eq: "suspenders_timer_heap_sift_down key xs i = ?ys"
      using False by (subst suspenders_timer_heap_sift_down.simps) (simp add: Let_def)
    have "length ?ys = length xs" "mset ?ys = mset xs" "\<forall>k < ?s. ?ys ! k = suspenders_timer_heap_swap xs i ?s ! k"
      using 1(1) [OF refl False] s 1(2) by (auto simp: mset_heap_swap)
    then show ?thesis unfolding eq using s by (auto simp: nth_swap)
  qed (subst (1 2 3) suspenders_timer_heap_sift_down.simps, simp add: Let_def)
qed

text \<open>What ends up at \<open>i\<close> came from \<open>i\<close> or from one of its children.\<close>

lemma sift_down_root_bound:
  assumes i: "i < length xs" and B: "B \<le> key (xs ! i)"
    and C: "\<And>c. c < length xs \<Longrightarrow> 0 < c \<Longrightarrow> parent c = i \<Longrightarrow> B \<le> key (xs ! c)"
  shows "B \<le> key (suspenders_timer_heap_sift_down key xs i ! i)"
proof (cases "sift_smallest key xs i = i")
  case True
  then show ?thesis using B by (subst suspenders_timer_heap_sift_down.simps) (simp add: Let_def)
next
  case False
  let ?s = "sift_smallest key xs i"
  have s: "i < ?s" "?s < length xs" "parent ?s = i"
    using sift_smallest_range [OF False] sift_smallest_child [OF False] by auto
  have "suspenders_timer_heap_sift_down key xs i ! i = xs ! ?s"
    using False s i sift_down_frame [of ?s "suspenders_timer_heap_swap xs i ?s" key]
    by (subst suspenders_timer_heap_sift_down.simps) (auto simp: Let_def nth_swap)
  with C [of ?s] s show ?thesis by simp
qed

lemma hole_ok_swap:
  assumes h: "hole_ok key xs i" and i: "i < length xs" and ne: "sift_smallest key xs i \<noteq> i"
  defines "s \<equiv> sift_smallest key xs i"
  shows "hole_ok key (suspenders_timer_heap_swap xs i s) s \<and>
    (\<forall>j < length xs. 0 < j \<and> parent j = i \<and> j \<noteq> s \<longrightarrow> edge_ok key (suspenders_timer_heap_swap xs i s) j) \<and>
    (0 < i \<longrightarrow> edge_ok key (suspenders_timer_heap_swap xs i s) i)"
proof -
  let ?ys = "suspenders_timer_heap_swap xs i s"
  have s: "i < s" "s < length xs" "parent s = i" "key (xs ! s) < key (xs ! i)"
    using sift_smallest_range [OF ne] sift_smallest_child [OF ne] by (auto simp: s_def)
  have nth: "?ys ! k = (if k = s then xs ! i else if k = i then xs ! s else xs ! k)" for k
    using s i by (simp add: nth_swap)
  have sib: "edge_ok key ?ys j" if "j < length xs" "0 < j" "parent j = i" "j \<noteq> s" for j
  proof -
    have "j \<noteq> i" using that parent_less [of j] by auto
    with that s sift_smallest_least [of j xs i key, folded s_def] show ?thesis
      by (simp add: edge_ok_def nth)
  qed
  have top: "edge_ok key ?ys i" if "0 < i"
  proof -
    have "parent i \<noteq> i" "parent i \<noteq> s" using parent_less [OF that] s(1) by auto
    with h that s show ?thesis by (simp add: edge_ok_def nth hole_ok_def bypass_ok_def)
  qed
  have "edge_ok key ?ys j" if j: "j < length xs" "0 < j" "j \<noteq> s" "parent j \<noteq> s" for j
  proof (cases "j = i \<or> parent j = i")
    case True
    then show ?thesis using top sib j by auto
  next
    case False
    with h j show ?thesis by (simp add: edge_ok_def nth hole_ok_def)
  qed
  moreover have "bypass_ok key ?ys s"
    unfolding bypass_ok_def
  proof (intro impI allI)
    fix c assume c: "c < length ?ys" "0 < c \<and> parent c = s"
    then have "s < c" using parent_less [of c] by auto
    moreover from c have "edge_ok key xs c" using h s \<open>s < c\<close> by (auto simp: hole_ok_def)
    ultimately show "key (?ys ! parent s) \<le> key (?ys ! c)"
      using s c by (simp add: nth edge_ok_def)
  qed
  ultimately have "hole_ok key ?ys s" by (simp add: hole_ok_def)
  with sib top show ?thesis by blast
qed

lemma sift_down_edge_frame:
  assumes "i < length xs" and "j < length xs" and "j < i" and "0 < j"
  shows "edge_ok key (suspenders_timer_heap_sift_down key xs i) j = edge_ok key xs j"
  using sift_down_frame [OF assms(1)] assms parent_less [of j] by (simp add: edge_ok_def)

lemma sift_down_up_ok:
  "i < length xs \<Longrightarrow> hole_ok key xs i \<Longrightarrow> up_ok key (suspenders_timer_heap_sift_down key xs i) i"
proof (induction key xs i rule: suspenders_timer_heap_sift_down.induct)
  case (1 key xs i)
  let ?s = "sift_smallest key xs i"
  show ?case
  proof (cases "?s = i")
    case True
    then have "key (xs ! i) \<le> key (xs ! c)" if "c < length xs" "0 < c" "parent c = i" for c
      using sift_smallest_least [OF that, of key] by simp
    with 1(3) have "up_ok key xs i" by (force simp: up_ok_def hole_ok_def edge_ok_def)
    with True show ?thesis by (subst suspenders_timer_heap_sift_down.simps) (simp add: Let_def)
  next
    case False
    let ?zs = "suspenders_timer_heap_swap xs i ?s"
    let ?ws = "suspenders_timer_heap_sift_down key ?zs ?s"
    have s: "i < ?s" "?s < length xs" "parent ?s = i" "key (xs ! ?s) < key (xs ! i)"
      using sift_smallest_range [OF False] sift_smallest_child [OF False] by auto
    note h = hole_ok_swap [OF 1(3,2) False]
    have eq: "suspenders_timer_heap_sift_down key xs i = ?ws"
      using False by (subst suspenders_timer_heap_sift_down.simps) (simp add: Let_def)
    have up: "up_ok key ?ws ?s" using 1(1) [OF refl False] s h by simp
    have len: "length ?ws = length xs" and fr: "\<And>k. k < ?s \<Longrightarrow> ?ws ! k = ?zs ! k"
      using sift_down_frame [of ?s ?zs key] s by auto
    have "key (?zs ! i) \<le> key (?ws ! ?s)"
    proof (rule sift_down_root_bound)
      show "?s < length ?zs" using s by simp
      show "key (?zs ! i) \<le> key (?zs ! ?s)" using s 1(2) by (simp add: nth_swap)
      fix c assume "c < length ?zs" "0 < c" "parent c = ?s"
      then show "key (?zs ! i) \<le> key (?zs ! c)" using h s by (auto simp: hole_ok_def bypass_ok_def)
    qed
    with s fr have es: "edge_ok key ?ws ?s" by (simp add: edge_ok_def)
    then have all: "edge_ok key ?ws j" if "j < length ?ws" "0 < j" for j
      using up that by (auto simp: up_ok_def)
    have "bypass_ok key ?ws i"
      unfolding bypass_ok_def
    proof (intro impI allI)
      fix c assume c: "0 < i" "c < length ?ws" "0 < c \<and> parent c = i"
      have "key (?ws ! parent i) \<le> key (?ws ! i)" using all [of i] c(1) 1(2) len by (simp add: edge_ok_def)
      also have "\<dots> \<le> key (?ws ! c)" using all [of c] c by (simp add: edge_ok_def)
      finally show "key (?ws ! parent i) \<le> key (?ws ! c)" .
    qed
    with all show ?thesis unfolding eq by (simp add: up_ok_def)
  qed
qed

subsection \<open>The operations keep the order and the entries\<close>

definition theap_inv :: "('t \<Rightarrow> u64) \<Rightarrow> 't theap \<Rightarrow> bool" where
  "theap_inv key h \<longleftrightarrow> heap_ok key (th_data h) \<and> length (th_data h) \<le> th_cap h"

abbreviation theap_entries :: "'t theap \<Rightarrow> 't multiset" where
  "theap_entries h \<equiv> mset (th_data h)"

lemma timer_cap_double_ge: "0 < c \<Longrightarrow> needed \<le> timer_cap_double needed c"
proof (induction needed c rule: timer_cap_double.induct)
  case (1 needed c)
  show ?case
  proof (cases "c < needed")
    case True
    with 1 have "needed \<le> timer_cap_double needed (c * 2)" by simp
    with True 1(2) show ?thesis using timer_cap_double.simps [of needed c] by simp
  next
    case False
    then show ?thesis using timer_cap_double.simps [of needed c] by simp
  qed
qed

lemma ensure_cap_result:
  assumes "suspenders_timer_heap_ensure_cap alloc h n = (ok, h')"
  shows "th_data h' = th_data h \<and> (ok \<longrightarrow> n \<le> th_cap h') \<and> (\<not> ok \<longrightarrow> h' = h \<and> (\<exists>m. \<not> alloc m))"
proof -
  define c where "c = timer_cap_double n (if th_cap h \<noteq> 0 then th_cap h * 2 else 16)"
  have "n \<le> c" unfolding c_def by (rule timer_cap_double_ge) simp
  with assms show ?thesis
    unfolding suspenders_timer_heap_ensure_cap_def Let_def c_def [symmetric]
    by (auto split: if_splits)
qed

lemma heap_ok_snoc:
  assumes "heap_ok key xs"
  shows "up_ok key (xs @ [t]) (length xs)"
proof -
  have "edge_ok key (xs @ [t]) j" if "j < length xs" "0 < j" for j
    using assms that parent_less [of j] by (simp add: heap_ok_def edge_ok_def nth_append)
  moreover have "\<not> (0 < c \<and> parent c = length xs)" if "c < length (xs @ [t])" for c
    using that parent_less [of c] by auto
  ultimately show ?thesis by (auto simp: up_ok_def bypass_ok_def less_Suc_eq)
qed

lemma push_result:
  assumes "theap_inv key h" and "suspenders_timer_heap_push alloc key h t = (ok, h')"
  shows "theap_inv key h' \<and>
    (if ok then theap_entries h' = add_mset t (theap_entries h) else h' = h \<and> (\<exists>m. \<not> alloc m))"
proof -
  obtain ok1 h1 where e: "suspenders_timer_heap_ensure_cap alloc h (length (th_data h) + 1) = (ok1, h1)"
    by fastforce
  note r = ensure_cap_result [OF e]
  show ?thesis
  proof (cases ok1)
    case True
    let ?xs = "th_data h @ [t]"
    have "up_ok key ?xs (length (th_data h))" using assms(1) by (intro heap_ok_snoc) (simp add: theap_inv_def)
    then have "heap_ok key (suspenders_timer_heap_sift_up key ?xs (length (th_data h)))"
      by (intro sift_up_heap) auto
    with True assms e r sift_up_mset [of "length (th_data h)" ?xs key] show ?thesis
      by (auto simp: suspenders_timer_heap_push_def theap_inv_def)
  next
    case False
    with assms e r show ?thesis by (auto simp: suspenders_timer_heap_push_def)
  qed
qed

lemma heap_ok_root_least:
  "heap_ok key xs \<Longrightarrow> i < length xs \<Longrightarrow> key (xs ! 0) \<le> key (xs ! i)"
proof (induction i rule: less_induct)
  case (less i)
  show ?case
  proof (cases "i = 0")
    case False
    then have "parent i < i" by (simp add: parent_less)
    with less False have "key (xs ! 0) \<le> key (xs ! parent i)" by simp
    also have "\<dots> \<le> key (xs ! i)" using less False by (simp add: heap_ok_def edge_ok_def)
    finally show ?thesis .
  qed simp
qed

text \<open>Overwriting position \<open>i\<close> and dropping the last cell leaves heap order but at \<open>i\<close>.\<close>

lemma heap_ok_hole:
  assumes h: "heap_ok key xs" and i: "i < length xs"
  shows "hole_ok key (butlast (xs[i := y])) i"
proof -
  have nth: "butlast (xs[i := y]) ! k = xs ! k" if "k < length xs - 1" "k \<noteq> i" for k
    using that by (simp add: nth_butlast)
  have edge: "key (xs ! parent j) \<le> key (xs ! j)" if "j < length xs - 1" "0 < j" for j
    using h that by (simp add: heap_ok_def edge_ok_def)
  have "bypass_ok key (butlast (xs[i := y])) i"
    unfolding bypass_ok_def
  proof (intro impI allI)
    fix c assume c: "0 < i" "c < length (butlast (xs[i := y]))" "0 < c \<and> parent c = i"
    then have lt: "i < c" "parent i < i" using parent_less [of c] parent_less [of i] by auto
    with c edge [of c] edge [of i] have "key (xs ! parent i) \<le> key (xs ! c)" by auto
    with c lt show "key (butlast (xs[i := y]) ! parent i) \<le> key (butlast (xs[i := y]) ! c)"
      by (simp add: nth)
  qed
  moreover have "edge_ok key (butlast (xs[i := y])) j"
    if "j < length (butlast (xs[i := y]))" "0 < j" "j \<noteq> i" "parent j \<noteq> i" for j
    using that edge [of j] parent_less [of j] by (simp add: edge_ok_def nth)
  ultimately show ?thesis by (simp add: hole_ok_def)
qed

lemma mset_replace_by_last:
  assumes "i < length xs"
  shows "add_mset (xs ! i) (mset (butlast (xs[i := last xs]))) = mset xs"
proof -
  obtain ys z where xs: "xs = ys @ [z]" using assms by (cases xs rule: rev_cases) auto
  show ?thesis
  proof (cases "i = length ys")
    case False
    then have "i < length ys" using assms xs by simp
    then show ?thesis using xs by (simp add: list_update_append mset_update nth_append)
  qed (use xs in simp)
qed

lemma hole_ok_root_heap: "xs \<noteq> [] \<Longrightarrow> hole_ok key xs 0 \<Longrightarrow> heap_ok key (suspenders_timer_heap_sift_down key xs 0)"
  using sift_down_up_ok [of 0 xs key] by (auto simp: up_ok_def heap_ok_def)

lemma heap_pop_result:
  assumes inv: "theap_inv key h" and ne: "th_data h \<noteq> []"
  shows "\<exists>h'. suspenders_timer_heap_pop key h = (Some (th_data h ! 0), h') \<and> theap_inv key h' \<and>
     theap_entries h = add_mset (th_data h ! 0) (theap_entries h')"
proof -
  let ?xs = "butlast ((th_data h)[0 := last (th_data h)])"
  let ?ys = "if ?xs \<noteq> [] then suspenders_timer_heap_sift_down key ?xs 0 else ?xs"
  have hole: "hole_ok key ?xs 0" using heap_ok_hole [of key "th_data h" 0] inv ne by (simp add: theap_inv_def)
  have "heap_ok key ?ys" using hole hole_ok_root_heap [of ?xs key] by (auto simp: heap_ok_def)
  moreover have "mset ?ys = mset ?xs \<and> length ?ys = length ?xs"
  proof (cases "?xs = []")
    case False
    then have "0 < length ?xs" by blast
    with False sift_down_frame [of 0 ?xs key] show ?thesis by presburger
  qed (simp only: simp_thms if_False)
  moreover have "add_mset (th_data h ! 0) (mset ?xs) = theap_entries h"
    using mset_replace_by_last [of 0 "th_data h"] ne by simp
  ultimately show ?thesis
    using inv ne by (auto simp: suspenders_timer_heap_pop_def Let_def theap_inv_def)
qed

lemma index_from_Some: "index_from xs t k = Some i \<Longrightarrow> k \<le> i \<and> i - k < length xs \<and> xs ! (i - k) = t"
  by (induction xs t k rule: index_from.induct) (auto split: if_splits simp: Suc_diff_le nth_Cons')

lemma index_from_None: "index_from xs t k = None \<longleftrightarrow> t \<notin> set xs"
  by (induction xs t k rule: index_from.induct) auto

lemma remove_result:
  assumes inv: "theap_inv key h"
  shows "theap_inv key (suspenders_timer_heap_remove key h t) \<and>
    theap_entries (suspenders_timer_heap_remove key h t) = theap_entries h - {#t#}"
proof (cases "index_from (th_data h) t 0")
  case None
  then have "t \<notin> set (th_data h)" by (simp add: index_from_None)
  with inv None show ?thesis by (simp add: suspenders_timer_heap_remove_def diff_single_trivial)
next
  case (Some i)
  let ?xs = "butlast ((th_data h)[i := last (th_data h)])"
  have i: "i < length (th_data h)" "th_data h ! i = t" using index_from_Some [OF Some] by auto
  have hole: "hole_ok key ?xs i" using heap_ok_hole [of key "th_data h" i] inv i by (simp add: theap_inv_def)
  have ms: "mset ?xs = theap_entries h - {#t#}" using mset_replace_by_last [OF i(1)] i(2) by (metis add_mset_remove_trivial)
  show ?thesis
  proof (cases "i < length ?xs")
    case True
    let ?ys = "suspenders_timer_heap_sift_down key ?xs i"
    have fr: "length ?ys = length ?xs" "mset ?ys = mset ?xs" using sift_down_frame [OF True, of key] by auto
    have "up_ok key ?ys i" using sift_down_up_ok [OF True hole] .
    then have "heap_ok key (suspenders_timer_heap_sift_up key ?ys i)" using fr True by (intro sift_up_heap) auto
    with True Some fr ms inv sift_up_mset [of i ?ys key] show ?thesis
      by (auto simp: suspenders_timer_heap_remove_def Let_def theap_inv_def)
  next
    case False
    have "heap_ok key ?xs"
      using hole False i by (auto simp: hole_ok_def heap_ok_def child_cases)
    with False Some ms inv show ?thesis by (auto simp: suspenders_timer_heap_remove_def Let_def theap_inv_def)
  qed
qed

interpretation th: min_queue "theap_inv key" theap_entries key
    "\<lambda>h t. snd (suspenders_timer_heap_push (\<lambda>_. True) key h t)" "suspenders_timer_heap_pop key" for key
proof unfold_locales
  fix h :: "'a theap" and t
  assume inv: "theap_inv key h"
  obtain ok h' where p: "suspenders_timer_heap_push (\<lambda>_. True) key h t = (ok, h')" by fastforce
  from push_result [OF inv p] show "theap_inv key (snd (suspenders_timer_heap_push (\<lambda>_. True) key h t))"
    "theap_entries (snd (suspenders_timer_heap_push (\<lambda>_. True) key h t)) = add_mset t (theap_entries h)"
    by (auto simp: p split: if_splits)
next
  fix h :: "'a theap"
  assume inv: "theap_inv key h"
  show "theap_entries h = {#} \<Longrightarrow> suspenders_timer_heap_pop key h = (None, h)"
    by (simp add: suspenders_timer_heap_pop_def)
  assume ne: "theap_entries h \<noteq> {#}"
  then have "th_data h \<noteq> []" by auto
  moreover have "\<forall>y \<in># theap_entries h. key (th_data h ! 0) \<le> key y"
    using heap_ok_root_least [of key "th_data h"] inv by (auto simp: theap_inv_def in_set_conv_nth)
  ultimately show "\<exists>x q'. suspenders_timer_heap_pop key h = (Some x, q') \<and> theap_inv key q' \<and>
      theap_entries h = add_mset x (theap_entries q') \<and> (\<forall>y \<in># theap_entries h. key x \<le> key y)"
    using heap_pop_result [OF inv] by blast
qed

section \<open>The heap's promises\<close>

lemma theap_inv_empty: "theap_inv key timer_heap_empty"
  by (simp add: theap_inv_def timer_heap_empty_def heap_ok_def)

text \<open>C20. Every operation of the timer heap keeps heap order and the capacity bound and changes
  the multiset of armed timers by exactly one entry: a push adds its timer (or, when the allocator
  refuses to grow the array, changes nothing and says so), a pop takes out the root, and a removal
  takes out the given timer wherever it sits and nothing if it is not armed.\<close>

theorem timer_heap_operations:
  assumes inv: "theap_inv key h"
  shows "(case suspenders_timer_heap_push alloc key h t of (ok, h') \<Rightarrow>
            theap_inv key h' \<and>
            (if ok then theap_entries h' = add_mset t (theap_entries h) else h' = h \<and> (\<exists>m. \<not> alloc m))) \<and>
         (case suspenders_timer_heap_pop key h of
            (None, h') \<Rightarrow> theap_entries h = {#} \<and> h' = h
          | (Some r, h') \<Rightarrow> theap_inv key h' \<and> theap_entries h = add_mset r (theap_entries h') \<and>
                             (\<forall>y \<in># theap_entries h. key r \<le> key y)) \<and>
         theap_inv key (suspenders_timer_heap_remove key h t) \<and>
         theap_entries (suspenders_timer_heap_remove key h t) = theap_entries h - {#t#}"
proof -
  obtain ok h' where "suspenders_timer_heap_push alloc key h t = (ok, h')" by fastforce
  moreover have "case suspenders_timer_heap_pop key h of
            (None, h') \<Rightarrow> theap_entries h = {#} \<and> h' = h
          | (Some r, h') \<Rightarrow> theap_inv key h' \<and> theap_entries h = add_mset r (theap_entries h') \<and>
                             (\<forall>y \<in># theap_entries h. key r \<le> key y)"
  proof (cases "theap_entries h = {#}")
    case True
    then show ?thesis using th.pop_min_empty [OF inv] by simp
  next
    case False
    from th.pop_min_some [OF inv this] show ?thesis by fastforce
  qed
  ultimately show ?thesis using push_result [OF inv] remove_result [OF inv] by simp
qed

definition three_timers :: "u64 theap" where
  "three_timers = \<lparr>th_data = [10, 30, 20], th_cap = 16\<rparr>"

lemma three_timers_inv: "theap_inv id three_timers"
  by (auto simp: theap_inv_def three_timers_def heap_ok_def edge_ok_def parent_def less_Suc_eq)

theorem timer_heap_operations_witness:
  "theap_entries (snd (suspenders_timer_heap_push (\<lambda>_. True) id three_timers 5)) =
     add_mset 5 (theap_entries three_timers) \<and>
   fst (suspenders_timer_heap_pop id three_timers) = Some 10 \<and>
   theap_entries (suspenders_timer_heap_remove id three_timers 30) = theap_entries three_timers - {#30#}"
  using timer_heap_operations [OF three_timers_inv, where alloc = "\<lambda>_. True" and t = 5]
    timer_heap_operations [OF three_timers_inv, where alloc = "\<lambda>_. True" and t = 30]
  by (auto simp: suspenders_timer_heap_pop_def three_timers_def Let_def split: prod.splits if_splits)

text \<open>The callers of the heap pop until it is empty; \<open>timer_heap_drain\<close> is that sequence.\<close>

fun timer_heap_drain :: "('t \<Rightarrow> u64) \<Rightarrow> nat \<Rightarrow> 't theap \<Rightarrow> 't list" where
  "timer_heap_drain key 0 h = []"
| "timer_heap_drain key (Suc n) h =
     (case suspenders_timer_heap_pop key h of (None, _) \<Rightarrow> [] | (Some t, h') \<Rightarrow> t # timer_heap_drain key n h')"

lemma timer_heap_drain_pops: "timer_heap_drain key n h = th.pops key n h"
  by (induction n arbitrary: h) (auto split: prod.splits option.splits)

text \<open>Timers leave the heap in the order of their deadlines: popping a well-formed heap until it
  is empty yields every armed timer exactly once, with ascending deadlines.\<close>

theorem timer_heap_drain_sorted:
  assumes "theap_inv key h" and "length (th_data h) \<le> n"
  shows "mset (timer_heap_drain key n h) = theap_entries h \<and> sorted (map key (timer_heap_drain key n h))"
  using th.pops_sorted [OF assms(1), of n] assms(2) by (simp add: timer_heap_drain_pops)

theorem timer_heap_drain_sorted_witness:
  "mset (timer_heap_drain id 3 three_timers) = {#10, 20, 30#} \<and> sorted (timer_heap_drain id 3 three_timers)"
  using timer_heap_drain_sorted [OF three_timers_inv, of 3] by (simp add: three_timers_def add_mset_commute)

end
