(* ===== verification/Runtime_State.thy ===== *)
theory Runtime_State
  imports Ready_Queue Timer_Heap
begin

text \<open>
  The state of the runtime and the scheduler primitives of \<open>suspenders.h\<close>: coroutine
  records, wait nodes, the shared structures (channels, mutexes, rwlocks, wait groups), the workers
  with their inboxes and wake descriptors, the injector, the thread-local ready lists, and timers.

  Addresses are numbers and \<open>None\<close> (or 0 for raw data pointers) is \<open>NULL\<close>. Wait lists and
  ready lists appear as the lists that \<open>Wait_Queue\<close> and \<open>Ready_Queue\<close> show their pointers
  to stand for. The thread-local variables of the thread that executes are fields of the same
  record; \<open>tls_change\<close> is the change of thread. A context switch to the scheduler sets
  \<open>running\<close> to \<open>main_cr\<close>, as \<open>s_worker_loop\<close> does when the switch returns to it.
  User callbacks are recorded in \<open>calls\<close> in the order in which they are invoked.
\<close>

section \<open>Data\<close>

type_synonym cr_ref = nat
type_synonym ptr = nat
type_synonym fn = nat

datatype cr_state = READY | RUNNING | SUSPENDED | DONE

record coroutine =
  cr_state :: cr_state
  effective_qos :: int
  base_qos :: int
  io_result :: int
  cr_id :: u64
  cr_name :: bytes
  stack_size :: nat
  cancel_requested :: bool
  cleanup_head :: "(fn \<times> ptr) list"
  deadline_armed :: bool
  daemon :: bool
  cr_worker :: "nat option"
  wake_inflight :: bool
  pending_wake :: bool
  pending_io :: "nat option"

text \<open>A wait node is the \<open>wq_node\<close> embedded in a coroutine, or an element of the
  \<open>nodes\<close> array on the stack of a \<open>suspenders_select_dl\<close> call with the given record.\<close>

datatype node_ref = Emb cr_ref | Sel nat nat

datatype list_ref = LSenders nat | LReceivers nat | LMutex nat | LRwlock nat | LCond nat | LWg nat

datatype lock_ref = KChan nat | KMutex nat | KRwlock nat | KCond nat | KWg nat

record wq_node =
  node_cr :: cr_ref
  data_ptr :: ptr
  status :: int
  waker_busy :: bool
  wait_list :: "list_ref option"
  wait_lock :: "lock_ref option"
  select_rec :: "nat option"
  select_idx :: int

datatype timer_cb =
    WaitDeadlineCb cr_ref
  | SleepCb cr_ref
  | DeadlineCb cr_ref
  | IoTimeoutCb cr_ref
  | UserCb fn ptr

datatype timer_ref = TStack cr_ref | TDeadline cr_ref | THeap nat

record timer =
  deadline_ns :: u64
  period_ms :: int
  repeat :: bool
  active :: bool
  heap_allocated :: bool
  cb :: timer_cb

record chan =
  elem_sz :: nat
  buf_sz :: nat
  ch_count :: nat
  ch_head :: nat
  ch_buf :: bytes
  closed :: bool

record rwlock =
  readers :: int
  writer :: bool

record rt =
  running :: "cr_ref option"
  main_cr :: "cr_ref option"
  main_cr_storage :: cr_ref
  errno :: int
  ready :: "cr_ref ready_lists"
  s_worker :: "nat option"
  timer_heap :: "timer_ref theap"
  live_crs :: "cr_ref list"
  zombies :: "cr_ref list"
  select_seed :: u32
  io_deadline_ns :: u64
  crs :: "cr_ref \<Rightarrow> coroutine"
  nodes :: "node_ref \<Rightarrow> wq_node"
  wlists :: "list_ref \<Rightarrow> node_ref list"
  winner :: "nat \<Rightarrow> int"
  timers :: "timer_ref \<Rightarrow> timer"
  chans :: "nat \<Rightarrow> chan"
  owner :: "nat \<Rightarrow> cr_ref option"
  rwlocks :: "nat \<Rightarrow> rwlock"
  wg_count :: "nat \<Rightarrow> int"
  mem :: "ptr \<Rightarrow> bytes"
  num_workers :: nat
  inbox :: "nat \<Rightarrow> cr_ref list"
  parked :: "nat \<Rightarrow> bool"
  wake_fd :: "nat \<Rightarrow> nat option"
  injector :: "cr_ref ready_lists"
  injector_count :: int
  runtime_up :: bool
  active_coroutines :: int
  next_id :: u64
  queue_work :: int
  s_stop :: bool
  now_ns :: u64
  iouring :: bool
  iou_cancels :: "nat list"
  alloc :: "nat \<Rightarrow> bool"
  calls :: "(fn \<times> ptr) list"

definition upd_cr :: "cr_ref \<Rightarrow> (coroutine \<Rightarrow> coroutine) \<Rightarrow> rt \<Rightarrow> rt" where
  [rt_simps]: "upd_cr c f s = s\<lparr>crs := (crs s)(c := f (crs s c))\<rparr>"

definition upd_node :: "node_ref \<Rightarrow> (wq_node \<Rightarrow> wq_node) \<Rightarrow> rt \<Rightarrow> rt" where
  [rt_simps]: "upd_node n f s = s\<lparr>nodes := (nodes s)(n := f (nodes s n))\<rparr>"

definition upd_list :: "list_ref \<Rightarrow> (node_ref list \<Rightarrow> node_ref list) \<Rightarrow> rt \<Rightarrow> rt" where
  [rt_simps]: "upd_list l f s = s\<lparr>wlists := (wlists s)(l := f (wlists s l))\<rparr>"

definition set_errno :: "int \<Rightarrow> rt \<Rightarrow> rt" where
  [rt_simps]: "set_errno e s = s\<lparr>errno := e\<rparr>"

text \<open>Fail with a code that is also stored in \<open>suspenders_errno\<close>.\<close>

definition fail :: "int \<Rightarrow> rt \<Rightarrow> int option \<times> rt" where
  [rt_simps]: "fail e s = (Some e, set_errno e s)"

section \<open>Ready lists and context switches\<close>

definition suspenders_ready_enqueue :: "cr_ref \<Rightarrow> rt \<Rightarrow> rt" where
  "suspenders_ready_enqueue c s =
     (let s1 = upd_cr c (\<lambda>r. r\<lparr>cr_state := READY\<rparr>) s;
          qos = suspenders_clamp_qos (effective_qos (crs s1 c))
      in s1\<lparr>ready := ready_push (ready s1) qos c\<rparr>)"

definition suspenders_ready_dequeue :: "rt \<Rightarrow> cr_ref option \<times> rt" where
  "suspenders_ready_dequeue s = (let (r, qs) = ready_take (ready s) in (r, s\<lparr>ready := qs\<rparr>))"

definition suspenders_ready_queue_empty :: "rt \<Rightarrow> bool" where
  "suspenders_ready_queue_empty s = list_all (\<lambda>qos. ready s qos = []) [0..<4]"

definition ctx_switch_main :: "rt \<Rightarrow> rt" where
  "ctx_switch_main s = s\<lparr>running := main_cr s\<rparr>"

text \<open>The thread runs a coroutine that is not its scheduler context.\<close>

definition s_io_is_cr :: "rt \<Rightarrow> bool" where
  "s_io_is_cr s = (running s \<noteq> None \<and> running s \<noteq> main_cr s)"

definition main_coroutine :: coroutine where
  "main_coroutine = \<lparr>cr_state = RUNNING, effective_qos = SUSPENDERS_QOS_NORMAL,
     base_qos = SUSPENDERS_QOS_NORMAL, io_result = 0, cr_id = 0, cr_name = [], stack_size = 0,
     cancel_requested = False, cleanup_head = [], deadline_armed = False, daemon = False,
     cr_worker = None, wake_inflight = False, pending_wake = False, pending_io = None\<rparr>"

definition s_main_cr_get :: "rt \<Rightarrow> rt" where
  "s_main_cr_get s =
     (case main_cr s of
        Some _ \<Rightarrow> s
      | None \<Rightarrow>
          (let m = main_cr_storage s in
           (upd_cr m (\<lambda>_. main_coroutine) s)\<lparr>main_cr := Some m, running := Some m\<rparr>))"

definition suspenders_yield :: "rt \<Rightarrow> rt" where
  "suspenders_yield s =
     (case running s of
        None \<Rightarrow> s
      | Some c \<Rightarrow> if running s = main_cr s then s
                  else ctx_switch_main (suspenders_ready_enqueue c s))"

definition suspenders_suspend :: "rt \<Rightarrow> rt" where
  "suspenders_suspend s =
     (case running s of
        None \<Rightarrow> s
      | Some c \<Rightarrow>
          if running s = main_cr s then s
          else ctx_switch_main
            (if cr_state (crs s c) = RUNNING then upd_cr c (\<lambda>r. r\<lparr>cr_state := SUSPENDED\<rparr>) s else s))"

section \<open>Worker wake-up\<close>

text \<open>\<open>wake_fd w\<close> is the counter of the worker's eventfd, \<open>None\<close> when the worker has no
  descriptor. A parked worker's descriptor is written; it stays readable until drained.\<close>

definition s_worker_signal :: "nat \<Rightarrow> rt \<Rightarrow> rt" where
  "s_worker_signal w s =
     (case wake_fd s w of
        None \<Rightarrow> s
      | Some k \<Rightarrow> if parked s w then s\<lparr>wake_fd := (wake_fd s)(w := Some (k + 1))\<rparr> else s)"

definition s_wake_drain :: "nat \<Rightarrow> rt \<Rightarrow> rt" where
  "s_wake_drain w s =
     (case wake_fd s w of None \<Rightarrow> s | Some _ \<Rightarrow> s\<lparr>wake_fd := (wake_fd s)(w := Some 0)\<rparr>)"

text \<open>The inbox is a stack: its newest entry is the head of the list.\<close>

definition s_inbox_wake :: "cr_ref \<Rightarrow> rt \<Rightarrow> rt" where
  "s_inbox_wake c s =
     (case cr_worker (crs s c) of
        None \<Rightarrow> s
      | Some w \<Rightarrow>
          if wake_inflight (crs s c) then s
          else s_worker_signal w
            ((upd_cr c (\<lambda>r. r\<lparr>wake_inflight := True\<rparr>) s)
               \<lparr>inbox := (inbox s)(w := c # inbox s w)\<rparr>))"

definition suspenders_resume :: "cr_ref \<Rightarrow> rt \<Rightarrow> rt" where
  "suspenders_resume c s =
     (if cr_worker (crs s c) \<noteq> None \<and> cr_worker (crs s c) \<noteq> s_worker s then s_inbox_wake c s
      else if cr_state (crs s c) \<in> {RUNNING, READY, DONE} then s
      else
        (let s1 = suspenders_ready_enqueue c s in
         case running s1 of
           None \<Rightarrow> s1
         | Some r \<Rightarrow>
             if running s1 \<noteq> main_cr s1 \<and> effective_qos (crs s1 r) > effective_qos (crs s1 c)
             then ctx_switch_main (suspenders_ready_enqueue r s1) else s1))"

definition s_wake_no_preempt :: "cr_ref \<Rightarrow> rt \<Rightarrow> rt" where
  "s_wake_no_preempt c s =
     (if cr_worker (crs s c) \<noteq> None \<and> cr_worker (crs s c) \<noteq> s_worker s then s_inbox_wake c s
      else if cr_state (crs s c) \<in> {RUNNING, READY, DONE} then s
      else suspenders_ready_enqueue c s)"

text \<open>The compare-and-swap loop of \<open>suspenders_boost\<close> ends with the smaller (stronger)
  of the two levels.\<close>

definition suspenders_boost :: "cr_ref \<Rightarrow> int \<Rightarrow> rt \<Rightarrow> rt" where
  "suspenders_boost target new_qos s =
     (if new_qos < effective_qos (crs s target)
      then upd_cr target (\<lambda>r. r\<lparr>effective_qos := new_qos\<rparr>) s else s)"

section \<open>A state to start from\<close>

definition zero_coroutine :: coroutine where
  "zero_coroutine = \<lparr>cr_state = READY, effective_qos = 0, base_qos = 0, io_result = 0, cr_id = 0,
     cr_name = [], stack_size = 0, cancel_requested = False, cleanup_head = [], deadline_armed = False,
     daemon = False, cr_worker = None, wake_inflight = False, pending_wake = False, pending_io = None\<rparr>"

definition zero_node :: wq_node where
  "zero_node = \<lparr>node_cr = 0, data_ptr = 0, status = 0, waker_busy = False, wait_list = None,
     wait_lock = None, select_rec = None, select_idx = 0\<rparr>"

text \<open>Everything zeroed; worker 0 is this thread, it has a wake descriptor, and allocation succeeds.\<close>

definition blank_rt :: rt where
  "blank_rt = \<lparr>running = None, main_cr = None, main_cr_storage = 1, errno = 0, ready = (\<lambda>_. []),
     s_worker = Some 0, timer_heap = timer_heap_empty, live_crs = [], zombies = [], select_seed = 0,
     io_deadline_ns = 0, crs = (\<lambda>_. zero_coroutine), nodes = (\<lambda>_. zero_node), wlists = (\<lambda>_. []),
     winner = (\<lambda>_. -1), timers = (\<lambda>_. \<lparr>deadline_ns = 0, period_ms = 0, repeat = False, active = False,
       heap_allocated = False, cb = UserCb 0 0\<rparr>),
     chans = (\<lambda>_. \<lparr>elem_sz = 1, buf_sz = 0, ch_count = 0, ch_head = 0, ch_buf = [], closed = False\<rparr>),
     owner = (\<lambda>_. None), rwlocks = (\<lambda>_. \<lparr>readers = 0, writer = False\<rparr>), wg_count = (\<lambda>_. 0),
     mem = (\<lambda>_. []), num_workers = 1, inbox = (\<lambda>_. []), parked = (\<lambda>_. False),
     wake_fd = (\<lambda>_. Some 0), injector = (\<lambda>_. []), injector_count = 0, runtime_up = True,
     active_coroutines = 0, next_id = 1, queue_work = 0, s_stop = False, now_ns = 1000, iouring = False,
     iou_cancels = [], alloc = (\<lambda>_. True), calls = []\<rparr>"

text \<open>Coroutine \<open>c\<close> runs on worker 0; the scheduler context is coroutine 1.\<close>

definition run_on :: "cr_ref \<Rightarrow> rt \<Rightarrow> rt" where
  "run_on c s = (upd_cr c (\<lambda>r. r\<lparr>cr_state := RUNNING, cr_worker := Some 0\<rparr>) s)
     \<lparr>main_cr := Some 1, running := Some c\<rparr>"

end
