(* ===== verification/Wait_Protocol.thy ===== *)
theory Wait_Protocol
  imports Runtime_State
begin

text \<open>
  The wait protocol shared by channels, synchronization primitives, sleep and deadlines:
  parking a wait node, deciding a wait (grant, cancellation, deadline), the blocked coroutine's own
  loop, timers, sleep, and cancellation.

  A blocking operation returns \<open>(Some code, s)\<close> when the C function returns, and
  \<open>(None, s)\<close> when the coroutine has been switched out inside it. A switched-out coroutine
  continues, once it runs again, with the loop function of the operation (\<open>s_wait_block\<close>,
  \<open>s_wait_block_dl_loop\<close>), one call of which is one pass of the C loop. Spinning in
  \<open>s_wait_decider_sync\<close> changes no state; the pass shown is the one that yields.
\<close>

section \<open>Timers\<close>

definition upd_timer :: "timer_ref \<Rightarrow> (timer \<Rightarrow> timer) \<Rightarrow> rt \<Rightarrow> rt" where
  [rt_simps]: "upd_timer t f s = s\<lparr>timers := (timers s)(t := f (timers s t))\<rparr>"

definition timer_key :: "rt \<Rightarrow> timer_ref \<Rightarrow> u64" where
  "timer_key s t = deadline_ns (timers s t)"

definition s_timer_arm :: "timer_ref \<Rightarrow> rt \<Rightarrow> bool \<times> rt" where
  "s_timer_arm t s =
     (let s1 = upd_timer t (\<lambda>x. x\<lparr>active := True\<rparr>) s in
      case suspenders_timer_heap_push (alloc s1) (timer_key s1) (timer_heap s1) t of
        (False, h) \<Rightarrow> (False, upd_timer t (\<lambda>x. x\<lparr>active := False\<rparr>) (s1\<lparr>timer_heap := h\<rparr>))
      | (True, h) \<Rightarrow> (True, s1\<lparr>timer_heap := h\<rparr>))"

definition s_timer_disarm :: "timer_ref \<Rightarrow> rt \<Rightarrow> rt" where
  "s_timer_disarm t s =
     (if \<not> active (timers s t) then s
      else (let s1 = upd_timer t (\<lambda>x. x\<lparr>active := False\<rparr>) s in
            s1\<lparr>timer_heap := suspenders_timer_heap_remove (timer_key s1) (timer_heap s1) t\<rparr>))"

text \<open>A zeroed timer with its deadline and callback set (\<open>memset\<close> and the stores after it).\<close>

definition fresh_timer :: "u64 \<Rightarrow> timer_cb \<Rightarrow> timer" where
  "fresh_timer dl f = \<lparr>deadline_ns = dl, period_ms = 0, repeat = False, active = False,
     heap_allocated = False, cb = f\<rparr>"

text \<open>\<open>new\<close> is the memory the heap returns for the timer, \<open>None\<close> when it is exhausted;
  \<open>f\<close> is \<open>None\<close> for a null callback. Products are taken modulo \<open>2 ^ 64\<close>.\<close>

definition suspenders_timer_create ::
    "nat option \<Rightarrow> int \<Rightarrow> bool \<Rightarrow> (fn \<times> ptr) option \<Rightarrow> rt \<Rightarrow> timer_ref option \<times> rt" where
  "suspenders_timer_create new ms rep f s =
     (case f of
        None \<Rightarrow> (None, set_errno SUSPENDERS_INVAL s)
      | Some (g, arg) \<Rightarrow>
          if ms \<le> 0 then (None, set_errno SUSPENDERS_INVAL s)
          else
            (case new of
               None \<Rightarrow> (None, set_errno SUSPENDERS_NOMEM s)
             | Some a \<Rightarrow>
                 (let s1 = upd_timer (THeap a) (\<lambda>x. x\<lparr>deadline_ns := now_ns s + word_of_int ms * 1000000,
                             period_ms := ms, repeat := rep, heap_allocated := True, cb := UserCb g arg\<rparr>) s
                  in case s_timer_arm (THeap a) s1 of
                       (True, s2) \<Rightarrow> (Some (THeap a), s2)
                     | (False, s2) \<Rightarrow> (None, set_errno SUSPENDERS_NOMEM s2))))"

text \<open>The second result tells whether the timer's memory is returned to the heap.\<close>

definition suspenders_timer_cancel :: "timer_ref option \<Rightarrow> rt \<Rightarrow> bool \<times> rt" where
  "suspenders_timer_cancel t s =
     (case t of None \<Rightarrow> (False, s)
      | Some t \<Rightarrow> (heap_allocated (timers s t), s_timer_disarm t s))"

section \<open>Parking and deciding\<close>

definition s_wait_park :: "list_ref \<Rightarrow> lock_ref \<Rightarrow> ptr \<Rightarrow> rt \<Rightarrow> rt" where
  "s_wait_park l lock data s =
     (case running s of
        None \<Rightarrow> s
      | Some c \<Rightarrow>
          upd_list l (\<lambda>ns. ns @ [Emb c])
            (upd_node (Emb c) (\<lambda>n. n\<lparr>node_cr := c, data_ptr := data, status := S_WQ_WAITING,
               waker_busy := False, wait_list := Some l, wait_lock := Some lock, select_rec := None\<rparr>) s))"

definition s_wait_grant :: "node_ref \<Rightarrow> int \<Rightarrow> rt \<Rightarrow> rt" where
  "s_wait_grant n st s =
     upd_node n (\<lambda>x. x\<lparr>waker_busy := True, wait_list := None, status := st\<rparr>) s"

definition s_wait_decide_end :: "node_ref \<Rightarrow> rt \<Rightarrow> rt" where
  "s_wait_decide_end n s = upd_node n (\<lambda>x. x\<lparr>waker_busy := False\<rparr>) s"

fun s_wait_decide_end_chain :: "node_ref list \<Rightarrow> rt \<Rightarrow> rt" where
  "s_wait_decide_end_chain [] s = s"
| "s_wait_decide_end_chain (n # ns) s = s_wait_decide_end_chain ns (s_wait_decide_end n s)"

definition s_wait_finish_wake :: "node_ref \<Rightarrow> rt \<Rightarrow> rt" where
  "s_wait_finish_wake n s =
     (let c = node_cr (nodes s n);
          local = (cr_worker (crs s c) = s_worker s);
          qos = effective_qos (crs s c);
          s2 = s_wait_decide_end n (s_wake_no_preempt c s)
      in case running s2 of
           None \<Rightarrow> s2
         | Some r \<Rightarrow>
             if local \<and> running s2 \<noteq> main_cr s2 \<and> effective_qos (crs s2 r) > qos
             then ctx_switch_main (suspenders_ready_enqueue r s2) else s2)"

definition s_waiter_wake :: "cr_ref \<Rightarrow> int \<Rightarrow> rt \<Rightarrow> bool \<times> rt" where
  "s_waiter_wake c st s =
     (let node = nodes s (Emb c) in
      if status node \<noteq> S_WQ_WAITING then (False, s)
      else
        (let s1 = (case wait_list node of None \<Rightarrow> s | Some l \<Rightarrow> upd_list l (remove1 (Emb c)) s);
             s2 = upd_node (Emb c) (\<lambda>x. x\<lparr>waker_busy := True, wait_list := None, status := st\<rparr>) s1
         in (True, s_wait_finish_wake (Emb c) s2)))"

section \<open>The blocked coroutine\<close>

definition s_wait_block :: "rt \<Rightarrow> int option \<times> rt" where
  "s_wait_block s =
     (case running s of
        None \<Rightarrow> (None, s)
      | Some c \<Rightarrow>
          (let node = nodes s (Emb c) in
           if status node = S_WQ_WAITING then (None, suspenders_suspend s)
           else if waker_busy node then (None, suspenders_yield s)
           else
             (let st = status node;
                  s1 = upd_node (Emb c) (\<lambda>x. x\<lparr>wait_list := None, wait_lock := None\<rparr>) s;
                  s2 = (if st = SUSPENDERS_CANCELED then upd_cr c (\<lambda>r. r\<lparr>cancel_requested := False\<rparr>) s1 else s1)
              in (Some st, if st \<noteq> SUSPENDERS_OK then set_errno st s2 else s2))))"

text \<open>\<open>armed\<close> is the local variable of \<open>s_wait_block_dl\<close>.\<close>

definition s_wait_block_dl_loop :: "bool \<Rightarrow> rt \<Rightarrow> int option \<times> rt" where
  "s_wait_block_dl_loop armed s =
     (case s_wait_block s of
        (None, s1) \<Rightarrow> (None, s1)
      | (Some st, s1) \<Rightarrow>
          (Some st, if armed then s_timer_disarm (TStack (the (running s))) s1 else s1))"

definition s_wait_block_dl :: "u64 \<Rightarrow> rt \<Rightarrow> int option \<times> rt" where
  "s_wait_block_dl dl s =
     (case running s of
        None \<Rightarrow> (None, s)
      | Some c \<Rightarrow>
          if dl \<noteq> 0 then
            (let s1 = upd_timer (TStack c) (\<lambda>_. fresh_timer dl (WaitDeadlineCb c)) s;
                 (armed, s2) = s_timer_arm (TStack c) s1
             in s_wait_block_dl_loop armed s2)
          else s_wait_block_dl_loop False s)"

definition s_pre_block :: "cr_ref \<Rightarrow> rt \<Rightarrow> int \<times> rt" where
  "s_pre_block c s =
     (let s1 = upd_cr c (\<lambda>r. r\<lparr>cancel_requested := False\<rparr>) s in
      if cancel_requested (crs s c) then (SUSPENDERS_CANCELED, set_errno SUSPENDERS_CANCELED s1)
      else if deadline_armed (crs s c) \<and> now_ns s \<ge> deadline_ns (timers s (TDeadline c))
      then (SUSPENDERS_TIMEDOUT, set_errno SUSPENDERS_TIMEDOUT s1)
      else (0, s1))"

text \<open>The entry gate of the blocking calls: the coroutine and 0, or an error code.\<close>

definition s_block_begin :: "rt \<Rightarrow> (int \<times> cr_ref) \<times> rt" where
  "s_block_begin s =
     (case running s of
        None \<Rightarrow> ((SUSPENDERS_PERM, 0), set_errno SUSPENDERS_PERM s)
      | Some c \<Rightarrow>
          if running s = main_cr s then ((SUSPENDERS_PERM, 0), set_errno SUSPENDERS_PERM s)
          else (let (pre, s1) = s_pre_block c s in ((pre, c), s1)))"

section \<open>Sleep\<close>

definition s_sleep_cb :: "cr_ref \<Rightarrow> rt \<Rightarrow> rt" where
  "s_sleep_cb c s =
     (if status (nodes s (Emb c)) = S_WQ_WAITING
      then suspenders_resume c (upd_node (Emb c) (\<lambda>x. x\<lparr>status := SUSPENDERS_OK\<rparr>) s) else s)"

definition suspenders_sleep_dl :: "u64 \<Rightarrow> rt \<Rightarrow> int option \<times> rt" where
  "suspenders_sleep_dl dl s =
     (let ((pre, c), s1) = s_block_begin s in
      if pre \<noteq> 0 then (Some pre, s1)
      else if dl \<le> now_ns s1 then (Some SUSPENDERS_OK, suspenders_yield s1)
      else
        (let s2 = upd_node (Emb c) (\<lambda>x. x\<lparr>node_cr := c, status := S_WQ_WAITING, waker_busy := False,
                    wait_list := None, wait_lock := None\<rparr>) s1;
             s3 = upd_timer (TStack c) (\<lambda>_. fresh_timer dl (SleepCb c)) s2
         in case s_timer_arm (TStack c) s3 of
              (False, s4) \<Rightarrow>
                fail SUSPENDERS_NOMEM (upd_node (Emb c) (\<lambda>x. x\<lparr>status := SUSPENDERS_OK\<rparr>) s4)
            | (True, s4) \<Rightarrow> s_wait_block_dl_loop True s4))"

definition suspenders_sleep_ns :: "u64 \<Rightarrow> rt \<Rightarrow> int option \<times> rt" where
  "suspenders_sleep_ns ns s = suspenders_sleep_dl (now_ns s + ns) s"

section \<open>Cancellation and the coroutine deadline\<close>

text \<open>The request to cancel an operation is handed to the ring of the worker; what the ring does with it is
  \<open>iou_cancel\<close> of \<open>Io_Uring\<close>.\<close>

definition s_iou_cancel :: "nat \<Rightarrow> rt \<Rightarrow> rt" where
  "s_iou_cancel op s = s\<lparr>iou_cancels := op # iou_cancels s\<rparr>"

definition suspenders_cancel :: "cr_ref option \<Rightarrow> rt \<Rightarrow> int \<times> rt" where
  "suspenders_cancel cro s =
     (case cro of
        None \<Rightarrow> (SUSPENDERS_INVAL, set_errno SUSPENDERS_INVAL s)
      | Some c \<Rightarrow>
          (let s1 = upd_cr c (\<lambda>r. r\<lparr>cancel_requested := True\<rparr>) s in
           if cr_worker (crs s1 c) \<noteq> None \<and> cr_worker (crs s1 c) \<noteq> s_worker s1
           then (SUSPENDERS_OK, s_inbox_wake c s1)
           else
             (case s_waiter_wake c SUSPENDERS_CANCELED s1 of
                (True, s2) \<Rightarrow> (SUSPENDERS_OK, s2)
              | (False, s2) \<Rightarrow>
                  if cr_state (crs s2 c) = SUSPENDED then
                    (case (if iouring s2 then pending_io (crs s2 c) else None) of
                       Some op \<Rightarrow> (SUSPENDERS_OK, s_iou_cancel op s2)
                     | None \<Rightarrow> (SUSPENDERS_OK,
                         suspenders_resume c (upd_cr c (\<lambda>r. r\<lparr>io_result := -1\<rparr>) s2)))
                  else (SUSPENDERS_OK, s2))))"

definition suspenders_canceled :: "rt \<Rightarrow> bool" where
  "suspenders_canceled s =
     (case running s of None \<Rightarrow> False | Some c \<Rightarrow> cancel_requested (crs s c))"

definition s_wait_deadline_cb :: "cr_ref \<Rightarrow> rt \<Rightarrow> rt" where
  "s_wait_deadline_cb c s = snd (s_waiter_wake c SUSPENDERS_TIMEDOUT s)"

definition s_deadline_cb :: "cr_ref \<Rightarrow> rt \<Rightarrow> rt" where
  "s_deadline_cb c s =
     (case (if iouring s then pending_io (crs s c) else None) of
        Some op \<Rightarrow> s_iou_cancel op s
      | None \<Rightarrow>
          (case s_waiter_wake c SUSPENDERS_TIMEDOUT s of
             (True, s1) \<Rightarrow> s1
           | (False, s1) \<Rightarrow>
               if cr_state (crs s1 c) = SUSPENDED
               then suspenders_resume c (upd_cr c (\<lambda>r. r\<lparr>io_result := -2\<rparr>) s1) else s1))"

definition s_io_timeout_cb :: "cr_ref \<Rightarrow> rt \<Rightarrow> rt" where
  "s_io_timeout_cb c s =
     (if cr_state (crs s c) = SUSPENDED
      then suspenders_resume c (upd_cr c (\<lambda>r. r\<lparr>io_result := -2\<rparr>) s) else s)"

definition suspenders_self :: "rt \<Rightarrow> cr_ref option" where
  "suspenders_self s = (if running s \<noteq> None \<and> running s \<noteq> main_cr s then running s else None)"

definition suspenders_deadline :: "u64 \<Rightarrow> rt \<Rightarrow> int option \<times> rt" where
  "suspenders_deadline dl s =
     (case suspenders_self s of
        None \<Rightarrow> fail SUSPENDERS_PERM s
      | Some c \<Rightarrow>
          (let s1 = (if deadline_armed (crs s c)
                     then upd_cr c (\<lambda>r. r\<lparr>deadline_armed := False\<rparr>) (s_timer_disarm (TDeadline c) s) else s)
           in if dl = 0 then (Some SUSPENDERS_OK, s1)
              else
                (case s_timer_arm (TDeadline c) (upd_timer (TDeadline c) (\<lambda>_. fresh_timer dl (DeadlineCb c)) s1) of
                   (False, s2) \<Rightarrow> fail SUSPENDERS_NOMEM s2
                 | (True, s2) \<Rightarrow> (Some SUSPENDERS_OK, upd_cr c (\<lambda>r. r\<lparr>deadline_armed := True\<rparr>) s2))))"

section \<open>Firing timers\<close>

primrec run_timer_cb :: "timer_cb \<Rightarrow> rt \<Rightarrow> rt" where
  "run_timer_cb (WaitDeadlineCb c) s = s_wait_deadline_cb c s"
| "run_timer_cb (SleepCb c) s = s_sleep_cb c s"
| "run_timer_cb (DeadlineCb c) s = s_deadline_cb c s"
| "run_timer_cb (IoTimeoutCb c) s = s_io_timeout_cb c s"
| "run_timer_cb (UserCb f a) s = s\<lparr>calls := calls s @ [(f, a)]\<rparr>"

definition fire_one :: "u64 \<Rightarrow> timer_ref \<Rightarrow> rt \<Rightarrow> rt" where
  "fire_one now t s =
     (let s1 =
        (if repeat (timers s t) then
           (let s' = upd_timer t (\<lambda>x. x\<lparr>deadline_ns := now + word_of_int (period_ms (timers s t)) * 1000000\<rparr>) s in
            case suspenders_timer_heap_push (alloc s') (timer_key s') (timer_heap s') t of
              (True, h) \<Rightarrow> s'\<lparr>timer_heap := h\<rparr>
            | (False, h) \<Rightarrow> upd_timer t (\<lambda>x. x\<lparr>active := False\<rparr>) (s'\<lparr>timer_heap := h\<rparr>))
         else upd_timer t (\<lambda>x. x\<lparr>active := False\<rparr>) s)
      in run_timer_cb (cb (timers s1 t)) s1)"

text \<open>The loop runs while the earliest deadline has passed. A repeating timer whose next deadline is
  not later than now would keep it running, hence the partial function.\<close>

partial_function (option) fire_loop :: "u64 \<Rightarrow> rt \<Rightarrow> rt option" where
  "fire_loop now s =
     (case suspenders_timer_heap_pop (timer_key s) (timer_heap s) of
        (None, _) \<Rightarrow> Some s
      | (Some t, h) \<Rightarrow>
          if timer_key s t \<le> now then fire_loop now (fire_one now t (s\<lparr>timer_heap := h\<rparr>)) else Some s)"

definition suspenders_timer_fire_expired :: "rt \<Rightarrow> rt option" where
  "suspenders_timer_fire_expired s = fire_loop (now_ns s) s"

section \<open>What the primitives leave alone\<close>

text \<open>The part of the state the synchronization objects live in. Scheduling never touches it.\<close>

definition sync_view :: "rt \<Rightarrow> _" where
  "sync_view s = (wlists s, winner s, chans s, owner s, rwlocks s, wg_count s, mem s)"

lemma sync_view_eq:
  "sync_view s = sync_view t \<longleftrightarrow> wlists s = wlists t \<and> winner s = winner t \<and> chans s = chans t \<and>
     owner s = owner t \<and> rwlocks s = rwlocks t \<and> wg_count s = wg_count t \<and> mem s = mem t"
  by (auto simp: sync_view_def)

lemma upd_cr_frame [simp]:
  "sync_view (upd_cr c f s) = sync_view s" "nodes (upd_cr c f s) = nodes s"
  "running (upd_cr c f s) = running s" "main_cr (upd_cr c f s) = main_cr s"
  by (simp_all add: upd_cr_def sync_view_def)

lemma set_errno_frame [simp]:
  "sync_view (set_errno e s) = sync_view s" "nodes (set_errno e s) = nodes s"
  "running (set_errno e s) = running s" "main_cr (set_errno e s) = main_cr s"
  by (simp_all add: set_errno_def sync_view_def)

lemma upd_timer_frame [simp]:
  "sync_view (upd_timer t f s) = sync_view s" "nodes (upd_timer t f s) = nodes s"
  "running (upd_timer t f s) = running s" "main_cr (upd_timer t f s) = main_cr s"
  by (simp_all add: upd_timer_def sync_view_def)

lemma upd_node_frame [simp]:
  "sync_view (upd_node n f s) = sync_view s"
  "nodes (upd_node n f s) = (nodes s)(n := f (nodes s n))"
  "running (upd_node n f s) = running s" "main_cr (upd_node n f s) = main_cr s" "crs (upd_node n f s) = crs s"
  by (simp_all add: upd_node_def sync_view_def)

lemma ready_enqueue_frame [simp]:
  "sync_view (suspenders_ready_enqueue c s) = sync_view s"
  "nodes (suspenders_ready_enqueue c s) = nodes s"
  "running (suspenders_ready_enqueue c s) = running s"
  "main_cr (suspenders_ready_enqueue c s) = main_cr s"
  by (simp_all add: suspenders_ready_enqueue_def upd_cr_def sync_view_def Let_def)

lemma ctx_switch_main_frame [simp]:
  "sync_view (ctx_switch_main s) = sync_view s" "nodes (ctx_switch_main s) = nodes s"
  by (simp_all add: ctx_switch_main_def sync_view_def)

lemma yield_frame [simp]:
  "sync_view (suspenders_yield s) = sync_view s" "nodes (suspenders_yield s) = nodes s"
  by (simp_all add: suspenders_yield_def split: option.split)

lemma suspend_frame [simp]:
  "sync_view (suspenders_suspend s) = sync_view s" "nodes (suspenders_suspend s) = nodes s"
  by (simp_all add: suspenders_suspend_def split: option.split)

lemma worker_signal_frame [simp]:
  "sync_view (s_worker_signal w s) = sync_view s" "nodes (s_worker_signal w s) = nodes s"
  "running (s_worker_signal w s) = running s" "main_cr (s_worker_signal w s) = main_cr s"
  by (simp_all add: s_worker_signal_def sync_view_def split: option.split)

lemma inbox_wake_frame [simp]:
  "sync_view (s_inbox_wake c s) = sync_view s" "nodes (s_inbox_wake c s) = nodes s"
  "running (s_inbox_wake c s) = running s" "main_cr (s_inbox_wake c s) = main_cr s"
  by (simp_all add: s_inbox_wake_def upd_cr_def split: option.split) (simp add: sync_view_def)

lemma resume_frame [simp]:
  "sync_view (suspenders_resume c s) = sync_view s" "nodes (suspenders_resume c s) = nodes s"
  by (simp_all add: suspenders_resume_def Let_def split: option.split)

lemma wake_no_preempt_frame [simp]:
  "sync_view (s_wake_no_preempt c s) = sync_view s" "nodes (s_wake_no_preempt c s) = nodes s"
  "running (s_wake_no_preempt c s) = running s" "main_cr (s_wake_no_preempt c s) = main_cr s"
  by (simp_all add: s_wake_no_preempt_def)

lemma boost_frame [simp]:
  "sync_view (suspenders_boost c q s) = sync_view s" "nodes (suspenders_boost c q s) = nodes s"
  "running (suspenders_boost c q s) = running s" "main_cr (suspenders_boost c q s) = main_cr s"
  by (simp_all add: suspenders_boost_def)

lemma timer_arm_frame:
  "s_timer_arm t s = (b, s') \<Longrightarrow> sync_view s' = sync_view s \<and> nodes s' = nodes s \<and>
     running s' = running s \<and> main_cr s' = main_cr s \<and> crs s' = crs s"
  by (auto simp: s_timer_arm_def Let_def upd_timer_def sync_view_def split: prod.splits bool.splits)

lemma timer_disarm_frame [simp]:
  "sync_view (s_timer_disarm t s) = sync_view s" "nodes (s_timer_disarm t s) = nodes s"
  "running (s_timer_disarm t s) = running s" "main_cr (s_timer_disarm t s) = main_cr s"
  by (simp_all add: s_timer_disarm_def Let_def upd_timer_def sync_view_def)

lemma grant_frame [simp]:
  "sync_view (s_wait_grant n st s) = sync_view s"
  "nodes (s_wait_grant n st s) = (nodes s)(n := (nodes s n)\<lparr>waker_busy := True, wait_list := None, status := st\<rparr>)"
  "running (s_wait_grant n st s) = running s" "main_cr (s_wait_grant n st s) = main_cr s"
  by (simp_all add: s_wait_grant_def)

lemma decide_end_frame [simp]:
  "sync_view (s_wait_decide_end n s) = sync_view s"
  "nodes (s_wait_decide_end n s) = (nodes s)(n := (nodes s n)\<lparr>waker_busy := False\<rparr>)"
  "running (s_wait_decide_end n s) = running s" "main_cr (s_wait_decide_end n s) = main_cr s"
  by (simp_all add: s_wait_decide_end_def)

lemma finish_wake_frame [simp]:
  "sync_view (s_wait_finish_wake n s) = sync_view s"
  "nodes (s_wait_finish_wake n s) = (nodes s)(n := (nodes s n)\<lparr>waker_busy := False\<rparr>)"
  by (simp_all add: s_wait_finish_wake_def Let_def split: option.split)

text \<open>The same facts field by field.\<close>

lemmas sync_fields [simp] =
  upd_cr_frame(1) [unfolded sync_view_eq]
  set_errno_frame(1) [unfolded sync_view_eq]
  upd_timer_frame(1) [unfolded sync_view_eq]
  upd_node_frame(1) [unfolded sync_view_eq]
  ready_enqueue_frame(1) [unfolded sync_view_eq]
  ctx_switch_main_frame(1) [unfolded sync_view_eq]
  yield_frame(1) [unfolded sync_view_eq]
  suspend_frame(1) [unfolded sync_view_eq]
  worker_signal_frame(1) [unfolded sync_view_eq]
  inbox_wake_frame(1) [unfolded sync_view_eq]
  resume_frame(1) [unfolded sync_view_eq]
  wake_no_preempt_frame(1) [unfolded sync_view_eq]
  boost_frame(1) [unfolded sync_view_eq]
  timer_disarm_frame(1) [unfolded sync_view_eq]
  grant_frame(1) [unfolded sync_view_eq]
  decide_end_frame(1) [unfolded sync_view_eq]
  finish_wake_frame(1) [unfolded sync_view_eq]

section \<open>The wait-list invariant\<close>

text \<open>A node is on a list exactly when its \<open>wait_list\<close> field points there, it is then still
  waiting, and a waiting embedded node belongs to its coroutine.\<close>

definition wait_ok :: "(node_ref \<Rightarrow> wq_node) \<Rightarrow> (list_ref \<Rightarrow> node_ref list) \<Rightarrow> bool" where
  "wait_ok nd wl \<longleftrightarrow>
     (\<forall>l. distinct (wl l)) \<and>
     (\<forall>n l. n \<in> set (wl l) \<longleftrightarrow> wait_list (nd n) = Some l) \<and>
     (\<forall>n. wait_list (nd n) \<noteq> None \<longrightarrow> status (nd n) = S_WQ_WAITING) \<and>
     (\<forall>c. status (nd (Emb c)) = S_WQ_WAITING \<longrightarrow> node_cr (nd (Emb c)) = c) \<and>
     (\<forall>c. wait_list (nd (Emb c)) \<noteq> None \<longrightarrow> select_rec (nd (Emb c)) = None)"

abbreviation waits_ok :: "rt \<Rightarrow> bool" where
  "waits_ok s \<equiv> wait_ok (nodes s) (wlists s)"

lemma wait_ok_on_list:
  "wait_ok nd wl \<Longrightarrow> n \<in> set (wl l) \<Longrightarrow> wait_list (nd n) = Some l \<and> status (nd n) = S_WQ_WAITING"
  by (fastforce simp: wait_ok_def)

lemma wait_ok_decided_off_list:
  "wait_ok nd wl \<Longrightarrow> status (nd n) \<noteq> S_WQ_WAITING \<Longrightarrow> n \<notin> set (wl l) \<and> wait_list (nd n) = None"
  by (fastforce simp: wait_ok_def)

lemma wait_ok_one_list: "wait_ok nd wl \<Longrightarrow> n \<in> set (wl l) \<Longrightarrow> n \<in> set (wl m) \<Longrightarrow> l = m"
  by (fastforce simp: wait_ok_def)

lemma wait_ok_park:
  assumes "wait_ok nd wl" and "wait_list (nd n) = None" and "wait_list x = Some l"
    and "status x = S_WQ_WAITING" and "\<forall>c. n = Emb c \<longrightarrow> node_cr x = c \<and> select_rec x = None"
  shows "wait_ok (nd(n := x)) (wl(l := wl l @ [n]))"
  using assms unfolding wait_ok_def by (auto simp: fun_upd_apply)

lemma wait_ok_unlink:
  assumes "wait_ok nd wl" and "wait_list (nd n) = Some l" and "wait_list x = None"
    and "\<forall>c. n = Emb c \<and> status x = S_WQ_WAITING \<longrightarrow> node_cr x = c"
  shows "wait_ok (nd(n := x)) (wl(l := remove1 n (wl l)))"
  using assms unfolding wait_ok_def by (auto simp: fun_upd_apply set_remove1_eq)

lemma wait_ok_pop:
  assumes "wait_ok nd wl" and "wl l = n # ns" and "wait_list x = None"
    and "\<forall>c. n = Emb c \<and> status x = S_WQ_WAITING \<longrightarrow> node_cr x = c"
  shows "wait_ok (nd(n := x)) (wl(l := ns))"
proof -
  have "wait_list (nd n) = Some l" using wait_ok_on_list [OF assms(1), of n l] assms(2) by simp
  from wait_ok_unlink [OF assms(1) this assms(3,4)] assms(2) show ?thesis by simp
qed

lemma wait_ok_off_list:
  assumes "wait_ok nd wl" and "wait_list (nd n) = None" and "wait_list x = None"
    and "\<forall>c. n = Emb c \<and> status x = S_WQ_WAITING \<longrightarrow> node_cr x = c"
  shows "wait_ok (nd(n := x)) wl"
  using assms unfolding wait_ok_def by (auto simp: fun_upd_apply)

lemma wait_ok_same:
  assumes "wait_ok nd wl" and "wait_list x = wait_list (nd n)" and "status x = status (nd n)"
    and "node_cr x = node_cr (nd n)" and "select_rec x = select_rec (nd n)"
  shows "wait_ok (nd(n := x)) wl"
  using assms unfolding wait_ok_def by (auto simp: fun_upd_apply)

section \<open>Deciding a wait from outside\<close>

text \<open>A coroutine has been woken: it is queued on its own worker, or announced in the inbox of the
  worker it is pinned to.\<close>

definition woken :: "cr_ref \<Rightarrow> rt \<Rightarrow> rt \<Rightarrow> bool" where
  "woken c s t \<longleftrightarrow>
     (case cr_worker (crs s c) of
        Some w \<Rightarrow> if Some w = s_worker s then cr_state (crs s c) = SUSPENDED \<longrightarrow> cr_state (crs t c) = READY \<and> c \<in> set (ready_all (ready t))
                  else wake_inflight (crs t c) \<and> (wake_inflight (crs s c) \<or> c \<in> set (inbox t w))
      | None \<Rightarrow> cr_state (crs s c) = SUSPENDED \<longrightarrow> cr_state (crs t c) = READY \<and> c \<in> set (ready_all (ready t)))"

lemma set_ready_push: "q < 4 \<Longrightarrow> set (ready_all (ready_push qs q c)) = insert c (set (ready_all qs))"
  by (auto simp: set_ready_all ready_push_def split: if_splits)

lemma ready_enqueue_set:
  "set (ready_all (ready (suspenders_ready_enqueue c s))) = insert c (set (ready_all (ready s)))"
  by (simp add: suspenders_ready_enqueue_def upd_cr_def Let_def set_ready_push clamp_qos_range)

lemma ready_enqueue_member: "c \<in> set (ready_all (ready (suspenders_ready_enqueue c s)))"
  by (simp add: ready_enqueue_set)

lemma ready_enqueue_mono:
  "c \<in> set (ready_all (ready s)) \<Longrightarrow> c \<in> set (ready_all (ready (suspenders_ready_enqueue d s)))"
  by (simp add: ready_enqueue_set)

lemma ready_enqueue_state:
  "cr_state (crs (suspenders_ready_enqueue d s) c) = (if c = d then READY else cr_state (crs s c))"
  "wake_inflight (crs (suspenders_ready_enqueue d s) c) = wake_inflight (crs s c)"
  "inbox (suspenders_ready_enqueue d s) = inbox s"
  by (auto simp: suspenders_ready_enqueue_def upd_cr_def Let_def)

lemma inbox_wake_effect:
  assumes "cr_worker (crs s c) = Some w"
  shows "wake_inflight (crs (s_inbox_wake c s) c) \<and>
         (wake_inflight (crs s c) \<or> c \<in> set (inbox (s_inbox_wake c s) w))"
  using assms by (auto simp: s_inbox_wake_def s_worker_signal_def upd_cr_def split: option.split)

lemma wake_no_preempt_woken: "woken c s (s_wake_no_preempt c s)"
  using inbox_wake_effect [of s c]
  by (auto simp: woken_def s_wake_no_preempt_def ready_enqueue_state ready_enqueue_member split: option.split)

lemma woken_mono:
  assumes "woken c s t" and "\<And>x. x \<in> set (ready_all (ready t)) \<Longrightarrow> x \<in> set (ready_all (ready u))"
    and "cr_state (crs t c) = READY \<Longrightarrow> cr_state (crs u c) = READY"
    and "wake_inflight (crs t c) \<Longrightarrow> wake_inflight (crs u c)" and "inbox u = inbox t"
  shows "woken c s u"
  using assms by (auto simp: woken_def split: option.splits if_splits)

lemma decide_end_fields [simp]:
  "crs (s_wait_decide_end n s) = crs s" "ready (s_wait_decide_end n s) = ready s"
  "inbox (s_wait_decide_end n s) = inbox s" "s_worker (s_wait_decide_end n s) = s_worker s"
  by (simp_all add: s_wait_decide_end_def upd_node_def)

lemma ctx_switch_main_fields [simp]:
  "crs (ctx_switch_main s) = crs s" "ready (ctx_switch_main s) = ready s" "inbox (ctx_switch_main s) = inbox s"
  by (simp_all add: ctx_switch_main_def)

lemma finish_wake_woken: "woken (node_cr (nodes s n)) s (s_wait_finish_wake n s)"
proof -
  let ?c = "node_cr (nodes s n)" and ?t = "s_wait_decide_end n (s_wake_no_preempt (node_cr (nodes s n)) s)"
  have t: "woken ?c s ?t" by (rule woken_mono [OF wake_no_preempt_woken]) auto
  have "woken ?c s (ctx_switch_main (suspenders_ready_enqueue r ?t))" for r
    by (rule woken_mono [OF t]) (auto simp: ready_enqueue_state ready_enqueue_mono)
  with t show ?thesis by (auto simp: s_wait_finish_wake_def Let_def split: option.split)
qed


lemma waiter_wake_cases:
  "s_waiter_wake c st s = (won, t) \<Longrightarrow>
   (won \<longleftrightarrow> status (nodes s (Emb c)) = S_WQ_WAITING) \<and> (\<not> won \<longrightarrow> t = s)"
  by (auto simp: s_waiter_wake_def Let_def split: if_splits)

lemma waiter_wake_lists:
  assumes "s_waiter_wake c st s = (True, t)"
  shows "nodes t = (nodes s)(Emb c := (nodes s (Emb c))\<lparr>waker_busy := False, wait_list := None, status := st\<rparr>)"
    and "wlists t = (case wait_list (nodes s (Emb c)) of None \<Rightarrow> wlists s
                     | Some l \<Rightarrow> (wlists s)(l := remove1 (Emb c) (wlists s l)))"
    and "sync_view t = sync_view (s\<lparr>wlists := wlists t\<rparr>)"
  using assms
  by (auto simp: s_waiter_wake_def Let_def upd_list_def sync_view_eq split: if_splits option.splits)

lemma waiter_wake_ok:
  assumes "waits_ok s" and "st \<noteq> S_WQ_WAITING" and "s_waiter_wake c st s = (won, t)"
  shows "waits_ok t"
proof (cases won)
  case False
  with assms show ?thesis using waiter_wake_cases by blast
next
  case True
  with assms(3) have e: "s_waiter_wake c st s = (True, t)" by simp
  show ?thesis
    unfolding waiter_wake_lists(1,2) [OF e]
    using assms(1,2) by (auto intro: wait_ok_unlink wait_ok_off_list split: option.split)
qed

lemma waiter_wake_removes:
  assumes "waits_ok s" and "s_waiter_wake c st s = (True, t)"
  shows "wlists t l = remove1 (Emb c) (wlists s l)"
proof (cases "wait_list (nodes s (Emb c)) = Some l")
  case True
  with waiter_wake_lists(2) [OF assms(2)] show ?thesis by simp
next
  case False
  with assms(1) have "Emb c \<notin> set (wlists s l)" by (auto simp: wait_ok_def)
  with False waiter_wake_lists(2) [OF assms(2)] show ?thesis
    by (auto simp: remove1_idem split: option.split)
qed

lemma waiter_wake_woken:
  assumes "waits_ok s" and "s_waiter_wake c st s = (True, t)"
  shows "woken c s t"
proof -
  have w: "status (nodes s (Emb c)) = S_WQ_WAITING" using waiter_wake_cases [OF assms(2)] by simp
  then have c: "node_cr (nodes s (Emb c)) = c" using assms(1) by (simp add: wait_ok_def)
  define u where "u = upd_node (Emb c) (\<lambda>x. x\<lparr>waker_busy := True, wait_list := None, status := st\<rparr>)
       (case wait_list (nodes s (Emb c)) of None \<Rightarrow> s | Some l \<Rightarrow> upd_list l (remove1 (Emb c)) s)"
  have t: "t = s_wait_finish_wake (Emb c) u" using assms(2) w by (auto simp: s_waiter_wake_def Let_def u_def)
  have "woken (node_cr (nodes u (Emb c))) u t" unfolding t by (rule finish_wake_woken)
  moreover have "node_cr (nodes u (Emb c)) = c" "crs u = crs s" "s_worker u = s_worker s"
    using c by (auto simp: u_def upd_list_def upd_node_def split: option.split)
  ultimately show ?thesis by (simp only: woken_def)
qed

text \<open>C3. Cancellation and deadlines decide a wait at most once: \<open>s_waiter_wake\<close> succeeds exactly
  when the coroutine's node is still waiting; then the node leaves the list it is queued on (and no
  other node moves), carries the new status with its decider window closed, and the coroutine is
  queued on its worker or announced in that worker's inbox. Otherwise nothing changes. A second
  attempt always fails, and the wait-list invariant is kept.\<close>

theorem waiter_wake_decides_once:
  assumes "waits_ok s" and "st \<noteq> S_WQ_WAITING" and "s_waiter_wake c st s = (won, t)"
  shows "waits_ok t \<and> (won \<longleftrightarrow> status (nodes s (Emb c)) = S_WQ_WAITING) \<and>
    \<not> fst (s_waiter_wake c st' t) \<and>
    (if won then status (nodes t (Emb c)) = st \<and> \<not> waker_busy (nodes t (Emb c)) \<and>
        (\<forall>l. wlists t l = remove1 (Emb c) (wlists s l) \<and> Emb c \<notin> set (wlists t l)) \<and>
        (\<forall>n. n \<noteq> Emb c \<longrightarrow> nodes t n = nodes s n) \<and> woken c s t
     else t = s)"
proof (cases won)
  case False
  with assms waiter_wake_cases [OF assms(3)] show ?thesis by (auto simp: s_waiter_wake_def)
next
  case True
  with assms(3) have e: "s_waiter_wake c st s = (True, t)" by simp
  have ok: "waits_ok t" by (rule waiter_wake_ok [OF assms(1,2) e])
  have st: "status (nodes t (Emb c)) = st" by (simp add: waiter_wake_lists(1) [OF e])
  have "Emb c \<notin> set (wlists t l)" for l
    using wait_ok_decided_off_list [OF ok, of "Emb c" l] st assms(2) by simp
  moreover have "\<not> fst (s_waiter_wake c st' t)"
    using st assms(2) by (simp add: s_waiter_wake_def)
  ultimately show ?thesis
    using True ok st waiter_wake_cases [OF e] waiter_wake_removes [OF assms(1) e] waiter_wake_woken [OF assms(1) e]
    by (simp add: waiter_wake_lists(1) [OF e])
qed


lemma wait_ok_blank: "waits_ok blank_rt"
  by (simp add: wait_ok_def blank_rt_def zero_node_def)

lemma wait_park_ok:
  assumes "waits_ok s" and "running s = Some c" and "status (nodes s (Emb c)) \<noteq> S_WQ_WAITING"
  shows "waits_ok (s_wait_park l k d s)"
proof -
  have "wait_list (nodes s (Emb c)) = None" using wait_ok_decided_off_list assms(1,3) by blast
  then show ?thesis
    using wait_ok_park [OF assms(1), of "Emb c" _ l] assms(2)
    by (simp add: s_wait_park_def upd_list_def upd_node_def)
qed

text \<open>A coroutine that sleeps on a condition variable's list, for examples.\<close>

definition parked_rt :: rt where
  "parked_rt = suspenders_suspend (s_wait_park (LCond 3) (KCond 3) 0 (run_on 5 blank_rt))"

lemma parked_rt_facts:
  "waits_ok parked_rt" "status (nodes parked_rt (Emb 5)) = S_WQ_WAITING"
  "wlists parked_rt (LCond 3) = [Emb 5]" "cr_state (crs parked_rt 5) = SUSPENDED"
  "cr_worker (crs parked_rt 5) = s_worker parked_rt"
proof -
  have "waits_ok (run_on 5 blank_rt)" using wait_ok_blank by (simp add: run_on_def upd_cr_def)
  then have "waits_ok (s_wait_park (LCond 3) (KCond 3) 0 (run_on 5 blank_rt))"
    by (rule wait_park_ok [where c = 5])
       (simp_all add: run_on_def upd_cr_def blank_rt_def zero_node_def)
  then show "waits_ok parked_rt" by (simp add: parked_rt_def)
qed (simp_all add: parked_rt_def s_wait_park_def run_on_def upd_cr_def upd_list_def upd_node_def
      blank_rt_def suspenders_suspend_def ctx_switch_main_def)

theorem waiter_wake_decides_once_witness:
  "waits_ok (snd (s_waiter_wake 5 SUSPENDERS_TIMEDOUT parked_rt)) \<and>
   fst (s_waiter_wake 5 SUSPENDERS_TIMEDOUT parked_rt) \<and>
   wlists (snd (s_waiter_wake 5 SUSPENDERS_TIMEDOUT parked_rt)) (LCond 3) = []"
  using waiter_wake_decides_once [where s = parked_rt and c = 5 and st = SUSPENDERS_TIMEDOUT and
      won = "fst (s_waiter_wake 5 SUSPENDERS_TIMEDOUT parked_rt)" and
      t = "snd (s_waiter_wake 5 SUSPENDERS_TIMEDOUT parked_rt)" and st' = 0] parked_rt_facts
  by (simp split: if_splits)

section \<open>Cancellation\<close>

lemma cancel_flag_frame:
  "cancel_requested (crs (suspenders_ready_enqueue d s) c) = cancel_requested (crs s c)"
  "cancel_requested (crs (s_inbox_wake d s) c) = cancel_requested (crs s c)"
  "cancel_requested (crs (suspenders_resume d s) c) = cancel_requested (crs s c)"
  by (simp_all add: suspenders_ready_enqueue_def s_inbox_wake_def s_worker_signal_def suspenders_resume_def
       upd_cr_def Let_def split: option.split)

lemma cancel_local_parked:
  assumes "status (nodes s (Emb c)) = S_WQ_WAITING" and "cr_worker (crs s c) \<in> {None, s_worker s}"
  shows "\<exists>t. suspenders_cancel (Some c) s = (SUSPENDERS_OK, t) \<and>
             s_waiter_wake c SUSPENDERS_CANCELED (upd_cr c (\<lambda>r. r\<lparr>cancel_requested := True\<rparr>) s) = (True, t)"
proof -
  let ?u = "upd_cr c (\<lambda>r. r\<lparr>cancel_requested := True\<rparr>) s"
  obtain won t where w: "s_waiter_wake c SUSPENDERS_CANCELED ?u = (won, t)" by fastforce
  then have won using waiter_wake_cases [OF w] assms(1) by simp
  moreover have "\<not> (cr_worker (crs ?u c) \<noteq> None \<and> cr_worker (crs ?u c) \<noteq> s_worker ?u)"
    using assms(2) by (auto simp: upd_cr_def)
  ultimately show ?thesis using w by (auto simp: suspenders_cancel_def Let_def)
qed

lemma wait_block_decided:
  assumes "running u = Some c" and "status (nodes u (Emb c)) = st" and "st \<noteq> S_WQ_WAITING"
    and "\<not> waker_busy (nodes u (Emb c))"
  shows "\<exists>v. s_wait_block u = (Some st, v) \<and> wait_list (nodes v (Emb c)) = None \<and>
     (st = SUSPENDERS_CANCELED \<longrightarrow> \<not> cancel_requested (crs v c)) \<and>
     errno v = (if st = SUSPENDERS_OK then errno u else st)"
  using assms by (simp add: s_wait_block_def Let_def upd_cr_def upd_node_def set_errno_def)



text \<open>Waking never changes a priority.\<close>

lemma wake_qos:
  "effective_qos (crs (suspenders_ready_enqueue d s) c) = effective_qos (crs s c)"
  "effective_qos (crs (s_inbox_wake d s) c) = effective_qos (crs s c)"
  "effective_qos (crs (s_wake_no_preempt d s) c) = effective_qos (crs s c)"
  by (simp_all add: suspenders_ready_enqueue_def s_inbox_wake_def s_worker_signal_def s_wake_no_preempt_def
       upd_cr_def Let_def split: option.split)

lemma finish_wake_qos: "effective_qos (crs (s_wait_finish_wake n s) c) = effective_qos (crs s c)"
  by (simp add: s_wait_finish_wake_def Let_def wake_qos split: option.split)

end
