(* ===== verification/Buf.thy ===== *)
theory Buf
  imports Prelude
begin

text \<open>
  The growable byte buffer (\<open>struct buf\<close>, \<open>buf_append\<close>, \<open>buf_append_byte\<close>,
  \<open>buf_clear\<close>). A data pointer is an \<open>option\<close>: \<open>None\<close> is \<open>NULL\<close>,
  \<open>Some d\<close> a heap block of \<open>cap + 1\<close> bytes. Lengths and capacities are 64-bit
  words, as \<open>size_t\<close> is. The allocator is the parameter \<open>malloc\<close>: it answers a
  request with \<open>None\<close> or with a block of that many bytes of unspecified content. The
  doubling loop of \<open>buf_append\<close> need not end, so it is a partial function. \<open>None\<close>
  is a call that does not return: the loop runs forever, or the call reads past \<open>data\<close>
  or writes through a null pointer, which C leaves undefined.
\<close>

record buf =
  b_data :: "bytes option"
  b_len :: u64
  b_cap :: u64

definition malloc_ok :: "(u64 \<Rightarrow> bytes option) \<Rightarrow> bool" where
  "malloc_ok malloc \<longleftrightarrow> (\<forall>n d. malloc n = Some d \<longrightarrow> length d = unat n)"

definition strlen :: "bytes \<Rightarrow> nat" where
  "strlen s = length (takeWhile (\<lambda>c. c \<noteq> 0) s)"

text \<open>\<open>memcpy (dst + off, src, n)\<close> on a block.\<close>

definition memcpy_at :: "bytes \<Rightarrow> nat \<Rightarrow> bytes \<Rightarrow> bytes" where
  "memcpy_at d off src = take off d @ src @ drop (off + length src) d"

text \<open>\<open>while (cap <= needed) cap *= 2\<close>\<close>

partial_function (option) buf_grow_cap :: "u64 \<Rightarrow> u64 \<Rightarrow> u64 option" where
  "buf_grow_cap needed cap = (if cap \<le> needed then buf_grow_cap needed (cap * 2) else Some cap)"

definition buf_append :: "(u64 \<Rightarrow> bytes option) \<Rightarrow> buf \<Rightarrow> bytes \<Rightarrow> int \<Rightarrow> (bool \<times> buf) option" where
  "buf_append malloc b data len0 =
     (let len = (if len0 < 0 then strlen data else nat len0);
          needed = b_len b + of_nat len in
      if length data < len then None
      else if needed \<ge> b_cap b then
        (case buf_grow_cap needed (if b_cap b \<noteq> 0 then b_cap b else 64) of
           None \<Rightarrow> None
         | Some cap \<Rightarrow>
             (case malloc (cap + 1) of
                None \<Rightarrow> Some (False, b)
              | Some ndata \<Rightarrow>
                  (let nd = (case b_data b of None \<Rightarrow> ndata
                             | Some d \<Rightarrow> memcpy_at ndata 0 (take (unat (b_len b)) d));
                       nd' = memcpy_at nd (unat (b_len b)) (take len data)
                   in Some (True, \<lparr>b_data = Some (nd'[unat needed := 0]), b_len = needed, b_cap = cap\<rparr>))))
      else
        (case b_data b of
           None \<Rightarrow> None
         | Some d \<Rightarrow>
             (let d' = memcpy_at d (unat (b_len b)) (take len data)
              in Some (True, b\<lparr>b_data := Some (d'[unat needed := 0]), b_len := needed\<rparr>))))"

definition buf_append_byte :: "(u64 \<Rightarrow> bytes option) \<Rightarrow> buf \<Rightarrow> u8 \<Rightarrow> (bool \<times> buf) option" where
  "buf_append_byte malloc b ch =
     (if b_len b < b_cap b then
        (case b_data b of
           None \<Rightarrow> None
         | Some d \<Rightarrow> Some (True, b\<lparr>b_data := Some (d[unat (b_len b) := ch, unat (b_len b) + 1 := 0]),
                                 b_len := b_len b + 1\<rparr>))
      else buf_append malloc b [ch] 1)"

definition buf_clear :: buf where
  "buf_clear = \<lparr>b_data = None, b_len = 0, b_cap = 0\<rparr>"

section \<open>Well-formed buffers and what they hold\<close>

definition pow2 :: "u64 \<Rightarrow> bool" where
  "pow2 c \<longleftrightarrow> (\<exists>k < 64. c = 2 ^ k)"

definition buf_ok :: "buf \<Rightarrow> bool" where
  "buf_ok b \<longleftrightarrow>
     (case b_data b of
        None \<Rightarrow> b_len b = 0 \<and> b_cap b = 0
      | Some d \<Rightarrow> length d = unat (b_cap b) + 1 \<and> b_len b \<le> b_cap b \<and> pow2 (b_cap b) \<and>
                  d ! unat (b_len b) = 0)"

definition buf_contents :: "buf \<Rightarrow> bytes" where
  "buf_contents b = (case b_data b of None \<Rightarrow> [] | Some d \<Rightarrow> take (unat (b_len b)) d)"

lemma buf_clear_ok: "buf_ok buf_clear \<and> buf_contents buf_clear = []"
  by (simp add: buf_clear_def buf_ok_def buf_contents_def)

section \<open>The doubling loop\<close>

lemma unat_pow2: "k < 64 \<Longrightarrow> unat ((2::u64) ^ k) = 2 ^ k"
proof -
  assume "k < 64"
  then have "(2::nat) ^ k < 2 ^ 64" by (intro power_strict_increasing) auto
  moreover have "(2::u64) ^ k = of_nat (2 ^ k)" by simp
  ultimately show ?thesis by (simp only: unat_of_nat) simp
qed

lemma pow2_bounds: "pow2 c \<Longrightarrow> 0 < unat c \<and> unat c \<le> 2 ^ 63"
proof -
  assume "pow2 c"
  then obtain k where k: "k < 64" "c = 2 ^ k" by (auto simp: pow2_def)
  have "(2::nat) ^ k \<le> 2 ^ 63" using k(1) by (intro power_increasing) auto
  with k show ?thesis by (simp add: unat_pow2)
qed

lemma buf_grow_cap_enough_aux:
  assumes "needed < 2 ^ 63" and "m < 64"
  shows "\<exists>c. buf_grow_cap needed (2 ^ (63 - m)) = Some c \<and> needed < c \<and> pow2 c \<and> 2 ^ (63 - m) \<le> c"
  using assms(2)
proof (induction m)
  case 0
  have "pow2 (2 ^ 63)" unfolding pow2_def by (intro exI [of _ 63]) simp
  with assms(1) show ?case by (subst buf_grow_cap.simps) auto
next
  case (Suc m)
  let ?c = "2 ^ (63 - Suc m) :: u64"
  have dbl: "?c * 2 = 2 ^ (63 - m)"
  proof -
    have "63 - m = Suc (63 - Suc m)" using Suc.prems by simp
    then show ?thesis by (simp add: mult.commute)
  qed
  have le: "?c \<le> 2 ^ (63 - m)"
    using Suc.prems by (simp add: word_le_nat_alt unat_pow2)
  show ?case
  proof (cases "?c \<le> needed")
    case True
    obtain c where "buf_grow_cap needed (2 ^ (63 - m)) = Some c" "needed < c" "pow2 c" "2 ^ (63 - m) \<le> c"
      using Suc by force
    with True dbl le show ?thesis by (subst buf_grow_cap.simps) (auto intro: order_trans)
  next
    case False
    have "pow2 ?c" unfolding pow2_def using Suc.prems by (intro exI [of _ "63 - Suc m"]) simp
    with False show ?thesis by (subst buf_grow_cap.simps) auto
  qed
qed

lemma buf_grow_cap_enough:
  assumes "needed < 2 ^ 63" and "pow2 cap"
  shows "\<exists>c. buf_grow_cap needed cap = Some c \<and> needed < c \<and> pow2 c \<and> cap \<le> c"
proof -
  obtain k where k: "k < 64" "cap = 2 ^ k" using assms(2) by (auto simp: pow2_def)
  with buf_grow_cap_enough_aux [OF assms(1), of "63 - k"] show ?thesis by simp
qed

lemma pow2_double: "pow2 cap \<or> cap = 0 \<Longrightarrow> pow2 (cap * 2) \<or> cap * 2 = 0"
proof -
  assume "pow2 cap \<or> cap = 0"
  moreover have "pow2 (2 ^ k * 2) \<or> (2 ^ k * 2 :: u64) = 0" if "k < 64" for k
  proof (cases "k = 63")
    case False
    with that have "Suc k < 64" by simp
    then show ?thesis unfolding pow2_def by (intro disjI1 exI [of _ "Suc k"]) (simp add: mult.commute)
  qed simp
  ultimately show ?thesis by (auto simp: pow2_def)
qed

lemma buf_grow_cap_diverges:
  assumes big: "2 ^ 63 \<le> needed" and cap: "pow2 cap \<or> cap = 0"
  shows "buf_grow_cap needed cap = None"
proof -
  have "\<not> (2 ^ 63 \<le> needed \<and> (pow2 cap \<or> cap = 0))" if "buf_grow_cap needed cap = Some c" for c
  proof (rule buf_grow_cap.raw_induct
      [where P = "\<lambda>needed cap r. \<not> (2 ^ 63 \<le> needed \<and> (pow2 cap \<or> cap = 0))", OF _ that])
    fix f needed cap r
    assume IH: "\<And>needed cap r. f needed cap = Some r \<Longrightarrow> \<not> (2 ^ 63 \<le> needed \<and> (pow2 cap \<or> cap = 0))"
      and eq: "(if cap \<le> needed then f needed (cap * 2) else Some cap) = Some r"
    show "\<not> (2 ^ 63 \<le> needed \<and> (pow2 cap \<or> cap = 0))"
    proof
      assume h: "2 ^ 63 \<le> needed \<and> (pow2 cap \<or> cap = 0)"
      have "cap \<le> 2 ^ 63"
        using h pow2_bounds [of cap] by (auto simp: word_le_nat_alt)
      with h have "cap \<le> needed" by auto
      with eq have "f needed (cap * 2) = Some r" by simp
      from IH [OF this] h pow2_double show False by blast
    qed
  qed
  with big cap show ?thesis by (cases "buf_grow_cap needed cap") auto
qed

section \<open>Appending\<close>

lemma length_memcpy_at [simp]:
  "off + length src \<le> length d \<Longrightarrow> length (memcpy_at d off src) = length d"
  by (simp add: memcpy_at_def)

lemma take_memcpy_at:
  "off \<le> length d \<Longrightarrow> take (off + length src) (memcpy_at d off src) = take off d @ src"
  by (simp add: memcpy_at_def)

lemma take_memcpy_at0: "take (length src) (memcpy_at d 0 src) = src"
  by (simp add: memcpy_at_def)

lemma buf_ok_len: "buf_ok b \<Longrightarrow> b_data b = Some d \<Longrightarrow> unat (b_len b) \<le> unat (b_cap b)"
  by (simp add: buf_ok_def word_le_nat_alt)

lemma unat_needed:
  "unat (l::u64) + n < 2 ^ 63 \<Longrightarrow> unat (l + of_nat n) = unat l + n"
  by (simp add: unat_word_ariths unat_of_nat)

text \<open>The branch that reallocates.\<close>

lemma buf_append_grow_ok:
  fixes b data n cap nd
  defines "needed \<equiv> b_len b + of_nat n"
  defines "old \<equiv> (case b_data b of None \<Rightarrow> nd | Some d \<Rightarrow> memcpy_at nd 0 (take (unat (b_len b)) d))"
  defines "b' \<equiv> \<lparr>b_data = Some ((memcpy_at old (unat (b_len b)) (take n data))[unat needed := 0]),
                 b_len = needed, b_cap = cap\<rparr>"
  assumes b: "buf_ok b" and n: "n \<le> length data" "unat (b_len b) + n < 2 ^ 63"
    and cap: "needed < cap" "pow2 cap" and nd: "length nd = unat (cap + 1)"
  shows "buf_ok b' \<and> buf_contents b' = buf_contents b @ take n data"
proof -
  have need: "unat needed = unat (b_len b) + n" using n by (simp add: needed_def unat_needed)
  have lt: "unat needed < unat cap" using cap(1) by (simp add: word_less_nat_alt)
  have nd': "length nd = unat cap + 1" using nd pow2_bounds [OF cap(2)] by (simp add: unat_word_ariths)
  have old: "length old = length nd \<and> take (unat (b_len b)) old = buf_contents b"
  proof (cases "b_data b")
    case None
    with b show ?thesis by (simp add: old_def buf_ok_def buf_contents_def)
  next
    case (Some d)
    with b buf_ok_len [OF b Some] have l: "length (take (unat (b_len b)) d) = unat (b_len b)"
      by (simp add: buf_ok_def)
    with Some need lt nd' show ?thesis
      using take_memcpy_at0 [of "take (unat (b_len b)) d" nd]
      by (simp add: old_def buf_contents_def)
  qed
  have len: "length (memcpy_at old (unat (b_len b)) (take n data)) = unat cap + 1"
    using old need lt nd' n by (simp add: min_def)
  have "take (unat needed) (memcpy_at old (unat (b_len b)) (take n data)) = buf_contents b @ take n data"
    using take_memcpy_at [of "unat (b_len b)" old "take n data"] old need lt nd' n by (simp add: min_absorb2)
  with len lt cap(2) show ?thesis
    by (simp add: b'_def buf_ok_def buf_contents_def word_le_nat_alt)
qed

text \<open>The branch that writes in place.\<close>

lemma buf_append_inplace_ok:
  fixes b data n d
  defines "needed \<equiv> b_len b + of_nat n"
  defines "b' \<equiv> b\<lparr>b_data := Some ((memcpy_at d (unat (b_len b)) (take n data))[unat needed := 0]),
                  b_len := needed\<rparr>"
  assumes b: "buf_ok b" "b_data b = Some d" and n: "n \<le> length data" "unat (b_len b) + n < 2 ^ 63"
    and fits: "needed < b_cap b"
  shows "buf_ok b' \<and> buf_contents b' = buf_contents b @ take n data"
proof -
  have need: "unat needed = unat (b_len b) + n" using n by (simp add: needed_def unat_needed)
  have lt: "unat needed < unat (b_cap b)" using fits by (simp add: word_less_nat_alt)
  have len: "length (memcpy_at d (unat (b_len b)) (take n data)) = unat (b_cap b) + 1"
    using b need lt n by (simp add: buf_ok_def min_def)
  have "take (unat needed) (memcpy_at d (unat (b_len b)) (take n data)) = buf_contents b @ take n data"
    using take_memcpy_at [of "unat (b_len b)" d "take n data"] b need lt n
    by (simp add: buf_ok_def buf_contents_def min_absorb2)
  with len lt b show ?thesis
    by (simp add: b'_def buf_ok_def buf_contents_def word_le_nat_alt)
qed

definition append_len :: "bytes \<Rightarrow> int \<Rightarrow> nat" where
  "append_len data len0 = (if len0 < 0 then strlen data else nat len0)"

definition buf_appended :: "(u64 \<Rightarrow> bytes option) \<Rightarrow> buf \<Rightarrow> bytes \<Rightarrow> (bool \<times> buf) option \<Rightarrow> bool" where
  "buf_appended malloc b added r \<longleftrightarrow>
     (\<exists>b'. r = Some (True, b') \<and> buf_ok b' \<and> buf_contents b' = buf_contents b @ added) \<or>
     (r = Some (False, b) \<and> (\<exists>n. malloc n = None))"

lemma pow2_64: "pow2 64"
  unfolding pow2_def by (intro exI [of _ 6]) simp

lemma buf_append_meets:
  assumes m: "malloc_ok malloc" and b: "buf_ok b"
    and n: "append_len data len0 \<le> length data" "unat (b_len b) + append_len data len0 < 2 ^ 63"
  shows "buf_appended malloc b (take (append_len data len0) data) (buf_append malloc b data len0)"
proof -
  let ?n = "append_len data len0" let ?need = "b_len b + of_nat ?n"
  let ?cap0 = "if b_cap b \<noteq> 0 then b_cap b else 64"
  have cap0: "pow2 ?cap0"
    using b pow2_64 pow2_bounds [of "b_cap b"] by (auto simp: buf_ok_def split: option.splits)
  have "?need < 2 ^ 63" using n(2) unat_needed [of "b_len b" ?n] by (simp add: word_less_nat_alt)
  from buf_grow_cap_enough [OF this cap0] obtain cap
    where g: "buf_grow_cap ?need ?cap0 = Some cap" "?need < cap" "pow2 cap" by blast
  show ?thesis
  proof (cases "?need \<ge> b_cap b")
    case True
    show ?thesis
    proof (cases "malloc (cap + 1)")
      case None
      with True g n show ?thesis
        by (auto simp: buf_appended_def buf_append_def Let_def append_len_def)
    next
      case (Some nd)
      then have "length nd = unat (cap + 1)" using m by (simp add: malloc_ok_def)
      from buf_append_grow_ok [OF b n g(2,3) this] True g n Some show ?thesis
        by (auto simp: buf_appended_def buf_append_def Let_def append_len_def split: if_splits)
    qed
  next
    case False
    then obtain d where d: "b_data b = Some d" using b by (auto simp: buf_ok_def split: option.splits)
    from buf_append_inplace_ok [OF b d n] False d n show ?thesis
      by (auto simp: buf_appended_def buf_append_def Let_def append_len_def not_le split: if_splits)
  qed
qed

section \<open>The buffer's promises\<close>

text \<open>C23. Appending to a well-formed buffer of less than \<open>2 ^ 63\<close> bytes always returns: it
  reports success with exactly the given bytes (those up to the first NUL for a negative length)
  added at the end, NUL-terminated and within the allocated block, or it reports failure after a
  refused allocation and leaves the buffer as it was.\<close>

theorem buf_append_correct:
  assumes "malloc_ok malloc" and "buf_ok b"
    and "append_len data len0 \<le> length data" and "unat (b_len b) + append_len data len0 < 2 ^ 63"
  shows "buf_appended malloc b (take (append_len data len0) data) (buf_append malloc b data len0)"
  using assms by (rule buf_append_meets)

theorem buf_append_correct_witness:
  "buf_appended (\<lambda>n. Some (replicate (unat n) 0xAA)) buf_clear [104, 105]
     (buf_append (\<lambda>n. Some (replicate (unat n) 0xAA)) buf_clear [104, 105, 0] (-1))"
  using buf_append_correct [of "\<lambda>n. Some (replicate (unat n) 0xAA)" buf_clear "[104, 105, 0]" "-1"]
  by (simp add: malloc_ok_def buf_clear_ok append_len_def strlen_def) (simp add: buf_clear_def)

text \<open>Appending one byte has the contract of appending a one-byte string: on the fast path
  that stores into the spare capacity as well as on the slow path that grows the buffer.\<close>

theorem buf_append_byte_correct:
  assumes m: "malloc_ok malloc" and b: "buf_ok b" and l: "unat (b_len b) + 1 < 2 ^ 63"
  shows "buf_appended malloc b [ch] (buf_append_byte malloc b ch)"
proof (cases "b_len b < b_cap b")
  case False
  then show ?thesis
    using buf_append_meets [OF m b, of "[ch]" 1] l by (simp add: buf_append_byte_def append_len_def)
next
  case True
  with b obtain d where d: "b_data b = Some d" by (auto simp: buf_ok_def split: option.splits)
  have lt: "unat (b_len b) < unat (b_cap b)" using True by (simp add: word_less_nat_alt)
  have len: "length d = unat (b_cap b) + 1" using b d by (simp add: buf_ok_def)
  have s: "unat (b_len b + 1) = unat (b_len b) + 1" using unat_needed [of "b_len b" 1] l by simp
  have "take (unat (b_len b) + 1) (d[unat (b_len b) := ch]) = take (unat (b_len b)) d @ [ch]"
    using lt len by (simp add: take_Suc_conv_app_nth)
  with True d b lt len s show ?thesis
    by (simp add: buf_appended_def buf_append_byte_def buf_ok_def buf_contents_def word_le_nat_alt)
qed

theorem buf_append_byte_correct_witness:
  "buf_appended (\<lambda>n. None) buf_clear [65] (buf_append_byte (\<lambda>n. None) buf_clear 65)"
  using buf_append_byte_correct [of "\<lambda>n. None" buf_clear 65]
  by (simp add: malloc_ok_def buf_clear_ok) (simp add: buf_clear_def)

text \<open>The growth loop has no overflow check: once the needed length reaches
  \<open>2 ^ 63\<close>, the doubled capacity wraps to 0 and \<open>buf_append\<close> never returns.\<close>

theorem buf_append_overflow_diverges:
  assumes b: "buf_ok b" and n: "append_len data len0 \<le> length data"
    and big: "2 ^ 63 \<le> b_len b + of_nat (append_len data len0)"
    and full: "b_cap b \<le> b_len b + of_nat (append_len data len0)"
  shows "buf_append malloc b data len0 = None"
proof -
  have "pow2 (if b_cap b \<noteq> 0 then b_cap b else 64)"
    using b pow2_64 pow2_bounds [of "b_cap b"] by (auto simp: buf_ok_def split: option.splits)
  then have "buf_grow_cap (b_len b + of_nat (append_len data len0))
      (if b_cap b \<noteq> 0 then b_cap b else 64) = None"
    using big by (intro buf_grow_cap_diverges) auto
  with n full show ?thesis by (simp add: buf_append_def Let_def append_len_def)
qed

definition huge_buf :: buf where
  "huge_buf = \<lparr>b_data = Some (replicate (2 ^ 63 + 1) 0), b_len = 2 ^ 63, b_cap = 2 ^ 63\<rparr>"

theorem buf_append_overflow_diverges_witness: "buf_append (\<lambda>n. Some (replicate (unat n) 0)) huge_buf [1] 1 = None"
proof -
  have "buf_ok huge_buf"
    using unat_pow2 [of 63] by (simp add: huge_buf_def buf_ok_def pow2_def)
       (intro exI [of _ 63], simp)
  then show ?thesis
    by (intro buf_append_overflow_diverges) (simp_all add: append_len_def huge_buf_def)
qed

end
