(* ===== verification/Channel.thy ===== *)
theory Channel
  imports Wait_Protocol Buf
begin

text \<open>
  Channels: the buffered ring at byte level, creation, send, receive and close with their FIFO lists
  of parked senders and receivers. The ring is interpreted as a FIFO queue; the channel as a whole is
  shown to deliver what was sent in order, and to keep the invariants its comments state. A pointer
  names an object, different pointers different objects; \<open>mem\<close> holds the bytes of each.
\<close>

section \<open>The ring\<close>

text \<open>One element: \<open>elem_sz\<close> bytes read through a pointer.\<close>

definition load_elem :: "nat \<Rightarrow> bytes \<Rightarrow> bytes" where
  "load_elem es obj = take es obj"

text \<open>\<open>memcpy\<close> to the start of the object at address \<open>p\<close>.\<close>

definition store_elem :: "ptr \<Rightarrow> bytes \<Rightarrow> rt \<Rightarrow> rt" where
  "store_elem p bs s = s\<lparr>mem := (mem s)(p := memcpy_at (mem s p) 0 bs)\<rparr>"

text \<open>Ring indices are \<open>size_t\<close>: sums and products are taken modulo \<open>2 ^ 64\<close>.\<close>

definition s_chan_buf_push :: "chan \<Rightarrow> bytes \<Rightarrow> chan" where
  "s_chan_buf_push ch v =
     (let idx = ((ch_head ch + ch_count ch) mod 2 ^ 64) mod buf_sz ch in
      ch\<lparr>ch_buf := memcpy_at (ch_buf ch) ((idx * elem_sz ch) mod 2 ^ 64) v, ch_count := ch_count ch + 1\<rparr>)"

definition s_chan_buf_pop :: "chan \<Rightarrow> bytes \<times> chan" where
  "s_chan_buf_pop ch =
     (take (elem_sz ch) (drop ((ch_head ch * elem_sz ch) mod 2 ^ 64) (ch_buf ch)),
      ch\<lparr>ch_head := ((ch_head ch + 1) mod 2 ^ 64) mod buf_sz ch, ch_count := ch_count ch - 1\<rparr>)"

text \<open>A channel as \<open>suspenders_chan_create\<close> makes it and the operations keep it. No object is larger
  than \<open>PTRDIFF_MAX\<close>, so the ring has fewer than \<open>2 ^ 63\<close> bytes.\<close>

definition chan_wf :: "chan \<Rightarrow> bool" where
  "chan_wf ch \<longleftrightarrow> 0 < elem_sz ch \<and> length (ch_buf ch) = buf_sz ch * elem_sz ch \<and>
     buf_sz ch * elem_sz ch < 2 ^ 63 \<and> ch_count ch \<le> buf_sz ch \<and> (0 < buf_sz ch \<longrightarrow> ch_head ch < buf_sz ch)"

definition slot :: "chan \<Rightarrow> nat \<Rightarrow> bytes" where
  "slot ch i = take (elem_sz ch) (drop (i * elem_sz ch) (ch_buf ch))"

definition chan_contents :: "chan \<Rightarrow> bytes list" where
  "chan_contents ch = map (\<lambda>i. slot ch ((ch_head ch + i) mod buf_sz ch)) [0..<ch_count ch]"

definition chan_room :: "chan \<Rightarrow> bytes \<Rightarrow> bool" where
  "chan_room ch v \<longleftrightarrow> ch_count ch < buf_sz ch \<and> length v = elem_sz ch"

definition chan_take :: "chan \<Rightarrow> bytes option \<times> chan" where
  "chan_take ch = (if 0 < ch_count ch then (let (v, ch') = s_chan_buf_pop ch in (Some v, ch')) else (None, ch))"

lemma slot_bound: "i < n \<Longrightarrow> i * e + e \<le> n * (e :: nat)"
  by (metis Suc_leI mult_Suc mult_le_mono1 add.commute)

lemma chan_buf_sz_small: "chan_wf ch \<Longrightarrow> buf_sz ch < 2 ^ 63"
proof -
  assume "chan_wf ch"
  then have "0 < elem_sz ch" "buf_sz ch * elem_sz ch < 2 ^ 63" by (auto simp: chan_wf_def)
  then show ?thesis by (cases "elem_sz ch") auto
qed

lemma chan_index_exact:
  assumes "chan_wf ch" and "0 < buf_sz ch"
  shows "(ch_head ch + ch_count ch) mod 2 ^ 64 = ch_head ch + ch_count ch"
    and "(ch_head ch + 1) mod 2 ^ 64 = ch_head ch + 1"
    and "i < buf_sz ch \<Longrightarrow> (i * elem_sz ch) mod 2 ^ 64 = i * elem_sz ch"
proof -
  have b: "buf_sz ch < 2 ^ 63" "ch_head ch < buf_sz ch" "ch_count ch \<le> buf_sz ch"
    "buf_sz ch * elem_sz ch < 2 ^ 63"
    using assms chan_buf_sz_small by (auto simp: chan_wf_def)
  then show "(ch_head ch + ch_count ch) mod 2 ^ 64 = ch_head ch + ch_count ch"
    "(ch_head ch + 1) mod 2 ^ 64 = ch_head ch + 1" by auto
  show "(i * elem_sz ch) mod 2 ^ 64 = i * elem_sz ch" if "i < buf_sz ch"
    using slot_bound [OF that, of "elem_sz ch"] b(4) by simp
qed

lemma slot_memcpy:
  assumes "length (ch_buf ch) = buf_sz ch * elem_sz ch" and "i < buf_sz ch" and "j < buf_sz ch"
    and "length v = elem_sz ch"
  shows "slot (ch\<lparr>ch_buf := memcpy_at (ch_buf ch) (i * elem_sz ch) v, ch_count := c\<rparr>) j = (if j = i then v else slot ch j)"
proof -
  let ?e = "elem_sz ch"
  have bi: "i * ?e + ?e \<le> length (ch_buf ch)" and bj: "j * ?e + ?e \<le> length (ch_buf ch)"
    using slot_bound assms by auto
  have len: "length (memcpy_at (ch_buf ch) (i * ?e) v) = length (ch_buf ch)"
    using bi assms(4) by (intro length_memcpy_at) simp
  have m: "memcpy_at (ch_buf ch) (i * ?e) v ! k = (if i * ?e \<le> k \<and> k < i * ?e + ?e then v ! (k - i * ?e) else ch_buf ch ! k)"
    if "k < length (ch_buf ch)" for k
    using that bi assms(4) by (auto simp: memcpy_at_def nth_append)
  show ?thesis
  proof (rule nth_equalityI)
    show "length (slot (ch\<lparr>ch_buf := memcpy_at (ch_buf ch) (i * ?e) v, ch_count := c\<rparr>) j) = length (if j = i then v else slot ch j)"
      using len bj assms(4) by (simp add: slot_def)
    fix k assume "k < length (slot (ch\<lparr>ch_buf := memcpy_at (ch_buf ch) (i * ?e) v, ch_count := c\<rparr>) j)"
    then have k: "k < ?e" using len bj by (simp add: slot_def)
    have sep: "i * ?e \<le> j * ?e + k \<and> j * ?e + k < i * ?e + ?e \<longleftrightarrow> j = i"
    proof -
      have "j < i \<Longrightarrow> j * ?e + k < i * ?e" "i < j \<Longrightarrow> i * ?e + ?e \<le> j * ?e + k"
        using slot_bound [of j i ?e] slot_bound [of i j ?e] k by linarith+
      then show ?thesis using k by (metis le_add1 linorder_not_less nat_neq_iff add_less_cancel_left)
    qed
    show "slot (ch\<lparr>ch_buf := memcpy_at (ch_buf ch) (i * ?e) v, ch_count := c\<rparr>) j ! k = (if j = i then v else slot ch j) ! k"
      using k m [of "j * ?e + k"] sep bj len by (auto simp: slot_def)
  qed
qed

lemma chan_push_effect:
  assumes "chan_wf ch" and "chan_room ch v"
  shows "chan_wf (s_chan_buf_push ch v)" and "chan_contents (s_chan_buf_push ch v) = chan_contents ch @ [v]"
proof -
  let ?i = "(ch_head ch + ch_count ch) mod buf_sz ch"
  have pos: "0 < buf_sz ch" and c: "ch_count ch < buf_sz ch" and v: "length v = elem_sz ch"
    using assms(2) by (auto simp: chan_room_def)
  have i: "?i < buf_sz ch" using pos by simp
  have p: "s_chan_buf_push ch v = ch\<lparr>ch_buf := memcpy_at (ch_buf ch) (?i * elem_sz ch) v, ch_count := ch_count ch + 1\<rparr>"
    using chan_index_exact [OF assms(1) pos] i by (simp add: s_chan_buf_push_def Let_def)
  have len: "length (ch_buf ch) = buf_sz ch * elem_sz ch" using assms(1) by (simp add: chan_wf_def)
  have bnd: "?i * elem_sz ch + length v \<le> length (ch_buf ch)" using slot_bound [OF i, of "elem_sz ch"] len v by simp
  show "chan_wf (s_chan_buf_push ch v)"
    unfolding p using assms(1) c length_memcpy_at [OF bnd] by (simp add: chan_wf_def)
  have ne: "(ch_head ch + k) mod buf_sz ch \<noteq> ?i" if "k < ch_count ch" for k
  proof
    assume "(ch_head ch + k) mod buf_sz ch = ?i"
    then have "buf_sz ch dvd ch_count ch - k" using that by (metis add_diff_cancel_left less_imp_le_nat mod_eq_dvd_iff_nat add_le_mono le_refl)
    moreover have "0 < ch_count ch - k" "ch_count ch - k < buf_sz ch" using that c by auto
    ultimately show False using nat_dvd_not_less by blast
  qed
  have "slot (s_chan_buf_push ch v) ((ch_head ch + k) mod buf_sz ch) =
      (if k = ch_count ch then v else slot ch ((ch_head ch + k) mod buf_sz ch))" if "k \<le> ch_count ch" for k
    unfolding p using slot_memcpy [OF len i _ v, of "(ch_head ch + k) mod buf_sz ch"] pos ne [of k] that by auto
  then show "chan_contents (s_chan_buf_push ch v) = chan_contents ch @ [v]"
    unfolding chan_contents_def by (simp add: p)
qed

lemma chan_pop_effect:
  assumes "chan_wf ch" and "chan_contents ch = x # xs"
  shows "\<exists>ch'. chan_take ch = (Some x, ch') \<and> chan_wf ch' \<and> chan_contents ch' = xs"
proof -
  have n: "0 < ch_count ch" using assms(2) by (cases "ch_count ch") (auto simp: chan_contents_def)
  then have pos: "0 < buf_sz ch" using assms(1) by (auto simp: chan_wf_def)
  have h: "ch_head ch < buf_sz ch" using assms(1) pos by (simp add: chan_wf_def)
  let ?ch = "ch\<lparr>ch_head := (ch_head ch + 1) mod buf_sz ch, ch_count := ch_count ch - 1\<rparr>"
  have t: "chan_take ch = (Some (slot ch (ch_head ch)), ?ch)"
    using n h chan_index_exact [OF assms(1) pos] by (simp add: chan_take_def s_chan_buf_pop_def slot_def)
  have split: "[0..<ch_count ch] = 0 # map Suc [0..<ch_count ch - 1]"
    using n by (metis Suc_diff_1 map_Suc_upt upt_conv_Cons)
  have "slot ?ch j = slot ch j" for j by (simp add: slot_def)
  then have "chan_contents ch = slot ch (ch_head ch) # chan_contents ?ch"
    using h by (simp add: chan_contents_def split mod_add_left_eq)
  with assms(2) t have "chan_take ch = (Some x, ?ch)" "chan_contents ?ch = xs" by auto
  moreover have "chan_wf ?ch" using assms(1) pos by (auto simp: chan_wf_def)
  ultimately show ?thesis by blast
qed

interpretation ring: fifo chan_wf chan_contents chan_room s_chan_buf_push chan_take
proof unfold_locales
  show "chan_take q = (None, q)" if "chan_contents q = []" for q
    using that by (auto simp: chan_contents_def chan_take_def)
qed (use chan_push_effect chan_pop_effect in auto)

section \<open>Operations\<close>

text \<open>\<open>heap_alloc\<close> is the thread heap's aligned allocation: the address and the bytes of a block of
  the requested size, or \<open>None\<close>. \<open>hdr\<close> is the size of \<open>suspenders_chan_t\<close>; the ring follows it.\<close>

definition suspenders_chan_create ::
    "(u64 \<Rightarrow> (nat \<times> bytes) option) \<Rightarrow> u64 \<Rightarrow> u64 \<Rightarrow> u64 \<Rightarrow> rt \<Rightarrow> nat option \<times> rt" where
  "suspenders_chan_create heap_alloc hdr es bs s =
     (if es = 0 then (None, set_errno SUSPENDERS_INVAL s)
      else
        (case heap_alloc (hdr + es * bs) of
           None \<Rightarrow> (None, set_errno SUSPENDERS_NOMEM s)
         | Some (a, block) \<Rightarrow>
             (Some a, s\<lparr>chans := (chans s)(a := \<lparr>elem_sz = unat es, buf_sz = unat bs, ch_count = 0, ch_head = 0,
                          ch_buf = (if bs \<noteq> 0 then drop (unat hdr) block else []), closed = False\<rparr>),
                       wlists := (wlists s)(LSenders a := [], LReceivers a := [])\<rparr>)))"

text \<open>Pop waiters until one is usable: a plain node, or a select node that wins its select's
  compare-and-swap. Losers leave the list and are told so.\<close>

fun take_waiter_loop :: "list_ref \<Rightarrow> node_ref list \<Rightarrow> rt \<Rightarrow> node_ref option \<times> rt" where
  "take_waiter_loop l [] s = (None, s)"
| "take_waiter_loop l (n # ns) s =
     (let s1 = upd_list l (\<lambda>_. ns) s in
      case select_rec (nodes s n) of
        None \<Rightarrow> (Some n, s1)
      | Some r \<Rightarrow>
          if winner s r = -1 then (Some n, s1\<lparr>winner := (winner s)(r := select_idx (nodes s n))\<rparr>)
          else take_waiter_loop l ns (upd_node n (\<lambda>x. x\<lparr>wait_list := None\<rparr>) s1))"

definition s_chan_take_waiter :: "list_ref \<Rightarrow> rt \<Rightarrow> node_ref option \<times> rt" where
  "s_chan_take_waiter l s = take_waiter_loop l (wlists s l) s"

definition upd_chan :: "nat \<Rightarrow> (chan \<Rightarrow> chan) \<Rightarrow> rt \<Rightarrow> rt" where
  [rt_simps]: "upd_chan ch f s = s\<lparr>chans := (chans s)(ch := f (chans s ch))\<rparr>"

text \<open>The value a pointer holds for a channel.\<close>

definition elem_at :: "nat \<Rightarrow> ptr \<Rightarrow> rt \<Rightarrow> bytes" where
  "elem_at ch p s = load_elem (elem_sz (chans s ch)) (mem s p)"

text \<open>The part of \<open>s_chan_send_impl\<close> from the acquisition of the channel's lock.\<close>

definition chan_send_locked :: "nat \<Rightarrow> ptr \<Rightarrow> u64 \<Rightarrow> bool \<Rightarrow> bool \<Rightarrow> rt \<Rightarrow> int option \<times> rt" where
  "chan_send_locked ch val dl try_only can_block s =
     (if closed (chans s ch) then fail SUSPENDERS_CLOSED s
      else
        (case s_chan_take_waiter (LReceivers ch) s of
           (Some rx, s1) \<Rightarrow>
             (let s2 = store_elem (data_ptr (nodes s1 rx)) (elem_at ch val s1) s1 in
              (Some SUSPENDERS_OK, s_wait_finish_wake rx (s_wait_grant rx SUSPENDERS_OK s2)))
         | (None, s1) \<Rightarrow>
             if buf_sz (chans s1 ch) \<noteq> 0 \<and> ch_count (chans s1 ch) < buf_sz (chans s1 ch)
             then (Some SUSPENDERS_OK, upd_chan ch (\<lambda>c. s_chan_buf_push c (elem_at ch val s1)) s1)
             else if \<not> can_block then fail (if try_only then SUSPENDERS_FULL else SUSPENDERS_PERM) s1
             else s_wait_block_dl dl (s_wait_park (LSenders ch) (KChan ch) val s1)))"

definition s_chan_send_impl :: "nat option \<Rightarrow> ptr \<Rightarrow> u64 \<Rightarrow> bool \<Rightarrow> rt \<Rightarrow> int option \<times> rt" where
  "s_chan_send_impl cho val dl try_only s =
     (case cho of
        None \<Rightarrow> fail SUSPENDERS_INVAL s
      | Some ch \<Rightarrow>
          if val = 0 then fail SUSPENDERS_INVAL s
          else
            (let can_block = (\<not> try_only \<and> s_io_is_cr s);
                 (pre, s1) = (if can_block then s_pre_block (the (running s)) s else (0, s))
             in if pre \<noteq> 0 then (Some pre, s1) else chan_send_locked ch val dl try_only can_block s1))"

definition chan_recv_locked :: "nat \<Rightarrow> ptr \<Rightarrow> u64 \<Rightarrow> bool \<Rightarrow> bool \<Rightarrow> rt \<Rightarrow> int option \<times> rt" where
  "chan_recv_locked ch out dl try_only can_block s =
     (if buf_sz (chans s ch) \<noteq> 0 \<and> ch_count (chans s ch) > 0
      then
        (let (v, c') = s_chan_buf_pop (chans s ch);
             s1 = upd_chan ch (\<lambda>_. c') (store_elem out v s)
         in case s_chan_take_waiter (LSenders ch) s1 of
              (Some tx, s2) \<Rightarrow>
                (let s3 = upd_chan ch (\<lambda>c. s_chan_buf_push c (elem_at ch (data_ptr (nodes s2 tx)) s2)) s2 in
                 (Some SUSPENDERS_OK, s_wait_finish_wake tx (s_wait_grant tx SUSPENDERS_OK s3)))
            | (None, s2) \<Rightarrow> (Some SUSPENDERS_OK, s2))
      else
        (case s_chan_take_waiter (LSenders ch) s of
           (Some tx, s1) \<Rightarrow>
             (let s2 = store_elem out (elem_at ch (data_ptr (nodes s1 tx)) s1) s1 in
              (Some SUSPENDERS_OK, s_wait_finish_wake tx (s_wait_grant tx SUSPENDERS_OK s2)))
         | (None, s1) \<Rightarrow>
             if closed (chans s1 ch) then fail SUSPENDERS_CLOSED s1
             else if \<not> can_block then fail (if try_only then SUSPENDERS_EMPTY else SUSPENDERS_PERM) s1
             else s_wait_block_dl dl (s_wait_park (LReceivers ch) (KChan ch) out s1)))"

definition s_chan_recv_impl :: "nat option \<Rightarrow> ptr \<Rightarrow> u64 \<Rightarrow> bool \<Rightarrow> rt \<Rightarrow> int option \<times> rt" where
  "s_chan_recv_impl cho out dl try_only s =
     (case cho of
        None \<Rightarrow> fail SUSPENDERS_INVAL s
      | Some ch \<Rightarrow>
          if out = 0 then fail SUSPENDERS_INVAL s
          else
            (let can_block = (\<not> try_only \<and> s_io_is_cr s);
                 (pre, s1) = (if can_block then s_pre_block (the (running s)) s else (0, s))
             in if pre \<noteq> 0 then (Some pre, s1) else chan_recv_locked ch out dl try_only can_block s1))"

definition suspenders_chan_send :: "nat option \<Rightarrow> ptr \<Rightarrow> rt \<Rightarrow> int option \<times> rt" where
  "suspenders_chan_send ch val s = s_chan_send_impl ch val 0 False s"

definition suspenders_chan_send_dl :: "nat option \<Rightarrow> ptr \<Rightarrow> u64 \<Rightarrow> rt \<Rightarrow> int option \<times> rt" where
  "suspenders_chan_send_dl ch val dl s = s_chan_send_impl ch val dl False s"

definition suspenders_chan_try_send :: "nat option \<Rightarrow> ptr \<Rightarrow> rt \<Rightarrow> int option \<times> rt" where
  "suspenders_chan_try_send ch val s = s_chan_send_impl ch val 0 True s"

definition suspenders_chan_recv :: "nat option \<Rightarrow> ptr \<Rightarrow> rt \<Rightarrow> int option \<times> rt" where
  "suspenders_chan_recv ch out s = s_chan_recv_impl ch out 0 False s"

definition suspenders_chan_recv_dl :: "nat option \<Rightarrow> ptr \<Rightarrow> u64 \<Rightarrow> rt \<Rightarrow> int option \<times> rt" where
  "suspenders_chan_recv_dl ch out dl s = s_chan_recv_impl ch out dl False s"

definition suspenders_chan_try_recv :: "nat option \<Rightarrow> ptr \<Rightarrow> rt \<Rightarrow> int option \<times> rt" where
  "suspenders_chan_try_recv ch out s = s_chan_recv_impl ch out 0 True s"

section \<open>Taking a waiter\<close>

text \<open>A node that lost its select.\<close>

definition loser :: "rt \<Rightarrow> node_ref \<Rightarrow> bool" where
  "loser s n \<longleftrightarrow> (\<exists>r. select_rec (nodes s n) = Some r \<and> winner s r \<noteq> -1)"

definition unlist :: "node_ref list \<Rightarrow> (node_ref \<Rightarrow> wq_node) \<Rightarrow> node_ref \<Rightarrow> wq_node" where
  "unlist ls nd = (\<lambda>n. if n \<in> set ls then (nd n)\<lparr>wait_list := None\<rparr> else nd n)"

definition took :: "list_ref \<Rightarrow> rt \<Rightarrow> node_ref list \<Rightarrow> node_ref option \<Rightarrow> rt \<Rightarrow> bool" where
  "took l s ls r t \<longleftrightarrow> list_all (loser s) ls \<and>
     (case r of
        None \<Rightarrow> wlists s l = ls \<and> t = s\<lparr>wlists := (wlists s)(l := []), nodes := unlist ls (nodes s)\<rparr>
      | Some n \<Rightarrow> \<exists>rest. wlists s l = ls @ n # rest \<and> \<not> loser s n \<and>
          t = s\<lparr>wlists := (wlists s)(l := rest), nodes := unlist ls (nodes s),
                winner := (case select_rec (nodes s n) of None \<Rightarrow> winner s
                           | Some k \<Rightarrow> (winner s)(k := select_idx (nodes s n)))\<rparr>)"

lemma took_first:
  assumes "wlists s l = n # ns" and "\<not> loser s n"
  shows "\<exists>t. take_waiter_loop l (n # ns) s = (Some n, t) \<and> took l s [] (Some n) t"
proof (cases "select_rec (nodes s n)")
  case None
  with assms show ?thesis by (simp add: upd_list_def took_def unlist_def)
next
  case (Some k)
  with assms(2) have "winner s k = -1" by (simp add: loser_def)
  with Some assms show ?thesis by (simp add: upd_list_def took_def unlist_def)
qed

lemma took_skip:
  fixes s l n ns
  defines "u \<equiv> upd_node n (\<lambda>x. x\<lparr>wait_list := None\<rparr>) (upd_list l (\<lambda>_. ns) s)"
  assumes n: "wlists s l = n # ns" "loser s n" and t: "took l u ls r t"
  shows "took l s (n # ls) r t"
proof -
  have lo: "loser u = loser s" by (rule ext) (simp add: u_def loser_def upd_node_def upd_list_def)
  have un: "unlist ls (nodes u) = unlist (n # ls) (nodes s)"
    by (rule ext) (simp add: u_def unlist_def upd_node_def upd_list_def)
  have sel: "select_rec (nodes u m) = select_rec (nodes s m)" "select_idx (nodes u m) = select_idx (nodes s m)" for m
    by (simp_all add: u_def upd_node_def upd_list_def)
  have fu: "wlists u l = ns" "winner u = winner s" "(wlists u)(l := x) = (wlists s)(l := x)" for x
    by (simp_all add: u_def upd_node_def upd_list_def)
  have rec: "u\<lparr>wlists := w, nodes := nd\<rparr> = s\<lparr>wlists := w, nodes := nd\<rparr>" for w nd
    by (simp add: u_def upd_node_def upd_list_def)
  show ?thesis
  proof (cases r)
    case None
    with t n show ?thesis unfolding took_def lo un fu rec None by simp
  next
    case (Some m)
    with t n show ?thesis unfolding took_def lo un sel fu rec Some by simp
  qed
qed

lemma take_waiter_loop_took:
  "take_waiter_loop l ns s = (r, t) \<Longrightarrow> wlists s l = ns \<Longrightarrow> \<exists>ls. took l s ls r t"
proof (induction l ns s rule: take_waiter_loop.induct)
  case (1 l s)
  then show ?case by (intro exI [of _ "[]"]) (auto simp: took_def unlist_def fun_upd_idem)
next
  case (2 l n ns s)
  show ?case
  proof (cases "loser s n")
    case False
    with took_first [OF 2(3)] 2(2) show ?thesis by auto
  next
    case True
    then obtain r' where r': "select_rec (nodes s n) = Some r'" "winner s r' \<noteq> -1" by (auto simp: loser_def)
    let ?s = "upd_node n (\<lambda>x. x\<lparr>wait_list := None\<rparr>) (upd_list l (\<lambda>_. ns) s)"
    have e: "take_waiter_loop l ns ?s = (r, t)" using 2(2) r' by (simp add: Let_def)
    have w: "wlists ?s l = ns" by (simp add: upd_list_def)
    from 2(1) [OF refl r'(1) r'(2) e w] took_skip [OF 2(3) True] show ?thesis by blast
  qed
qed

lemma take_waiter_took: "s_chan_take_waiter l s = (r, t) \<Longrightarrow> \<exists>ls. took l s ls r t"
  by (simp add: s_chan_take_waiter_def take_waiter_loop_took)

lemma wait_ok_unlist:
  "wait_ok nd wl \<Longrightarrow> wl l = ls @ ms \<Longrightarrow> \<forall>n \<in> set ls. \<forall>c. n \<noteq> Emb c \<Longrightarrow> wait_ok (unlist ls nd) (wl(l := ms))"
proof (induction ls arbitrary: nd wl)
  case Nil
  then have "unlist [] nd = nd" "wl(l := ms) = wl" by (auto simp: unlist_def fun_upd_idem)
  with Nil show ?case by simp
next
  case (Cons n ls)
  have "wait_ok (nd(n := (nd n)\<lparr>wait_list := None\<rparr>)) (wl(l := ls @ ms))"
    using Cons.prems by (intro wait_ok_pop) auto
  then have "wait_ok (unlist ls (nd(n := (nd n)\<lparr>wait_list := None\<rparr>))) ((wl(l := ls @ ms))(l := ms))"
    by (rule Cons.IH) (use Cons.prems(3) in auto)
  moreover have "unlist ls (nd(n := (nd n)\<lparr>wait_list := None\<rparr>)) = unlist (n # ls) nd"
    by (rule ext) (simp add: unlist_def)
  ultimately show ?case by (simp only: fun_upd_upd)
qed

lemma loser_not_emb:
  assumes "waits_ok s" and "n \<in> set (wlists s l)" and "loser s n"
  shows "n \<noteq> Emb c"
  using assms by (auto simp: wait_ok_def loser_def)

lemma took_none_ok: "waits_ok s \<Longrightarrow> took l s ls None t \<Longrightarrow> waits_ok t"
proof -
  assume ok: "waits_ok s" and t: "took l s ls None t"
  have "\<forall>n \<in> set ls. \<forall>c. n \<noteq> Emb c" using t loser_not_emb [OF ok] by (auto simp: took_def list_all_iff)
  with wait_ok_unlist [OF ok, of l ls "[]"] t show ?thesis
    by (auto simp: took_def)
qed

lemma took_some_ok:
  assumes ok: "waits_ok s" and t: "took l s ls (Some n) t" and x: "wait_list x = None"
    and st: "status x \<noteq> S_WQ_WAITING"
  shows "wait_ok ((nodes t)(n := x)) (wlists t)"
proof -
  obtain rest where r: "wlists s l = ls @ n # rest" "nodes t = unlist ls (nodes s)" "wlists t = (wlists s)(l := rest)"
    using t by (auto simp: took_def)
  have "\<forall>n \<in> set ls. \<forall>c. n \<noteq> Emb c"
  proof (intro ballI allI)
    fix n' c assume "n' \<in> set ls"
    then have "n' \<in> set (wlists s l)" "loser s n'" using t r(1) by (auto simp: took_def list_all_iff)
    then show "n' \<noteq> Emb c" by (rule loser_not_emb [OF ok])
  qed
  from wait_ok_unlist [OF ok r(1) this] have "wait_ok (nodes t) ((wlists s)(l := n # rest))" using r by simp
  from wait_ok_pop [OF this, of l n rest x] x st r show ?thesis by simp
qed

section \<open>Parking ends in a switch to the scheduler\<close>

lemma wait_block_waiting:
  assumes "running s = Some c" and "status (nodes s (Emb c)) = S_WQ_WAITING"
  shows "s_wait_block s = (None, suspenders_suspend s)"
  using assms by (simp add: s_wait_block_def)

lemma wait_block_dl_parks:
  assumes "running s = Some c" and "status (nodes s (Emb c)) = S_WQ_WAITING"
  shows "\<exists>t. s_wait_block_dl dl s = (None, t) \<and> sync_view t = sync_view s \<and> nodes t = nodes s"
proof (cases "dl = 0")
  case True
  with assms wait_block_waiting [OF assms] show ?thesis
    by (simp add: s_wait_block_dl_def s_wait_block_dl_loop_def)
next
  case False
  obtain b u where a: "s_timer_arm (TStack c) (upd_timer (TStack c) (\<lambda>_. fresh_timer dl (WaitDeadlineCb c)) s) = (b, u)"
    by fastforce
  note f = timer_arm_frame [OF a]
  then have "s_wait_block u = (None, suspenders_suspend u)"
    using assms by (intro wait_block_waiting) auto
  with False assms a f show ?thesis
    by (simp add: s_wait_block_dl_def s_wait_block_dl_loop_def)
qed

lemma park_then_block:
  assumes "running s = Some c" and "status (nodes s (Emb c)) \<noteq> S_WQ_WAITING"
  shows "\<exists>t. s_wait_block_dl dl (s_wait_park l k d s) = (None, t) \<and>
    sync_view t = sync_view (s_wait_park l k d s) \<and> nodes t = nodes (s_wait_park l k d s)"
  using assms(1) by (intro wait_block_dl_parks [where c = c])
     (simp_all add: s_wait_park_def upd_list_def upd_node_def)

lemma park_effect:
  assumes "running s = Some c"
  shows "sync_view (s_wait_park l k d s) = sync_view (s\<lparr>wlists := (wlists s)(l := wlists s l @ [Emb c])\<rparr>)"
    and "nodes (s_wait_park l k d s) = (nodes s)(Emb c := (nodes s (Emb c))\<lparr>node_cr := c, data_ptr := d,
           status := S_WQ_WAITING, waker_busy := False, wait_list := Some l, wait_lock := Some k, select_rec := None\<rparr>)"
  using assms by (simp_all add: s_wait_park_def upd_list_def upd_node_def sync_view_def)

section \<open>The channel invariant\<close>

definition chan_inv :: "rt \<Rightarrow> nat \<Rightarrow> bool" where
  "chan_inv s ch \<longleftrightarrow> chan_wf (chans s ch) \<and>
     (wlists s (LReceivers ch) \<noteq> [] \<longrightarrow> ch_count (chans s ch) = 0) \<and>
     (wlists s (LSenders ch) \<noteq> [] \<longrightarrow> ch_count (chans s ch) = buf_sz (chans s ch)) \<and>
     (closed (chans s ch) \<longrightarrow> wlists s (LReceivers ch) = [] \<and> wlists s (LSenders ch) = [])"

definition chans_inv :: "rt \<Rightarrow> bool" where
  "chans_inv s \<longleftrightarrow> waits_ok s \<and> (\<forall>ch. chan_inv s ch)"

text \<open>The invariant speaks of these components only.\<close>

lemma chan_inv_cong:
  "chans t ch = chans s ch \<Longrightarrow> wlists t (LReceivers ch) = wlists s (LReceivers ch) \<Longrightarrow>
   wlists t (LSenders ch) = wlists s (LSenders ch) \<Longrightarrow> chan_inv t ch = chan_inv s ch"
  by (simp add: chan_inv_def)

lemma chans_inv_cong:
  "nodes t = nodes s \<Longrightarrow> wlists t = wlists s \<Longrightarrow> chans t = chans s \<Longrightarrow> chans_inv t = chans_inv s"
  by (simp add: chans_inv_def chan_inv_def)

text \<open>Removing waiters never breaks it.\<close>

lemma chan_inv_shrink:
  assumes "chan_inv s ch" and "chans t ch = chans s ch"
    and "wlists s (LReceivers ch) = [] \<Longrightarrow> wlists t (LReceivers ch) = []"
    and "wlists s (LSenders ch) = [] \<Longrightarrow> wlists t (LSenders ch) = []"
  shows "chan_inv t ch"
  using assms unfolding chan_inv_def by auto

lemma elem_at_length: "length (elem_at ch p s) \<le> elem_sz (chans s ch)"
  by (simp add: elem_at_def load_elem_def)

lemma chan_push_wf:
  assumes "chan_wf ch" and "ch_count ch < buf_sz ch" and "length v \<le> elem_sz ch"
  shows "chan_wf (s_chan_buf_push ch v)"
proof -
  let ?i = "(ch_head ch + ch_count ch) mod buf_sz ch"
  have i: "?i < buf_sz ch" using assms(2) by simp
  have "?i * elem_sz ch + length v \<le> length (ch_buf ch)"
    using slot_bound [OF i, of "elem_sz ch"] assms by (simp add: chan_wf_def)
  from length_memcpy_at [OF this] show ?thesis
    using chan_index_exact [OF assms(1)] i assms by (simp add: s_chan_buf_push_def Let_def chan_wf_def)
qed

lemma push_fields [simp]:
  "ch_count (s_chan_buf_push c v) = ch_count c + 1" "buf_sz (s_chan_buf_push c v) = buf_sz c"
  "closed (s_chan_buf_push c v) = closed c" "elem_sz (s_chan_buf_push c v) = elem_sz c"
  by (simp_all add: s_chan_buf_push_def Let_def)

lemma pop_fields [simp]:
  "ch_count (snd (s_chan_buf_pop c)) = ch_count c - 1" "buf_sz (snd (s_chan_buf_pop c)) = buf_sz c"
  "closed (snd (s_chan_buf_pop c)) = closed c" "elem_sz (snd (s_chan_buf_pop c)) = elem_sz c"
  by (simp_all add: s_chan_buf_pop_def)

lemma chan_pop_wf: "chan_wf c \<Longrightarrow> chan_wf (snd (s_chan_buf_pop c))"
  by (auto simp: chan_wf_def s_chan_buf_pop_def)

lemma store_elem_fields [simp]:
  "nodes (store_elem p v s) = nodes s" "wlists (store_elem p v s) = wlists s" "chans (store_elem p v s) = chans s"
  "winner (store_elem p v s) = winner s" "running (store_elem p v s) = running s" "crs (store_elem p v s) = crs s"
  "owner (store_elem p v s) = owner s" "rwlocks (store_elem p v s) = rwlocks s" "wg_count (store_elem p v s) = wg_count s"
  by (simp_all add: store_elem_def)

lemma upd_chan_fields [simp]:
  "nodes (upd_chan ch f s) = nodes s" "wlists (upd_chan ch f s) = wlists s"
  "chans (upd_chan ch f s) = (chans s)(ch := f (chans s ch))" "mem (upd_chan ch f s) = mem s"
  "winner (upd_chan ch f s) = winner s" "running (upd_chan ch f s) = running s" "crs (upd_chan ch f s) = crs s"
  "owner (upd_chan ch f s) = owner s" "rwlocks (upd_chan ch f s) = rwlocks s" "wg_count (upd_chan ch f s) = wg_count s"
  by (simp_all add: upd_chan_def)

text \<open>Handing over to a taken waiter: the node is decided, the rest is as after the take.\<close>

lemma handover_inv:
  assumes ok: "waits_ok s" and t: "took l s ls (Some n) t" and u: "nodes u = nodes t" "wlists u = wlists t"
    and st: "st \<noteq> S_WQ_WAITING"
  shows "waits_ok (s_wait_finish_wake n (s_wait_grant n st u))"
  using took_some_ok [OF ok t, of "(nodes t n)\<lparr>wait_list := None, status := st, waker_busy := False\<rparr>"] u st by simp

lemma took_lists:
  assumes "took l s ls r t"
  shows "wlists s m = [] \<Longrightarrow> wlists t m = []" and "m \<noteq> l \<Longrightarrow> wlists t m = wlists s m"
    and "r = None \<Longrightarrow> wlists t l = []" and "chans t = chans s" and "mem t = mem s" and "running t = running s"
    and "crs t = crs s" and "main_cr t = main_cr s" and "wlists s l = [] \<Longrightarrow> r = None"
    and "owner t = owner s" and "rwlocks t = rwlocks s" and "wg_count t = wg_count s"
  using assms by (auto simp: took_def split: option.splits)

lemma took_nodes: "took l s ls r t \<Longrightarrow> nodes t = unlist ls (nodes s)"
  by (auto simp: took_def split: option.splits)

lemma unlist_fields [simp]:
  "status (unlist ls nd n) = status (nd n)" "data_ptr (unlist ls nd n) = data_ptr (nd n)"
  "node_cr (unlist ls nd n) = node_cr (nd n)" "select_rec (unlist ls nd n) = select_rec (nd n)"
  by (simp_all add: unlist_def)

lemma chan_handover_inv:
  assumes inv: "chans_inv s" and t: "took l s ls (Some n) s1"
    and u: "nodes u = nodes s1" "wlists u = wlists s1" "chans u = chans s1" and st: "st \<noteq> S_WQ_WAITING"
  shows "chans_inv (s_wait_finish_wake n (s_wait_grant n st u))"
proof -
  have ok: "waits_ok s" and ci: "chan_inv s c" for c using inv by (auto simp: chans_inv_def)
  have "chan_inv (s_wait_finish_wake n (s_wait_grant n st u)) c" for c
    by (rule chan_inv_shrink [OF ci [of c]]) (auto simp: u took_lists [OF t])
  with handover_inv [OF ok t u(1,2) st] show ?thesis by (simp add: chans_inv_def)
qed

lemma chans_inv_took_none:
  assumes inv: "chans_inv s" and t: "took l s ls None s1"
  shows "chans_inv s1" and "wlists s1 l = []"
proof -
  have ok: "waits_ok s" and ci: "chan_inv s c" for c using inv by (auto simp: chans_inv_def)
  have "chan_inv s1 c" for c by (rule chan_inv_shrink [OF ci [of c]]) (auto simp: took_lists [OF t])
  with took_none_ok [OF ok t] show "chans_inv s1" by (simp add: chans_inv_def)
  show "wlists s1 l = []" by (rule took_lists(3) [OF t refl])
qed

text \<open>Parking keeps the invariant when the list's condition holds: an empty ring for receivers, a full
  one for senders, on a channel that is open.\<close>

lemma chan_park_inv:
  assumes inv: "chans_inv s" and c: "running s = Some c" "status (nodes s (Emb c)) \<noteq> S_WQ_WAITING"
    and l: "l = LReceivers ch \<and> ch_count (chans s ch) = 0 \<or>
            l = LSenders ch \<and> ch_count (chans s ch) = buf_sz (chans s ch)"
    and opn: "\<not> closed (chans s ch)"
  shows "\<exists>u. s_wait_block_dl dl (s_wait_park l k d s) = (None, u) \<and> chans_inv u"
proof -
  let ?p = "s_wait_park l k d s"
  obtain u where u: "s_wait_block_dl dl ?p = (None, u)" "sync_view u = sync_view ?p" "nodes u = nodes ?p"
    using park_then_block [OF c] by blast
  have w: "wlists u = (wlists s)(l := wlists s l @ [Emb c])" "chans u = chans s"
    using u(2) unfolding park_effect(1) [OF c(1)] by (simp_all add: sync_view_eq)
  have "waits_ok ?p" using inv c by (intro wait_park_ok) (auto simp: chans_inv_def)
  then have "waits_ok u" using u(3) u(2) by (simp add: sync_view_eq)
  moreover have "chan_inv u b" for b
  proof -
    have "chan_inv s b" using inv by (simp add: chans_inv_def)
    then show ?thesis using w l opn by (auto simp: chan_inv_def)
  qed
  ultimately show ?thesis using u(1) by (auto simp: chans_inv_def)
qed

lemma chan_push_inv:
  assumes inv: "chans_inv s" and rx: "wlists s (LReceivers ch) = []" and tx: "wlists s (LSenders ch) = []"
    and room: "ch_count (chans s ch) < buf_sz (chans s ch)" and v: "length v \<le> elem_sz (chans s ch)"
  shows "chans_inv (upd_chan ch (\<lambda>c. s_chan_buf_push c v) s)"
proof -
  have "chan_inv s c" for c using inv by (auto simp: chans_inv_def)
  then have "chan_inv (upd_chan ch (\<lambda>c. s_chan_buf_push c v) s) c" for c
    using rx tx chan_push_wf [OF _ room v] by (cases "c = ch") (auto simp: chan_inv_def)
  with inv show ?thesis by (simp add: chans_inv_def)
qed

lemma send_locked_inv:
  assumes inv: "chans_inv s" and e: "chan_send_locked ch val dl try_only can_block s = (r, t)"
    and blk: "can_block \<Longrightarrow> \<exists>c. running s = Some c \<and> status (nodes s (Emb c)) \<noteq> S_WQ_WAITING"
  shows "chans_inv t"
proof (cases "closed (chans s ch)")
  case True
  with e inv show ?thesis by (auto simp: chan_send_locked_def fail_def chans_inv_def chan_inv_def)
next
  case opn: False
  obtain rx s1 where tk: "s_chan_take_waiter (LReceivers ch) s = (rx, s1)" by fastforce
  then obtain ls where t1: "took (LReceivers ch) s ls rx s1" using take_waiter_took by blast
  show ?thesis
  proof (cases rx)
    case (Some n)
    with e opn tk have "t = s_wait_finish_wake n (s_wait_grant n SUSPENDERS_OK
        (store_elem (data_ptr (nodes s1 n)) (elem_at ch val s1) s1))" by (simp add: chan_send_locked_def)
    then show ?thesis using chan_handover_inv [OF inv] t1 Some by simp
  next
    case None
    note none = chans_inv_took_none [OF inv t1 [unfolded None]]
    have wf: "chan_inv s1 ch" using none by (simp add: chans_inv_def)
    have op1: "\<not> closed (chans s1 ch)" using opn took_lists(4) [OF t1] by simp
    show ?thesis
    proof (cases "buf_sz (chans s1 ch) \<noteq> 0 \<and> ch_count (chans s1 ch) < buf_sz (chans s1 ch)")
      case True
      with e opn tk None have t: "t = upd_chan ch (\<lambda>c. s_chan_buf_push c (elem_at ch val s1)) s1"
        by (simp add: chan_send_locked_def)
      have "wlists s1 (LSenders ch) = []" using wf True by (auto simp: chan_inv_def)
      with True none elem_at_length show ?thesis unfolding t by (intro chan_push_inv) auto
    next
      case full: False
      then have full': "ch_count (chans s1 ch) = buf_sz (chans s1 ch)" using wf by (auto simp: chan_inv_def chan_wf_def)
      show ?thesis
      proof (cases can_block)
        case False
        with e opn tk None full none show ?thesis
          by (auto simp: chan_send_locked_def fail_def chans_inv_def chan_inv_def)
      next
        case True
        from blk [OF this] obtain c where c: "running s1 = Some c" "status (nodes s1 (Emb c)) \<noteq> S_WQ_WAITING"
          using took_lists(6) [OF t1] took_nodes [OF t1] by auto
        from chan_park_inv [OF none(1) c, of "LSenders ch" ch dl "KChan ch" val] full' op1 e opn tk None full True
        show ?thesis by (auto simp: chan_send_locked_def)
      qed
    qed
  qed
qed

lemma recv_locked_inv:
  assumes inv: "chans_inv s" and e: "chan_recv_locked ch out dl try_only can_block s = (r, t)"
    and blk: "can_block \<Longrightarrow> \<exists>c. running s = Some c \<and> status (nodes s (Emb c)) \<noteq> S_WQ_WAITING"
  shows "chans_inv t"
proof (cases "buf_sz (chans s ch) \<noteq> 0 \<and> ch_count (chans s ch) > 0")
  case True
  obtain v c' where pop: "s_chan_buf_pop (chans s ch) = (v, c')" by fastforce
  define s1 where "s1 = upd_chan ch (\<lambda>_. c') (store_elem out v s)"
  have c': "ch_count c' = ch_count (chans s ch) - 1" "buf_sz c' = buf_sz (chans s ch)" "closed c' = closed (chans s ch)"
    "chan_wf (chans s ch) \<Longrightarrow> chan_wf c'"
    using pop pop_fields [of "chans s ch"] chan_pop_wf [of "chans s ch"] by auto
  obtain tx s2 where tk: "s_chan_take_waiter (LSenders ch) s1 = (tx, s2)" by fastforce
  then obtain ls where t1: "took (LSenders ch) s1 ls tx s2" using take_waiter_took by blast
  note tl = took_lists [OF t1]
  have ci: "chan_inv s c" for c using inv by (simp add: chans_inv_def)
  have norx: "wlists s (LReceivers ch) = []" using ci [of ch] True by (auto simp: chan_inv_def)
  have ok1: "waits_ok s1" using inv by (simp add: s1_def chans_inv_def)
  have others: "chan_inv s1 c" if "c \<noteq> ch" for c using ci [of c] that by (simp add: s1_def chan_inv_def)
  have here: "chan_wf c'" using c' ci [of ch] by (simp add: chan_inv_def)
  have cnt: "ch_count (chans s ch) \<le> buf_sz (chans s ch)" using ci [of ch] by (simp add: chan_inv_def chan_wf_def)
  show ?thesis
  proof (cases tx)
    case None
    with e True pop tk have t: "t = s2" by (simp add: chan_recv_locked_def s1_def)
    have "chan_inv s2 c" for c
    proof (cases "c = ch")
      case True
      then show ?thesis using here norx tl None by (simp add: chan_inv_def s1_def)
    next
      case False
      then show ?thesis using chan_inv_shrink [OF others [OF False], of s2] tl by simp
    qed
    with t took_none_ok [OF ok1 t1 [unfolded None]] show ?thesis by (simp add: chans_inv_def)
  next
    case (Some n)
    define u where "u = upd_chan ch (\<lambda>c. s_chan_buf_push c (elem_at ch (data_ptr (nodes s2 n)) s2)) s2"
    with e True pop tk Some have t: "t = s_wait_finish_wake n (s_wait_grant n SUSPENDERS_OK u)"
      by (simp add: chan_recv_locked_def s1_def)
    have ne: "wlists s (LSenders ch) \<noteq> []" using tl(9) Some by (auto simp: s1_def)
    then have full: "ch_count (chans s ch) = buf_sz (chans s ch)" using ci [of ch] by (simp add: chan_inv_def)
    have "\<not> closed (chans s ch)" using ne ci [of ch] by (auto simp: chan_inv_def)
    moreover have "chan_wf (chans u ch)"
      unfolding u_def using here True c' cnt elem_at_length [of ch _ s2]
      by (auto simp: tl s1_def intro!: chan_push_wf)
    ultimately have "chan_inv t c" for c
      using norx tl True full c' chan_inv_shrink [OF others [of c], of s2]
      by (cases "c = ch") (auto simp: t u_def chan_inv_def s1_def)
    moreover have "waits_ok t" unfolding t using t1 Some by (intro handover_inv [OF ok1]) (auto simp: u_def)
    ultimately show ?thesis by (simp add: chans_inv_def)
  qed
next
  case low: False
  obtain tx s1 where tk: "s_chan_take_waiter (LSenders ch) s = (tx, s1)" by fastforce
  then obtain ls where t1: "took (LSenders ch) s ls tx s1" using take_waiter_took by blast
  show ?thesis
  proof (cases tx)
    case (Some n)
    with e low tk have "t = s_wait_finish_wake n (s_wait_grant n SUSPENDERS_OK
        (store_elem out (elem_at ch (data_ptr (nodes s1 n)) s1) s1))" by (auto simp: chan_recv_locked_def)
    then show ?thesis using chan_handover_inv [OF inv] t1 Some by simp
  next
    case None
    note none = chans_inv_took_none [OF inv t1 [unfolded None]]
    have "chan_inv s1 ch" using none by (simp add: chans_inv_def)
    then have zero: "ch_count (chans s1 ch) = 0"
      using low took_lists(4) [OF t1] by (auto simp: chan_inv_def chan_wf_def)
    show ?thesis
    proof (cases "closed (chans s1 ch) \<or> \<not> can_block")
      case True
      with e low tk None none show ?thesis
        by (auto simp: chan_recv_locked_def fail_def chans_inv_def chan_inv_def split: if_splits)
    next
      case False
      with blk obtain c where c: "running s1 = Some c" "status (nodes s1 (Emb c)) \<noteq> S_WQ_WAITING"
        using took_lists(6) [OF t1] took_nodes [OF t1] by auto
      from chan_park_inv [OF none(1) c, of "LReceivers ch" ch dl "KChan ch" out] zero e low tk None False
      show ?thesis by (auto simp: chan_recv_locked_def)
    qed
  qed
qed

text \<open>What a coroutine must satisfy to enter a blocking call: its previous wait is over.\<close>

definition may_call :: "rt \<Rightarrow> bool" where
  "may_call s \<longleftrightarrow> (\<forall>c. running s = Some c \<longrightarrow> status (nodes s (Emb c)) \<noteq> S_WQ_WAITING)"

lemma pre_block_frame:
  "s_pre_block c s = (p, t) \<Longrightarrow> sync_view t = sync_view s \<and> nodes t = nodes s \<and> running t = running s \<and> main_cr t = main_cr s"
  by (auto simp: s_pre_block_def Let_def split: if_splits)

lemma send_impl_inv:
  assumes inv: "chans_inv s" and may: "may_call s" and e: "s_chan_send_impl cho val dl try_only s = (r, t)"
  shows "chans_inv t"
proof (cases "cho = None \<or> val = 0")
  case True
  with e inv show ?thesis by (auto simp: s_chan_send_impl_def fail_def chans_inv_def chan_inv_def split: option.splits)
next
  case False
  then obtain ch where ch: "cho = Some ch" by auto
  define blk where "blk \<longleftrightarrow> \<not> try_only \<and> s_io_is_cr s"
  obtain pre s1 where p: "(if blk then s_pre_block (the (running s)) s else (0, s)) = (pre, s1)" by fastforce
  have f: "sync_view s1 = sync_view s" "nodes s1 = nodes s" "running s1 = running s"
    using p pre_block_frame [of "the (running s)" s pre s1] by (auto split: if_splits)
  have inv1: "chans_inv s1" using inv f by (simp add: chans_inv_def chan_inv_def sync_view_eq)
  show ?thesis
  proof (cases "pre = 0")
    case True
    with e p ch False have "chan_send_locked ch val dl try_only blk s1 = (r, t)"
      by (simp add: s_chan_send_impl_def blk_def)
    then show ?thesis
      by (rule send_locked_inv [OF inv1]) (use may f in \<open>auto simp: blk_def may_call_def s_io_is_cr_def\<close>)
  next
    case pre: False
    with e p ch False inv1 show ?thesis by (simp add: s_chan_send_impl_def blk_def)
  qed
qed

lemma recv_impl_inv:
  assumes inv: "chans_inv s" and may: "may_call s" and e: "s_chan_recv_impl cho out dl try_only s = (r, t)"
  shows "chans_inv t"
proof (cases "cho = None \<or> out = 0")
  case True
  with e inv show ?thesis by (auto simp: s_chan_recv_impl_def fail_def chans_inv_def chan_inv_def split: option.splits)
next
  case False
  then obtain ch where ch: "cho = Some ch" by auto
  define blk where "blk \<longleftrightarrow> \<not> try_only \<and> s_io_is_cr s"
  obtain pre s1 where p: "(if blk then s_pre_block (the (running s)) s else (0, s)) = (pre, s1)" by fastforce
  have f: "sync_view s1 = sync_view s" "nodes s1 = nodes s" "running s1 = running s"
    using p pre_block_frame [of "the (running s)" s pre s1] by (auto split: if_splits)
  have inv1: "chans_inv s1" using inv f by (simp add: chans_inv_def chan_inv_def sync_view_eq)
  show ?thesis
  proof (cases "pre = 0")
    case True
    with e p ch False have "chan_recv_locked ch out dl try_only blk s1 = (r, t)"
      by (simp add: s_chan_recv_impl_def blk_def)
    then show ?thesis
      by (rule recv_locked_inv [OF inv1]) (use may f in \<open>auto simp: blk_def may_call_def s_io_is_cr_def\<close>)
  next
    case pre: False
    with e p ch False inv1 show ?thesis by (simp add: s_chan_recv_impl_def blk_def)
  qed
qed

section \<open>Close\<close>

lemma take_waiter_shortens:
  assumes "s_chan_take_waiter l s = (Some n, s1)"
  shows "length (wlists s1 l) < length (wlists s l)"
proof -
  obtain ls where "took l s ls (Some n) s1" using take_waiter_took [OF assms] by blast
  then show ?thesis by (auto simp: took_def)
qed

text \<open>The \<open>while\<close> loop of \<open>suspenders_chan_close\<close> over one list; the first component of the
  result is the chain of granted nodes, newest first.\<close>

function close_list :: "list_ref \<Rightarrow> node_ref list \<Rightarrow> rt \<Rightarrow> node_ref list \<times> rt" where
  "close_list l granted s =
     (case s_chan_take_waiter l s of
        (None, s1) \<Rightarrow> (granted, s1)
      | (Some n, s1) \<Rightarrow>
          close_list l (n # granted)
            (s_wake_no_preempt (node_cr (nodes s1 n)) (s_wait_grant n SUSPENDERS_CLOSED s1)))"
  by pat_completeness auto
termination
  by (relation "measure (\<lambda>(l, granted, s). length (wlists s l))") (auto dest!: take_waiter_shortens [OF sym])

declare close_list.simps [simp del]

definition suspenders_chan_close :: "nat option \<Rightarrow> rt \<Rightarrow> int option \<times> rt" where
  "suspenders_chan_close cho s =
     (case cho of
        None \<Rightarrow> fail SUSPENDERS_INVAL s
      | Some ch \<Rightarrow>
          if closed (chans s ch) then fail SUSPENDERS_CLOSED s
          else
            (let s1 = upd_chan ch (\<lambda>c. c\<lparr>closed := True\<rparr>) s;
                 (g1, s2) = close_list (LSenders ch) [] s1;
                 (g2, s3) = close_list (LReceivers ch) g1 s2
             in (Some SUSPENDERS_OK, s_wait_decide_end_chain g2 s3)))"

lemma decide_end_chain_frame [simp]:
  "sync_view (s_wait_decide_end_chain ns s) = sync_view s"
  "nodes (s_wait_decide_end_chain ns s) = (\<lambda>n. if n \<in> set ns then (nodes s n)\<lparr>waker_busy := False\<rparr> else nodes s n)"
  by (induction ns arbitrary: s) (auto simp: fun_eq_iff)

lemmas decide_end_chain_fields [simp] = decide_end_chain_frame(1) [unfolded sync_view_eq]

lemma wait_ok_busy:
  assumes "wait_ok nd wl"
  shows "wait_ok (\<lambda>n. if n \<in> A then (nd n)\<lparr>waker_busy := False\<rparr> else nd n) wl"
  using assms by (auto simp: wait_ok_def)

lemma close_list_effect:
  assumes "close_list l granted s = (g, t)" and "waits_ok s"
  shows "waits_ok t \<and> wlists t = (wlists s)(l := []) \<and> chans t = chans s \<and> mem t = mem s \<and>
     (\<forall>n. n \<notin> set (wlists s l) \<longrightarrow> nodes t n = nodes s n) \<and> set granted \<subseteq> set g \<and>
     (\<forall>n \<in> set (wlists s l). select_rec (nodes s n) = None \<longrightarrow>
        status (nodes t n) = SUSPENDERS_CLOSED \<and> n \<in> set g)"
  using assms
proof (induction l granted s rule: close_list.induct)
  case (1 l granted s)
  obtain r s1 where tk: "s_chan_take_waiter l s = (r, s1)" by fastforce
  then obtain ls where t1: "took l s ls r s1" using take_waiter_took by blast
  show ?case
  proof (cases r)
    case None
    with 1(2) tk have "g = granted" "t = s1" by (auto simp: close_list.simps)
    moreover have "wlists s l = ls" "wlists s1 = (wlists s)(l := [])" using t1 None by (auto simp: took_def)
    moreover have "\<forall>n \<in> set ls. loser s n" using t1 by (auto simp: took_def list_all_iff)
    moreover have "waits_ok s1" using took_none_ok [OF 1(3)] t1 None by blast
    moreover have "nodes s1 n = nodes s n" if "n \<notin> set ls" for n
      using that took_nodes [OF t1] by (simp add: unlist_def)
    ultimately show ?thesis using took_lists(4,5) [OF t1] by (fastforce simp: loser_def)
  next
    case (Some n)
    define u where "u = s_wake_no_preempt (node_cr (nodes s1 n)) (s_wait_grant n SUSPENDERS_CLOSED s1)"
    from t1 Some obtain rest where rest: "wlists s l = ls @ n # rest" "wlists s1 = (wlists s)(l := rest)"
      "\<forall>n \<in> set ls. loser s n" by (auto simp: took_def list_all_iff)
    have nu: "nodes u = (unlist ls (nodes s))(n := (unlist ls (nodes s) n)\<lparr>waker_busy := True, wait_list := None, status := SUSPENDERS_CLOSED\<rparr>)"
      by (simp add: u_def took_nodes [OF t1])
    have wu: "wlists u = (wlists s)(l := rest)" "chans u = chans s" "mem u = mem s"
      using rest took_lists [OF t1] by (simp_all add: u_def)
    have ok: "waits_ok u"
      using took_some_ok [OF 1(3) t1 [unfolded Some], of "(nodes s1 n)\<lparr>waker_busy := True, wait_list := None, status := SUSPENDERS_CLOSED\<rparr>"]
      by (simp add: u_def)
    have e: "close_list l (n # granted) u = (g, t)" using 1(2) tk Some by (simp add: close_list.simps [of l granted s] u_def)
    have d: "distinct (ls @ n # rest)" using 1(3) rest(1) by (metis wait_ok_def)
    from 1(1) [OF tk [symmetric, unfolded Some] refl e [unfolded u_def] ok [unfolded u_def], folded u_def]
    have IH: "waits_ok t" "wlists t = (wlists u)(l := [])" "chans t = chans u" "mem t = mem u"
      "\<forall>n. n \<notin> set (wlists u l) \<longrightarrow> nodes t n = nodes u n" "set (n # granted) \<subseteq> set g"
      "\<forall>n \<in> set (wlists u l). select_rec (nodes u n) = None \<longrightarrow> status (nodes t n) = SUSPENDERS_CLOSED \<and> n \<in> set g"
      by auto
    have "nodes t k = nodes s k" if "k \<notin> set (wlists s l)" for k
      using that IH(5) rest(1) by (simp add: wu nu unlist_def)
    moreover have "status (nodes t k) = SUSPENDERS_CLOSED \<and> k \<in> set g"
      if k: "k \<in> set (wlists s l)" "select_rec (nodes s k) = None" for k
    proof -
      from k rest(1,3) have "k = n \<or> k \<in> set rest" by (auto simp: loser_def)
      then show ?thesis
      proof
        assume "k = n"
        then show ?thesis using IH(5,6) d by (simp add: wu nu)
      next
        assume r: "k \<in> set rest"
        with d have "k \<noteq> n" by auto
        then have "select_rec (nodes u k) = None" using k by (simp add: nu)
        then show ?thesis using IH(7) r by (simp add: wu)
      qed
    qed
    moreover have "wlists t = (wlists s)(l := [])" "chans t = chans s" "mem t = mem s" "set granted \<subseteq> set g"
      using IH(2,3,4,6) wu by simp_all
    ultimately show ?thesis using IH(1) by blast
  qed
qed

lemma close_correct:
  assumes inv: "chans_inv s" and opn: "\<not> closed (chans s ch)"
  shows "\<exists>t. suspenders_chan_close (Some ch) s = (Some SUSPENDERS_OK, t) \<and> chans_inv t \<and>
     chans t = (chans s)(ch := (chans s ch)\<lparr>closed := True\<rparr>) \<and> mem t = mem s \<and>
     wlists t = (wlists s)(LSenders ch := [], LReceivers ch := []) \<and>
     (\<forall>n \<in> set (wlists s (LSenders ch) @ wlists s (LReceivers ch)). select_rec (nodes s n) = None \<longrightarrow>
        status (nodes t n) = SUSPENDERS_CLOSED \<and> \<not> waker_busy (nodes t n))"
proof -
  define s1 where "s1 = upd_chan ch (\<lambda>c. c\<lparr>closed := True\<rparr>) s"
  obtain g1 s2 where c1: "close_list (LSenders ch) [] s1 = (g1, s2)" by fastforce
  obtain g2 s3 where c2: "close_list (LReceivers ch) g1 s2 = (g2, s3)" by fastforce
  let ?t = "s_wait_decide_end_chain g2 s3"
  have ok1: "waits_ok s1" using inv by (simp add: s1_def chans_inv_def)
  note e1 = close_list_effect [OF c1 ok1]
  have ok2: "waits_ok s2" using e1 by blast
  note e2 = close_list_effect [OF c2 ok2]
  have w: "wlists ?t = (wlists s)(LSenders ch := [], LReceivers ch := [])" "chans ?t = (chans s)(ch := (chans s ch)\<lparr>closed := True\<rparr>)"
    "mem ?t = mem s"
    using e1 e2 by (simp_all add: s1_def)
  have "waits_ok s3" using e2 by blast
  then have "waits_ok ?t" using wait_ok_busy [of "nodes s3" "wlists s3" "set g2"]
    by (simp only: decide_end_chain_frame(2) decide_end_chain_fields)
  moreover have "chan_inv ?t c" for c
  proof -
    have "chan_inv s c" using inv by (simp add: chans_inv_def)
    then show ?thesis using w by (auto simp: chan_inv_def chan_wf_def)
  qed
  moreover have "status (nodes ?t n) = SUSPENDERS_CLOSED \<and> \<not> waker_busy (nodes ?t n)"
    if n: "n \<in> set (wlists s (LSenders ch) @ wlists s (LReceivers ch))" "select_rec (nodes s n) = None" for n
  proof -
    have dj: "n \<in> set (wlists s (LSenders ch)) \<Longrightarrow> n \<notin> set (wlists s (LReceivers ch))"
      using wait_ok_one_list [of "nodes s" "wlists s" n "LSenders ch" "LReceivers ch"] inv by (auto simp: chans_inv_def)
    show ?thesis
    proof (cases "n \<in> set (wlists s (LSenders ch))")
      case True
      with dj n(2) have "status (nodes s2 n) = SUSPENDERS_CLOSED" "n \<in> set g1" "nodes s3 n = nodes s2 n"
        using e1 e2 by (auto simp: s1_def)
      with e2 show ?thesis by auto
    next
      case False
      with n have "n \<in> set (wlists s2 (LReceivers ch))" "select_rec (nodes s2 n) = None"
        using e1 by (auto simp: s1_def)
      with e2 show ?thesis by auto
    qed
  qed
  moreover have "suspenders_chan_close (Some ch) s = (Some SUSPENDERS_OK, ?t)"
    using opn c1 c2 by (simp add: suspenders_chan_close_def s1_def Let_def)
  ultimately show ?thesis using w by (auto simp: chans_inv_def)
qed

section \<open>First in, first out\<close>

text \<open>The values a channel owes its receivers, in order: the ring, then the parked senders.\<close>

definition chan_seq :: "rt \<Rightarrow> nat \<Rightarrow> bytes list" where
  "chan_seq s ch = chan_contents (chans s ch) @
     map (\<lambda>n. elem_at ch (data_ptr (nodes s n)) s) (wlists s (LSenders ch))"

text \<open>The senders are plain sends of objects that are large enough.\<close>

definition plain_senders :: "rt \<Rightarrow> nat \<Rightarrow> bool" where
  "plain_senders s ch \<longleftrightarrow> (\<forall>n \<in> set (wlists s (LSenders ch)). select_rec (nodes s n) = None \<and>
     elem_sz (chans s ch) \<le> length (mem s (data_ptr (nodes s n))))"

lemma take_waiter_plain:
  "wlists s l = n # ns \<Longrightarrow> select_rec (nodes s n) = None \<Longrightarrow>
   s_chan_take_waiter l s = (Some n, upd_list l (\<lambda>_. ns) s)"
  "wlists s l = [] \<Longrightarrow> s_chan_take_waiter l s = (None, s)"
  by (simp_all add: s_chan_take_waiter_def)

lemma upd_list_fields [simp]:
  "nodes (upd_list l f s) = nodes s" "chans (upd_list l f s) = chans s" "mem (upd_list l f s) = mem s"
  "wlists (upd_list l f s) = (wlists s)(l := f (wlists s l))" "running (upd_list l f s) = running s"
  "winner (upd_list l f s) = winner s" "crs (upd_list l f s) = crs s" "main_cr (upd_list l f s) = main_cr s"
  "owner (upd_list l f s) = owner s" "rwlocks (upd_list l f s) = rwlocks s" "wg_count (upd_list l f s) = wg_count s"
  by (simp_all add: upd_list_def)

lemma load_stored: "length v = es \<Longrightarrow> load_elem es (memcpy_at obj 0 v) = v"
  by (simp add: load_elem_def memcpy_at_def)

lemma elem_at_full: "elem_sz (chans s ch) \<le> length (mem s p) \<Longrightarrow> length (elem_at ch p s) = elem_sz (chans s ch)"
  by (simp add: elem_at_def load_elem_def)

lemma mem_store [simp]: "mem (store_elem p v s) = (mem s)(p := memcpy_at (mem s p) 0 v)"
  by (simp add: store_elem_def)

lemma chan_contents_lengths:
  assumes "chan_wf c" and "v \<in> set (chan_contents c)"
  shows "length v = elem_sz c"
proof -
  obtain i where i: "v = slot c ((ch_head c + i) mod buf_sz c)" "i < ch_count c"
    using assms(2) by (auto simp: chan_contents_def)
  then have "(ch_head c + i) mod buf_sz c < buf_sz c" using assms(1) by (auto simp: chan_wf_def)
  from slot_bound [OF this, of "elem_sz c"] i(1) assms(1) show ?thesis by (simp add: slot_def chan_wf_def)
qed

text \<open>Receiving from a ring that holds something, and directly from the first parked sender. The
  object read into is not one that is being sent.\<close>

lemma recv_fifo_ring:
  assumes inv: "chans_inv s" and plain: "plain_senders s ch"
    and out: "\<forall>n \<in> set (wlists s (LSenders ch)). data_ptr (nodes s n) \<noteq> out"
    and seq: "chan_seq s ch = v # vs" and True: "ch_count (chans s ch) > 0"
  shows "\<exists>t. chan_recv_locked ch out dl try_only can_block s = (Some SUSPENDERS_OK, t) \<and>
     load_elem (elem_sz (chans s ch)) (mem t out) = v \<and> chan_seq t ch = vs"
proof -
  have ci: "chan_inv s ch" using inv by (simp add: chans_inv_def)
  then have wf: "chan_wf (chans s ch)" and pos: "buf_sz (chans s ch) \<noteq> 0" using True by (auto simp: chan_inv_def chan_wf_def)
  obtain w ws where cc: "chan_contents (chans s ch) = w # ws"
    using True by (cases "chan_contents (chans s ch)") (auto simp: chan_contents_def)
  then have w: "w = v" "length v = elem_sz (chans s ch)"
    using seq chan_contents_lengths [OF wf, of w] by (auto simp: chan_seq_def)
  obtain c' where pop: "s_chan_buf_pop (chans s ch) = (v, c')" "chan_wf c'" "chan_contents c' = ws"
    using chan_pop_effect [OF wf cc] True w by (auto simp: chan_take_def split: prod.splits)
  have c': "ch_count c' = ch_count (chans s ch) - 1" "buf_sz c' = buf_sz (chans s ch)" "elem_sz c' = elem_sz (chans s ch)"
    using pop(1) pop_fields [of "chans s ch"] by auto
  let ?s1 = "upd_chan ch (\<lambda>_. c') (store_elem out v s)"
  show ?thesis
  proof (cases "wlists s (LSenders ch)")
    case Nil
    then have "chan_recv_locked ch out dl try_only can_block s = (Some SUSPENDERS_OK, ?s1)"
      using True pos pop(1) by (simp add: chan_recv_locked_def take_waiter_plain)
    with w pop Nil cc seq show ?thesis by (simp add: load_stored chan_seq_def)
  next
    case (Cons n ns)
    let ?x = "elem_at ch (data_ptr (nodes s n)) s"
    have n: "select_rec (nodes s n) = None" "data_ptr (nodes s n) \<noteq> out" "length ?x = elem_sz (chans s ch)"
      using plain out Cons by (auto simp: plain_senders_def elem_at_full)
    have x: "elem_at ch (data_ptr (nodes s n)) (upd_list (LSenders ch) (\<lambda>_. ns) ?s1) = ?x"
      using n(2) c' by (simp add: elem_at_def)
    define u where "u = upd_chan ch (\<lambda>c. s_chan_buf_push c ?x) (upd_list (LSenders ch) (\<lambda>_. ns) ?s1)"
    have r: "chan_recv_locked ch out dl try_only can_block s =
        (Some SUSPENDERS_OK, s_wait_finish_wake n (s_wait_grant n SUSPENDERS_OK u))"
      using True pos pop(1) Cons n x by (simp add: chan_recv_locked_def take_waiter_plain u_def)
    have "ch_count (chans s ch) = buf_sz (chans s ch)" using ci Cons by (simp add: chan_inv_def)
    then have "chan_room c' ?x" using True c' n(3) by (simp add: chan_room_def)
    then have "chan_contents (s_chan_buf_push c' ?x) = ws @ [?x]" using ring.push_contents [OF pop(2)] pop(3) by simp
    moreover have "n \<notin> set ns" "\<forall>m \<in> set ns. data_ptr (nodes s m) \<noteq> out"
      using inv Cons out by (auto simp: chans_inv_def wait_ok_def) (metis distinct.simps(2))
    ultimately have "chan_seq (s_wait_finish_wake n (s_wait_grant n SUSPENDERS_OK u)) ch = vs"
      using seq cc Cons c' by (auto simp: chan_seq_def u_def elem_at_def)
    with r w show ?thesis by (simp add: u_def load_stored)
  qed
qed

lemma recv_fifo_handoff:
  assumes inv: "chans_inv s" and plain: "plain_senders s ch"
    and out: "\<forall>n \<in> set (wlists s (LSenders ch)). data_ptr (nodes s n) \<noteq> out"
    and seq: "chan_seq s ch = v # vs" and False: "\<not> ch_count (chans s ch) > 0"
  shows "\<exists>t. chan_recv_locked ch out dl try_only can_block s = (Some SUSPENDERS_OK, t) \<and>
     load_elem (elem_sz (chans s ch)) (mem t out) = v \<and> chan_seq t ch = vs"
proof -
  have c0: "chan_contents (chans s ch) = []" using False by (simp add: chan_contents_def)
  with seq obtain n ns where Cons: "wlists s (LSenders ch) = n # ns"
    and v: "elem_at ch (data_ptr (nodes s n)) s = v" by (auto simp: chan_seq_def)
  have n: "select_rec (nodes s n) = None" "length v = elem_sz (chans s ch)"
    using plain Cons v by (auto simp: plain_senders_def elem_at_full)
  let ?u = "store_elem out v (upd_list (LSenders ch) (\<lambda>_. ns) s)"
  have x: "elem_at ch (data_ptr (nodes s n)) (upd_list (LSenders ch) (\<lambda>_. ns) s) = v"
    using v by (simp add: elem_at_def)
  have r: "chan_recv_locked ch out dl try_only can_block s =
      (Some SUSPENDERS_OK, s_wait_finish_wake n (s_wait_grant n SUSPENDERS_OK ?u))"
    using False Cons n x by (simp add: chan_recv_locked_def take_waiter_plain)
  have "n \<notin> set ns" "\<forall>m \<in> set ns. data_ptr (nodes s m) \<noteq> out"
    using inv Cons out by (auto simp: chans_inv_def wait_ok_def) (metis distinct.simps(2))
  then have "chan_seq (s_wait_finish_wake n (s_wait_grant n SUSPENDERS_OK ?u)) ch = vs"
    using seq c0 Cons by (auto simp: chan_seq_def elem_at_def)
  with r n(2) show ?thesis by (simp add: load_stored)
qed


lemma send_fifo:
  assumes inv: "chans_inv s" and opn: "\<not> closed (chans s ch)" and rx: "wlists s (LReceivers ch) = []"
    and val: "elem_sz (chans s ch) \<le> length (mem s val)"
    and blk: "can_block \<longrightarrow> (\<exists>c. running s = Some c \<and> status (nodes s (Emb c)) \<noteq> S_WQ_WAITING)"
  shows "\<exists>r t. chan_send_locked ch val dl try_only can_block s = (r, t) \<and>
     (if ch_count (chans s ch) < buf_sz (chans s ch)
      then r = Some SUSPENDERS_OK \<and> chan_seq t ch = chan_seq s ch @ [elem_at ch val s]
      else if can_block then r = None \<and> chan_seq t ch = chan_seq s ch @ [elem_at ch val s]
      else r = Some (if try_only then SUSPENDERS_FULL else SUSPENDERS_PERM) \<and> chan_seq t ch = chan_seq s ch)"
proof -
  have ci: "chan_inv s ch" and ok: "waits_ok s" using inv by (auto simp: chans_inv_def)
  have wf: "chan_wf (chans s ch)" using ci by (simp add: chan_inv_def)
  let ?x = "elem_at ch val s"
  consider (room) "ch_count (chans s ch) < buf_sz (chans s ch)"
    | (full) "\<not> ch_count (chans s ch) < buf_sz (chans s ch)" "\<not> can_block"
    | (park) "\<not> ch_count (chans s ch) < buf_sz (chans s ch)" can_block by blast
  then show ?thesis
  proof cases
    case room
    then have "wlists s (LSenders ch) = []" using ci by (auto simp: chan_inv_def)
    moreover have "chan_contents (s_chan_buf_push (chans s ch) ?x) = chan_contents (chans s ch) @ [?x]"
      using ring.push_contents [OF wf] room val by (simp add: chan_room_def elem_at_full)
    ultimately show ?thesis using room opn rx
      by (simp add: chan_send_locked_def take_waiter_plain chan_seq_def)
  next
    case full
    then show ?thesis using opn rx
      by (auto simp: chan_send_locked_def take_waiter_plain fail_def chan_seq_def elem_at_def)
  next
    case park
    from blk park(2) obtain c where c: "running s = Some c" "status (nodes s (Emb c)) \<noteq> S_WQ_WAITING" by blast
    let ?p = "s_wait_park (LSenders ch) (KChan ch) val s"
    obtain u where u: "s_wait_block_dl dl ?p = (None, u)" "sync_view u = sync_view ?p" "nodes u = nodes ?p"
      using park_then_block [OF c] by blast
    have w: "wlists u = (wlists s)(LSenders ch := wlists s (LSenders ch) @ [Emb c])" "chans u = chans s" "mem u = mem s"
      using u(2) unfolding park_effect(1) [OF c(1)] by (simp_all add: sync_view_eq)
    have "Emb c \<notin> set (wlists s (LSenders ch))" using wait_ok_decided_off_list [OF ok c(2)] by blast
    then have "chan_seq u ch = chan_seq s ch @ [?x]"
      by (auto simp: chan_seq_def w u(3) park_effect(2) [OF c(1)] elem_at_def)
    with u park opn rx show ?thesis by (simp add: chan_send_locked_def take_waiter_plain)
  qed
qed

lemma send_to_receiver:
  assumes opn: "\<not> closed (chans s ch)" and rx: "wlists s (LReceivers ch) = n # ns" "select_rec (nodes s n) = None"
    and val: "elem_sz (chans s ch) \<le> length (mem s val)"
  shows "\<exists>t. chan_send_locked ch val dl try_only can_block s = (Some SUSPENDERS_OK, t) \<and>
     load_elem (elem_sz (chans s ch)) (mem t (data_ptr (nodes s n))) = elem_at ch val s \<and>
     status (nodes t n) = SUSPENDERS_OK \<and> wlists t (LReceivers ch) = ns \<and> chans t = chans s"
proof -
  have "elem_at ch val (upd_list (LReceivers ch) (\<lambda>_. ns) s) = elem_at ch val s" by (simp add: elem_at_def)
  with assms show ?thesis
    by (simp add: chan_send_locked_def take_waiter_plain load_stored elem_at_full)
qed

section \<open>What a channel promises\<close>

text \<open>The call gets past its entry check: it cannot block, or no cancellation is pending and no
  deadline has passed.\<close>

definition admitted :: "bool \<Rightarrow> rt \<Rightarrow> bool" where
  "admitted try_only s \<longleftrightarrow> try_only \<or> \<not> s_io_is_cr s \<or> fst (s_pre_block (the (running s)) s) = 0"

lemma impl_admitted:
  assumes "admitted try_only s" and "p \<noteq> 0"
  shows "\<exists>s1. sync_view s1 = sync_view s \<and> nodes s1 = nodes s \<and> running s1 = running s \<and>
    s_chan_send_impl (Some ch) p dl try_only s = chan_send_locked ch p dl try_only (\<not> try_only \<and> s_io_is_cr s) s1 \<and>
    s_chan_recv_impl (Some ch) p dl try_only s = chan_recv_locked ch p dl try_only (\<not> try_only \<and> s_io_is_cr s) s1"
proof (cases "\<not> try_only \<and> s_io_is_cr s")
  case True
  obtain pre s1 where e: "s_pre_block (the (running s)) s = (pre, s1)" by fastforce
  with True assms have "pre = 0" by (simp add: admitted_def)
  with True assms e pre_block_frame [OF e] show ?thesis
    by (intro exI [of _ s1]) (auto simp: s_chan_send_impl_def s_chan_recv_impl_def)
next
  case False
  with assms show ?thesis
    by (intro exI [of _ s]) (auto simp: s_chan_send_impl_def s_chan_recv_impl_def Let_def)
qed

lemma chan_seq_cong: "sync_view s1 = sync_view s \<Longrightarrow> nodes s1 = nodes s \<Longrightarrow> chan_seq s1 = chan_seq s"
  by (rule ext) (simp add: chan_seq_def elem_at_def sync_view_eq)

lemma chans_inv_view: "sync_view s1 = sync_view s \<Longrightarrow> nodes s1 = nodes s \<Longrightarrow> chans_inv s1 = chans_inv s"
  by (simp add: chans_inv_def chan_inv_def sync_view_eq)

lemma may_block: "may_call s \<Longrightarrow> s_io_is_cr s \<Longrightarrow> \<exists>c. running s = Some c \<and> status (nodes s (Emb c)) \<noteq> S_WQ_WAITING"
  by (auto simp: may_call_def s_io_is_cr_def)

text \<open>C2. Channels are first in, first out. Let a channel's sequence be the ring's elements followed by
  the values of its parked senders. A receive on a nonempty sequence succeeds at once, stores the
  oldest value and leaves the rest in order, be it taken from the ring (the first parked sender then
  fills the freed slot) or straight from the first sender.\<close>

theorem chan_recv_takes_oldest:
  assumes "chans_inv s" and "plain_senders s ch" and "admitted try_only s" and "out \<noteq> 0"
    and "\<forall>n \<in> set (wlists s (LSenders ch)). data_ptr (nodes s n) \<noteq> out"
    and "chan_seq s ch = v # vs"
  shows "\<exists>t. s_chan_recv_impl (Some ch) out dl try_only s = (Some SUSPENDERS_OK, t) \<and>
     load_elem (elem_sz (chans s ch)) (mem t out) = v \<and> chan_seq t ch = vs"
proof -
  define blk where "blk \<longleftrightarrow> \<not> try_only \<and> s_io_is_cr s"
  obtain s1 where v: "sync_view s1 = sync_view s" "nodes s1 = nodes s"
    and e: "s_chan_recv_impl (Some ch) out dl try_only s = chan_recv_locked ch out dl try_only blk s1"
    using impl_admitted [OF assms(3,4)] unfolding blk_def by metis
  have f: "wlists s1 = wlists s" "chans s1 = chans s" "mem s1 = mem s" using v(1) by (auto simp: sync_view_eq)
  have inv1: "chans_inv s1" using assms(1) chans_inv_view [OF v] by simp
  have a: "plain_senders s1 ch" "chan_seq s1 ch = v # vs"
    "\<forall>n \<in> set (wlists s1 (LSenders ch)). data_ptr (nodes s1 n) \<noteq> out"
    using assms chan_seq_cong [OF v] by (simp_all add: plain_senders_def f v)
  obtain t where t: "chan_recv_locked ch out dl try_only blk s1 = (Some SUSPENDERS_OK, t)"
    "load_elem (elem_sz (chans s1 ch)) (mem t out) = v" "chan_seq t ch = vs"
    using recv_fifo_ring [OF inv1 a(1) a(3) a(2)] recv_fifo_handoff [OF inv1 a(1) a(3) a(2)] by blast
  with e t f show ?thesis by auto
qed

text \<open>C11. A send on an open channel either hands the value to the longest-waiting receiver, which wakes
  with \<open>SUSPENDERS_OK\<close> and finds the value in its object, or appends the value to the channel's
  sequence: in the ring when there is room, otherwise by parking when the caller can block. When it
  can do neither it reports \<open>SUSPENDERS_FULL\<close> (try) or \<open>SUSPENDERS_PERM\<close> (outside a
  coroutine) and the sequence is unchanged. A closed channel refuses at once.\<close>

theorem chan_send_appends:
  assumes "chans_inv s" and "may_call s" and "admitted try_only s" and "val \<noteq> 0"
    and "elem_sz (chans s ch) \<le> length (mem s val)"
    and "\<forall>n \<in> set (wlists s (LReceivers ch)). select_rec (nodes s n) = None"
  shows "\<exists>r t. s_chan_send_impl (Some ch) val dl try_only s = (r, t) \<and>
     (if closed (chans s ch) then r = Some SUSPENDERS_CLOSED \<and> chan_seq t ch = chan_seq s ch
      else case wlists s (LReceivers ch) of
        n # ns \<Rightarrow> r = Some SUSPENDERS_OK \<and> status (nodes t n) = SUSPENDERS_OK \<and> wlists t (LReceivers ch) = ns \<and>
          load_elem (elem_sz (chans s ch)) (mem t (data_ptr (nodes s n))) = elem_at ch val s
      | [] \<Rightarrow>
          if ch_count (chans s ch) < buf_sz (chans s ch)
          then r = Some SUSPENDERS_OK \<and> chan_seq t ch = chan_seq s ch @ [elem_at ch val s]
          else if \<not> try_only \<and> s_io_is_cr s
          then r = None \<and> chan_seq t ch = chan_seq s ch @ [elem_at ch val s]
          else r = Some (if try_only then SUSPENDERS_FULL else SUSPENDERS_PERM) \<and> chan_seq t ch = chan_seq s ch)"
proof -
  define blk where "blk \<longleftrightarrow> \<not> try_only \<and> s_io_is_cr s"
  obtain s1 where v: "sync_view s1 = sync_view s" "nodes s1 = nodes s" and r: "running s1 = running s"
    and e: "s_chan_send_impl (Some ch) val dl try_only s = chan_send_locked ch val dl try_only blk s1"
    using impl_admitted [OF assms(3,4)] unfolding blk_def by metis
  have f: "wlists s1 = wlists s" "chans s1 = chans s" "mem s1 = mem s" "elem_at ch val s1 = elem_at ch val s"
    using v(1) by (auto simp: sync_view_eq elem_at_def)
  have inv1: "chans_inv s1" using assms(1) chans_inv_view [OF v] by simp
  have seq: "chan_seq s1 = chan_seq s" by (rule chan_seq_cong [OF v])
  have b: "blk \<longrightarrow> (\<exists>c. running s1 = Some c \<and> status (nodes s1 (Emb c)) \<noteq> S_WQ_WAITING)"
    using may_block [OF assms(2)] r v(2) by (simp add: blk_def)
  show ?thesis
  proof (cases "closed (chans s ch)")
    case True
    moreover have "chan_seq (set_errno SUSPENDERS_CLOSED s1) = chan_seq s1" by (rule chan_seq_cong) simp_all
    ultimately show ?thesis using seq f(2) unfolding e by (simp add: chan_send_locked_def fail_def)
  next
    case opn: False
    show ?thesis
    proof (cases "wlists s (LReceivers ch)")
      case Nil
      have "\<not> closed (chans s1 ch)" "wlists s1 (LReceivers ch) = []" "elem_sz (chans s1 ch) \<le> length (mem s1 val)"
        using opn Nil assms(5) f by simp_all
      from send_fifo [OF inv1 this b, of dl try_only] show ?thesis
        unfolding e blk_def [symmetric] by (simp only: f seq opn Nil if_False list.case)
    next
      case (Cons n ns)
      with send_to_receiver [of s1 ch n ns val dl try_only blk] opn assms(5,6) f v(2) show ?thesis
        unfolding e by auto
    qed
  qed
qed

lemma close_inv:
  assumes "chans_inv s"
  shows "chans_inv (snd (suspenders_chan_close cho s))"
proof (cases "\<exists>ch. cho = Some ch \<and> \<not> closed (chans s ch)")
  case True
  then show ?thesis using close_correct [OF assms] by (metis snd_conv)
next
  case False
  then have "\<exists>e. suspenders_chan_close cho s = fail e s" by (auto simp: suspenders_chan_close_def split: option.split)
  with assms show ?thesis by (auto simp: fail_def chans_inv_def chan_inv_def)
qed

text \<open>C12. The invariants stated with the channel type hold after every send, receive and close, for
  every channel: receivers are parked only while the ring is empty, senders only while it is full (or
  there is no ring), a closed channel has no waiters, and the ring stays well formed. Every queued
  node is still waiting and knows its list.\<close>

theorem chan_operations_keep_invariant:
  assumes "chans_inv s" and "may_call s"
  shows "chans_inv (snd (s_chan_send_impl cho p dl try_only s)) \<and>
         chans_inv (snd (s_chan_recv_impl cho p dl try_only s)) \<and>
         chans_inv (snd (suspenders_chan_close cho s))"
  using close_inv [OF assms(1)] send_impl_inv [OF assms, of cho p dl try_only]
    recv_impl_inv [OF assms, of cho p dl try_only]
  by (metis prod.collapse)

text \<open>C13. Closing an open channel succeeds, empties both wait lists, fails every plainly parked sender and
  receiver with \<open>SUSPENDERS_CLOSED\<close> and closes their decider windows, and keeps the buffered
  elements. Afterwards sends fail with \<open>SUSPENDERS_CLOSED\<close>, receives drain the ring in order,
  and on the drained channel they fail with \<open>SUSPENDERS_CLOSED\<close>; a second close is refused.\<close>

theorem chan_close_drains:
  assumes "chans_inv s" and "\<not> closed (chans s ch)"
  shows "\<exists>t. suspenders_chan_close (Some ch) s = (Some SUSPENDERS_OK, t) \<and> chans_inv t \<and> closed (chans t ch) \<and>
     chan_seq t ch = chan_contents (chans s ch) \<and> wlists t (LSenders ch) = [] \<and> wlists t (LReceivers ch) = [] \<and>
     (\<forall>n \<in> set (wlists s (LSenders ch) @ wlists s (LReceivers ch)). select_rec (nodes s n) = None \<longrightarrow>
        status (nodes t n) = SUSPENDERS_CLOSED \<and> \<not> waker_busy (nodes t n)) \<and>
     fst (suspenders_chan_close (Some ch) t) = Some SUSPENDERS_CLOSED \<and>
     (p \<noteq> 0 \<longrightarrow> fst (suspenders_chan_try_send (Some ch) p t) = Some SUSPENDERS_CLOSED \<and>
        (case chan_contents (chans s ch) of
           [] \<Rightarrow> fst (suspenders_chan_try_recv (Some ch) p t) = Some SUSPENDERS_CLOSED
         | v # vs \<Rightarrow> \<exists>u. suspenders_chan_try_recv (Some ch) p t = (Some SUSPENDERS_OK, u) \<and>
             load_elem (elem_sz (chans s ch)) (mem u p) = v \<and> chan_seq u ch = vs))"
proof -
  obtain t where t: "suspenders_chan_close (Some ch) s = (Some SUSPENDERS_OK, t)" "chans_inv t"
     "chans t = (chans s)(ch := (chans s ch)\<lparr>closed := True\<rparr>)"
     "wlists t = (wlists s)(LSenders ch := [], LReceivers ch := [])"
     "\<forall>n \<in> set (wlists s (LSenders ch) @ wlists s (LReceivers ch)). select_rec (nodes s n) = None \<longrightarrow>
        status (nodes t n) = SUSPENDERS_CLOSED \<and> \<not> waker_busy (nodes t n)"
    using close_correct [OF assms] by blast
  have cl: "closed (chans t ch)" "wlists t (LSenders ch) = []" "wlists t (LReceivers ch) = []" using t(3,4) by simp_all
  have "chan_contents ((chans s ch)\<lparr>closed := True\<rparr>) = chan_contents (chans s ch)"
    by (simp add: chan_contents_def slot_def)
  then have seq: "chan_seq t ch = chan_contents (chans s ch)" by (simp add: chan_seq_def t(3,4))
  have again: "fst (suspenders_chan_close (Some ch) t) = Some SUSPENDERS_CLOSED"
    using cl by (simp add: suspenders_chan_close_def fail_def)
  have try_send: "fst (suspenders_chan_try_send (Some ch) p t) = Some SUSPENDERS_CLOSED" if "p \<noteq> 0"
    using cl that by (simp add: suspenders_chan_try_send_def s_chan_send_impl_def chan_send_locked_def fail_def Let_def)
  have "case chan_contents (chans s ch) of
           [] \<Rightarrow> fst (suspenders_chan_try_recv (Some ch) p t) = Some SUSPENDERS_CLOSED
         | v # vs \<Rightarrow> \<exists>u. suspenders_chan_try_recv (Some ch) p t = (Some SUSPENDERS_OK, u) \<and>
             load_elem (elem_sz (chans s ch)) (mem u p) = v \<and> chan_seq u ch = vs" if p: "p \<noteq> 0"
  proof (cases "chan_contents (chans s ch)")
    case Nil
    then have "ch_count (chans t ch) = 0" using t(3) by (auto simp: chan_contents_def)
    with Nil cl p show ?thesis
      by (simp add: suspenders_chan_try_recv_def s_chan_recv_impl_def chan_recv_locked_def take_waiter_plain fail_def Let_def)
  next
    case (Cons v vs)
    with recv_fifo_ring [OF t(2), of ch p v vs 0 True False] recv_fifo_handoff [OF t(2), of ch p v vs 0 True False]
      seq cl t(3) p show ?thesis
      by (auto simp: suspenders_chan_try_recv_def s_chan_recv_impl_def plain_senders_def Let_def)
  qed
  with t(1,2,5) cl seq again try_send show ?thesis by blast
qed

section \<open>Creation\<close>

text \<open>A channel created with a positive element size whose ring fits an object is well formed, open and
  empty, has the requested capacity, and no waiters; a zero element size and a failed allocation are
  reported and change nothing but the error code.\<close>

theorem chan_create_correct:
  assumes heap: "\<forall>n a b. heap_alloc n = Some (a, b) \<longrightarrow> length b = unat n"
    and size: "unat hdr + unat es * unat bs < 2 ^ 63"
  shows "case suspenders_chan_create heap_alloc hdr es bs s of
      (None, t) \<Rightarrow> (es = 0 \<and> t = set_errno SUSPENDERS_INVAL s) \<or>
                    (heap_alloc (hdr + es * bs) = None \<and> t = set_errno SUSPENDERS_NOMEM s)
    | (Some a, t) \<Rightarrow> es \<noteq> 0 \<and> chan_wf (chans t a) \<and> chan_inv t a \<and> chan_seq t a = [] \<and> \<not> closed (chans t a) \<and>
        elem_sz (chans t a) = unat es \<and> buf_sz (chans t a) = unat bs"
proof (cases "es = 0 \<or> heap_alloc (hdr + es * bs) = None")
  case True
  then show ?thesis by (auto simp: suspenders_chan_create_def)
next
  case False
  then obtain a b where ab: "es \<noteq> 0" "heap_alloc (hdr + es * bs) = Some (a, b)" by auto
  have m: "unat (es * bs) = unat es * unat bs" using size by (simp add: unat_word_ariths)
  have "unat (hdr + es * bs) = unat hdr + unat es * unat bs" using size m by (simp add: unat_word_ariths(1))
  then have len: "length b = unat hdr + unat es * unat bs" using heap ab by simp
  have pos: "0 < unat es" using ab(1) by (simp add: unat_gt_0)
  have wf: "chan_wf \<lparr>elem_sz = unat es, buf_sz = unat bs, ch_count = 0, ch_head = 0,
                  ch_buf = (if bs \<noteq> 0 then drop (unat hdr) b else []), closed = False\<rparr>"
    using len size pos by (auto simp: chan_wf_def unat_gt_0 mult.commute)
  with ab show ?thesis
    by (simp add: suspenders_chan_create_def chan_inv_def chan_seq_def chan_contents_def)
qed

definition plain_heap :: "u64 \<Rightarrow> (nat \<times> bytes) option" where
  "plain_heap n = Some (4, replicate (unat n) 0)"

theorem chan_create_correct_witness:
  "chan_inv (snd (suspenders_chan_create plain_heap 192 2 3 blank_rt)) 4 \<and>
   fst (suspenders_chan_create plain_heap 192 2 3 blank_rt) = Some 4"
proof -
  have "fst (suspenders_chan_create plain_heap 192 2 3 blank_rt) = Some 4"
    by (simp add: suspenders_chan_create_def plain_heap_def)
  with chan_create_correct [where heap_alloc = plain_heap and hdr = 192 and es = 2 and bs = 3 and s = blank_rt]
  show ?thesis by (auto simp: plain_heap_def split: prod.splits option.splits)
qed

text \<open>The size computation \<open>elem_sz * buf_sz\<close> is not checked for overflow: a channel of
  \<open>2 ^ 32\<close> elements of \<open>2 ^ 32\<close> bytes is created from a block that holds the header only.
  The ring has no bytes at all, so the channel is not well formed and the first buffered send copies
  out of bounds.\<close>

theorem chan_create_overflow:
  "suspenders_chan_create plain_heap 192 4294967296 4294967296 s =
     (Some 4, s\<lparr>chans := (chans s)(4 := \<lparr>elem_sz = 2 ^ 32, buf_sz = 2 ^ 32, ch_count = 0, ch_head = 0,
                          ch_buf = [], closed = False\<rparr>),
                wlists := (wlists s)(LSenders 4 := [], LReceivers 4 := [])\<rparr>) \<and>
   \<not> chan_wf (chans (snd (suspenders_chan_create plain_heap 192 4294967296 4294967296 s)) 4)"
proof -
  have "(4294967296 :: u64) * 4294967296 = 0" by simp
  then show ?thesis by (simp add: suspenders_chan_create_def plain_heap_def chan_wf_def)
qed

section \<open>Examples\<close>

text \<open>Channel 4 carries single bytes and holds 7; its ring is full and coroutine 5 waits to send the byte
  of object 21. Coroutine 6 runs.\<close>

definition chan_example :: rt where
  "chan_example = run_on 6 (suspenders_suspend (s_wait_park (LSenders 4) (KChan 4) 21
     (run_on 5 (blank_rt\<lparr>chans := (chans blank_rt)(4 := \<lparr>elem_sz = 1, buf_sz = 1, ch_count = 1, ch_head = 0,
        ch_buf = [7], closed = False\<rparr>), mem := (\<lambda>_. [0])(21 := [9])\<rparr>))))"

lemma run_on_view: "sync_view (run_on c s) = sync_view s" "nodes (run_on c s) = nodes s" "running (run_on c s) = Some c"
  by (simp_all add: run_on_def upd_cr_def sync_view_def)

lemma chan_example_facts:
  "chans_inv chan_example" "may_call chan_example" "plain_senders chan_example 4"
  "wlists chan_example (LSenders 4) = [Emb 5]" "wlists chan_example (LReceivers 4) = []"
  "data_ptr (nodes chan_example (Emb 5)) = 21"
  "chan_seq chan_example 4 = [[7], [9]]" "\<not> closed (chans chan_example 4)" "elem_sz (chans chan_example 4) = 1"
proof -
  let ?b = "blank_rt\<lparr>chans := (chans blank_rt)(4 := \<lparr>elem_sz = 1, buf_sz = 1, ch_count = 1, ch_head = 0,
        ch_buf = [7], closed = False\<rparr>), mem := (\<lambda>_. [0])(21 := [9])\<rparr>"
  let ?p = "s_wait_park (LSenders 4) (KChan 4) 21 (run_on 5 ?b)"
  have "waits_ok (run_on 5 ?b)" using wait_ok_blank by (simp add: run_on_view run_on_view(1) [unfolded sync_view_eq])
  then have ok: "waits_ok ?p"
    by (rule wait_park_ok [where c = 5]) (simp_all add: run_on_view blank_rt_def zero_node_def)
  have v: "sync_view chan_example = sync_view ?p" "nodes chan_example = nodes ?p"
    by (simp_all add: chan_example_def run_on_view)
  have e: "wlists chan_example = (\<lambda>_. [])(LSenders 4 := [Emb 5])" "chans chan_example = chans ?b"
    "mem chan_example = mem ?b"
    using v(1) by (simp_all add: sync_view_eq s_wait_park_def upd_list_def upd_node_def run_on_view(3)
        run_on_view(1) [unfolded sync_view_eq] blank_rt_def)
  have n: "nodes chan_example = (\<lambda>_. zero_node)(Emb 5 := zero_node\<lparr>node_cr := 5, data_ptr := 21, status := 1,
     waker_busy := False, wait_list := Some (LSenders 4), wait_lock := Some (KChan 4), select_rec := None\<rparr>)"
    by (simp add: v(2) s_wait_park_def run_on_view blank_rt_def)
  have "waits_ok chan_example" using ok v by (simp add: sync_view_eq)
  then show "chans_inv chan_example"
    by (auto simp: chans_inv_def chan_inv_def e chan_wf_def blank_rt_def)
  have "running chan_example = Some 6" by (simp add: chan_example_def run_on_view)
  then show "may_call chan_example" by (simp add: may_call_def n zero_node_def)
  show "plain_senders chan_example 4" "wlists chan_example (LSenders 4) = [Emb 5]"
    "wlists chan_example (LReceivers 4) = []" "data_ptr (nodes chan_example (Emb 5)) = 21"
    "\<not> closed (chans chan_example 4)" "elem_sz (chans chan_example 4) = 1"
    by (simp_all add: plain_senders_def e n)
  show "chan_seq chan_example 4 = [[7], [9]]"
    by (simp add: chan_seq_def e n chan_contents_def slot_def elem_at_def load_elem_def)
qed

theorem chan_recv_takes_oldest_witness:
  "\<exists>t. s_chan_recv_impl (Some 4) 30 0 True chan_example = (Some SUSPENDERS_OK, t) \<and>
     load_elem 1 (mem t 30) = [7] \<and> chan_seq t 4 = [[9]]"
  using chan_recv_takes_oldest [where s = chan_example and ch = 4 and out = 30 and try_only = True and dl = 0 and
      v = "[7]" and vs = "[[9]]"] chan_example_facts
  by (simp add: admitted_def)

theorem chan_send_appends_witness:
  "fst (s_chan_send_impl (Some 4) 30 0 True chan_example) = Some SUSPENDERS_FULL"
proof -
  have "elem_sz (chans chan_example 4) \<le> length (mem chan_example 30)" "\<not> ch_count (chans chan_example 4) < buf_sz (chans chan_example 4)"
    by (simp_all add: chan_example_def run_on_def upd_cr_def suspenders_suspend_def s_wait_park_def upd_list_def
        upd_node_def ctx_switch_main_def blank_rt_def)
  with chan_send_appends [where s = chan_example and ch = 4 and val = 30 and try_only = True and dl = 0]
    chan_example_facts show ?thesis by (auto simp: admitted_def)
qed

theorem chan_operations_keep_invariant_witness:
  "chans_inv (snd (s_chan_send_impl (Some 4) 30 0 False chan_example)) \<and>
   chans_inv (snd (suspenders_chan_close (Some 4) chan_example))"
  using chan_operations_keep_invariant [OF chan_example_facts(1,2), where cho = "Some 4" and p = 30 and dl = 0 and
      try_only = False] by blast

theorem chan_close_drains_witness:
  "\<exists>t. suspenders_chan_close (Some 4) chan_example = (Some SUSPENDERS_OK, t) \<and>
     status (nodes t (Emb 5)) = SUSPENDERS_CLOSED \<and> chan_seq t 4 = [[7]]"
proof -
  have c: "chan_contents (chans chan_example 4) = [[7]]" "select_rec (nodes chan_example (Emb 5)) = None"
    using chan_example_facts(3,4,7) by (simp_all add: chan_seq_def plain_senders_def)
  show ?thesis
    using chan_close_drains [OF chan_example_facts(1,8), where p = 30] chan_example_facts(4) c by auto
qed

end
