(* ===== verification/Sync.thy ===== *)
theory Sync
  imports Channel
begin

text \<open>
  The coroutine synchronization primitives: mutex (FIFO handoff, priority inheritance), read-write
  lock (FIFO with reader batches), condition variable and wait group. One invariant covers every wait
  list of the runtime: a list has waiters only while the condition they wait for has not come about
  (\<open>list_cond\<close>). Each operation is shown to keep it, and the operations to do what their
  callers rely on.
\<close>

section \<open>Mutex\<close>

text \<open>A mutex is its owner and its wait list \<open>LMutex m\<close>. \<open>None\<close> for a structure argument is a
  null pointer.\<close>

definition suspenders_mutex_init :: "nat option \<Rightarrow> rt \<Rightarrow> int \<times> rt" where
  "suspenders_mutex_init mo s =
     (case mo of None \<Rightarrow> (SUSPENDERS_INVAL, s)
      | Some m \<Rightarrow> (SUSPENDERS_OK, s\<lparr>owner := (owner s)(m := None), wlists := (wlists s)(LMutex m := [])\<rparr>))"

definition suspenders_mutex_trylock :: "nat option \<Rightarrow> rt \<Rightarrow> int option \<times> rt" where
  "suspenders_mutex_trylock mo s =
     (case (mo, running s) of
        (Some m, Some c) \<Rightarrow>
          (case owner s m of
             None \<Rightarrow> (Some SUSPENDERS_OK, s\<lparr>owner := (owner s)(m := Some c)\<rparr>)
           | Some _ \<Rightarrow> fail SUSPENDERS_BUSY s)
      | _ \<Rightarrow> fail SUSPENDERS_INVAL s)"

definition suspenders_mutex_lock_dl :: "nat option \<Rightarrow> u64 \<Rightarrow> rt \<Rightarrow> int option \<times> rt" where
  "suspenders_mutex_lock_dl mo dl s =
     (case mo of
        None \<Rightarrow> fail SUSPENDERS_INVAL s
      | Some m \<Rightarrow>
          (let ((pre, c), s1) = s_block_begin s in
           if pre \<noteq> 0 then (Some pre, s1)
           else
             (case owner s1 m of
                None \<Rightarrow> (Some SUSPENDERS_OK, s1\<lparr>owner := (owner s1)(m := Some c)\<rparr>)
              | Some w \<Rightarrow>
                  if w = c then fail SUSPENDERS_PERM s1
                  else
                    (let s2 = s_wait_park (LMutex m) (KMutex m) 0 s1;
                         s3 = suspenders_boost w (effective_qos (crs s2 c)) s2
                     in s_wait_block_dl dl s3))))"

definition suspenders_mutex_lock :: "nat option \<Rightarrow> rt \<Rightarrow> int option \<times> rt" where
  "suspenders_mutex_lock mo s = suspenders_mutex_lock_dl mo 0 s"

definition suspenders_mutex_unlock :: "nat option \<Rightarrow> rt \<Rightarrow> int option \<times> rt" where
  "suspenders_mutex_unlock mo s =
     (case (mo, running s) of
        (Some m, Some c) \<Rightarrow>
          if owner s m \<noteq> Some c then fail SUSPENDERS_PERM s
          else
            (let s1 = upd_cr c (\<lambda>r. r\<lparr>effective_qos := base_qos r\<rparr>) s in
             case wlists s1 (LMutex m) of
               n # ns \<Rightarrow>
                 (let s2 = s_wait_grant n SUSPENDERS_OK
                        ((upd_list (LMutex m) (\<lambda>_. ns) s1)\<lparr>owner := (owner s1)(m := Some (node_cr (nodes s1 n)))\<rparr>)
                  in (Some SUSPENDERS_OK, s_wait_finish_wake n s2))
             | [] \<Rightarrow> (Some SUSPENDERS_OK, s1\<lparr>owner := (owner s1)(m := None)\<rparr>))
      | _ \<Rightarrow> fail SUSPENDERS_INVAL s)"

text \<open>\<open>s_mutex_lock_raw\<close>: taking the mutex or parking for it, and one pass of its loop.
  \<open>True\<close> says that the function has returned, holding the mutex.\<close>

definition mutex_raw_take :: "nat \<Rightarrow> cr_ref \<Rightarrow> rt \<Rightarrow> bool \<times> rt" where
  "mutex_raw_take m c s =
     (case owner s m of
        None \<Rightarrow> (True, s\<lparr>owner := (owner s)(m := Some c)\<rparr>)
      | Some _ \<Rightarrow> (False, s_wait_park (LMutex m) (KMutex m) 0 s))"

definition raw_done :: "cr_ref \<Rightarrow> rt \<Rightarrow> rt" where
  "raw_done c s = upd_node (Emb c) (\<lambda>x. x\<lparr>wait_list := None, wait_lock := None\<rparr>) s"

definition s_mutex_lock_raw :: "nat \<Rightarrow> rt \<Rightarrow> bool \<times> rt" where
  "s_mutex_lock_raw m s =
     (case running s of
        None \<Rightarrow> (False, s)
      | Some c \<Rightarrow>
          (case mutex_raw_take m c s of
             (True, s1) \<Rightarrow> (True, s1)
           | (False, s1) \<Rightarrow> (False, suspenders_suspend s1)))"

definition s_mutex_lock_raw_loop :: "nat \<Rightarrow> rt \<Rightarrow> bool \<times> rt" where
  "s_mutex_lock_raw_loop m s =
     (case running s of
        None \<Rightarrow> (False, s)
      | Some c \<Rightarrow>
          (let node = nodes s (Emb c) in
           if status node = S_WQ_WAITING then (False, suspenders_suspend s)
           else if waker_busy node then (False, suspenders_yield s)
           else if status node = SUSPENDERS_OK then (True, raw_done c s)
           else
             (case mutex_raw_take m c s of
                (True, s1) \<Rightarrow> (True, raw_done c s1)
              | (False, s1) \<Rightarrow> (False, suspenders_suspend s1))))"

section \<open>Read-write lock\<close>

definition S_RW_WRITER :: ptr where
  "S_RW_WRITER = 1"

definition upd_rw :: "nat \<Rightarrow> (rwlock \<Rightarrow> rwlock) \<Rightarrow> rt \<Rightarrow> rt" where
  [rt_simps]: "upd_rw rw f s = s\<lparr>rwlocks := (rwlocks s)(rw := f (rwlocks s rw))\<rparr>"

definition suspenders_rwlock_init :: "nat option \<Rightarrow> rt \<Rightarrow> int \<times> rt" where
  "suspenders_rwlock_init rwo s =
     (case rwo of None \<Rightarrow> (SUSPENDERS_INVAL, s)
      | Some rw \<Rightarrow> (SUSPENDERS_OK, (upd_rw rw (\<lambda>_. \<lparr>readers = 0, writer = False\<rparr>) s)
                       \<lparr>wlists := (wlists s)(LRwlock rw := [])\<rparr>))"

definition suspenders_rwlock_tryrdlock :: "nat option \<Rightarrow> rt \<Rightarrow> int option \<times> rt" where
  "suspenders_rwlock_tryrdlock rwo s =
     (case rwo of
        None \<Rightarrow> fail SUSPENDERS_INVAL s
      | Some rw \<Rightarrow>
          if \<not> writer (rwlocks s rw) \<and> wlists s (LRwlock rw) = []
          then (Some SUSPENDERS_OK, upd_rw rw (\<lambda>l. l\<lparr>readers := readers l + 1\<rparr>) s)
          else fail SUSPENDERS_BUSY s)"

definition suspenders_rwlock_rdlock_dl :: "nat option \<Rightarrow> u64 \<Rightarrow> rt \<Rightarrow> int option \<times> rt" where
  "suspenders_rwlock_rdlock_dl rwo dl s =
     (case rwo of
        None \<Rightarrow> fail SUSPENDERS_INVAL s
      | Some rw \<Rightarrow>
          (let ((pre, c), s1) = s_block_begin s in
           if pre \<noteq> 0 then (Some pre, s1)
           else if \<not> writer (rwlocks s1 rw) \<and> wlists s1 (LRwlock rw) = []
           then (Some SUSPENDERS_OK, upd_rw rw (\<lambda>l. l\<lparr>readers := readers l + 1\<rparr>) s1)
           else s_wait_block_dl dl (s_wait_park (LRwlock rw) (KRwlock rw) 0 s1)))"

definition suspenders_rwlock_trywrlock :: "nat option \<Rightarrow> rt \<Rightarrow> int option \<times> rt" where
  "suspenders_rwlock_trywrlock rwo s =
     (case rwo of
        None \<Rightarrow> fail SUSPENDERS_INVAL s
      | Some rw \<Rightarrow>
          if \<not> writer (rwlocks s rw) \<and> readers (rwlocks s rw) = 0
          then (Some SUSPENDERS_OK, upd_rw rw (\<lambda>l. l\<lparr>writer := True\<rparr>) s)
          else fail SUSPENDERS_BUSY s)"

definition suspenders_rwlock_wrlock_dl :: "nat option \<Rightarrow> u64 \<Rightarrow> rt \<Rightarrow> int option \<times> rt" where
  "suspenders_rwlock_wrlock_dl rwo dl s =
     (case rwo of
        None \<Rightarrow> fail SUSPENDERS_INVAL s
      | Some rw \<Rightarrow>
          (let ((pre, c), s1) = s_block_begin s in
           if pre \<noteq> 0 then (Some pre, s1)
           else if \<not> writer (rwlocks s1 rw) \<and> readers (rwlocks s1 rw) = 0 \<and> wlists s1 (LRwlock rw) = []
           then (Some SUSPENDERS_OK, upd_rw rw (\<lambda>l. l\<lparr>writer := True\<rparr>) s1)
           else s_wait_block_dl dl (s_wait_park (LRwlock rw) (KRwlock rw) S_RW_WRITER s1)))"

definition suspenders_rwlock_rdlock :: "nat option \<Rightarrow> rt \<Rightarrow> int option \<times> rt" where
  "suspenders_rwlock_rdlock rwo s = suspenders_rwlock_rdlock_dl rwo 0 s"

definition suspenders_rwlock_wrlock :: "nat option \<Rightarrow> rt \<Rightarrow> int option \<times> rt" where
  "suspenders_rwlock_wrlock rwo s = suspenders_rwlock_wrlock_dl rwo 0 s"

text \<open>Granting a popped node under the lock.\<close>

definition grant_and_wake :: "node_ref \<Rightarrow> rt \<Rightarrow> rt" where
  "grant_and_wake n s = (let s1 = s_wait_grant n SUSPENDERS_OK s in s_wake_no_preempt (node_cr (nodes s1 n)) s1)"

text \<open>The reader batch: \<open>while (head && head->data_ptr != S_RW_WRITER)\<close>. The list argument is the
  list \<open>LRwlock rw\<close> itself; the result is the chain of granted nodes.\<close>

fun grant_readers :: "nat \<Rightarrow> node_ref list \<Rightarrow> node_ref list \<Rightarrow> rt \<Rightarrow> node_ref list \<times> rt" where
  "grant_readers rw [] granted s = (granted, s)"
| "grant_readers rw (n # ns) granted s =
     (if data_ptr (nodes s n) = S_RW_WRITER then (granted, s)
      else grant_readers rw ns (n # granted)
        (grant_and_wake n (upd_rw rw (\<lambda>l. l\<lparr>readers := readers l + 1\<rparr>) (upd_list (LRwlock rw) (\<lambda>_. ns) s))))"

definition rwlock_grant :: "nat \<Rightarrow> rt \<Rightarrow> node_ref list \<times> rt" where
  "rwlock_grant rw s =
     (if readers (rwlocks s rw) = 0 \<and> \<not> writer (rwlocks s rw) then
        (case wlists s (LRwlock rw) of
           [] \<Rightarrow> ([], s)
         | n # ns \<Rightarrow>
             if data_ptr (nodes s n) = S_RW_WRITER
             then ([n], grant_and_wake n (upd_rw rw (\<lambda>l. l\<lparr>writer := True\<rparr>) (upd_list (LRwlock rw) (\<lambda>_. ns) s)))
             else grant_readers rw (n # ns) [] s)
      else ([], s))"

definition suspenders_rwlock_unlock :: "nat option \<Rightarrow> rt \<Rightarrow> int option \<times> rt" where
  "suspenders_rwlock_unlock rwo s =
     (case rwo of
        None \<Rightarrow> fail SUSPENDERS_INVAL s
      | Some rw \<Rightarrow>
          if \<not> writer (rwlocks s rw) \<and> \<not> readers (rwlocks s rw) > 0 then fail SUSPENDERS_PERM s
          else
            (let s1 = (if writer (rwlocks s rw) then upd_rw rw (\<lambda>l. l\<lparr>writer := False\<rparr>) s
                       else upd_rw rw (\<lambda>l. l\<lparr>readers := readers l - 1\<rparr>) s);
                 (granted, s2) = rwlock_grant rw s1
             in (Some SUSPENDERS_OK, s_wait_decide_end_chain granted s2)))"

section \<open>Condition variable\<close>

definition suspenders_cond_init :: "nat option \<Rightarrow> rt \<Rightarrow> int \<times> rt" where
  "suspenders_cond_init co s =
     (case co of None \<Rightarrow> (SUSPENDERS_INVAL, s)
      | Some c \<Rightarrow> (SUSPENDERS_OK, s\<lparr>wlists := (wlists s)(LCond c := [])\<rparr>))"

text \<open>\<open>suspenders_cond_wait_dl\<close> up to the release of the mutex. \<open>None\<close>: the caller is parked and
  continues with \<open>s_wait_block_dl\<close> and then \<open>s_mutex_lock_raw\<close>; the unlock may already have
  switched it out.\<close>

definition cond_wait_begin :: "nat option \<Rightarrow> nat option \<Rightarrow> rt \<Rightarrow> int option \<times> rt" where
  "cond_wait_begin co mo s =
     (case (co, mo) of
        (Some cv, Some m) \<Rightarrow>
          (let ((pre, c), s1) = s_block_begin s in
           if pre \<noteq> 0 then (Some pre, s1)
           else if owner s1 m \<noteq> Some c then fail SUSPENDERS_PERM s1
           else (None, snd (suspenders_mutex_unlock (Some m) (s_wait_park (LCond cv) (KCond cv) 0 s1))))
      | _ \<Rightarrow> fail SUSPENDERS_INVAL s)"

definition suspenders_cond_signal :: "nat option \<Rightarrow> rt \<Rightarrow> int option \<times> rt" where
  "suspenders_cond_signal co s =
     (case co of
        None \<Rightarrow> fail SUSPENDERS_INVAL s
      | Some c \<Rightarrow>
          (case wlists s (LCond c) of
             [] \<Rightarrow> (Some SUSPENDERS_OK, s)
           | n # ns \<Rightarrow>
               (Some SUSPENDERS_OK, s_wait_finish_wake n (s_wait_grant n SUSPENDERS_OK (upd_list (LCond c) (\<lambda>_. ns) s)))))"

fun grant_all :: "node_ref list \<Rightarrow> rt \<Rightarrow> rt" where
  "grant_all [] s = s"
| "grant_all (n # ns) s = grant_all ns (grant_and_wake n s)"

text \<open>Detach the whole list, grant and wake its nodes, then close their decider windows.\<close>

definition grant_list :: "list_ref \<Rightarrow> rt \<Rightarrow> rt" where
  "grant_list l s =
     (let granted = wlists s l in s_wait_decide_end_chain granted (grant_all granted (upd_list l (\<lambda>_. []) s)))"

definition suspenders_cond_broadcast :: "nat option \<Rightarrow> rt \<Rightarrow> int option \<times> rt" where
  "suspenders_cond_broadcast co s =
     (case co of None \<Rightarrow> fail SUSPENDERS_INVAL s | Some c \<Rightarrow> (Some SUSPENDERS_OK, grant_list (LCond c) s))"

section \<open>Wait group\<close>

definition suspenders_waitgroup_init :: "nat option \<Rightarrow> rt \<Rightarrow> int \<times> rt" where
  "suspenders_waitgroup_init wo s =
     (case wo of None \<Rightarrow> (SUSPENDERS_INVAL, s)
      | Some w \<Rightarrow> (SUSPENDERS_OK, s\<lparr>wg_count := (wg_count s)(w := 0), wlists := (wlists s)(LWg w := [])\<rparr>))"

definition suspenders_waitgroup_add :: "nat option \<Rightarrow> int \<Rightarrow> rt \<Rightarrow> int option \<times> rt" where
  "suspenders_waitgroup_add wo delta s =
     (case wo of
        None \<Rightarrow> fail SUSPENDERS_INVAL s
      | Some w \<Rightarrow>
          if wg_count s w + delta < 0 then fail SUSPENDERS_INVAL s
          else
            (let s1 = s\<lparr>wg_count := (wg_count s)(w := wg_count s w + delta)\<rparr> in
             (Some SUSPENDERS_OK,
              if wg_count s1 w = 0 \<and> wlists s1 (LWg w) \<noteq> [] then grant_list (LWg w) s1 else s1)))"

definition suspenders_waitgroup_done :: "nat option \<Rightarrow> rt \<Rightarrow> int option \<times> rt" where
  "suspenders_waitgroup_done wo s = suspenders_waitgroup_add wo (-1) s"

definition suspenders_waitgroup_wait_dl :: "nat option \<Rightarrow> u64 \<Rightarrow> rt \<Rightarrow> int option \<times> rt" where
  "suspenders_waitgroup_wait_dl wo dl s =
     (case wo of
        None \<Rightarrow> fail SUSPENDERS_INVAL s
      | Some w \<Rightarrow>
          (let ((pre, c), s1) = s_block_begin s in
           if pre \<noteq> 0 then (Some pre, s1)
           else if wg_count s1 w = 0 then (Some SUSPENDERS_OK, s1)
           else s_wait_block_dl dl (s_wait_park (LWg w) (KWg w) 0 s1)))"

definition suspenders_waitgroup_wait :: "nat option \<Rightarrow> rt \<Rightarrow> int option \<times> rt" where
  "suspenders_waitgroup_wait wo s = suspenders_waitgroup_wait_dl wo 0 s"

section \<open>The invariant of the wait lists\<close>

text \<open>What keeps the waiters of a list waiting.\<close>

primrec list_cond :: "rt \<Rightarrow> list_ref \<Rightarrow> bool" where
  "list_cond s (LReceivers ch) = (ch_count (chans s ch) = 0 \<and> \<not> closed (chans s ch))"
| "list_cond s (LSenders ch) = (ch_count (chans s ch) = buf_sz (chans s ch) \<and> \<not> closed (chans s ch))"
| "list_cond s (LMutex m) = (owner s m \<noteq> None)"
| "list_cond s (LRwlock rw) = (writer (rwlocks s rw) \<or> readers (rwlocks s rw) > 0)"
| "list_cond s (LCond c) = True"
| "list_cond s (LWg w) = (wg_count s w > 0)"

definition rw_wf :: "rwlock \<Rightarrow> bool" where
  "rw_wf l \<longleftrightarrow> readers l \<ge> 0 \<and> \<not> (writer l \<and> readers l > 0)"

definition structs_wf :: "rt \<Rightarrow> bool" where
  "structs_wf s \<longleftrightarrow> (\<forall>ch. chan_wf (chans s ch)) \<and> (\<forall>rw. rw_wf (rwlocks s rw)) \<and> (\<forall>w. wg_count s w \<ge> 0)"

definition lists_ok :: "rt \<Rightarrow> bool" where
  "lists_ok s \<longleftrightarrow> (\<forall>l. wlists s l \<noteq> [] \<longrightarrow> list_cond s l)"

definition rt_inv :: "rt \<Rightarrow> bool" where
  "rt_inv s \<longleftrightarrow> waits_ok s \<and> lists_ok s \<and> structs_wf s"

lemma list_cond_cong:
  "chans t = chans s \<Longrightarrow> owner t = owner s \<Longrightarrow> rwlocks t = rwlocks s \<Longrightarrow> wg_count t = wg_count s \<Longrightarrow>
   list_cond t = list_cond s"
proof
  fix l
  assume "chans t = chans s" "owner t = owner s" "rwlocks t = rwlocks s" "wg_count t = wg_count s"
  then show "list_cond t l = list_cond s l" by (cases l) auto
qed

lemma rt_inv_view: "sync_view t = sync_view s \<Longrightarrow> nodes t = nodes s \<Longrightarrow> rt_inv t = rt_inv s"
proof -
  assume v: "sync_view t = sync_view s" "nodes t = nodes s"
  have "list_cond t = list_cond s" using v by (intro list_cond_cong) (auto simp: sync_view_eq)
  with v show ?thesis by (simp add: rt_inv_def lists_ok_def structs_wf_def sync_view_eq)
qed

lemma rt_inv_chans: "rt_inv s \<Longrightarrow> chans_inv s"
proof -
  assume i: "rt_inv s"
  have "list_cond s (LReceivers ch)" if "wlists s (LReceivers ch) \<noteq> []" for ch
    using i that unfolding rt_inv_def lists_ok_def by blast
  moreover have "list_cond s (LSenders ch)" if "wlists s (LSenders ch) \<noteq> []" for ch
    using i that unfolding rt_inv_def lists_ok_def by blast
  ultimately show ?thesis using i by (auto simp: chans_inv_def chan_inv_def rt_inv_def structs_wf_def)
qed

lemma rt_inv_struct:
  assumes "rt_inv s" and "nodes t = nodes s" and "wlists t = wlists s" and "structs_wf t"
    and "\<And>l. wlists s l \<noteq> [] \<Longrightarrow> list_cond s l \<Longrightarrow> list_cond t l"
  shows "rt_inv t"
  using assms unfolding rt_inv_def lists_ok_def by simp

lemma rt_inv_park:
  assumes inv: "rt_inv s" and c: "running s = Some c" "status (nodes s (Emb c)) \<noteq> S_WQ_WAITING"
    and l: "list_cond s l"
  shows "rt_inv (s_wait_park l k d s)"
proof -
  let ?p = "s_wait_park l k d s"
  have w: "wlists ?p = (wlists s)(l := wlists s l @ [Emb c])" "chans ?p = chans s" "owner ?p = owner s"
    "rwlocks ?p = rwlocks s" "wg_count ?p = wg_count s"
    using park_effect(1) [OF c(1), of l k d] by (simp_all add: sync_view_eq)
  have lc: "list_cond ?p = list_cond s" using w by (intro list_cond_cong)
  have "waits_ok ?p" using inv c by (intro wait_park_ok) (auto simp: rt_inv_def)
  with inv l show ?thesis
    by (auto simp: rt_inv_def lists_ok_def structs_wf_def w lc)
qed

lemma rt_inv_park_block:
  assumes inv: "rt_inv s" and c: "running s = Some c" "status (nodes s (Emb c)) \<noteq> S_WQ_WAITING"
    and l: "list_cond s l"
  shows "rt_inv (snd (s_wait_block_dl dl (s_wait_park l k d s)))" and "fst (s_wait_block_dl dl (s_wait_park l k d s)) = None"
proof -
  obtain u where u: "s_wait_block_dl dl (s_wait_park l k d s) = (None, u)"
    "sync_view u = sync_view (s_wait_park l k d s)" "nodes u = nodes (s_wait_park l k d s)"
    using park_then_block [OF c] by blast
  from rt_inv_view [OF u(2,3)] rt_inv_park [OF assms] u(1)
  show "rt_inv (snd (s_wait_block_dl dl (s_wait_park l k d s)))" "fst (s_wait_block_dl dl (s_wait_park l k d s)) = None"
    by simp_all
qed

text \<open>Deciding the head of a list: the node leaves, the structure may change.\<close>

lemma rt_inv_grant_head:
  assumes inv: "rt_inv s" and hd: "wlists s l = n # ns"
    and u: "wait_list (nodes u n) = None" "status (nodes u n) \<noteq> S_WQ_WAITING" "\<And>k. k \<noteq> n \<Longrightarrow> nodes u k = nodes s k"
      "wlists u = (wlists s)(l := ns)" "structs_wf u"
    and lc: "\<And>m. wlists u m \<noteq> [] \<Longrightarrow> list_cond s m \<Longrightarrow> list_cond u m"
  shows "rt_inv u"
proof -
  have ok: "waits_ok s" and li: "lists_ok s" using inv by (auto simp: rt_inv_def)
  have n: "nodes u = (nodes s)(n := nodes u n)" using u(3) by auto
  have "wait_ok ((nodes s)(n := nodes u n)) (wlists u)" unfolding u(4) using ok hd u(1,2) by (intro wait_ok_pop) auto
  with n have "waits_ok u" by simp
  moreover have "lists_ok u"
    unfolding lists_ok_def
  proof (intro allI impI)
    fix m assume m: "wlists u m \<noteq> []"
    then have "wlists s m \<noteq> []" using u(4) hd by (cases "m = l") auto
    with li have "list_cond s m" by (simp add: lists_ok_def)
    with m show "list_cond u m" by (rule lc)
  qed
  ultimately show ?thesis using u(5) by (simp add: rt_inv_def)
qed

lemma waiter_wake_inv: "rt_inv s \<Longrightarrow> st \<noteq> S_WQ_WAITING \<Longrightarrow> s_waiter_wake c st s = (won, t) \<Longrightarrow> rt_inv t"
proof (cases won)
  case False
  then show "rt_inv s \<Longrightarrow> st \<noteq> S_WQ_WAITING \<Longrightarrow> s_waiter_wake c st s = (won, t) \<Longrightarrow> rt_inv t"
    using waiter_wake_cases by blast
next
  case True
  assume inv: "rt_inv s" and st: "st \<noteq> S_WQ_WAITING" and e: "s_waiter_wake c st s = (won, t)"
  have e: "s_waiter_wake c st s = (True, t)" using e True by simp
  have f: "chans t = chans s" "owner t = owner s" "rwlocks t = rwlocks s" "wg_count t = wg_count s"
    using waiter_wake_lists(3) [OF e] by (auto simp: sync_view_eq)
  have ok: "waits_ok s" using inv by (simp add: rt_inv_def)
  have lc: "list_cond t = list_cond s" using f by (intro list_cond_cong)
  have "wlists s l \<noteq> []" if "wlists t l \<noteq> []" for l
    using that waiter_wake_removes [OF ok e, of l] by auto
  then have "lists_ok t" using inv by (simp add: rt_inv_def lists_ok_def lc)
  moreover have "waits_ok t" by (rule waiter_wake_ok [OF ok st e])
  ultimately show ?thesis using inv f by (simp add: rt_inv_def structs_wf_def)
qed

section \<open>Channels within the whole\<close>

text \<open>What a channel operation may touch.\<close>

definition chan_frame :: "rt \<Rightarrow> rt \<Rightarrow> bool" where
  "chan_frame s t \<longleftrightarrow> owner t = owner s \<and> rwlocks t = rwlocks s \<and> wg_count t = wg_count s \<and>
     (\<forall>l. (\<forall>ch. l \<noteq> LSenders ch \<and> l \<noteq> LReceivers ch) \<longrightarrow> wlists t l = wlists s l)"

lemma chan_frame_view: "sync_view t = sync_view s \<Longrightarrow> chan_frame s t"
  by (simp add: chan_frame_def sync_view_eq)

lemma chan_frame_trans: "chan_frame s t \<Longrightarrow> chan_frame t u \<Longrightarrow> chan_frame s u"
  by (simp add: chan_frame_def)

lemma chan_frame_took:
  "took l s ls r t \<Longrightarrow> l = LSenders ch \<or> l = LReceivers ch \<Longrightarrow> chan_frame s t"
  using took_lists [of l s ls r t] by (auto simp: chan_frame_def)

lemma chan_frame_park:
  assumes "l = LSenders ch \<or> l = LReceivers ch" and "chan_frame s s1" and "running s1 = Some c"
    and "status (nodes s1 (Emb c)) \<noteq> S_WQ_WAITING"
  shows "chan_frame s (snd (s_wait_block_dl dl (s_wait_park l k d s1)))"
proof -
  obtain u where u: "s_wait_block_dl dl (s_wait_park l k d s1) = (None, u)" "sync_view u = sync_view (s_wait_park l k d s1)"
    using park_then_block [OF assms(3,4)] by blast
  then have "chan_frame s1 u"
    using assms(1) unfolding park_effect(1) [OF assms(3)] by (auto simp: chan_frame_def sync_view_eq)
  with u(1) chan_frame_trans [OF assms(2)] show ?thesis by simp
qed

lemma chan_inv_rt:
  assumes inv: "rt_inv s" and c: "chans_inv t" and f: "chan_frame s t"
  shows "rt_inv t"
proof -
  have ci: "chan_inv t ch" for ch using c by (simp add: chans_inv_def)
  have "list_cond t l" if "wlists t l \<noteq> []" for l
  proof (cases "\<exists>ch. l = LSenders ch \<or> l = LReceivers ch")
    case True
    then show ?thesis using ci that by (auto simp: chan_inv_def)
  next
    case False
    then have "wlists s l \<noteq> []" using f that by (auto simp: chan_frame_def)
    then have "list_cond s l" using inv by (simp add: rt_inv_def lists_ok_def)
    with f False show ?thesis by (cases l) (auto simp: chan_frame_def)
  qed
  then show ?thesis using c ci inv f by (simp add: rt_inv_def lists_ok_def structs_wf_def chans_inv_def chan_inv_def chan_frame_def)
qed

lemma send_locked_frame:
  assumes "may_call s" and "can_block \<Longrightarrow> running s \<noteq> None"
  shows "chan_frame s (snd (chan_send_locked ch val dl try_only can_block s))"
proof -
  obtain rx s1 where tk: "s_chan_take_waiter (LReceivers ch) s = (rx, s1)" by fastforce
  then obtain ls where t1: "took (LReceivers ch) s ls rx s1" using take_waiter_took by blast
  have f1: "chan_frame s s1" using t1 by (rule chan_frame_took) blast
  have park: "chan_frame s (snd (s_wait_block_dl dl (s_wait_park (LSenders ch) (KChan ch) val s1)))" if b: can_block
  proof -
    obtain c where "running s1 = Some c" "status (nodes s1 (Emb c)) \<noteq> S_WQ_WAITING"
      using assms(1) assms(2) [OF b] took_lists(6) [OF t1] took_nodes [OF t1] by (auto simp: may_call_def)
    then show ?thesis using f1 by (intro chan_frame_park) auto
  qed
  have "chan_frame s (set_errno x s)" "chan_frame s (set_errno x s1)" for x
    using f1 by (simp_all add: chan_frame_def)
  with park f1 tk show ?thesis
    by (auto simp: chan_send_locked_def fail_def Let_def split: option.splits if_splits) (auto simp: chan_frame_def)
qed

lemma recv_locked_frame:
  assumes "may_call s" and "can_block \<Longrightarrow> running s \<noteq> None"
  shows "chan_frame s (snd (chan_recv_locked ch out dl try_only can_block s))"
proof (cases "buf_sz (chans s ch) \<noteq> 0 \<and> ch_count (chans s ch) > 0")
  case True
  obtain v c' where pop: "s_chan_buf_pop (chans s ch) = (v, c')" by fastforce
  let ?s1 = "upd_chan ch (\<lambda>_. c') (store_elem out v s)"
  obtain tx s2 where tk: "s_chan_take_waiter (LSenders ch) ?s1 = (tx, s2)" by fastforce
  then obtain ls where t1: "took (LSenders ch) ?s1 ls tx s2" using take_waiter_took by blast
  have "chan_frame ?s1 s2" using t1 by (rule chan_frame_took) blast
  then have "chan_frame s s2" by (simp add: chan_frame_def)
  with True pop tk show ?thesis
    by (auto simp: chan_recv_locked_def Let_def split: option.splits) (auto simp: chan_frame_def)
next
  case False
  obtain tx s1 where tk: "s_chan_take_waiter (LSenders ch) s = (tx, s1)" by fastforce
  then obtain ls where t1: "took (LSenders ch) s ls tx s1" using take_waiter_took by blast
  have f1: "chan_frame s s1" using t1 by (rule chan_frame_took) blast
  have park: "chan_frame s (snd (s_wait_block_dl dl (s_wait_park (LReceivers ch) (KChan ch) out s1)))" if b: can_block
  proof -
    obtain c where "running s1 = Some c" "status (nodes s1 (Emb c)) \<noteq> S_WQ_WAITING"
      using assms(1) assms(2) [OF b] took_lists(6) [OF t1] took_nodes [OF t1] by (auto simp: may_call_def)
    then show ?thesis using f1 by (intro chan_frame_park) auto
  qed
  have "chan_frame s (set_errno x s1)" for x using f1 by (simp add: chan_frame_def)
  with park f1 tk False show ?thesis
    by (auto simp: chan_recv_locked_def fail_def Let_def split: option.splits if_splits) (auto simp: chan_frame_def)
qed

lemma chan_impl_frame:
  assumes may: "may_call s"
  shows "chan_frame s (snd (s_chan_send_impl cho p dl try_only s))" and "chan_frame s (snd (s_chan_recv_impl cho p dl try_only s))"
proof -
  define blk where "blk \<longleftrightarrow> \<not> try_only \<and> s_io_is_cr s"
  obtain pre s1 where e: "(if blk then s_pre_block (the (running s)) s else (0, s)) = (pre, s1)" by fastforce
  have f: "sync_view s1 = sync_view s" "nodes s1 = nodes s" "running s1 = running s"
    using e pre_block_frame [of "the (running s)" s pre s1] by (auto split: if_splits)
  have may1: "may_call s1" using may f by (simp add: may_call_def)
  have r1: "blk \<Longrightarrow> running s1 \<noteq> None" using f by (simp add: blk_def s_io_is_cr_def)
  have f1: "chan_frame s s1" by (rule chan_frame_view [OF f(1)])
  have er: "chan_frame s (set_errno x s)" for x by (rule chan_frame_view) simp
  have "chan_frame s (snd (chan_send_locked ch p dl try_only blk s1))" "chan_frame s (snd (chan_recv_locked ch p dl try_only blk s1))" for ch
    using chan_frame_trans [OF f1 send_locked_frame [OF may1 r1]] chan_frame_trans [OF f1 recv_locked_frame [OF may1 r1]] by blast+
  with e f1 er show "chan_frame s (snd (s_chan_send_impl cho p dl try_only s))" "chan_frame s (snd (s_chan_recv_impl cho p dl try_only s))"
    by (auto simp: s_chan_send_impl_def s_chan_recv_impl_def fail_def blk_def [symmetric] Let_def split: option.splits)
qed

lemma close_list_frame:
  "close_list l granted s = (g, t) \<Longrightarrow> owner t = owner s \<and> rwlocks t = rwlocks s \<and> wg_count t = wg_count s \<and>
     (\<forall>m. m \<noteq> l \<longrightarrow> wlists t m = wlists s m)"
proof (induction l granted s rule: close_list.induct)
  case (1 l granted s)
  obtain r s1 where tk: "s_chan_take_waiter l s = (r, s1)" by fastforce
  then obtain ls where t1: "took l s ls r s1" using take_waiter_took by blast
  note tl = took_lists [OF t1]
  show ?case
  proof (cases r)
    case None
    with 1(2) tk tl show ?thesis by (auto simp: close_list.simps)
  next
    case (Some n)
    let ?u = "s_wake_no_preempt (node_cr (nodes s1 n)) (s_wait_grant n SUSPENDERS_CLOSED s1)"
    have e: "close_list l (n # granted) ?u = (g, t)" using 1(2) tk Some by (simp add: close_list.simps [of l granted s])
    from 1(1) [OF tk [symmetric, unfolded Some] refl e] tl show ?thesis by simp
  qed
qed

lemma chan_close_frame: "chan_frame s (snd (suspenders_chan_close cho s))"
proof (cases "\<exists>ch. cho = Some ch \<and> \<not> closed (chans s ch)")
  case True
  then obtain ch where ch: "cho = Some ch" "\<not> closed (chans s ch)" by blast
  let ?s1 = "upd_chan ch (\<lambda>c. c\<lparr>closed := True\<rparr>) s"
  obtain g1 s2 where c1: "close_list (LSenders ch) [] ?s1 = (g1, s2)" by fastforce
  obtain g2 s3 where c2: "close_list (LReceivers ch) g1 s2 = (g2, s3)" by fastforce
  from ch c1 c2 close_list_frame [OF c1] close_list_frame [OF c2] show ?thesis
    by (auto simp: suspenders_chan_close_def chan_frame_def Let_def)
next
  case False
  then have "\<exists>e. suspenders_chan_close cho s = fail e s" by (auto simp: suspenders_chan_close_def split: option.split)
  then show ?thesis by (auto simp: fail_def intro: chan_frame_view)
qed

lemma chan_ops_rt_inv:
  assumes "rt_inv s" and "may_call s"
  shows "rt_inv (snd (s_chan_send_impl cho p dl try_only s))" and "rt_inv (snd (s_chan_recv_impl cho p dl try_only s))"
    and "rt_inv (snd (suspenders_chan_close cho s))"
proof -
  have c: "chans_inv s" by (rule rt_inv_chans [OF assms(1)])
  show "rt_inv (snd (s_chan_send_impl cho p dl try_only s))"
    by (rule chan_inv_rt [OF assms(1) _ chan_impl_frame(1) [OF assms(2)]]) (metis send_impl_inv [OF c assms(2)] prod.collapse)
  show "rt_inv (snd (s_chan_recv_impl cho p dl try_only s))"
    by (rule chan_inv_rt [OF assms(1) _ chan_impl_frame(2) [OF assms(2)]]) (metis recv_impl_inv [OF c assms(2)] prod.collapse)
  show "rt_inv (snd (suspenders_chan_close cho s))"
  proof (rule chan_inv_rt [OF assms(1) _ chan_close_frame])
    show "chans_inv (snd (suspenders_chan_close cho s))" by (rule close_inv [OF c])
  qed
qed

section \<open>Granting several waiters\<close>

definition granted_node :: "wq_node \<Rightarrow> wq_node" where
  "granted_node x = x\<lparr>waker_busy := False, wait_list := None, status := SUSPENDERS_OK\<rparr>"

lemma wait_ok_prefix:
  assumes "wait_ok nd wl" and "wl l = xs @ ys"
    and "\<And>x. wait_list (f x) = None" and "\<And>x. status (f x) \<noteq> S_WQ_WAITING"
  shows "wait_ok (\<lambda>n. if n \<in> set xs then f (nd n) else nd n) (wl(l := ys))"
proof -
  have d: "distinct (xs @ ys)" using assms(1,2) by (metis wait_ok_def)
  have iff: "n \<in> set (wl m) \<longleftrightarrow> wait_list (nd n) = Some m" for n m using assms(1) by (simp add: wait_ok_def)
  have "n \<in> set xs \<Longrightarrow> wait_list (nd n) = Some l" "n \<in> set ys \<Longrightarrow> wait_list (nd n) = Some l"
    "wait_list (nd n) = Some l \<Longrightarrow> n \<in> set xs \<or> n \<in> set ys" for n
    using iff [of n l] assms(2) by auto
  with assms d show ?thesis unfolding wait_ok_def by (auto simp: fun_upd_apply) blast
qed

lemma grant_and_wake_frame [simp]:
  "sync_view (grant_and_wake n s) = sync_view s"
  "nodes (grant_and_wake n s) = (nodes s)(n := (nodes s n)\<lparr>waker_busy := True, wait_list := None, status := SUSPENDERS_OK\<rparr>)"
  by (simp_all add: grant_and_wake_def Let_def)

lemmas grant_and_wake_fields [simp] = grant_and_wake_frame(1) [unfolded sync_view_eq]

lemma upd_rw_fields [simp]:
  "nodes (upd_rw rw f s) = nodes s" "wlists (upd_rw rw f s) = wlists s" "chans (upd_rw rw f s) = chans s"
  "owner (upd_rw rw f s) = owner s" "wg_count (upd_rw rw f s) = wg_count s" "mem (upd_rw rw f s) = mem s"
  "rwlocks (upd_rw rw f s) = (rwlocks s)(rw := f (rwlocks s rw))" "running (upd_rw rw f s) = running s"
  by (simp_all add: upd_rw_def)

lemma grant_all_frame:
  "sync_view (grant_all ns s) = sync_view s"
  "nodes (grant_all ns s) = (\<lambda>n. if n \<in> set ns then (nodes s n)\<lparr>waker_busy := True, wait_list := None, status := SUSPENDERS_OK\<rparr> else nodes s n)"
  by (induction ns arbitrary: s) (auto simp: fun_eq_iff)

lemma grant_list_effect:
  "wlists (grant_list l s) = (wlists s)(l := [])"
  "nodes (grant_list l s) = (\<lambda>n. if n \<in> set (wlists s l) then granted_node (nodes s n) else nodes s n)"
  "chans (grant_list l s) = chans s" "owner (grant_list l s) = owner s" "rwlocks (grant_list l s) = rwlocks s"
  "wg_count (grant_list l s) = wg_count s"
  using grant_all_frame(1) [of "wlists s l" "upd_list l (\<lambda>_. []) s"]
  by (auto simp: grant_list_def Let_def grant_all_frame(2) sync_view_eq granted_node_def fun_eq_iff)

lemma grant_list_inv:
  assumes "rt_inv s"
  shows "rt_inv (grant_list l s)"
proof -
  let ?t = "grant_list l s"
  have "list_cond ?t = list_cond s" by (intro list_cond_cong) (simp_all add: grant_list_effect)
  moreover have "wait_ok (nodes ?t) (wlists ?t)"
    unfolding grant_list_effect using assms
    by (intro wait_ok_prefix [where ys = "[]"]) (auto simp: rt_inv_def granted_node_def)
  ultimately show ?thesis using assms
    by (auto simp: rt_inv_def lists_ok_def structs_wf_def grant_list_effect)
qed

lemma grant_readers_effect:
  assumes "distinct ns"
  shows "wlists s (LRwlock rw) = ns \<Longrightarrow> grant_readers rw ns granted s = (g, t) \<Longrightarrow>
   g = rev (takeWhile (\<lambda>n. data_ptr (nodes s n) \<noteq> S_RW_WRITER) ns) @ granted \<and>
   wlists t = (wlists s)(LRwlock rw := dropWhile (\<lambda>n. data_ptr (nodes s n) \<noteq> S_RW_WRITER) ns) \<and>
   rwlocks t = (rwlocks s)(rw := (rwlocks s rw)\<lparr>readers := readers (rwlocks s rw) +
     int (length (takeWhile (\<lambda>n. data_ptr (nodes s n) \<noteq> S_RW_WRITER) ns))\<rparr>) \<and>
   nodes t = (\<lambda>n. if n \<in> set (takeWhile (\<lambda>n. data_ptr (nodes s n) \<noteq> S_RW_WRITER) ns)
     then (nodes s n)\<lparr>waker_busy := True, wait_list := None, status := SUSPENDERS_OK\<rparr> else nodes s n) \<and>
   chans t = chans s \<and> owner t = owner s \<and> wg_count t = wg_count s"
  using assms
proof (induction ns arbitrary: s granted)
  case Nil
  then show ?case by (auto simp: fun_upd_idem)
next
  case (Cons n ns)
  show ?case
  proof (cases "data_ptr (nodes s n) = S_RW_WRITER")
    case True
    with Cons.prems show ?thesis by (auto simp: fun_upd_idem)
  next
    case False
    let ?u = "grant_and_wake n (upd_rw rw (\<lambda>l. l\<lparr>readers := readers l + 1\<rparr>) (upd_list (LRwlock rw) (\<lambda>_. ns) s))"
    have e: "grant_readers rw ns (n # granted) ?u = (g, t)" using Cons.prems(2) False by simp
    have w: "wlists ?u (LRwlock rw) = ns" by simp
    have p: "data_ptr (nodes ?u m) = data_ptr (nodes s m)" for m by simp
    have n: "n \<notin> set ns" "distinct ns" using Cons.prems(3) by auto
    from Cons.IH [OF w e n(2)] False n show ?thesis
      unfolding p by (auto simp: fun_eq_iff)
  qed
qed

section \<open>The operations keep the invariant\<close>

lemma block_begin_frame:
  "s_block_begin s = ((pre, c), t) \<Longrightarrow> sync_view t = sync_view s \<and> nodes t = nodes s \<and> running t = running s \<and>
     main_cr t = main_cr s \<and> (pre = 0 \<longrightarrow> running s = Some c \<and> running s \<noteq> main_cr s)"
  by (auto simp: s_block_begin_def dest!: pre_block_frame split: option.splits if_splits prod.splits)

lemma block_begin_inv:
  assumes "s_block_begin s = ((pre, c), t)" and "rt_inv s" and "may_call s"
  shows "rt_inv t" and "may_call t" and "pre = 0 \<Longrightarrow> running t = Some c"
    and "pre = 0 \<Longrightarrow> status (nodes t (Emb c)) \<noteq> S_WQ_WAITING"
  using block_begin_frame [OF assms(1)] assms(2,3) rt_inv_view [of t s] by (auto simp: may_call_def)

lemma fail_inv: "rt_inv s \<Longrightarrow> rt_inv (snd (fail e s))"
  using rt_inv_view [of "set_errno e s" s] by (simp add: fail_def)

lemma owner_inv:
  assumes "rt_inv s" and "wlists s (LMutex m) \<noteq> [] \<longrightarrow> v \<noteq> None"
  shows "rt_inv (s\<lparr>owner := (owner s)(m := v)\<rparr>)"
proof (rule rt_inv_struct [OF assms(1)])
  fix l assume "wlists s l \<noteq> []" "list_cond s l"
  then show "list_cond (s\<lparr>owner := (owner s)(m := v)\<rparr>) l" using assms(2) by (cases l) auto
qed (use assms(1) in \<open>auto simp: rt_inv_def structs_wf_def\<close>)

lemma mutex_free_no_waiters: "rt_inv s \<Longrightarrow> owner s m = None \<Longrightarrow> wlists s (LMutex m) = []"
  unfolding rt_inv_def lists_ok_def by (metis list_cond.simps(3))

lemma mutex_trylock_inv: "rt_inv s \<Longrightarrow> rt_inv (snd (suspenders_mutex_trylock mo s))"
  by (auto simp: suspenders_mutex_trylock_def fail_inv intro: owner_inv split: option.split)

lemma mutex_lock_inv:
  assumes inv: "rt_inv s" and may: "may_call s"
  shows "rt_inv (snd (suspenders_mutex_lock_dl mo dl s))"
proof (cases mo)
  case None
  with inv show ?thesis by (simp add: suspenders_mutex_lock_dl_def fail_inv)
next
  case (Some m)
  obtain pre c s1 where b: "s_block_begin s = ((pre, c), s1)" by (metis surj_pair)
  note i = block_begin_inv [OF b inv may]
  consider "pre \<noteq> 0" | "pre = 0" "owner s1 m = None" | "pre = 0" "owner s1 m = Some c"
    | w where "pre = 0" "owner s1 m = Some w" "w \<noteq> c" by fastforce
  then show ?thesis
  proof cases
    case 4
    let ?p = "s_wait_park (LMutex m) (KMutex m) 0 s1"
    let ?q = "suspenders_boost w (effective_qos (crs ?p c)) ?p"
    have "rt_inv ?q" using rt_inv_park [OF i(1) i(3,4), of "LMutex m" "KMutex m" 0] 4 rt_inv_view [of ?q ?p] by simp
    moreover have "running ?q = Some c" "status (nodes ?q (Emb c)) = S_WQ_WAITING"
      using i(3) 4 by (simp_all add: s_wait_park_def upd_list_def)
    then obtain t where "s_wait_block_dl dl ?q = (None, t)" "sync_view t = sync_view ?q" "nodes t = nodes ?q"
      using wait_block_dl_parks by blast
    ultimately show ?thesis using 4 Some b rt_inv_view [of t ?q] by (simp add: suspenders_mutex_lock_dl_def Let_def)
  qed (use Some b i in \<open>auto simp: suspenders_mutex_lock_dl_def fail_inv intro: owner_inv\<close>)
qed

lemma mutex_unlock_inv:
  assumes inv: "rt_inv s"
  shows "rt_inv (snd (suspenders_mutex_unlock mo s))"
proof (cases "\<exists>m c. mo = Some m \<and> running s = Some c \<and> owner s m = Some c")
  case False
  then have "\<exists>e. suspenders_mutex_unlock mo s = fail e s"
    by (auto simp: suspenders_mutex_unlock_def split: option.split)
  then show ?thesis using fail_inv [OF inv] by auto
next
  case True
  then obtain m c where m: "mo = Some m" "running s = Some c" "owner s m = Some c" by blast
  define s1 where "s1 = upd_cr c (\<lambda>r. r\<lparr>effective_qos := base_qos r\<rparr>) s"
  have i1: "rt_inv s1" using inv rt_inv_view [of s1 s] by (simp add: s1_def)
  show ?thesis
  proof (cases "wlists s (LMutex m)")
    case Nil
    then show ?thesis using m owner_inv [OF i1, of m None]
      by (simp add: suspenders_mutex_unlock_def s1_def [symmetric] Let_def) (simp add: s1_def)
  next
    case (Cons n ns)
    let ?u = "s_wait_grant n SUSPENDERS_OK ((upd_list (LMutex m) (\<lambda>_. ns) s1)
        \<lparr>owner := (owner s1)(m := Some (node_cr (nodes s1 n)))\<rparr>)"
    let ?t = "s_wait_finish_wake n ?u"
    have t: "snd (suspenders_mutex_unlock mo s) = ?t"
      using m Cons by (simp add: suspenders_mutex_unlock_def s1_def Let_def)
    have hd: "wlists s1 (LMutex m) = n # ns" using Cons by (simp add: s1_def)
    have "rt_inv ?t"
    proof (rule rt_inv_grant_head [OF i1 hd])
      show "structs_wf ?t" using i1 by (simp add: rt_inv_def structs_wf_def)
      fix l assume "list_cond s1 l"
      then show "list_cond ?t l" by (cases l) auto
    qed simp_all
    with t show ?thesis by simp
  qed
qed

lemma raw_take_inv:
  assumes "rt_inv s" and "running s = Some c" and "status (nodes s (Emb c)) \<noteq> S_WQ_WAITING"
  shows "rt_inv (snd (mutex_raw_take m c s))"
  using assms by (auto simp: mutex_raw_take_def intro: owner_inv rt_inv_park split: option.split)

lemma suspend_inv: "rt_inv s \<Longrightarrow> rt_inv (suspenders_suspend s)"
  using rt_inv_view [of "suspenders_suspend s" s] by simp

lemma yield_inv: "rt_inv s \<Longrightarrow> rt_inv (suspenders_yield s)"
  using rt_inv_view [of "suspenders_yield s" s] by simp

lemma clear_wait_inv:
  assumes "rt_inv s" and "status (nodes s (Emb c)) \<noteq> S_WQ_WAITING"
  shows "rt_inv (upd_node (Emb c) (\<lambda>x. x\<lparr>wait_list := None, wait_lock := None\<rparr>) s)"
proof -
  let ?t = "upd_node (Emb c) (\<lambda>x. x\<lparr>wait_list := None, wait_lock := None\<rparr>) s"
  have ok: "waits_ok s" using assms by (simp add: rt_inv_def)
  have "wait_list (nodes s (Emb c)) = None" using wait_ok_decided_off_list [OF ok assms(2)] by blast
  then have "waits_ok ?t" using ok assms(2) by (auto intro: wait_ok_off_list)
  moreover have "list_cond ?t = list_cond s" by (intro list_cond_cong) simp_all
  ultimately show ?thesis using assms(1) by (simp add: rt_inv_def lists_ok_def structs_wf_def)
qed

lemma raw_loop_inv:
  assumes inv: "rt_inv s"
  shows "rt_inv (snd (s_mutex_lock_raw_loop m s))"
proof (cases "\<exists>c. running s = Some c \<and> status (nodes s (Emb c)) \<noteq> S_WQ_WAITING \<and> \<not> waker_busy (nodes s (Emb c))")
  case False
  with inv show ?thesis
    by (auto simp: s_mutex_lock_raw_loop_def suspend_inv yield_inv Let_def split: option.split)
next
  case True
  then obtain c where c: "running s = Some c" "status (nodes s (Emb c)) \<noteq> S_WQ_WAITING" "\<not> waker_busy (nodes s (Emb c))" by blast
  obtain b s1 where e: "mutex_raw_take m c s = (b, s1)" by fastforce
  have i1: "rt_inv s1" using raw_take_inv [OF inv c(1,2), of m] e by simp
  have "b \<Longrightarrow> status (nodes s1 (Emb c)) \<noteq> S_WQ_WAITING" using e c(2) by (auto simp: mutex_raw_take_def split: option.splits)
  with i1 inv c e show ?thesis
    by (auto simp: s_mutex_lock_raw_loop_def raw_done_def clear_wait_inv suspend_inv Let_def split: bool.split)
qed

lemma raw_lock_inv:
  assumes "rt_inv s" and "may_call s"
  shows "rt_inv (snd (s_mutex_lock_raw m s))"
proof (cases "running s")
  case None
  with assms show ?thesis by (simp add: s_mutex_lock_raw_def)
next
  case (Some c)
  then have "rt_inv (snd (mutex_raw_take m c s))" using assms by (intro raw_take_inv) (auto simp: may_call_def)
  with Some show ?thesis by (cases "mutex_raw_take m c s") (auto simp: s_mutex_lock_raw_def suspend_inv split: bool.split)
qed

text \<open>Changing a read-write lock when nobody waits for it, or when it stays held.\<close>

lemma rw_struct_inv:
  assumes "rt_inv s" and "rw_wf (f (rwlocks s rw))"
    and "wlists s (LRwlock rw) \<noteq> [] \<longrightarrow> writer (f (rwlocks s rw)) \<or> readers (f (rwlocks s rw)) > 0"
  shows "rt_inv (upd_rw rw f s)"
proof (rule rt_inv_struct [OF assms(1)])
  fix k assume "wlists s k \<noteq> []" "list_cond s k"
  then show "list_cond (upd_rw rw f s) k" using assms(3) by (cases k) auto
qed (use assms in \<open>auto simp: rt_inv_def structs_wf_def\<close>)

lemma rw_inv: "rt_inv s \<Longrightarrow> rw_wf (rwlocks s rw)"
  by (simp add: rt_inv_def structs_wf_def)

lemma rw_waiters_held: "rt_inv s \<Longrightarrow> wlists s (LRwlock rw) \<noteq> [] \<Longrightarrow> writer (rwlocks s rw) \<or> readers (rwlocks s rw) > 0"
  unfolding rt_inv_def lists_ok_def by (metis list_cond.simps(4))

lemma rw_read_inv:
  assumes "rt_inv s" and "\<not> writer (rwlocks s rw)"
  shows "rt_inv (upd_rw rw (\<lambda>l. l\<lparr>readers := readers l + 1\<rparr>) s)"
  using assms rw_inv [OF assms(1), of rw]
  by (intro rw_struct_inv) (auto simp: rw_wf_def)

lemma rw_write_inv:
  assumes "rt_inv s" and "readers (rwlocks s rw) = 0"
  shows "rt_inv (upd_rw rw (\<lambda>l. l\<lparr>writer := True\<rparr>) s)"
  using assms by (intro rw_struct_inv) (auto simp: rw_wf_def)

lemma rwlock_try_inv:
  "rt_inv s \<Longrightarrow> rt_inv (snd (suspenders_rwlock_tryrdlock rwo s))"
  "rt_inv s \<Longrightarrow> rt_inv (snd (suspenders_rwlock_trywrlock rwo s))"
  by (auto simp: suspenders_rwlock_tryrdlock_def suspenders_rwlock_trywrlock_def fail_inv
      intro: rw_read_inv rw_write_inv split: option.split)

lemma rwlock_lock_inv:
  assumes inv: "rt_inv s" and may: "may_call s"
  shows "rt_inv (snd (suspenders_rwlock_rdlock_dl rwo dl s))" and "rt_inv (snd (suspenders_rwlock_wrlock_dl rwo dl s))"
proof -
  obtain pre c s1 where b: "s_block_begin s = ((pre, c), s1)" by (metis surj_pair)
  note i = block_begin_inv [OF b inv may]
  have held: "writer (rwlocks s1 rw) \<or> readers (rwlocks s1 rw) > 0 \<Longrightarrow> pre = 0 \<Longrightarrow>
     rt_inv (snd (s_wait_block_dl dl (s_wait_park (LRwlock rw) (KRwlock rw) d s1)))" for rw d
    using i by (intro rt_inv_park_block(1) [where c = c]) auto
  have rd: "writer (rwlocks s1 rw) \<or> wlists s1 (LRwlock rw) \<noteq> [] \<Longrightarrow> writer (rwlocks s1 rw) \<or> readers (rwlocks s1 rw) > 0" for rw
    using rw_waiters_held [OF i(1)] by blast
  have wr: "writer (rwlocks s1 rw) \<or> readers (rwlocks s1 rw) \<noteq> 0 \<or> wlists s1 (LRwlock rw) \<noteq> [] \<Longrightarrow>
      writer (rwlocks s1 rw) \<or> readers (rwlocks s1 rw) > 0" for rw
    using rw_waiters_held [OF i(1)] rw_inv [OF i(1), of rw] by (auto simp: rw_wf_def)
  show "rt_inv (snd (suspenders_rwlock_rdlock_dl rwo dl s))"
    using inv i(1) b held rd by (auto simp: suspenders_rwlock_rdlock_dl_def fail_inv intro: rw_read_inv split: option.split)
  show "rt_inv (snd (suspenders_rwlock_wrlock_dl rwo dl s))"
    using inv i(1) b held wr by (auto simp: suspenders_rwlock_wrlock_dl_def fail_inv intro: rw_write_inv split: option.split)
qed

text \<open>What the grant of an unlocked read-write lock does: a writer at the head gets the lock, otherwise
  the readers in front of the first writer do.\<close>

definition rw_batch :: "rt \<Rightarrow> nat \<Rightarrow> node_ref list" where
  "rw_batch s rw =
     (case wlists s (LRwlock rw) of
        [] \<Rightarrow> []
      | n # ns \<Rightarrow> if data_ptr (nodes s n) = S_RW_WRITER then [n]
                  else takeWhile (\<lambda>n. data_ptr (nodes s n) \<noteq> S_RW_WRITER) (n # ns))"

definition rw_after_grant :: "rt \<Rightarrow> nat \<Rightarrow> rwlock" where
  "rw_after_grant s rw =
     (case wlists s (LRwlock rw) of
        [] \<Rightarrow> rwlocks s rw
      | n # _ \<Rightarrow> if data_ptr (nodes s n) = S_RW_WRITER then (rwlocks s rw)\<lparr>writer := True\<rparr>
                 else (rwlocks s rw)\<lparr>readers := readers (rwlocks s rw) + int (length (rw_batch s rw))\<rparr>)"

lemma rwlock_grant_effect:
  assumes ok: "waits_ok s" and free: "readers (rwlocks s rw) = 0" "\<not> writer (rwlocks s rw)"
    and g: "rwlock_grant rw s = (g, t)"
  shows "g = rev (rw_batch s rw) \<and> wlists t = (wlists s)(LRwlock rw := drop (length (rw_batch s rw)) (wlists s (LRwlock rw))) \<and>
     rwlocks t = (rwlocks s)(rw := rw_after_grant s rw) \<and>
     nodes t = (\<lambda>n. if n \<in> set (rw_batch s rw)
       then (nodes s n)\<lparr>waker_busy := True, wait_list := None, status := SUSPENDERS_OK\<rparr> else nodes s n) \<and>
     chans t = chans s \<and> owner t = owner s \<and> wg_count t = wg_count s"
proof (cases "wlists s (LRwlock rw)")
  case Nil
  with free g show ?thesis by (auto simp: rwlock_grant_def rw_batch_def rw_after_grant_def fun_upd_idem)
next
  case (Cons n ns)
  show ?thesis
  proof (cases "data_ptr (nodes s n) = S_RW_WRITER")
    case True
    with Cons free g show ?thesis
      by (auto simp: rwlock_grant_def rw_batch_def rw_after_grant_def)
  next
    case False
    have d: "distinct (n # ns)" using ok Cons by (metis wait_ok_def)
    have gr: "grant_readers rw (n # ns) [] s = (g, t)" using Cons free g False by (simp add: rwlock_grant_def)
    note e = grant_readers_effect [OF d Cons gr]
    have b: "rw_batch s rw = takeWhile (\<lambda>n. data_ptr (nodes s n) \<noteq> S_RW_WRITER) (n # ns)"
      using Cons False by (simp add: rw_batch_def)
    have "drop (length (rw_batch s rw)) (n # ns) = dropWhile (\<lambda>n. data_ptr (nodes s n) \<noteq> S_RW_WRITER) (n # ns)"
      unfolding b by (rule dropWhile_eq_drop [symmetric])
    with e b Cons False show ?thesis by (simp add: rw_after_grant_def)
  qed
qed

lemma rw_batch_prefix: "wlists s (LRwlock rw) = rw_batch s rw @ drop (length (rw_batch s rw)) (wlists s (LRwlock rw))"
proof (cases "wlists s (LRwlock rw)")
  case (Cons n ns)
  then show ?thesis
    using takeWhile_dropWhile_id [of "\<lambda>n. data_ptr (nodes s n) \<noteq> S_RW_WRITER" "n # ns"]
    by (auto simp: rw_batch_def dropWhile_eq_drop [symmetric])
qed (simp add: rw_batch_def)

lemma rw_batch_nonempty: "wlists s (LRwlock rw) \<noteq> [] \<Longrightarrow> rw_batch s rw \<noteq> []"
  by (auto simp: rw_batch_def split: list.split)

lemma rwlock_unlock_effect:
  assumes inv: "rt_inv s" and held: "writer (rwlocks s rw) \<or> readers (rwlocks s rw) > 0"
  defines "s1 \<equiv> (if writer (rwlocks s rw) then upd_rw rw (\<lambda>l. l\<lparr>writer := False\<rparr>) s
                 else upd_rw rw (\<lambda>l. l\<lparr>readers := readers l - 1\<rparr>) s)"
  shows "\<exists>t. suspenders_rwlock_unlock (Some rw) s = (Some SUSPENDERS_OK, t) \<and> rt_inv t \<and>
     (if readers (rwlocks s1 rw) = 0
      then rwlocks t rw = rw_after_grant s1 rw \<and> wlists t (LRwlock rw) = drop (length (rw_batch s rw)) (wlists s (LRwlock rw)) \<and>
           (\<forall>n \<in> set (rw_batch s rw). nodes t n = granted_node (nodes s n))
      else rwlocks t = rwlocks s1 \<and> wlists t = wlists s \<and> nodes t = nodes s)"
proof -
  have wf: "rw_wf (rwlocks s rw)" by (rule rw_inv [OF inv])
  have s1: "nodes s1 = nodes s" "wlists s1 = wlists s" "chans s1 = chans s" "owner s1 = owner s" "wg_count s1 = wg_count s"
    "\<not> writer (rwlocks s1 rw)" "readers (rwlocks s1 rw) \<ge> 0" "\<And>q. q \<noteq> rw \<Longrightarrow> rwlocks s1 q = rwlocks s q"
    using wf held by (auto simp: s1_def rw_wf_def)
  have ok1: "waits_ok s1" using inv s1 by (simp add: rt_inv_def)
  have b: "rw_batch s1 rw = rw_batch s rw" by (simp only: rw_batch_def s1)
  obtain g s2 where g: "rwlock_grant rw s1 = (g, s2)" by fastforce
  let ?t = "s_wait_decide_end_chain g s2"
  have r: "suspenders_rwlock_unlock (Some rw) s = (Some SUSPENDERS_OK, ?t)"
    using held g by (auto simp: suspenders_rwlock_unlock_def s1_def Let_def)
  have sw: "structs_wf u" if "chans u = chans s" "wg_count u = wg_count s" "\<And>q. q \<noteq> rw \<Longrightarrow> rwlocks u q = rwlocks s q"
    "rw_wf (rwlocks u rw)" for u
    using inv that by (metis (no_types, lifting) rt_inv_def structs_wf_def)
  have lc: "list_cond u k" if "chans u = chans s" "owner u = owner s" "wg_count u = wg_count s"
    "\<And>q. q \<noteq> rw \<Longrightarrow> rwlocks u q = rwlocks s q" "k \<noteq> LRwlock rw" "list_cond s k" for u k
    using that by (cases k) auto
  show ?thesis
  proof (cases "readers (rwlocks s1 rw) = 0")
    case False
    then have u: "g = []" "s2 = s1" using g by (auto simp: rwlock_grant_def)
    have "list_cond s1 k" if "wlists s k \<noteq> []" for k
      using that lc [of s1 k] inv s1 False by (cases "k = LRwlock rw") (auto simp: rt_inv_def lists_ok_def)
    then have "rt_inv s1" using inv s1 ok1 sw [of s1] by (auto simp: rt_inv_def lists_ok_def rw_wf_def)
    with r u False s1 show ?thesis by simp
  next
    case True
    note e = rwlock_grant_effect [OF ok1 True s1(6) g, unfolded b]
    have nt: "nodes ?t = (\<lambda>n. if n \<in> set (rw_batch s rw) then granted_node (nodes s n) else nodes s n)"
      using e s1(1) by (auto simp: granted_node_def fun_eq_iff)
    have wt: "wlists ?t = (wlists s)(LRwlock rw := drop (length (rw_batch s rw)) (wlists s (LRwlock rw)))"
      "rwlocks ?t = (rwlocks s1)(rw := rw_after_grant s1 rw)" "chans ?t = chans s" "owner ?t = owner s" "wg_count ?t = wg_count s"
      using e s1 by simp_all
    have ag: "rw_wf (rw_after_grant s1 rw)" "wlists s (LRwlock rw) \<noteq> [] \<Longrightarrow> writer (rw_after_grant s1 rw) \<or> readers (rw_after_grant s1 rw) > 0"
      using True s1(2,6) rw_batch_nonempty [of s1 rw] by (auto simp: rw_after_grant_def rw_wf_def split: list.splits)
    have rest: "rwlocks ?t q = rwlocks s q" if "q \<noteq> rw" for q
      using s1(8) [OF that] that unfolding wt(2) by (simp add: fun_upd_other)
    have "waits_ok ?t" unfolding nt wt(1)
      using inv rw_batch_prefix [of s rw] by (intro wait_ok_prefix) (auto simp: rt_inv_def granted_node_def)
    moreover have "list_cond ?t k" if k: "wlists ?t k \<noteq> []" for k
    proof (cases "k = LRwlock rw")
      case True
      then have "wlists s (LRwlock rw) \<noteq> []" using k wt(1) by auto
      with ag True wt show ?thesis by simp
    next
      case False
      then have lk: "list_cond s k" using k wt(1) inv by (auto simp: rt_inv_def lists_ok_def)
      show ?thesis using wt(3,4,5) rest False lk by (rule lc)
    qed
    moreover have "structs_wf ?t" 
    proof -
      have "rw_wf (rwlocks ?t rw)" unfolding wt(2) using ag(1) by simp
      with wt(3,5) rest show ?thesis by (rule sw)
    qed
    ultimately have "rt_inv ?t" by (simp add: rt_inv_def lists_ok_def)
    moreover have "\<forall>n \<in> set (rw_batch s rw). nodes ?t n = granted_node (nodes s n)" unfolding nt by simp
    moreover have "rwlocks ?t rw = rw_after_grant s1 rw"
      "wlists ?t (LRwlock rw) = drop (length (rw_batch s rw)) (wlists s (LRwlock rw))" by (simp_all only: wt fun_upd_same)
    ultimately show ?thesis using r True by (metis (no_types, lifting))
  qed
qed

lemma rwlock_unlock_inv:
  assumes "rt_inv s"
  shows "rt_inv (snd (suspenders_rwlock_unlock rwo s))"
proof (cases "\<exists>rw. rwo = Some rw \<and> (writer (rwlocks s rw) \<or> readers (rwlocks s rw) > 0)")
  case True
  then show ?thesis using rwlock_unlock_effect [OF assms] by (metis snd_conv)
next
  case False
  then have "\<exists>e. suspenders_rwlock_unlock rwo s = fail e s" by (auto simp: suspenders_rwlock_unlock_def split: option.split)
  then show ?thesis using fail_inv [OF assms] by auto
qed

lemma cond_wait_inv:
  assumes "rt_inv s" and "may_call s"
  shows "rt_inv (snd (cond_wait_begin co mo s))"
proof -
  obtain pre c s1 where b: "s_block_begin s = ((pre, c), s1)" by (metis surj_pair)
  note i = block_begin_inv [OF b assms]
  have "rt_inv (snd (suspenders_mutex_unlock (Some m) (s_wait_park (LCond cv) (KCond cv) 0 s1)))" if "pre = 0" for m cv
    using i that by (intro mutex_unlock_inv rt_inv_park) auto
  with b i(1) assms(1) show ?thesis by (auto simp: cond_wait_begin_def fail_inv split: option.split)
qed

lemma head_wake_inv:
  assumes inv: "rt_inv s" and hd: "wlists s l = n # ns"
  shows "rt_inv (s_wait_finish_wake n (s_wait_grant n SUSPENDERS_OK (upd_list l (\<lambda>_. ns) s)))" (is "rt_inv ?t")
proof (rule rt_inv_grant_head [OF inv hd])
  have "list_cond ?t = list_cond s" by (intro list_cond_cong) simp_all
  then show "\<And>m. list_cond s m \<Longrightarrow> list_cond ?t m" by simp
  show "structs_wf ?t" using inv by (simp add: rt_inv_def structs_wf_def)
qed simp_all

lemma cond_signal_inv: "rt_inv s \<Longrightarrow> rt_inv (snd (suspenders_cond_signal co s))"
  by (auto simp: suspenders_cond_signal_def fail_inv head_wake_inv
      simp del: SUSPENDERS_OK_def split: option.split list.split)

lemma cond_broadcast_inv: "rt_inv s \<Longrightarrow> rt_inv (snd (suspenders_cond_broadcast co s))"
  by (auto simp: suspenders_cond_broadcast_def fail_inv grant_list_inv split: option.split)

lemma waitgroup_add_inv:
  assumes inv: "rt_inv s"
  shows "rt_inv (snd (suspenders_waitgroup_add wo delta s))"
proof (cases "\<exists>w. wo = Some w \<and> wg_count s w + delta \<ge> 0")
  case False
  then have "\<exists>e. suspenders_waitgroup_add wo delta s = fail e s" by (auto simp: suspenders_waitgroup_add_def split: option.split)
  then show ?thesis using fail_inv [OF inv] by auto
next
  case True
  then obtain w where w: "wo = Some w" "wg_count s w + delta \<ge> 0" by blast
  define s1 where "s1 = s\<lparr>wg_count := (wg_count s)(w := wg_count s w + delta)\<rparr>"
  have wf: "structs_wf s1" using inv w(2) by (simp add: rt_inv_def structs_wf_def s1_def)
  have lc: "list_cond s1 k" if "wlists s k \<noteq> []" "k \<noteq> LWg w" for k
  proof -
    have "list_cond s k" using inv that by (simp add: rt_inv_def lists_ok_def)
    with that(2) show ?thesis by (cases k) (auto simp: s1_def)
  qed
  show ?thesis
  proof (cases "wg_count s1 w = 0 \<and> wlists s1 (LWg w) \<noteq> []")
    case False
    then have "list_cond s1 (LWg w)" if "wlists s (LWg w) \<noteq> []" using that w(2) by (simp add: s1_def)
    then have "list_cond s1 k" if "wlists s k \<noteq> []" for k using lc that by (cases "k = LWg w") auto
    then have "lists_ok s1" by (simp add: lists_ok_def s1_def)
    then have "rt_inv s1" using inv wf by (simp add: rt_inv_def s1_def)
    with False w show ?thesis by (auto simp: suspenders_waitgroup_add_def s1_def [symmetric] Let_def)
  next
    case True
    let ?t = "grant_list (LWg w) s1"
    have "list_cond ?t = list_cond s1" by (intro list_cond_cong) (simp_all add: grant_list_effect)
    then have "lists_ok ?t" using lc by (auto simp: lists_ok_def grant_list_effect s1_def)
    moreover have "waits_ok ?t" unfolding grant_list_effect
      using inv by (intro wait_ok_prefix [where ys = "[]"]) (auto simp: rt_inv_def granted_node_def s1_def)
    moreover have "structs_wf ?t" using wf by (simp add: structs_wf_def grant_list_effect)
    ultimately have "rt_inv ?t" by (simp add: rt_inv_def)
    with True w show ?thesis by (simp add: suspenders_waitgroup_add_def s1_def [symmetric] Let_def)
  qed
qed

lemma waitgroup_wait_inv:
  assumes "rt_inv s" and "may_call s"
  shows "rt_inv (snd (suspenders_waitgroup_wait_dl wo dl s))"
proof -
  obtain pre c s1 where b: "s_block_begin s = ((pre, c), s1)" by (metis surj_pair)
  note i = block_begin_inv [OF b assms]
  have "rt_inv (snd (s_wait_block_dl dl (s_wait_park (LWg w) (KWg w) 0 s1)))" if "pre = 0" "wg_count s1 w \<noteq> 0" for w
  proof -
    have "wg_count s1 w \<ge> 0" using i(1) by (simp add: rt_inv_def structs_wf_def)
    then show ?thesis using i that by (intro rt_inv_park_block(1) [where c = c]) auto
  qed
  with b i(1) assms(1) show ?thesis by (auto simp: suspenders_waitgroup_wait_dl_def fail_inv split: option.split)
qed

section \<open>What the primitives promise\<close>

lemma boost_effective:
  "effective_qos (crs (suspenders_boost w q s) c) = (if c = w then min q (effective_qos (crs s w)) else effective_qos (crs s c))"
  by (auto simp: suspenders_boost_def upd_cr_def)

lemma suspend_fields: "effective_qos (crs (suspenders_suspend s) c) = effective_qos (crs s c)"
  by (auto simp: suspenders_suspend_def upd_cr_def split: option.split)

lemma wait_block_dl_parks_qos:
  assumes "running s = Some c" and "status (nodes s (Emb c)) = S_WQ_WAITING" and "s_io_is_cr s"
  shows "\<exists>t. s_wait_block_dl dl s = (None, t) \<and> sync_view t = sync_view s \<and> nodes t = nodes s \<and>
     (\<forall>d. effective_qos (crs t d) = effective_qos (crs s d)) \<and> running t = main_cr s"
proof (cases "dl = 0")
  case True
  with assms wait_block_waiting [OF assms(1,2)] show ?thesis
    by (auto simp: s_wait_block_dl_def s_wait_block_dl_loop_def suspend_fields suspenders_suspend_def
        ctx_switch_main_def s_io_is_cr_def sync_view_def upd_cr_def)
next
  case False
  obtain b u where a: "s_timer_arm (TStack c) (upd_timer (TStack c) (\<lambda>_. fresh_timer dl (WaitDeadlineCb c)) s) = (b, u)"
    by fastforce
  note f = timer_arm_frame [OF a]
  then have "s_wait_block u = (None, suspenders_suspend u)"
    using assms by (intro wait_block_waiting) auto
  moreover have "effective_qos (crs u d) = effective_qos (crs s d)" for d using f by (simp add: upd_timer_def)
  moreover have "running (suspenders_suspend u) = main_cr s"
    using f assms by (auto simp: suspenders_suspend_def ctx_switch_main_def s_io_is_cr_def)
  ultimately show ?thesis using False assms a f
    by (auto simp: s_wait_block_dl_def s_wait_block_dl_loop_def suspend_fields)
qed

lemma woken_cong: "crs u = crs s \<Longrightarrow> s_worker u = s_worker s \<Longrightarrow> woken c u t = woken c s t"
  by (simp only: woken_def)

text \<open>Acquiring a mutex: a free mutex is taken at once; the owner's own second attempt fails with
  \<open>SUSPENDERS_PERM\<close>; any other caller queues behind the earlier waiters and is switched out, and
  the holder's effective QoS is raised to at least the caller's (single-level priority inheritance)
  while nobody else's changes.\<close>

theorem mutex_lock_cases:
  assumes inv: "rt_inv s" and may: "may_call s" and b: "s_block_begin s = ((0, c), s1)"
  shows "\<exists>r t. suspenders_mutex_lock_dl (Some m) dl s = (r, t) \<and>
    (case owner s m of
       None \<Rightarrow> r = Some SUSPENDERS_OK \<and> owner t m = Some c
     | Some w \<Rightarrow>
         if w = c then r = Some SUSPENDERS_PERM \<and> errno t = SUSPENDERS_PERM \<and> owner t = owner s \<and> wlists t = wlists s
         else r = None \<and> owner t = owner s \<and> wlists t (LMutex m) = wlists s (LMutex m) @ [Emb c] \<and>
              running t = main_cr s \<and>
              effective_qos (crs t w) = min (effective_qos (crs s1 c)) (effective_qos (crs s1 w)) \<and>
              (\<forall>d. d \<noteq> w \<longrightarrow> effective_qos (crs t d) = effective_qos (crs s1 d)))"
proof -
  note i = block_begin_inv [OF b inv may]
  have f: "owner s1 = owner s" "wlists s1 = wlists s" "main_cr s1 = main_cr s" "running s1 = Some c"
    using block_begin_frame [OF b] unfolding sync_view_eq by simp_all
  have nm: "Some c \<noteq> main_cr s" using block_begin_frame [OF b] by metis
  show ?thesis
  proof (cases "owner s m")
    case None
    with b f show ?thesis by (simp add: suspenders_mutex_lock_dl_def)
  next
    case (Some w)
    show ?thesis
    proof (cases "w = c")
      case True
      with Some b f show ?thesis
        by (simp add: suspenders_mutex_lock_dl_def fail_def) (simp add: set_errno_def)
    next
      case False
      let ?p = "s_wait_park (LMutex m) (KMutex m) 0 s1"
      let ?q = "suspenders_boost w (effective_qos (crs ?p c)) ?p"
      have pc: "crs ?p = crs s1" "main_cr ?p = main_cr s" using f by (simp_all add: s_wait_park_def upd_list_def upd_node_def)
      have q: "running ?q = Some c" "status (nodes ?q (Emb c)) = S_WQ_WAITING"
        using f by (simp_all add: s_wait_park_def upd_list_def)
      have io: "s_io_is_cr ?q" unfolding s_io_is_cr_def q(1) using nm pc(2) by simp
      from wait_block_dl_parks_qos [OF q io, of dl] obtain t where
        t: "s_wait_block_dl dl ?q = (None, t)" "sync_view t = sync_view ?q"
          "\<forall>d. effective_qos (crs t d) = effective_qos (crs ?q d)" "running t = main_cr s" using pc by auto
      have "wlists ?p (LMutex m) = wlists s (LMutex m) @ [Emb c]" "owner ?p = owner s"
        using park_effect(1) [OF f(4), of "LMutex m" "KMutex m" 0] f by (simp_all add: sync_view_eq)
      with t Some False b f pc show ?thesis
        by (simp add: suspenders_mutex_lock_dl_def Let_def boost_effective sync_view_eq)
    qed
  qed
qed

text \<open>C4. Releasing a mutex hands it over: only the owner may do it (anyone else gets
  \<open>SUSPENDERS_PERM\<close>); the longest-waiting coroutine becomes the owner before the lock is
  visible to anyone else, its wait ends with \<open>SUSPENDERS_OK\<close> and it is woken, the others keep
  their order, and a third party's try fails with \<open>SUSPENDERS_BUSY\<close>. Without waiters the mutex
  is free. The releaser's effective QoS returns to its base level.\<close>

theorem mutex_unlock_hands_over:
  assumes inv: "rt_inv s" and run: "running s = Some c"
  shows "\<exists>r t. suspenders_mutex_unlock (Some m) s = (r, t) \<and>
    (if owner s m \<noteq> Some c then r = Some SUSPENDERS_PERM \<and> owner t = owner s \<and> wlists t = wlists s
     else r = Some SUSPENDERS_OK \<and> effective_qos (crs t c) = base_qos (crs s c) \<and>
       (case wlists s (LMutex m) of
          [] \<Rightarrow> owner t m = None
        | n # ns \<Rightarrow> owner t m = Some (node_cr (nodes s n)) \<and> wlists t (LMutex m) = ns \<and>
            status (nodes t n) = SUSPENDERS_OK \<and> \<not> waker_busy (nodes t n) \<and>
            woken (node_cr (nodes s n)) (upd_cr c (\<lambda>r. r\<lparr>effective_qos := base_qos r\<rparr>) s) t \<and>
            (\<forall>u d. owner u = owner t \<and> running u = Some d \<longrightarrow> fst (suspenders_mutex_trylock (Some m) u) = Some SUSPENDERS_BUSY)))"
proof (cases "owner s m = Some c")
  case False
  with run show ?thesis by (auto simp: suspenders_mutex_unlock_def fail_def)
next
  case True
  define s1 where "s1 = upd_cr c (\<lambda>r. r\<lparr>effective_qos := base_qos r\<rparr>) s"
  have q1: "effective_qos (crs s1 c) = base_qos (crs s c)" by (simp add: s1_def upd_cr_def)
  show ?thesis
  proof (cases "wlists s (LMutex m)")
    case Nil
    with True run q1 show ?thesis by (simp add: suspenders_mutex_unlock_def s1_def [symmetric] Let_def) (simp add: s1_def)
  next
    case (Cons n ns)
    let ?u = "s_wait_grant n SUSPENDERS_OK ((upd_list (LMutex m) (\<lambda>_. ns) s1)
        \<lparr>owner := (owner s1)(m := Some (node_cr (nodes s1 n)))\<rparr>)"
    have r: "suspenders_mutex_unlock (Some m) s = (Some SUSPENDERS_OK, s_wait_finish_wake n ?u)"
      using run True Cons by (simp add: suspenders_mutex_unlock_def s1_def Let_def)
    have u: "crs ?u = crs s1" "s_worker ?u = s_worker s1" "node_cr (nodes ?u n) = node_cr (nodes s n)"
      by (simp_all add: s_wait_grant_def upd_node_def upd_list_def) (simp add: s1_def)
    have w: "woken (node_cr (nodes s n)) s1 (s_wait_finish_wake n ?u)"
      using finish_wake_woken [of ?u n] unfolding u(3) woken_cong [OF u(1,2)] .
    have "effective_qos (crs (s_wait_finish_wake n ?u) c) = base_qos (crs s c)"
      using finish_wake_qos [of n ?u c] u(1) q1 by simp
    then show ?thesis unfolding r s1_def [symmetric] using True Cons w
      by (simp add: suspenders_mutex_trylock_def fail_def) (simp add: s1_def)
  qed
qed

text \<open>C15. Releasing a read-write lock: the lock must be held (else \<open>SUSPENDERS_PERM\<close>). While
  other readers remain nothing is granted. When the lock becomes free, a writer at the head of the
  queue gets it alone; otherwise all readers queued before the first writer get it together. Exactly
  those waiters leave the queue, with \<open>SUSPENDERS_OK\<close> and closed decider windows.\<close>

theorem rwlock_unlock_grants_batch:
  assumes inv: "rt_inv s"
  shows "\<exists>r t. suspenders_rwlock_unlock (Some rw) s = (r, t) \<and> rt_inv t \<and>
    (if \<not> writer (rwlocks s rw) \<and> readers (rwlocks s rw) = 0 then r = Some SUSPENDERS_PERM \<and> wlists t = wlists s \<and> rwlocks t = rwlocks s
     else r = Some SUSPENDERS_OK \<and>
       (if readers (rwlocks s rw) > 1
        then readers (rwlocks t rw) = readers (rwlocks s rw) - 1 \<and> \<not> writer (rwlocks t rw) \<and> wlists t = wlists s
        else wlists s (LRwlock rw) = rw_batch s rw @ wlists t (LRwlock rw) \<and>
          (\<forall>n \<in> set (rw_batch s rw). status (nodes t n) = SUSPENDERS_OK \<and> \<not> waker_busy (nodes t n)) \<and>
          (case wlists s (LRwlock rw) of
             [] \<Rightarrow> \<not> writer (rwlocks t rw) \<and> readers (rwlocks t rw) = 0
           | n # _ \<Rightarrow> if data_ptr (nodes s n) = S_RW_WRITER
                      then writer (rwlocks t rw) \<and> readers (rwlocks t rw) = 0 \<and> rw_batch s rw = [n]
                      else \<not> writer (rwlocks t rw) \<and> readers (rwlocks t rw) = int (length (rw_batch s rw)) \<and>
                           rw_batch s rw = takeWhile (\<lambda>n. data_ptr (nodes s n) \<noteq> S_RW_WRITER) (wlists s (LRwlock rw)))))"
proof (cases "writer (rwlocks s rw) \<or> readers (rwlocks s rw) > 0")
  case False
  then have "readers (rwlocks s rw) = 0" using rw_inv [OF inv, of rw] by (simp add: rw_wf_def)
  with False fail_inv [OF inv, of SUSPENDERS_PERM] show ?thesis
    by (simp add: suspenders_rwlock_unlock_def) (simp add: fail_def)
next
  case held: True
  have wf: "rw_wf (rwlocks s rw)" by (rule rw_inv [OF inv])
  define s1 where "s1 = (if writer (rwlocks s rw) then upd_rw rw (\<lambda>l. l\<lparr>writer := False\<rparr>) s
                 else upd_rw rw (\<lambda>l. l\<lparr>readers := readers l - 1\<rparr>) s)"
  obtain t where t: "suspenders_rwlock_unlock (Some rw) s = (Some SUSPENDERS_OK, t)" "rt_inv t"
     "if readers (rwlocks s1 rw) = 0
      then rwlocks t rw = rw_after_grant s1 rw \<and> wlists t (LRwlock rw) = drop (length (rw_batch s rw)) (wlists s (LRwlock rw)) \<and>
           (\<forall>n \<in> set (rw_batch s rw). nodes t n = granted_node (nodes s n))
      else rwlocks t = rwlocks s1 \<and> wlists t = wlists s \<and> nodes t = nodes s"
    using rwlock_unlock_effect [OF inv held] unfolding s1_def by blast
  have s1: "\<not> writer (rwlocks s1 rw)" "readers (rwlocks s1 rw) = (if writer (rwlocks s rw) then 0 else readers (rwlocks s rw) - 1)"
    "wlists s1 = wlists s" "nodes s1 = nodes s"
    using wf held by (auto simp: s1_def rw_wf_def)
  have b: "rw_batch s1 rw = rw_batch s rw" by (simp only: rw_batch_def s1)
  show ?thesis
  proof (cases "readers (rwlocks s rw) > 1")
    case True
    then have "readers (rwlocks s1 rw) \<noteq> 0" using wf s1 by (auto simp: rw_wf_def)
    with t s1 True wf show ?thesis by (auto simp: rw_wf_def)
  next
    case False
    then have z: "readers (rwlocks s1 rw) = 0" using wf s1 held by (auto simp: rw_wf_def)
    have free: "rwlocks s1 rw = \<lparr>readers = 0, writer = False\<rparr>" using z s1 by (simp add: rwlock.equality)
    note e = t(3) [unfolded z if_True refl simp_thms]
    have e1: "rwlocks t rw = rw_after_grant s1 rw" "wlists t (LRwlock rw) = drop (length (rw_batch s rw)) (wlists s (LRwlock rw))"
      "\<forall>n \<in> set (rw_batch s rw). nodes t n = granted_node (nodes s n)" using e by simp_all
    have p: "wlists s (LRwlock rw) = rw_batch s rw @ wlists t (LRwlock rw)" unfolding e1(2) by (rule rw_batch_prefix)
    have "case wlists s (LRwlock rw) of
             [] \<Rightarrow> \<not> writer (rwlocks t rw) \<and> readers (rwlocks t rw) = 0
           | n # _ \<Rightarrow> if data_ptr (nodes s n) = S_RW_WRITER
                      then writer (rwlocks t rw) \<and> readers (rwlocks t rw) = 0 \<and> rw_batch s rw = [n]
                      else \<not> writer (rwlocks t rw) \<and> readers (rwlocks t rw) = int (length (rw_batch s rw)) \<and>
                           rw_batch s rw = takeWhile (\<lambda>n. data_ptr (nodes s n) \<noteq> S_RW_WRITER) (wlists s (LRwlock rw))"
      unfolding e1(1) rw_after_grant_def free b s1 by (auto simp: rw_batch_def split: list.split)
    moreover have "\<forall>n \<in> set (rw_batch s rw). status (nodes t n) = SUSPENDERS_OK \<and> \<not> waker_busy (nodes t n)"
      using e1(3) by (simp add: granted_node_def)
    ultimately show ?thesis using t(1,2) p held False by auto
  qed
qed

text \<open>C16. Waiting on a condition variable is atomic with releasing the mutex: the caller is queued on the
  condition before the mutex changes hands (to its longest waiter, or to nobody), so a signal sent by
  any later holder finds it. A caller that does not hold the mutex gets \<open>SUSPENDERS_PERM\<close>.\<close>

theorem cond_wait_queues_before_unlock:
  assumes inv: "rt_inv s" and may: "may_call s" and b: "s_block_begin s = ((0, c), s1)"
  shows "\<exists>r t. cond_wait_begin (Some cv) (Some m) s = (r, t) \<and> rt_inv t \<and>
    (if owner s m = Some c
     then r = None \<and> wlists t (LCond cv) = wlists s (LCond cv) @ [Emb c] \<and>
       status (nodes t (Emb c)) = S_WQ_WAITING \<and>
       (case wlists s (LMutex m) of
          [] \<Rightarrow> owner t m = None
        | n # ns \<Rightarrow> owner t m = Some (node_cr (nodes s n)) \<and> status (nodes t n) = SUSPENDERS_OK \<and> wlists t (LMutex m) = ns)
     else r = Some SUSPENDERS_PERM \<and> wlists t = wlists s \<and> owner t = owner s)"
proof -
  note i = block_begin_inv [OF b inv may]
  have f: "owner s1 = owner s" "wlists s1 = wlists s" "nodes s1 = nodes s" "running s1 = Some c"
    using block_begin_frame [OF b] unfolding sync_view_eq by simp_all
  show ?thesis
  proof (cases "owner s m = Some c")
    case False
    with b f fail_inv [OF i(1), of SUSPENDERS_PERM] show ?thesis by (simp add: cond_wait_begin_def) (simp add: fail_def)
  next
    case True
    define p where "p = s_wait_park (LCond cv) (KCond cv) 0 s1"
    have ip: "rt_inv p" unfolding p_def using i by (intro rt_inv_park) auto
    have pf: "running p = Some c" "owner p = owner s" "wlists p = (wlists s)(LCond cv := wlists s (LCond cv) @ [Emb c])"
      "nodes p = (nodes s)(Emb c := (nodes s (Emb c))\<lparr>node_cr := c, data_ptr := 0, status := S_WQ_WAITING, waker_busy := False,
         wait_list := Some (LCond cv), wait_lock := Some (KCond cv), select_rec := None\<rparr>)"
      using f by (simp_all add: p_def s_wait_park_def upd_list_def upd_node_def)
    have r: "cond_wait_begin (Some cv) (Some m) s = (None, snd (suspenders_mutex_unlock (Some m) p))"
      using b f True by (simp add: cond_wait_begin_def p_def)
    have it: "rt_inv (snd (suspenders_mutex_unlock (Some m) p))" by (rule mutex_unlock_inv [OF ip])
    have ok: "waits_ok s" using inv by (simp add: rt_inv_def)
    have off: "Emb c \<notin> set (wlists s l)" for l
      using wait_ok_decided_off_list [OF ok, of "Emb c" l] i(4) f(3) by simp
    show ?thesis
    proof (cases "wlists s (LMutex m)")
      case Nil
      with r it pf True show ?thesis by (simp add: suspenders_mutex_unlock_def Let_def)
    next
      case (Cons n ns)
      then have "n \<noteq> Emb c" using off [of "LMutex m"] by auto
      with Cons r it pf True show ?thesis by (simp add: suspenders_mutex_unlock_def Let_def)
    qed
  qed
qed

text \<open>A signal ends the wait of the longest-waiting coroutine with \<open>SUSPENDERS_OK\<close>, wakes it and
  leaves the others queued in order; a broadcast ends every wait and empties the list; with no waiter
  both do nothing.\<close>

theorem cond_signal_and_broadcast:
  assumes inv: "rt_inv s"
  shows "(case wlists s (LCond cv) of
       [] \<Rightarrow> suspenders_cond_signal (Some cv) s = (Some SUSPENDERS_OK, s)
     | n # ns \<Rightarrow> \<exists>t. suspenders_cond_signal (Some cv) s = (Some SUSPENDERS_OK, t) \<and> rt_inv t \<and>
         status (nodes t n) = SUSPENDERS_OK \<and> wlists t (LCond cv) = ns \<and> woken (node_cr (nodes s n)) s t \<and>
         (\<forall>k. k \<noteq> n \<longrightarrow> nodes t k = nodes s k)) \<and>
     (\<exists>t. suspenders_cond_broadcast (Some cv) s = (Some SUSPENDERS_OK, t) \<and> rt_inv t \<and> wlists t (LCond cv) = [] \<and>
        (\<forall>n. nodes t n = (if n \<in> set (wlists s (LCond cv)) then granted_node (nodes s n) else nodes s n)))"
proof (rule conjI)
  show "case wlists s (LCond cv) of
       [] \<Rightarrow> suspenders_cond_signal (Some cv) s = (Some SUSPENDERS_OK, s)
     | n # ns \<Rightarrow> \<exists>t. suspenders_cond_signal (Some cv) s = (Some SUSPENDERS_OK, t) \<and> rt_inv t \<and>
         status (nodes t n) = SUSPENDERS_OK \<and> wlists t (LCond cv) = ns \<and> woken (node_cr (nodes s n)) s t \<and>
         (\<forall>k. k \<noteq> n \<longrightarrow> nodes t k = nodes s k)"
  proof (cases "wlists s (LCond cv)")
    case Nil
    then show ?thesis by (simp add: suspenders_cond_signal_def)
  next
    case (Cons n ns)
    let ?u = "s_wait_grant n SUSPENDERS_OK (upd_list (LCond cv) (\<lambda>_. ns) s)"
    have u: "crs ?u = crs s" "s_worker ?u = s_worker s" "node_cr (nodes ?u n) = node_cr (nodes s n)"
      by (simp_all add: s_wait_grant_def upd_node_def upd_list_def)
    have "woken (node_cr (nodes s n)) s (s_wait_finish_wake n ?u)"
      using finish_wake_woken [of ?u n] unfolding u(3) woken_cong [OF u(1,2)] .
    moreover have "rt_inv (s_wait_finish_wake n ?u)" by (rule head_wake_inv [OF inv Cons])
    ultimately show ?thesis using Cons
      by (auto simp: suspenders_cond_signal_def simp del: SUSPENDERS_OK_def)
  qed
  show "\<exists>t. suspenders_cond_broadcast (Some cv) s = (Some SUSPENDERS_OK, t) \<and> rt_inv t \<and> wlists t (LCond cv) = [] \<and>
        (\<forall>n. nodes t n = (if n \<in> set (wlists s (LCond cv)) then granted_node (nodes s n) else nodes s n))"
    using grant_list_inv [OF inv, of "LCond cv"] by (simp add: suspenders_cond_broadcast_def grant_list_effect)
qed

text \<open>A wait group counts: an addition that would make the count negative is refused with
  \<open>SUSPENDERS_INVAL\<close> and changes nothing; otherwise the count changes by exactly the given
  amount, and when it reaches zero every waiter's wait ends with \<open>SUSPENDERS_OK\<close> and the list is
  empty, while with a positive count nobody is released.\<close>

theorem waitgroup_add_releases_at_zero:
  assumes inv: "rt_inv s"
  shows "\<exists>r t. suspenders_waitgroup_add (Some w) delta s = (r, t) \<and> rt_inv t \<and>
    (if wg_count s w + delta < 0 then r = Some SUSPENDERS_INVAL \<and> wg_count t = wg_count s \<and> wlists t = wlists s \<and> nodes t = nodes s
     else r = Some SUSPENDERS_OK \<and> wg_count t w = wg_count s w + delta \<and>
       (if wg_count s w + delta = 0
        then wlists t (LWg w) = [] \<and> (\<forall>n \<in> set (wlists s (LWg w)). nodes t n = granted_node (nodes s n))
        else wlists t = wlists s \<and> nodes t = nodes s))"
proof -
  obtain r t where e: "suspenders_waitgroup_add (Some w) delta s = (r, t)" by fastforce
  have "rt_inv t" using waitgroup_add_inv [OF inv, of "Some w" delta] e by simp
  moreover have "if wg_count s w + delta < 0 then r = Some SUSPENDERS_INVAL \<and> wg_count t = wg_count s \<and> wlists t = wlists s \<and> nodes t = nodes s
     else r = Some SUSPENDERS_OK \<and> wg_count t w = wg_count s w + delta \<and>
       (if wg_count s w + delta = 0
        then wlists t (LWg w) = [] \<and> (\<forall>n \<in> set (wlists s (LWg w)). nodes t n = granted_node (nodes s n))
        else wlists t = wlists s \<and> nodes t = nodes s)"
    using e by (auto simp: suspenders_waitgroup_add_def fail_def Let_def grant_list_effect split: if_splits)
  ultimately show ?thesis using e by blast
qed

section \<open>Examples\<close>

text \<open>Coroutine 5 runs and holds mutex 3; coroutine 6 waits for it.\<close>

definition mutex_example :: rt where
  "mutex_example = run_on 5 (suspenders_suspend (s_wait_park (LMutex 3) (KMutex 3) 0
     (run_on 6 ((run_on 5 blank_rt)\<lparr>owner := (\<lambda>_. None)(3 := Some 5)\<rparr>))))"

lemma mutex_example_facts:
  "rt_inv mutex_example" "running mutex_example = Some 5" "owner mutex_example 3 = Some 5"
  "wlists mutex_example (LMutex 3) = [Emb 6]" "node_cr (nodes mutex_example (Emb 6)) = 6" "may_call mutex_example"
  "\<exists>s1. s_block_begin mutex_example = ((0, 5), s1)" "main_cr mutex_example = Some 1"
  "wlists mutex_example (LCond 2) = []" "rwlocks mutex_example 2 = \<lparr>readers = 0, writer = False\<rparr>" "wg_count mutex_example 2 = 0"
proof -
  let ?b = "run_on 6 ((run_on 5 blank_rt)\<lparr>owner := (\<lambda>_. None)(3 := Some 5)\<rparr>)"
  have v: "nodes ?b = (\<lambda>_. zero_node)" "wlists ?b = (\<lambda>_. [])" "owner ?b = (\<lambda>_. None)(3 := Some 5)"
    "chans ?b = chans blank_rt" "rwlocks ?b = rwlocks blank_rt" "wg_count ?b = wg_count blank_rt" "running ?b = Some 6"
    by (simp_all add: run_on_def upd_cr_def blank_rt_def)
  have "rt_inv ?b"
    by (auto simp: rt_inv_def lists_ok_def structs_wf_def wait_ok_def v) 
       (auto simp: zero_node_def blank_rt_def chan_wf_def rw_wf_def)
  then have "rt_inv (s_wait_park (LMutex 3) (KMutex 3) 0 ?b)"
    by (rule rt_inv_park [where c = 6]) (simp_all add: v, simp add: zero_node_def)
  then show "rt_inv mutex_example"
    using rt_inv_view [of mutex_example "s_wait_park (LMutex 3) (KMutex 3) 0 ?b"] by (simp add: mutex_example_def run_on_view)
qed (simp_all add: mutex_example_def run_on_def upd_cr_def s_wait_park_def upd_list_def upd_node_def suspenders_suspend_def
      ctx_switch_main_def blank_rt_def zero_node_def may_call_def s_block_begin_def s_pre_block_def zero_coroutine_def Let_def)

theorem mutex_lock_cases_witness:
  "fst (suspenders_mutex_lock_dl (Some 3) 0 mutex_example) = Some SUSPENDERS_PERM \<and>
   owner (snd (suspenders_mutex_lock_dl (Some 4) 0 mutex_example)) 4 = Some 5"
proof -
  obtain s1 where b: "s_block_begin mutex_example = ((0, 5), s1)" using mutex_example_facts(7) by blast
  have "owner mutex_example 4 = None" by (simp add: mutex_example_def run_on_def upd_cr_def s_wait_park_def upd_list_def
      upd_node_def suspenders_suspend_def ctx_switch_main_def blank_rt_def)
  then show ?thesis
    using mutex_lock_cases [OF mutex_example_facts(1,6) b, where m = 3 and dl = 0]
      mutex_lock_cases [OF mutex_example_facts(1,6) b, where m = 4 and dl = 0] mutex_example_facts(3) by auto
qed

theorem mutex_unlock_hands_over_witness:
  "owner (snd (suspenders_mutex_unlock (Some 3) mutex_example)) 3 = Some 6"
  using mutex_unlock_hands_over [OF mutex_example_facts(1,2), where m = 3] mutex_example_facts(3,4,5) by auto

theorem rwlock_unlock_grants_batch_witness:
  "fst (suspenders_rwlock_unlock (Some 2) mutex_example) = Some SUSPENDERS_PERM"
  using rwlock_unlock_grants_batch [OF mutex_example_facts(1), where rw = 2] mutex_example_facts(10) by auto

theorem cond_wait_queues_before_unlock_witness:
  "wlists (snd (cond_wait_begin (Some 2) (Some 3) mutex_example)) (LCond 2) = [Emb 5] \<and>
   owner (snd (cond_wait_begin (Some 2) (Some 3) mutex_example)) 3 = Some 6"
proof -
  obtain s1 where b: "s_block_begin mutex_example = ((0, 5), s1)" using mutex_example_facts(7) by blast
  show ?thesis using cond_wait_queues_before_unlock [OF mutex_example_facts(1,6) b, where cv = 2 and m = 3]
      mutex_example_facts(3,4,5,9) by auto
qed

theorem cond_signal_and_broadcast_witness:
  "suspenders_cond_signal (Some 2) mutex_example = (Some SUSPENDERS_OK, mutex_example)"
  using cond_signal_and_broadcast [OF mutex_example_facts(1), where cv = 2] mutex_example_facts(9) by simp

theorem waitgroup_add_releases_at_zero_witness:
  "fst (suspenders_waitgroup_add (Some 2) (-1) mutex_example) = Some SUSPENDERS_INVAL \<and>
   wg_count (snd (suspenders_waitgroup_add (Some 2) 3 mutex_example)) 2 = 3"
  using waitgroup_add_releases_at_zero [OF mutex_example_facts(1), where w = 2 and delta = "-1"]
    waitgroup_add_releases_at_zero [OF mutex_example_facts(1), where w = 2 and delta = 3] mutex_example_facts(11) by auto

end
