(* ===== verification/Runtime_Machine.thy ===== *)
theory Runtime_Machine
  imports Sync
begin

text \<open>
  The runtime's blocking calls as one step system: every interleaving of API calls, continuations of
  blocked coroutines, cancellations and timer callbacks keeps the invariant of the wait lists.
\<close>

section \<open>Waiting, sleeping, cancelling\<close>

lemma wait_block_inv:
  assumes "rt_inv s"
  shows "rt_inv (snd (s_wait_block s))"
proof (cases "\<exists>c. running s = Some c \<and> status (nodes s (Emb c)) \<noteq> S_WQ_WAITING \<and> \<not> waker_busy (nodes s (Emb c))")
  case False
  with assms show ?thesis
    by (auto simp: s_wait_block_def suspend_inv yield_inv Let_def split: option.split)
next
  case True
  then obtain c where c: "running s = Some c" "status (nodes s (Emb c)) \<noteq> S_WQ_WAITING" "\<not> waker_busy (nodes s (Emb c))" by blast
  let ?u = "upd_node (Emb c) (\<lambda>x. x\<lparr>wait_list := None, wait_lock := None\<rparr>) s"
  obtain t where t: "snd (s_wait_block s) = t" "sync_view t = sync_view ?u" "nodes t = nodes ?u"
    using c by (auto simp: s_wait_block_def Let_def)
  from rt_inv_view [OF t(2,3)] clear_wait_inv [OF assms c(2)] t(1) show ?thesis by simp
qed

lemma wait_block_dl_loop_inv:
  assumes "rt_inv s"
  shows "rt_inv (snd (s_wait_block_dl_loop armed s))"
proof -
  obtain r s1 where e: "s_wait_block s = (r, s1)" by fastforce
  have i: "rt_inv s1" using wait_block_inv [OF assms] e by simp
  then have "rt_inv (s_timer_disarm t s1)" for t using rt_inv_view [of "s_timer_disarm t s1" s1] by simp
  with i e show ?thesis by (auto simp: s_wait_block_dl_loop_def split: option.split)
qed

lemma sleep_inv:
  assumes "rt_inv s" and "may_call s"
  shows "rt_inv (snd (suspenders_sleep_dl dl s))"
proof -
  obtain pre c s1 where b: "s_block_begin s = ((pre, c), s1)" by (metis surj_pair)
  note i = block_begin_inv [OF b assms]
  define s2 where "s2 = upd_node (Emb c) (\<lambda>x. x\<lparr>node_cr := c, status := S_WQ_WAITING, waker_busy := False,
                    wait_list := None, wait_lock := None\<rparr>) s1"
  obtain a s4 where a: "s_timer_arm (TStack c) (upd_timer (TStack c) (\<lambda>_. fresh_timer dl (SleepCb c)) s2) = (a, s4)" by fastforce
  note f = timer_arm_frame [OF a]
  have i4: "rt_inv s4" "rt_inv (upd_node (Emb c) (\<lambda>x. x\<lparr>status := SUSPENDERS_OK\<rparr>) s4)" if pre: "pre = 0"
  proof -
    have ok: "waits_ok s1" "wait_list (nodes s1 (Emb c)) = None"
      using i(1) i(4) [OF pre] wait_ok_decided_off_list by (auto simp: rt_inv_def)
    have "waits_ok s2" using ok by (auto simp: s2_def intro: wait_ok_off_list)
    moreover have "list_cond s2 = list_cond s1" by (intro list_cond_cong) (simp_all add: s2_def)
    ultimately have i2: "rt_inv s2" using i(1) by (simp add: rt_inv_def lists_ok_def structs_wf_def s2_def)
    then show i4: "rt_inv s4" using f rt_inv_view [of s4 s2] by simp
    let ?u = "upd_node (Emb c) (\<lambda>x. x\<lparr>status := SUSPENDERS_OK\<rparr>) s4"
    have "wait_list (nodes s4 (Emb c)) = None" using f by (simp add: s2_def)
    then have "waits_ok ?u" using i4 by (auto simp: rt_inv_def intro: wait_ok_off_list)
    moreover have "list_cond ?u = list_cond s4" by (intro list_cond_cong) simp_all
    ultimately show "rt_inv ?u" using i4 by (simp add: rt_inv_def lists_ok_def structs_wf_def)
  qed
  show ?thesis
    using b i(1) i4 a by (auto simp: suspenders_sleep_dl_def s2_def [symmetric] Let_def yield_inv fail_inv wait_block_dl_loop_inv
        simp del: SUSPENDERS_OK_def SUSPENDERS_NOMEM_def S_WQ_WAITING_def split: bool.split)
qed

lemma sleep_cb_inv:
  assumes "rt_inv s" and "wait_list (nodes s (Emb c)) = None"
  shows "rt_inv (s_sleep_cb c s)"
proof (cases "status (nodes s (Emb c)) = S_WQ_WAITING")
  case True
  let ?u = "upd_node (Emb c) (\<lambda>x. x\<lparr>status := SUSPENDERS_OK\<rparr>) s"
  have "waits_ok ?u" using assms by (auto simp: rt_inv_def intro: wait_ok_off_list)
  moreover have "list_cond ?u = list_cond s" by (intro list_cond_cong) simp_all
  ultimately have "rt_inv ?u" using assms by (simp add: rt_inv_def lists_ok_def structs_wf_def)
  then show ?thesis using True rt_inv_view [of "s_sleep_cb c s" ?u] by (simp add: s_sleep_cb_def)
qed (use assms in \<open>simp add: s_sleep_cb_def\<close>)

lemma resume_io_inv: "rt_inv s \<Longrightarrow> rt_inv (suspenders_resume c (upd_cr c f s))"
  using rt_inv_view [of "suspenders_resume c (upd_cr c f s)" s] by simp

lemma iou_cancel_inv: "rt_inv s \<Longrightarrow> rt_inv (s_iou_cancel op s)"
  using rt_inv_view [of "s_iou_cancel op s" s] by (simp add: s_iou_cancel_def sync_view_def)

lemma cancel_inv:
  assumes "rt_inv s"
  shows "rt_inv (snd (suspenders_cancel cro s))"
proof (cases cro)
  case None
  then show ?thesis using assms rt_inv_view [of "set_errno SUSPENDERS_INVAL s" s] by (simp add: suspenders_cancel_def)
next
  case (Some c)
  let ?u = "upd_cr c (\<lambda>r. r\<lparr>cancel_requested := True\<rparr>) s"
  have u: "rt_inv ?u" "rt_inv (s_inbox_wake c ?u)"
    using assms rt_inv_view [of ?u s] rt_inv_view [of "s_inbox_wake c ?u" s] by simp_all
  obtain won t where w: "s_waiter_wake c SUSPENDERS_CANCELED ?u = (won, t)" by fastforce
  have "rt_inv t" by (rule waiter_wake_inv [OF u(1) _ w]) simp
  with u w Some show ?thesis
    by (auto simp: suspenders_cancel_def Let_def resume_io_inv iou_cancel_inv
        simp del: SUSPENDERS_CANCELED_def split: bool.split option.split)
qed

lemma deadline_cb_inv:
  assumes "rt_inv s"
  shows "rt_inv (s_deadline_cb c s)" and "rt_inv (s_wait_deadline_cb c s)" and "rt_inv (s_io_timeout_cb c s)"
proof -
  obtain won t where w: "s_waiter_wake c SUSPENDERS_TIMEDOUT s = (won, t)" by fastforce
  have "rt_inv t" by (rule waiter_wake_inv [OF assms _ w]) simp
  with assms w show "rt_inv (s_deadline_cb c s)" "rt_inv (s_wait_deadline_cb c s)" "rt_inv (s_io_timeout_cb c s)"
    by (auto simp: s_deadline_cb_def s_wait_deadline_cb_def s_io_timeout_cb_def resume_io_inv iou_cancel_inv
        simp del: SUSPENDERS_TIMEDOUT_def split: bool.split option.split)
qed

section \<open>Interleavings of calls\<close>

text \<open>The calls of the API that touch wait lists, the continuations of blocked coroutines and the timer
  callbacks. Each is one step: what happens to a structure happens under its ticket lock.\<close>

datatype api =
    ChanSend "nat option" ptr u64 bool
  | ChanRecv "nat option" ptr u64 bool
  | ChanClose "nat option"
  | MutexLock "nat option" u64
  | MutexTrylock "nat option"
  | MutexUnlock "nat option"
  | MutexLockRaw nat
  | MutexLockRawLoop nat
  | RwRdlock "nat option" u64
  | RwTryrdlock "nat option"
  | RwWrlock "nat option" u64
  | RwTrywrlock "nat option"
  | RwUnlock "nat option"
  | CondWait "nat option" "nat option"
  | CondSignal "nat option"
  | CondBroadcast "nat option"
  | WgAdd "nat option" int
  | WgWait "nat option" u64
  | SleepDl u64
  | Cancel "cr_ref option"
  | WaitBlock bool
  | WaitDeadlineFires cr_ref
  | DeadlineFires cr_ref
  | IoTimeoutFires cr_ref
  | SleepFires cr_ref

primrec exec :: "api \<Rightarrow> rt \<Rightarrow> rt" where
  "exec (ChanSend ch p dl b) s = snd (s_chan_send_impl ch p dl b s)"
| "exec (ChanRecv ch p dl b) s = snd (s_chan_recv_impl ch p dl b s)"
| "exec (ChanClose ch) s = snd (suspenders_chan_close ch s)"
| "exec (MutexLock m dl) s = snd (suspenders_mutex_lock_dl m dl s)"
| "exec (MutexTrylock m) s = snd (suspenders_mutex_trylock m s)"
| "exec (MutexUnlock m) s = snd (suspenders_mutex_unlock m s)"
| "exec (MutexLockRaw m) s = snd (s_mutex_lock_raw m s)"
| "exec (MutexLockRawLoop m) s = snd (s_mutex_lock_raw_loop m s)"
| "exec (RwRdlock rw dl) s = snd (suspenders_rwlock_rdlock_dl rw dl s)"
| "exec (RwTryrdlock rw) s = snd (suspenders_rwlock_tryrdlock rw s)"
| "exec (RwWrlock rw dl) s = snd (suspenders_rwlock_wrlock_dl rw dl s)"
| "exec (RwTrywrlock rw) s = snd (suspenders_rwlock_trywrlock rw s)"
| "exec (RwUnlock rw) s = snd (suspenders_rwlock_unlock rw s)"
| "exec (CondWait c m) s = snd (cond_wait_begin c m s)"
| "exec (CondSignal c) s = snd (suspenders_cond_signal c s)"
| "exec (CondBroadcast c) s = snd (suspenders_cond_broadcast c s)"
| "exec (WgAdd w d) s = snd (suspenders_waitgroup_add w d s)"
| "exec (WgWait w dl) s = snd (suspenders_waitgroup_wait_dl w dl s)"
| "exec (SleepDl dl) s = snd (suspenders_sleep_dl dl s)"
| "exec (Cancel c) s = snd (suspenders_cancel c s)"
| "exec (WaitBlock armed) s = snd (s_wait_block_dl_loop armed s)"
| "exec (WaitDeadlineFires c) s = s_wait_deadline_cb c s"
| "exec (DeadlineFires c) s = s_deadline_cb c s"
| "exec (IoTimeoutFires c) s = s_io_timeout_cb c s"
| "exec (SleepFires c) s = s_sleep_cb c s"

text \<open>A new call is made by a coroutine whose previous wait is over, or by a thread that runs none. The
  sleep callback belongs to the frame of \<open>suspenders_sleep_dl\<close>, whose node is on no list.\<close>

fun enabled :: "api \<Rightarrow> rt \<Rightarrow> bool" where
  "enabled (WaitBlock _) s = True"
| "enabled (MutexLockRawLoop _) s = True"
| "enabled (WaitDeadlineFires _) s = True"
| "enabled (DeadlineFires _) s = True"
| "enabled (IoTimeoutFires _) s = True"
| "enabled (SleepFires c) s = (wait_list (nodes s (Emb c)) = None)"
| "enabled _ s = may_call s"

text \<open>Everything else (scheduling, another thread taking over, user code, time) leaves the wait lists,
  the nodes and the structures alone.\<close>

inductive rt_step :: "rt \<Rightarrow> rt \<Rightarrow> bool" where
  rt_call: "enabled a s \<Longrightarrow> rt_step s (exec a s)"
| rt_other: "nodes t = nodes s \<Longrightarrow> wlists t = wlists s \<Longrightarrow> chans t = chans s \<Longrightarrow> owner t = owner s \<Longrightarrow>
    rwlocks t = rwlocks s \<Longrightarrow> wg_count t = wg_count s \<Longrightarrow> rt_step s t"

definition rt_start :: "rt \<Rightarrow> bool" where
  "rt_start s \<longleftrightarrow> structs_wf s \<and> (\<forall>l. wlists s l = []) \<and> (\<forall>n. wait_list (nodes s n) = None) \<and>
     (\<forall>c. status (nodes s (Emb c)) \<noteq> S_WQ_WAITING)"

lemma exec_inv:
  assumes inv: "rt_inv s" and en: "enabled a s"
  shows "rt_inv (exec a s)"
  using inv en chan_ops_rt_inv [OF inv]
  by (cases a) (auto simp: mutex_lock_inv mutex_trylock_inv mutex_unlock_inv raw_lock_inv raw_loop_inv rwlock_lock_inv
      rwlock_try_inv rwlock_unlock_inv cond_wait_inv cond_signal_inv cond_broadcast_inv waitgroup_add_inv
      waitgroup_wait_inv sleep_inv cancel_inv wait_block_dl_loop_inv deadline_cb_inv sleep_cb_inv)

interpretation rtm: machine rt_start rt_step rt_inv
proof unfold_locales
  fix s assume "rt_start s"
  then show "rt_inv s" by (auto simp: rt_start_def rt_inv_def lists_ok_def wait_ok_def)
next
  fix s t assume inv: "rt_inv s" and st: "rt_step s t"
  from st show "rt_inv t"
  proof cases
    case (rt_call a)
    with exec_inv [OF inv] show ?thesis by simp
  next
    case rt_other
    then have "list_cond t = list_cond s" by (intro list_cond_cong)
    with rt_other inv show ?thesis by (simp add: rt_inv_def lists_ok_def structs_wf_def)
  qed
qed


lemma run_blank_reach: "reach rt_start rt_step (run_on 5 blank_rt)"
proof -
  have "rt_start blank_rt"
    by (auto simp: rt_start_def structs_wf_def blank_rt_def chan_wf_def rw_wf_def zero_node_def)
  then have "reach rt_start rt_step blank_rt" by (rule reach.reach_init)
  then show ?thesis
    by (rule reach.reach_step) (rule rt_step.rt_other; simp add: run_on_view run_on_view(1) [unfolded sync_view_eq])
qed


end
