(* ===== verification/Select.thy ===== *)
theory Select
  imports Channel
begin

text \<open>
  \<open>suspenders_select_dl\<close>: waiting on several channels at once. A call owns a select record
  (its \<open>winner\<close>) and one node per case; both are named after the call, so different calls use
  different nodes. The function is split at the channel locks it takes and at the points where the
  coroutine is switched out: entry and first scan, registration of one case, the wait loop,
  unregistration, the rescan, and the final synchronization with the deciders. The pieces are
  composed as the code composes them, and also taken as single steps of an interleaving with the
  operations of other coroutines and workers.
\<close>

section \<open>Operations\<close>

record chan_op =
  op_ch :: nat
  op_val :: ptr
  is_send :: bool

definition SUSPENDERS_SELECT_MAX :: nat where
  [simp]: "SUSPENDERS_SELECT_MAX = 64"

definition xorshift :: "u32 \<Rightarrow> u32" where
  "xorshift x0 =
     (let x1 = x0 XOR push_bit 13 x0;
          x2 = x1 XOR drop_bit 17 x1
      in x2 XOR push_bit 5 x2)"

definition s_rand32 :: "rt \<Rightarrow> u32 \<times> rt" where
  "s_rand32 s =
     (let x0 = (if select_seed s = 0 then ucast (now_ns s OR 1) else select_seed s);
          x = xorshift x0
      in (x, s\<lparr>select_seed := x\<rparr>))"

definition try_op :: "chan_op \<Rightarrow> rt \<Rightarrow> int option \<times> rt" where
  "try_op op s = (if is_send op then suspenders_chan_try_send (Some (op_ch op)) (op_val op) s
                  else suspenders_chan_try_recv (Some (op_ch op)) (op_val op) s)"

text \<open>The case tried in round \<open>i\<close>: 32-bit addition, then the remainder.\<close>

definition scan_idx :: "u32 \<Rightarrow> nat \<Rightarrow> nat \<Rightarrow> nat" where
  "scan_idx r n i = unat ((r + of_nat i) mod of_nat n)"

fun select_scan :: "chan_op list \<Rightarrow> u32 \<Rightarrow> nat list \<Rightarrow> rt \<Rightarrow> (nat \<times> int) option \<times> rt" where
  "select_scan ops r [] s = (None, s)"
| "select_scan ops r (i # is) s =
     (let idx = scan_idx r (length ops) i in
      case try_op (ops ! idx) s of
        (Some st, s1) \<Rightarrow>
          if st = SUSPENDERS_OK \<or> st = SUSPENDERS_CLOSED then (Some (idx, st), s1)
          else select_scan ops r is s1
      | (None, s1) \<Rightarrow> select_scan ops r is s1)"

definition op_list :: "chan_op \<Rightarrow> list_ref" where
  "op_list op = (if is_send op then LSenders (op_ch op) else LReceivers (op_ch op))"

definition s_select_case_ready :: "chan_op \<Rightarrow> nat \<Rightarrow> rt \<Rightarrow> bool" where
  "s_select_case_ready op rec s =
     (let ch = chans s (op_ch op);
          foreign = (\<lambda>w. select_rec (nodes s w) \<noteq> Some rec)
      in closed ch \<or>
         (if is_send op
          then buf_sz ch \<noteq> 0 \<and> ch_count ch < buf_sz ch \<or> list_ex foreign (wlists s (LReceivers (op_ch op)))
          else buf_sz ch \<noteq> 0 \<and> ch_count ch > 0 \<or> list_ex foreign (wlists s (LSenders (op_ch op)))))"

text \<open>Registration of case \<open>i\<close>; the result tells that the case is ready instead.\<close>

definition select_register :: "chan_op list \<Rightarrow> nat \<Rightarrow> cr_ref \<Rightarrow> nat \<Rightarrow> rt \<Rightarrow> bool \<times> rt" where
  "select_register ops rec c i s =
     (let op = ops ! i;
          s1 = upd_node (Sel rec i) (\<lambda>n. n\<lparr>node_cr := c, data_ptr := op_val op, status := S_WQ_WAITING,
                 waker_busy := False, select_rec := Some rec, select_idx := int i\<rparr>) s
      in if s_select_case_ready op rec s1 then (True, s1)
         else (False, upd_list (op_list op) (\<lambda>ns. ns @ [Sel rec i])
                (upd_node (Sel rec i) (\<lambda>n. n\<lparr>wait_list := Some (op_list op), wait_lock := Some (KChan (op_ch op))\<rparr>) s1)))"

text \<open>The registration loop: how many cases were registered, and whether to rescan.\<close>

fun select_register_all :: "chan_op list \<Rightarrow> nat \<Rightarrow> cr_ref \<Rightarrow> nat list \<Rightarrow> nat \<Rightarrow> rt \<Rightarrow> nat \<times> bool \<times> rt" where
  "select_register_all ops rec c [] k s = (k, False, s)"
| "select_register_all ops rec c (i # is) k s =
     (case select_register ops rec c i s of
        (True, s1) \<Rightarrow> (k, True, s1)
      | (False, s1) \<Rightarrow> select_register_all ops rec c is (k + 1) s1)"

definition select_unregister :: "nat \<Rightarrow> nat \<Rightarrow> rt \<Rightarrow> rt" where
  "select_unregister rec i s =
     (case wait_list (nodes s (Sel rec i)) of
        None \<Rightarrow> s
      | Some l \<Rightarrow> upd_node (Sel rec i) (\<lambda>n. n\<lparr>wait_list := None\<rparr>) (upd_list l (remove1 (Sel rec i)) s))"

fun select_unregister_all :: "nat \<Rightarrow> nat list \<Rightarrow> rt \<Rightarrow> rt" where
  "select_unregister_all rec [] s = s"
| "select_unregister_all rec (i # is) s = select_unregister_all rec is (select_unregister rec i s)"

text \<open>Where a select call stands: switched out in the wait loop with a number of registered cases,
  switched out in \<open>s_wait_decider_sync\<close>, about to register again, or returned.\<close>

datatype sel_at =
    SelWaiting nat
  | SelSyncing int "(nat \<times> int) option"
  | SelAgain
  | SelReturned int

definition select_result :: "nat \<Rightarrow> cr_ref \<Rightarrow> int \<Rightarrow> (nat \<times> int) option \<Rightarrow> rt \<Rightarrow> sel_at \<times> rt" where
  "select_result rec c widx scan s =
     (let st = status (nodes s (Emb c));
          s1 = upd_node (Emb c) (\<lambda>n. n\<lparr>status := SUSPENDERS_OK\<rparr>) s
      in if widx \<ge> 0 then
           (SelReturned widx, set_errno (if status (nodes s1 (Sel rec (nat widx))) = SUSPENDERS_CLOSED
                                         then SUSPENDERS_CLOSED else SUSPENDERS_OK) s1)
         else
           (case scan of
              Some (idx, scanst) \<Rightarrow> (SelReturned (int idx), set_errno scanst s1)
            | None \<Rightarrow>
                (let s2 = (if st = SUSPENDERS_CANCELED then upd_cr c (\<lambda>r. r\<lparr>cancel_requested := False\<rparr>) s1 else s1);
                     st' = (if st = S_WQ_WAITING then SUSPENDERS_ERROR else st)
                 in (SelReturned st', set_errno st' s2))))"

definition select_sync :: "nat \<Rightarrow> cr_ref \<Rightarrow> int \<Rightarrow> (nat \<times> int) option \<Rightarrow> rt \<Rightarrow> sel_at \<times> rt" where
  "select_sync rec c widx scan s =
     (if widx \<ge> 0 \<and> waker_busy (nodes s (Sel rec (nat widx))) \<or> waker_busy (nodes s (Emb c))
      then (SelSyncing widx scan, suspenders_yield s)
      else select_result rec c widx scan s)"

definition select_leave :: "nat \<Rightarrow> cr_ref \<Rightarrow> bool \<Rightarrow> int \<Rightarrow> (nat \<times> int) option \<Rightarrow> rt \<Rightarrow> sel_at \<times> rt" where
  "select_leave rec c armed widx scan s =
     select_sync rec c widx scan (if armed then s_timer_disarm (TStack c) s else s)"

text \<open>From the end of the wait loop (or of an aborted registration) to the next pass or the exit.\<close>

definition select_after :: "chan_op list \<Rightarrow> nat \<Rightarrow> cr_ref \<Rightarrow> bool \<Rightarrow> nat \<Rightarrow> bool \<Rightarrow> rt \<Rightarrow> sel_at \<times> rt" where
  "select_after ops rec c armed registered rescan s =
     (let s1 = select_unregister_all rec [0..<registered] s;
          widx = winner s1 rec
      in if widx \<ge> 0 \<or> status (nodes s1 (Emb c)) \<noteq> S_WQ_WAITING \<or> \<not> rescan
         then select_leave rec c armed widx None s1
         else
           (let (r2, s2) = s_rand32 s1 in
            case select_scan ops r2 [0..<length ops] s2 of
              (None, s3) \<Rightarrow> (SelAgain, s3)
            | (Some hit, s3) \<Rightarrow> select_leave rec c armed widx (Some hit) s3))"

definition select_wait :: "chan_op list \<Rightarrow> nat \<Rightarrow> cr_ref \<Rightarrow> bool \<Rightarrow> nat \<Rightarrow> rt \<Rightarrow> sel_at \<times> rt" where
  "select_wait ops rec c armed registered s =
     (if winner s rec = -1 \<and> status (nodes s (Emb c)) = S_WQ_WAITING
      then (SelWaiting registered, suspenders_suspend s)
      else select_after ops rec c armed registered False s)"

text \<open>One pass of the \<open>for (;;)\<close> loop.\<close>

definition select_pass :: "chan_op list \<Rightarrow> nat \<Rightarrow> cr_ref \<Rightarrow> bool \<Rightarrow> rt \<Rightarrow> sel_at \<times> rt" where
  "select_pass ops rec c armed s =
     (case select_register_all ops rec c [0..<length ops] 0 s of
        (k, True, s1) \<Rightarrow> select_after ops rec c armed k True s1
      | (k, False, s1) \<Rightarrow> select_wait ops rec c armed k s1)"

partial_function (option) select_loop :: "chan_op list \<Rightarrow> nat \<Rightarrow> cr_ref \<Rightarrow> bool \<Rightarrow> rt \<Rightarrow> (sel_at \<times> rt) option" where
  "select_loop ops rec c armed s =
     (case select_pass ops rec c armed s of
        (SelAgain, s1) \<Rightarrow> select_loop ops rec c armed s1
      | res \<Rightarrow> Some res)"

definition select_init :: "nat \<Rightarrow> cr_ref \<Rightarrow> rt \<Rightarrow> rt" where
  "select_init rec c s =
     upd_node (Emb c) (\<lambda>n. n\<lparr>node_cr := c, status := S_WQ_WAITING, waker_busy := False, wait_list := None,
         wait_lock := None, select_rec := None\<rparr>) (s\<lparr>winner := (winner s)(rec := -1)\<rparr>)"

text \<open>The call up to the point where it returns or is switched out for the first time.
  \<open>ops\<close> is \<open>None\<close> for a null array; its length stands for \<open>n\<close>.\<close>

definition suspenders_select_dl :: "nat \<Rightarrow> chan_op list option \<Rightarrow> u64 \<Rightarrow> rt \<Rightarrow> (sel_at \<times> rt) option" where
  "suspenders_select_dl rec opsp dl s =
     (case opsp of
        None \<Rightarrow> Some (SelReturned SUSPENDERS_INVAL, set_errno SUSPENDERS_INVAL s)
      | Some ops \<Rightarrow>
          if length ops = 0 \<or> length ops > SUSPENDERS_SELECT_MAX
          then Some (SelReturned SUSPENDERS_INVAL, set_errno SUSPENDERS_INVAL s)
          else
            (let can_block = s_io_is_cr s;
                 (pre, s0) = (if can_block then s_pre_block (the (running s)) s else (0, s))
             in if pre \<noteq> 0 then Some (SelReturned pre, s0)
                else
                  (let (r, s1) = s_rand32 s0 in
                   case select_scan ops r [0..<length ops] s1 of
                     (Some (idx, st), s2) \<Rightarrow> Some (SelReturned (int idx), set_errno st s2)
                   | (None, s2) \<Rightarrow>
                       if \<not> can_block then Some (SelReturned SUSPENDERS_PERM, set_errno SUSPENDERS_PERM s2)
                       else
                         (let c = the (running s2);
                              s3 = select_init rec c s2;
                              (armed, s4) =
                                (if dl \<noteq> 0
                                 then s_timer_arm (TStack c) (upd_timer (TStack c) (\<lambda>_. fresh_timer dl (WaitDeadlineCb c)) s3)
                                 else (False, s3))
                          in select_loop ops rec c armed s4))))"

definition suspenders_select :: "nat \<Rightarrow> chan_op list option \<Rightarrow> rt \<Rightarrow> (sel_at \<times> rt) option" where
  "suspenders_select rec ops s = suspenders_select_dl rec ops 0 s"

section \<open>The invariant of select records\<close>

text \<open>A node of a select knows its record and its case, and it has been decided only if its record
  says that this very case won. A decided record names a case whose node has been decided.\<close>

definition sel_node :: "rt \<Rightarrow> node_ref \<Rightarrow> bool" where
  "sel_node s n \<longleftrightarrow>
     (\<forall>r. select_rec (nodes s n) = Some r \<longrightarrow>
        (\<exists>i. n = Sel r i \<and> select_idx (nodes s n) = int i \<and>
             (status (nodes s n) \<noteq> S_WQ_WAITING \<longrightarrow> winner s r = int i)))"

definition sel_win :: "rt \<Rightarrow> nat \<Rightarrow> bool" where
  "sel_win s r \<longleftrightarrow> winner s r = -1 \<or>
     (\<exists>i. winner s r = int i \<and> select_rec (nodes s (Sel r i)) = Some r \<and>
          status (nodes s (Sel r i)) \<noteq> S_WQ_WAITING)"

definition sel_ok :: "rt \<Rightarrow> bool" where
  "sel_ok s \<longleftrightarrow> (\<forall>n. sel_node s n) \<and> (\<forall>r. sel_win s r)"

text \<open>No missed rendezvous: a sender and a receiver are parked on the same channel only when they
  are two cases of the same select.\<close>

definition pairs_ok :: "rt \<Rightarrow> bool" where
  "pairs_ok s \<longleftrightarrow>
     (\<forall>ch. \<forall>a \<in> set (wlists s (LSenders ch)). \<forall>b \<in> set (wlists s (LReceivers ch)).
        select_rec (nodes s a) \<noteq> None \<and> select_rec (nodes s a) = select_rec (nodes s b))"

abbreviation sel_pairs :: "rt \<Rightarrow> bool" where
  "sel_pairs s \<equiv> sel_ok s \<and> pairs_ok s"

definition sel_inv :: "rt \<Rightarrow> bool" where
  "sel_inv s \<longleftrightarrow> chans_inv s \<and> sel_ok s \<and> pairs_ok s"

lemma sel_node_cong:
  assumes "sel_node s n" and "\<And>r. select_rec (nodes s n) = Some r \<Longrightarrow> winner t r = winner s r"
    and "select_rec (nodes t n) = select_rec (nodes s n)" and "select_idx (nodes t n) = select_idx (nodes s n)"
    and "status (nodes t n) = status (nodes s n)"
  shows "sel_node t n"
  using assms unfolding sel_node_def by simp

lemma sel_win_cong:
  assumes "sel_win s r" and "winner t r = winner s r"
    and "\<And>i. select_rec (nodes t (Sel r i)) = select_rec (nodes s (Sel r i)) \<and>
              status (nodes t (Sel r i)) = status (nodes s (Sel r i))"
  shows "sel_win t r"
  using assms unfolding sel_win_def by simp

lemma sel_ok_same:
  assumes "sel_ok s" and "winner t = winner s"
    and "\<And>n. select_rec (nodes t n) = select_rec (nodes s n)" and "\<And>n. select_idx (nodes t n) = select_idx (nodes s n)"
    and "\<And>n. status (nodes t n) = status (nodes s n)"
  shows "sel_ok t"
  using assms unfolding sel_ok_def by (auto intro: sel_node_cong sel_win_cong)

lemma sel_ok_emb:
  assumes ok: "sel_ok s" and w: "winner t = winner s" and n: "nodes t = (nodes s)(Emb c := x)" and x: "select_rec x = None"
  shows "sel_ok t"
proof -
  have "sel_node t m" for m
  proof (cases "m = Emb c")
    case True
    then show ?thesis by (simp add: sel_node_def n x)
  next
    case False
    have "sel_node s m" using ok by (simp add: sel_ok_def)
    from False show ?thesis by (intro sel_node_cong [OF \<open>sel_node s m\<close>]) (simp_all add: w n)
  qed
  moreover have "sel_win t r" for r
  proof -
    have "sel_win s r" using ok by (simp add: sel_ok_def)
    then show ?thesis by (rule sel_win_cong) (simp_all add: w n)
  qed
  ultimately show ?thesis by (simp add: sel_ok_def)
qed

lemma pairs_ok_shrink:
  assumes "pairs_ok s"
    and "\<And>ch. set (wlists t (LSenders ch)) \<subseteq> set (wlists s (LSenders ch))"
    and "\<And>ch. set (wlists t (LReceivers ch)) \<subseteq> set (wlists s (LReceivers ch))"
    and "\<And>l n. n \<in> set (wlists t l) \<Longrightarrow> select_rec (nodes t n) = select_rec (nodes s n)"
  shows "pairs_ok t"
  using assms unfolding pairs_ok_def by (metis subsetD)

lemma sel_ok_unlist:
  "sel_ok s \<Longrightarrow> winner t = winner s \<Longrightarrow> nodes t = unlist ls (nodes s) \<Longrightarrow> sel_ok t"
  by (rule sel_ok_same) (simp_all add: unlist_def)

text \<open>A waiter that is taken and decided: its record, if it has one, was undecided.\<close>

lemma sel_ok_decide:
  assumes ok: "sel_ok s" and t: "took l s ls (Some n) s1" and w: "winner u = winner s1"
    and nd: "nodes u = (nodes s1)(n := x)" and x: "select_rec x = select_rec (nodes s1 n)"
      "select_idx x = select_idx (nodes s1 n)" "status x \<noteq> S_WQ_WAITING"
  shows "sel_ok u"
proof -
  have s1: "nodes s1 = unlist ls (nodes s)" by (rule took_nodes [OF t])
  have f: "select_rec (nodes s1 m) = select_rec (nodes s m)" "select_idx (nodes s1 m) = select_idx (nodes s m)"
    "status (nodes s1 m) = status (nodes s m)" for m by (simp_all add: s1 unlist_def)
  have un: "sel_node s m" "sel_win s r" for m r using ok by (auto simp: sel_ok_def)
  show ?thesis
  proof (cases "select_rec (nodes s n)")
    case None
    then have wu: "winner u = winner s" using t w by (auto simp: took_def)
    have "sel_node u m" for m
    proof (cases "m = n")
      case True
      with None show ?thesis by (simp add: sel_node_def nd x f)
    next
      case False
      then show ?thesis by (intro sel_node_cong [OF un(1)]) (simp_all add: nd f wu)
    qed
    moreover have "sel_win u r" for r
      using un(2) [of r] None unfolding sel_win_def wu nd by (simp add: f x) (metis option.distinct(1))
    ultimately show ?thesis by (simp add: sel_ok_def)
  next
    case (Some k)
    with un(1) [of n] obtain i where i: "n = Sel k i" "select_idx (nodes s n) = int i" unfolding sel_node_def by blast
    have und: "winner s k = -1" using t Some by (auto simp: took_def loser_def)
    have wu: "winner u = (winner s)(k := int i)" using t w Some i by (auto simp: took_def)
    have "sel_node u m" for m
    proof (cases "m = n")
      case True
      with Some i show ?thesis by (simp add: sel_node_def nd x f wu)
    next
      case False
      have "status (nodes s m) = S_WQ_WAITING" if "select_rec (nodes s m) = Some k"
        using un(1) [of m] that und by (auto simp: sel_node_def)
      with False un(1) [of m] show ?thesis by (auto simp: sel_node_def nd f wu)
    qed
    moreover have "sel_win u r" for r
    proof (cases "r = k")
      case True
      with Some i x(3) show ?thesis by (simp add: sel_win_def wu nd x(1) f del: S_WQ_WAITING_def)
    next
      case False
      with un(2) [of r] i show ?thesis by (auto simp: sel_win_def wu nd x f)
    qed
    ultimately show ?thesis by (simp add: sel_ok_def)
  qed
qed

lemma sel_pairs_view:
  assumes "sel_pairs s" and "wlists t = wlists s" and "winner t = winner s" and "nodes t = nodes s"
  shows "sel_pairs t"
  using assms sel_ok_same [of s t] pairs_ok_shrink [of s t] by auto

lemma pairs_ok_took:
  assumes p: "pairs_ok s" and t: "took l s ls r t"
  shows "pairs_ok t"
proof -
  have sub: "set (wlists t m) \<subseteq> set (wlists s m)" for m
    using t by (cases "m = l") (auto simp: took_def split: option.splits)
  have "select_rec (nodes t n) = select_rec (nodes s n)" for n by (simp add: took_nodes [OF t])
  with sub show ?thesis by (intro pairs_ok_shrink [OF p])
qed

lemma sel_took_none: "sel_pairs s \<Longrightarrow> took l s ls None t \<Longrightarrow> sel_pairs t"
  using pairs_ok_took [of s l ls None t] took_nodes [of l s ls None t]
  by (auto simp: took_def intro: sel_ok_unlist)

lemma sel_handover:
  assumes sp: "sel_pairs s" and t: "took l s ls (Some n) s1"
    and u: "nodes u = nodes s1" "wlists u = wlists s1" "winner u = winner s1" and st: "st \<noteq> S_WQ_WAITING"
  shows "sel_pairs (s_wait_finish_wake n (s_wait_grant n st u))" (is "sel_pairs ?v")
proof
  let ?x = "(nodes s1 n)\<lparr>wait_list := None, status := st, waker_busy := False\<rparr>"
  have n: "nodes ?v = (nodes s1)(n := ?x)" by (simp add: u)
  show "sel_ok ?v" by (rule sel_ok_decide [OF conjunct1 [OF sp] t _ n]) (simp_all add: u st del: S_WQ_WAITING_def)
  have "pairs_ok s1" by (rule pairs_ok_took [OF conjunct2 [OF sp] t])
  then show "pairs_ok ?v" by (rule pairs_ok_shrink) (auto simp: n u)
qed

lemma sel_park:
  assumes sp: "sel_pairs s" and ok: "waits_ok s" and c: "running s = Some c" "status (nodes s (Emb c)) \<noteq> S_WQ_WAITING"
    and l: "l = LReceivers ch \<and> wlists s (LSenders ch) = [] \<or> l = LSenders ch \<and> wlists s (LReceivers ch) = []"
    and e: "s_wait_block_dl dl (s_wait_park l k d s) = (r, t)"
  shows "sel_pairs t"
proof -
  let ?p = "s_wait_park l k d s"
  obtain u where u: "s_wait_block_dl dl ?p = (None, u)" "sync_view u = sync_view ?p" "nodes u = nodes ?p"
    using park_then_block [OF c] by blast
  then have t: "t = u" using e by simp
  have w: "wlists t = (wlists s)(l := wlists s l @ [Emb c])" "winner t = winner s"
    using u(2) unfolding t park_effect(1) [OF c(1)] by (simp_all add: sync_view_eq)
  define x where "x = (nodes s (Emb c))\<lparr>node_cr := c, data_ptr := d, status := S_WQ_WAITING, waker_busy := False,
     wait_list := Some l, wait_lock := Some k, select_rec := None\<rparr>"
  have n: "nodes t = (nodes s)(Emb c := x)" unfolding t u(3) park_effect(2) [OF c(1)] x_def ..
  have off: "Emb c \<notin> set (wlists s m)" for m using wait_ok_decided_off_list [OF ok c(2)] by blast
  have "sel_ok t" by (rule sel_ok_emb [OF conjunct1 [OF sp] w(2) n]) (simp add: x_def)
  moreover have "pairs_ok t"
    unfolding pairs_ok_def
  proof (intro allI ballI)
    fix b p q assume p: "p \<in> set (wlists t (LSenders b))" and q: "q \<in> set (wlists t (LReceivers b))"
    have "p \<in> set (wlists s (LSenders b)) \<and> q \<in> set (wlists s (LReceivers b))"
      using p q l by (auto simp: w split: if_splits)
    moreover from this off have "p \<noteq> Emb c" "q \<noteq> Emb c" by blast+
    ultimately show "select_rec (nodes t p) \<noteq> None \<and> select_rec (nodes t p) = select_rec (nodes t q)"
      using sp by (auto simp: pairs_ok_def n)
  qed
  ultimately show ?thesis by blast
qed

section \<open>Channel operations keep it\<close>

lemma send_locked_sel:
  assumes inv: "chans_inv s" and sp: "sel_pairs s" and e: "chan_send_locked ch val dl try_only can_block s = (r, t)"
    and blk: "can_block \<Longrightarrow> \<exists>c. running s = Some c \<and> status (nodes s (Emb c)) \<noteq> S_WQ_WAITING"
  shows "sel_pairs t"
proof (cases "closed (chans s ch)")
  case True
  with e have "t = set_errno SUSPENDERS_CLOSED s" by (simp add: chan_send_locked_def fail_def)
  then show ?thesis using sel_pairs_view [OF sp] by simp
next
  case opn: False
  obtain rx s1 where tk: "s_chan_take_waiter (LReceivers ch) s = (rx, s1)" by fastforce
  then obtain ls where t1: "took (LReceivers ch) s ls rx s1" using take_waiter_took by blast
  show ?thesis
  proof (cases rx)
    case (Some n)
    with e opn tk have "t = s_wait_finish_wake n (s_wait_grant n SUSPENDERS_OK
        (store_elem (data_ptr (nodes s1 n)) (elem_at ch val s1) s1))" by (simp add: chan_send_locked_def)
    then show ?thesis using sel_handover [OF sp t1 [unfolded Some]] by simp
  next
    case None
    note sp1 = sel_took_none [OF sp t1 [unfolded None]]
    have none: "chans_inv s1" "wlists s1 (LReceivers ch) = []" using chans_inv_took_none [OF inv t1 [unfolded None]] by auto
    consider (full) "\<not> (buf_sz (chans s1 ch) \<noteq> 0 \<and> ch_count (chans s1 ch) < buf_sz (chans s1 ch))" "can_block"
      | (frame) "wlists t = wlists s1" "winner t = winner s1" "nodes t = nodes s1"
      using e opn tk None by (auto simp: chan_send_locked_def fail_def split: if_splits)
    then show ?thesis
    proof cases
      case full
      from blk [OF full(2)] obtain c where c: "running s1 = Some c" "status (nodes s1 (Emb c)) \<noteq> S_WQ_WAITING"
        using took_lists(6) [OF t1] took_nodes [OF t1] by auto
      have "s_wait_block_dl dl (s_wait_park (LSenders ch) (KChan ch) val s1) = (r, t)"
        using e opn tk None full by (auto simp: chan_send_locked_def)
      then show ?thesis using none by (intro sel_park [OF sp1 _ c]) (auto simp: chans_inv_def)
    next
      case frame
      then show ?thesis by (rule sel_pairs_view [OF sp1])
    qed
  qed
qed

lemma recv_locked_sel:
  assumes inv: "chans_inv s" and sp: "sel_pairs s" and e: "chan_recv_locked ch out dl try_only can_block s = (r, t)"
    and blk: "can_block \<Longrightarrow> \<exists>c. running s = Some c \<and> status (nodes s (Emb c)) \<noteq> S_WQ_WAITING"
  shows "sel_pairs t"
proof (cases "buf_sz (chans s ch) \<noteq> 0 \<and> ch_count (chans s ch) > 0")
  case True
  obtain v c' where pop: "s_chan_buf_pop (chans s ch) = (v, c')" by fastforce
  define s1 where "s1 = upd_chan ch (\<lambda>_. c') (store_elem out v s)"
  have sp1: "sel_pairs s1" by (rule sel_pairs_view [OF sp]) (simp_all add: s1_def)
  obtain tx s2 where tk: "s_chan_take_waiter (LSenders ch) s1 = (tx, s2)" by fastforce
  then obtain ls where t1: "took (LSenders ch) s1 ls tx s2" using take_waiter_took by blast
  show ?thesis
  proof (cases tx)
    case None
    with e True pop tk have "t = s2" by (simp add: chan_recv_locked_def s1_def)
    then show ?thesis using sel_took_none [OF sp1 t1 [unfolded None]] by simp
  next
    case (Some n)
    with e True pop tk have "t = s_wait_finish_wake n (s_wait_grant n SUSPENDERS_OK
        (upd_chan ch (\<lambda>c. s_chan_buf_push c (elem_at ch (data_ptr (nodes s2 n)) s2)) s2))"
      by (simp add: chan_recv_locked_def s1_def)
    then show ?thesis using sel_handover [OF sp1 t1 [unfolded Some]] by simp
  qed
next
  case low: False
  obtain tx s1 where tk: "s_chan_take_waiter (LSenders ch) s = (tx, s1)" by fastforce
  then obtain ls where t1: "took (LSenders ch) s ls tx s1" using take_waiter_took by blast
  show ?thesis
  proof (cases tx)
    case (Some n)
    with e low tk have "t = s_wait_finish_wake n (s_wait_grant n SUSPENDERS_OK
        (store_elem out (elem_at ch (data_ptr (nodes s1 n)) s1) s1))" by (auto simp: chan_recv_locked_def)
    then show ?thesis using sel_handover [OF sp t1 [unfolded Some]] by simp
  next
    case None
    note sp1 = sel_took_none [OF sp t1 [unfolded None]]
    have none: "chans_inv s1" "wlists s1 (LSenders ch) = []" using chans_inv_took_none [OF inv t1 [unfolded None]] by auto
    consider (park) "\<not> closed (chans s1 ch)" "can_block" | (frame) "wlists t = wlists s1" "winner t = winner s1" "nodes t = nodes s1"
      using e low tk None by (auto simp: chan_recv_locked_def fail_def split: if_splits)
    then show ?thesis
    proof cases
      case park
      from blk [OF park(2)] obtain c where c: "running s1 = Some c" "status (nodes s1 (Emb c)) \<noteq> S_WQ_WAITING"
        using took_lists(6) [OF t1] took_nodes [OF t1] by auto
      have "s_wait_block_dl dl (s_wait_park (LReceivers ch) (KChan ch) out s1) = (r, t)"
        using e low tk None park by (auto simp: chan_recv_locked_def)
      then show ?thesis using none by (intro sel_park [OF sp1 _ c]) (auto simp: chans_inv_def)
    next
      case frame
      then show ?thesis by (rule sel_pairs_view [OF sp1])
    qed
  qed
qed

lemma send_impl_split:
  assumes "s_chan_send_impl cho val dl try_only s = (r, t)"
  shows "(sync_view t = sync_view s \<and> nodes t = nodes s) \<or>
    (\<exists>ch s1 blk. sync_view s1 = sync_view s \<and> nodes s1 = nodes s \<and> running s1 = running s \<and>
       (blk \<longrightarrow> \<not> try_only \<and> s_io_is_cr s) \<and> chan_send_locked ch val dl try_only blk s1 = (r, t))"
proof (cases "cho = None \<or> val = 0")
  case True
  with assms show ?thesis by (auto simp: s_chan_send_impl_def fail_def split: option.splits)
next
  case False
  then obtain ch where ch: "cho = Some ch" by auto
  define blk where "blk \<longleftrightarrow> \<not> try_only \<and> s_io_is_cr s"
  obtain pre s1 where p: "(if blk then s_pre_block (the (running s)) s else (0, s)) = (pre, s1)" by fastforce
  have f: "sync_view s1 = sync_view s \<and> nodes s1 = nodes s \<and> running s1 = running s"
    using p pre_block_frame [of "the (running s)" s pre s1] by (auto split: if_splits)
  have e: "(if pre \<noteq> 0 then (Some pre, s1) else chan_send_locked ch val dl try_only blk s1) = (r, t)"
    using assms p ch False by (simp add: s_chan_send_impl_def blk_def split: if_splits)
  show ?thesis
  proof (cases "pre = 0")
    case True
    with e f show ?thesis by (intro disjI2 exI [of _ ch] exI [of _ s1] exI [of _ blk]) (simp add: blk_def)
  next
    case False
    with e f show ?thesis by auto
  qed
qed

lemma recv_impl_split:
  assumes "s_chan_recv_impl cho val dl try_only s = (r, t)"
  shows "(sync_view t = sync_view s \<and> nodes t = nodes s) \<or>
    (\<exists>ch s1 blk. sync_view s1 = sync_view s \<and> nodes s1 = nodes s \<and> running s1 = running s \<and>
       (blk \<longrightarrow> \<not> try_only \<and> s_io_is_cr s) \<and> chan_recv_locked ch val dl try_only blk s1 = (r, t))"
proof (cases "cho = None \<or> val = 0")
  case True
  with assms show ?thesis by (auto simp: s_chan_recv_impl_def fail_def split: option.splits)
next
  case False
  then obtain ch where ch: "cho = Some ch" by auto
  define blk where "blk \<longleftrightarrow> \<not> try_only \<and> s_io_is_cr s"
  obtain pre s1 where p: "(if blk then s_pre_block (the (running s)) s else (0, s)) = (pre, s1)" by fastforce
  have f: "sync_view s1 = sync_view s \<and> nodes s1 = nodes s \<and> running s1 = running s"
    using p pre_block_frame [of "the (running s)" s pre s1] by (auto split: if_splits)
  have e: "(if pre \<noteq> 0 then (Some pre, s1) else chan_recv_locked ch val dl try_only blk s1) = (r, t)"
    using assms p ch False by (simp add: s_chan_recv_impl_def blk_def split: if_splits)
  show ?thesis
  proof (cases "pre = 0")
    case True
    with e f show ?thesis by (intro disjI2 exI [of _ ch] exI [of _ s1] exI [of _ blk]) (simp add: blk_def)
  next
    case False
    with e f show ?thesis by auto
  qed
qed

lemma sel_inv_view: "sel_inv s \<Longrightarrow> sync_view t = sync_view s \<Longrightarrow> nodes t = nodes s \<Longrightarrow> sel_inv t"
  using sel_pairs_view [of s t] chans_inv_cong [of t s] by (auto simp: sel_inv_def sync_view_eq)

lemma may_call_blk:
  "(\<not> try_only \<Longrightarrow> may_call s) \<Longrightarrow> nodes s1 = nodes s \<Longrightarrow> running s1 = running s \<Longrightarrow>
   (blk \<longrightarrow> \<not> try_only \<and> s_io_is_cr s) \<Longrightarrow> blk \<Longrightarrow>
   \<exists>c. running s1 = Some c \<and> status (nodes s1 (Emb c)) \<noteq> S_WQ_WAITING"
  by (auto simp: may_call_def s_io_is_cr_def)

lemma send_impl_sel:
  assumes inv: "sel_inv s" and may: "\<not> try_only \<Longrightarrow> may_call s"
  shows "sel_inv (snd (s_chan_send_impl cho val dl try_only s))"
proof -
  obtain r t where e: "s_chan_send_impl cho val dl try_only s = (r, t)" by fastforce
  from send_impl_split [OF e] have "sel_inv t"
  proof (elim disjE exE conjE)
    fix ch s1 blk
    assume f: "sync_view s1 = sync_view s" "nodes s1 = nodes s" "running s1 = running s"
      and b: "blk \<longrightarrow> \<not> try_only \<and> s_io_is_cr s" and l: "chan_send_locked ch val dl try_only blk s1 = (r, t)"
    have i: "chans_inv s1" "sel_pairs s1" using sel_inv_view [OF inv f(1,2)] by (auto simp: sel_inv_def)
    note blk = may_call_blk [OF may f(2,3) b]
    show "sel_inv t"
      using send_locked_inv [OF i(1) l blk] send_locked_sel [OF i l blk] by (simp add: sel_inv_def)
  qed (auto intro: sel_inv_view [OF inv])
  then show ?thesis by (simp add: e)
qed

lemma recv_impl_sel:
  assumes inv: "sel_inv s" and may: "\<not> try_only \<Longrightarrow> may_call s"
  shows "sel_inv (snd (s_chan_recv_impl cho val dl try_only s))"
proof -
  obtain r t where e: "s_chan_recv_impl cho val dl try_only s = (r, t)" by fastforce
  from recv_impl_split [OF e] have "sel_inv t"
  proof (elim disjE exE conjE)
    fix ch s1 blk
    assume f: "sync_view s1 = sync_view s" "nodes s1 = nodes s" "running s1 = running s"
      and b: "blk \<longrightarrow> \<not> try_only \<and> s_io_is_cr s" and l: "chan_recv_locked ch val dl try_only blk s1 = (r, t)"
    have i: "chans_inv s1" "sel_pairs s1" using sel_inv_view [OF inv f(1,2)] by (auto simp: sel_inv_def)
    note blk = may_call_blk [OF may f(2,3) b]
    show "sel_inv t"
      using recv_locked_inv [OF i(1) l blk] recv_locked_sel [OF i l blk] by (simp add: sel_inv_def)
  qed (auto intro: sel_inv_view [OF inv])
  then show ?thesis by (simp add: e)
qed

lemma close_list_sel:
  "close_list l granted s = (g, t) \<Longrightarrow> sel_pairs s \<Longrightarrow> sel_pairs t"
proof (induction l granted s rule: close_list.induct)
  case (1 l granted s)
  obtain r s1 where tk: "s_chan_take_waiter l s = (r, s1)" by fastforce
  then obtain ls where t1: "took l s ls r s1" using take_waiter_took by blast
  show ?case
  proof (cases r)
    case None
    with 1(2) tk have "t = s1" by (simp add: close_list.simps)
    with sel_took_none [OF 1(3) t1 [unfolded None]] show ?thesis by simp
  next
    case (Some n)
    define u where "u = s_wake_no_preempt (node_cr (nodes s1 n)) (s_wait_grant n SUSPENDERS_CLOSED s1)"
    have nu: "nodes u = (nodes s1)(n := (nodes s1 n)\<lparr>waker_busy := True, wait_list := None, status := SUSPENDERS_CLOSED\<rparr>)"
      by (simp add: u_def)
    have "sel_ok u" by (rule sel_ok_decide [OF conjunct1 [OF 1(3)] t1 [unfolded Some] _ nu]) (simp_all add: u_def)
    moreover have "pairs_ok u"
      by (rule pairs_ok_shrink [OF pairs_ok_took [OF conjunct2 [OF 1(3)] t1]]) (simp_all add: nu, simp_all add: u_def)
    ultimately have "sel_pairs u" by blast
    moreover have "close_list l (n # granted) u = (g, t)"
      using 1(2) tk Some by (simp add: close_list.simps [of l granted s] u_def)
    ultimately show ?thesis using 1(1) [OF tk [symmetric, unfolded Some] refl] by (simp add: u_def)
  qed
qed

lemma decide_end_chain_sel: "sel_pairs s \<Longrightarrow> sel_pairs (s_wait_decide_end_chain ns s)"
proof
  assume sp: "sel_pairs s"
  have f: "select_rec (nodes (s_wait_decide_end_chain ns s) n) = select_rec (nodes s n)"
    "select_idx (nodes (s_wait_decide_end_chain ns s) n) = select_idx (nodes s n)"
    "status (nodes (s_wait_decide_end_chain ns s) n) = status (nodes s n)" for n by simp_all
  show "sel_ok (s_wait_decide_end_chain ns s)"
    by (rule sel_ok_same [OF conjunct1 [OF sp] _ f]) (simp only: decide_end_chain_fields)
  show "pairs_ok (s_wait_decide_end_chain ns s)"
    by (rule pairs_ok_shrink [OF conjunct2 [OF sp] _ _ f(1)]) (simp_all add: decide_end_chain_fields del: decide_end_chain_frame)
qed

lemma close_sel:
  assumes inv: "sel_inv s"
  shows "sel_inv (snd (suspenders_chan_close cho s))"
proof (cases "\<exists>ch. cho = Some ch \<and> \<not> closed (chans s ch)")
  case False
  then obtain e where "snd (suspenders_chan_close cho s) = set_errno e s"
    by (cases cho) (auto simp: suspenders_chan_close_def fail_def)
  then show ?thesis using sel_inv_view [OF inv, of "set_errno e s"] by simp
next
  case True
  then obtain ch where ch: "cho = Some ch" "\<not> closed (chans s ch)" by blast
  have i: "chans_inv s" "sel_pairs s" using inv by (auto simp: sel_inv_def)
  define s1 where "s1 = upd_chan ch (\<lambda>c. c\<lparr>closed := True\<rparr>) s"
  obtain g1 s2 where c1: "close_list (LSenders ch) [] s1 = (g1, s2)" by fastforce
  obtain g2 s3 where c2: "close_list (LReceivers ch) g1 s2 = (g2, s3)" by fastforce
  have t: "suspenders_chan_close cho s = (Some SUSPENDERS_OK, s_wait_decide_end_chain g2 s3)"
    using ch c1 c2 by (simp add: suspenders_chan_close_def s1_def Let_def)
  have "sel_pairs s1" by (rule sel_pairs_view [OF i(2)]) (simp_all add: s1_def)
  from decide_end_chain_sel [OF close_list_sel [OF c2 close_list_sel [OF c1 this]]] close_correct [OF i(1) ch(2)] t ch(1)
  show ?thesis by (auto simp: sel_inv_def)
qed

lemma waiter_wake_sel:
  assumes inv: "sel_inv s" and st: "st \<noteq> S_WQ_WAITING"
  shows "sel_inv (snd (s_waiter_wake c st s))"
proof -
  obtain won t where e: "s_waiter_wake c st s = (won, t)" by fastforce
  show ?thesis
  proof (cases won)
    case False
    with e inv waiter_wake_cases [OF e] show ?thesis by simp
  next
    case True
    have e: "s_waiter_wake c st s = (True, t)" using e True by simp
    have ok: "waits_ok s" using inv by (simp add: sel_inv_def chans_inv_def)
    note f = waiter_wake_lists [OF e] and rm = waiter_wake_removes [OF ok e]
    have w: "status (nodes s (Emb c)) = S_WQ_WAITING" using waiter_wake_cases [OF e] by simp
    have rec: "select_rec (nodes s (Emb c)) = None" using inv
      by (cases "select_rec (nodes s (Emb c))") (auto simp: sel_inv_def sel_ok_def sel_node_def)
    have fields: "chans t = chans s" "winner t = winner s" using f(3) by (auto simp: sync_view_eq)
    have "chan_inv t ch" for ch
      using inv by (intro chan_inv_shrink [of s ch t]) (auto simp: sel_inv_def chans_inv_def rm fields)
    then have "chans_inv t" using waiter_wake_ok [OF ok st e] by (simp add: chans_inv_def)
    moreover have "sel_ok t" using inv by (intro sel_ok_emb [OF _ fields(2) f(1)]) (simp_all add: sel_inv_def rec)
    moreover have "pairs_ok t"
      using inv by (intro pairs_ok_shrink [of s t]) (auto simp: sel_inv_def rm f(1) intro: subsetD [OF set_remove1_subset])
    ultimately show ?thesis using e by (simp add: sel_inv_def)
  qed
qed

section \<open>The steps of a select call\<close>

lemma select_init_sel:
  assumes inv: "sel_inv s" and c: "status (nodes s (Emb c)) \<noteq> S_WQ_WAITING"
    and new: "\<And>i. select_rec (nodes s (Sel rec i)) = None"
  shows "sel_inv (select_init rec c s)" (is "sel_inv ?t")
proof -
  have ok: "waits_ok s" and so: "sel_ok s" and po: "pairs_ok s" using inv by (auto simp: sel_inv_def chans_inv_def)
  have off: "Emb c \<notin> set (wlists s l)" "wait_list (nodes s (Emb c)) = None" for l
    using wait_ok_decided_off_list [OF ok c] by auto
  define x where "x = (nodes s (Emb c))\<lparr>node_cr := c, status := S_WQ_WAITING, waker_busy := False, wait_list := None,
     wait_lock := None, select_rec := None\<rparr>"
  define u where "u = s\<lparr>winner := (winner s)(rec := -1)\<rparr>"
  have t: "nodes ?t = (nodes u)(Emb c := x)" "winner ?t = winner u" "wlists ?t = wlists s" "chans ?t = chans s"
    by (simp_all add: select_init_def x_def u_def)
  have fr: "select_rec (nodes s n) \<noteq> Some rec" for n
  proof
    assume e: "select_rec (nodes s n) = Some rec"
    have "sel_node s n" using so by (simp add: sel_ok_def)
    with e obtain i where "n = Sel rec i" unfolding sel_node_def by blast
    with e new show False by simp
  qed
  have "sel_node u n" for n
  proof (rule sel_node_cong [of s])
    show "sel_node s n" using so by (simp add: sel_ok_def)
    show "winner u r = winner s r" if "select_rec (nodes s n) = Some r" for r using that fr [of n] by (auto simp: u_def)
  qed (simp_all add: u_def)
  moreover have "sel_win u r" for r
    using so by (cases "r = rec") (auto simp: sel_ok_def sel_win_def u_def)
  ultimately have "sel_ok u" by (simp add: sel_ok_def)
  then have "sel_ok ?t" by (rule sel_ok_emb [OF _ t(2,1)]) (simp add: x_def)
  moreover have "pairs_ok ?t" by (rule pairs_ok_shrink [OF po]) (use off in \<open>auto simp: t u_def\<close>)
  moreover have "waits_ok ?t" unfolding t(1,3) using ok off by (intro wait_ok_off_list) (auto simp: u_def x_def)
  moreover have "chan_inv ?t ch" for ch
    using inv chan_inv_cong [of ?t ch s] by (simp add: t sel_inv_def chans_inv_def)
  ultimately show ?thesis by (simp add: sel_inv_def chans_inv_def)
qed

lemma sel_node_mark:
  assumes so: "sel_ok s" and w: "winner s rec \<noteq> int i" and t: "winner t = winner s" "nodes t = (nodes s)(Sel rec i := x)"
    and x: "select_rec x = Some rec" "select_idx x = int i" "status x = S_WQ_WAITING"
  shows "sel_ok t"
proof -
  have "sel_node t n" for n
  proof (cases "n = Sel rec i")
    case True
    then show ?thesis using x by (simp add: sel_node_def t)
  next
    case False
    have "sel_node s n" using so by (simp add: sel_ok_def)
    then show ?thesis by (rule sel_node_cong) (use False in \<open>simp_all add: t\<close>)
  qed
  moreover have "sel_win t r" for r
  proof -
    have "sel_win s r" using so by (simp add: sel_ok_def)
    with w show ?thesis unfolding sel_win_def t by auto
  qed
  ultimately show ?thesis by (simp add: sel_ok_def)
qed

text \<open>A case that is not ready may be waited for: this is the condition of its list.\<close>

lemma not_ready_list:
  assumes "\<not> s_select_case_ready op rec s" and "chan_wf (chans s (op_ch op))"
  shows "\<not> closed (chans s (op_ch op))"
    and "is_send op \<Longrightarrow> ch_count (chans s (op_ch op)) = buf_sz (chans s (op_ch op))"
    and "\<not> is_send op \<Longrightarrow> ch_count (chans s (op_ch op)) = 0"
    and "is_send op \<Longrightarrow> n \<in> set (wlists s (LReceivers (op_ch op))) \<Longrightarrow> select_rec (nodes s n) = Some rec"
    and "\<not> is_send op \<Longrightarrow> n \<in> set (wlists s (LSenders (op_ch op))) \<Longrightarrow> select_rec (nodes s n) = Some rec"
  using assms by (auto simp: s_select_case_ready_def Let_def list_ex_iff chan_wf_def split: if_splits)

lemma select_register_sel:
  assumes inv: "sel_inv s" and off: "wait_list (nodes s (Sel rec i)) = None" and w: "winner s rec \<noteq> int i"
  shows "sel_inv (snd (select_register ops rec c i s))"
proof -
  have ok: "waits_ok s" and so: "sel_ok s" and po: "pairs_ok s" using inv by (auto simp: sel_inv_def chans_inv_def)
  let ?op = "ops ! i" and ?n = "Sel rec i"
  define s1 where "s1 = upd_node ?n (\<lambda>n. n\<lparr>node_cr := c, data_ptr := op_val ?op, status := S_WQ_WAITING,
                 waker_busy := False, select_rec := Some rec, select_idx := int i\<rparr>) s"
  have f1: "wlists s1 = wlists s" "winner s1 = winner s" "chans s1 = chans s" by (simp_all add: s1_def)
  have out: "?n \<notin> set (wlists s l)" for l using ok off by (auto simp: wait_ok_def)
  have n1: "nodes s1 = (nodes s)(?n := (nodes s ?n)\<lparr>node_cr := c, data_ptr := op_val ?op, status := S_WQ_WAITING,
                 waker_busy := False, select_rec := Some rec, select_idx := int i\<rparr>)" by (simp add: s1_def)
  have so1: "sel_ok s1" by (rule sel_node_mark [OF so w f1(2) n1]) simp_all
  have rec1: "select_rec (nodes s1 n) = select_rec (nodes s n)" if "n \<in> set (wlists s l)" for n l
    using that out by (auto simp: s1_def)
  have po1: "pairs_ok s1" by (rule pairs_ok_shrink [OF po]) (use rec1 in \<open>auto simp: f1\<close>)
  have ok1: "waits_ok s1" unfolding f1 using ok off by (auto simp: s1_def intro: wait_ok_off_list)
  have ci1: "chan_inv s1 ch" for ch using inv chan_inv_cong [of s1 ch s] by (simp add: f1 sel_inv_def chans_inv_def)
  have reg: "select_register ops rec c i s = (if s_select_case_ready ?op rec s1 then (True, s1)
      else (False, upd_list (op_list ?op) (\<lambda>ns. ns @ [?n])
        (upd_node ?n (\<lambda>n. n\<lparr>wait_list := Some (op_list ?op), wait_lock := Some (KChan (op_ch ?op))\<rparr>) s1)))"
    by (simp only: select_register_def Let_def s1_def)
  show ?thesis
  proof (cases "s_select_case_ready ?op rec s1")
    case True
    then show ?thesis using so1 po1 ok1 ci1 by (simp add: reg sel_inv_def chans_inv_def)
  next
    case False
    let ?l = "op_list ?op"
    define t where "t = upd_list ?l (\<lambda>ns. ns @ [?n]) (upd_node ?n (\<lambda>n. n\<lparr>wait_list := Some ?l, wait_lock := Some (KChan (op_ch ?op))\<rparr>) s1)"
    have e: "snd (select_register ops rec c i s) = t"
      using False by (simp add: reg t_def)
    have ft: "wlists t = (wlists s1)(?l := wlists s1 ?l @ [?n])" "winner t = winner s1" "chans t = chans s1"
      "nodes t = (nodes s1)(?n := (nodes s1 ?n)\<lparr>wait_list := Some ?l, wait_lock := Some (KChan (op_ch ?op))\<rparr>)"
      by (simp_all add: t_def upd_list_def upd_node_def)
    note nr = not_ready_list [OF False, OF conjunct1 [OF ci1 [unfolded chan_inv_def]]]
    have "sel_ok t" by (rule sel_ok_same [OF so1]) (simp_all add: ft)
    moreover have "pairs_ok t"
      unfolding pairs_ok_def
    proof (intro allI ballI)
      fix b p q assume p: "p \<in> set (wlists t (LSenders b))" and q: "q \<in> set (wlists t (LReceivers b))"
      have rt: "select_rec (nodes t n) = select_rec (nodes s1 n)" for n by (simp add: ft)
      have n: "select_rec (nodes s1 ?n) = Some rec" by (simp add: s1_def)
      have old: "(\<exists>r. select_rec (nodes s1 p) = Some r \<and> select_rec (nodes s1 q) = Some r)"
        if "p \<in> set (wlists s1 (LSenders b))" "q \<in> set (wlists s1 (LReceivers b))"
        using po1 that unfolding pairs_ok_def by (metis not_None_eq)
      show "select_rec (nodes t p) \<noteq> None \<and> select_rec (nodes t p) = select_rec (nodes t q)"
        using p q nr(4) [of q] nr(5) [of p] old n unfolding rt ft(1) op_list_def
        by (auto split: if_splits)
    qed
    moreover have "waits_ok t" unfolding ft using ok1 off
      by (intro wait_ok_park) (auto simp: s1_def)
    moreover have "chan_inv t ch" for ch
      using ci1 [of ch] nr(1-3) by (auto simp: chan_inv_def ft op_list_def split: if_splits)
    ultimately show ?thesis by (simp add: e sel_inv_def chans_inv_def)
  qed
qed

lemma select_unregister_sel:
  assumes inv: "sel_inv s"
  shows "sel_inv (select_unregister rec i s)"
proof (cases "wait_list (nodes s (Sel rec i))")
  case None
  then show ?thesis using inv by (simp add: select_unregister_def)
next
  case (Some l)
  let ?n = "Sel rec i" and ?t = "select_unregister rec i s"
  have ok: "waits_ok s" using inv by (auto simp: sel_inv_def chans_inv_def)
  have t: "nodes ?t = (nodes s)(?n := (nodes s ?n)\<lparr>wait_list := None\<rparr>)" "wlists ?t = (wlists s)(l := remove1 ?n (wlists s l))"
    "winner ?t = winner s" "chans ?t = chans s"
    using Some by (simp_all add: select_unregister_def upd_list_def upd_node_def)
  have so: "sel_ok s" and po: "pairs_ok s" using inv by (auto simp: sel_inv_def)
  have "sel_ok ?t" by (rule sel_ok_same [OF so]) (simp_all add: t)
  moreover have "pairs_ok ?t"
    by (rule pairs_ok_shrink [OF po]) (simp_all add: t set_remove1_subset)
  moreover have "waits_ok ?t" unfolding t by (rule wait_ok_unlink [OF ok Some]) simp_all
  moreover have "chan_inv ?t ch" for ch
  proof -
    have "chan_inv s ch" using inv by (simp add: sel_inv_def chans_inv_def)
    then show ?thesis by (rule chan_inv_shrink) (auto simp: t)
  qed
  ultimately show ?thesis by (simp add: sel_inv_def chans_inv_def)
qed

lemma select_result_sel:
  assumes inv: "sel_inv s" and off: "wait_list (nodes s (Emb c)) = None"
  shows "sel_inv (snd (select_result rec c widx scan s))"
proof -
  let ?u = "upd_node (Emb c) (\<lambda>n. n\<lparr>status := SUSPENDERS_OK\<rparr>) s"
  have ok: "waits_ok s" and so: "sel_ok s" using inv by (auto simp: sel_inv_def chans_inv_def)
  have rec: "select_rec (nodes s (Emb c)) = None"
    using so by (cases "select_rec (nodes s (Emb c))") (auto simp: sel_ok_def sel_node_def)
  have "sel_ok ?u" by (rule sel_ok_emb [OF so, of _ c "(nodes s (Emb c))\<lparr>status := SUSPENDERS_OK\<rparr>"]) (simp_all add: rec)
  moreover have "pairs_ok ?u" by (rule pairs_ok_shrink [of s]) (use inv in \<open>simp_all add: sel_inv_def\<close>)
  moreover have "waits_ok ?u" using ok off by (auto intro: wait_ok_off_list)
  moreover have "chan_inv ?u ch" for ch using inv chan_inv_cong [of ?u ch s] by (simp add: sel_inv_def chans_inv_def)
  ultimately have u: "sel_inv ?u" by (simp add: sel_inv_def chans_inv_def)
  have "sync_view (snd (select_result rec c widx scan s)) = sync_view ?u"
    "nodes (snd (select_result rec c widx scan s)) = nodes ?u"
    by (auto simp: select_result_def Let_def split: option.split)
  then show ?thesis by (rule sel_inv_view [OF u])
qed

section \<open>Interleavings\<close>

datatype sel_call =
    TrySend "nat option" ptr
  | TryRecv "nat option" ptr
  | Send "nat option" ptr u64
  | Recv "nat option" ptr u64
  | Close "nat option"
  | Decide cr_ref int
  | Begin nat cr_ref
  | Register "chan_op list" nat cr_ref nat
  | Unregister nat nat
  | Return nat cr_ref int "(nat \<times> int) option"

primrec sel_exec :: "sel_call \<Rightarrow> rt \<Rightarrow> rt" where
  "sel_exec (TrySend ch p) s = snd (suspenders_chan_try_send ch p s)"
| "sel_exec (TryRecv ch p) s = snd (suspenders_chan_try_recv ch p s)"
| "sel_exec (Send ch p dl) s = snd (suspenders_chan_send_dl ch p dl s)"
| "sel_exec (Recv ch p dl) s = snd (suspenders_chan_recv_dl ch p dl s)"
| "sel_exec (Close ch) s = snd (suspenders_chan_close ch s)"
| "sel_exec (Decide c st) s = snd (s_waiter_wake c st s)"
| "sel_exec (Begin rec c) s = select_init rec c s"
| "sel_exec (Register ops rec c i) s = snd (select_register ops rec c i s)"
| "sel_exec (Unregister rec i) s = select_unregister rec i s"
| "sel_exec (Return rec c widx scan) s = snd (select_result rec c widx scan s)"

text \<open>A select call begins with a record and nodes of its own, registers a case that is neither queued
  nor decided, and ends with its coroutine's node on no list. Waits are decided with
  \<open>SUSPENDERS_CANCELED\<close> or \<open>SUSPENDERS_TIMEDOUT\<close>.\<close>

primrec sel_enabled :: "sel_call \<Rightarrow> rt \<Rightarrow> bool" where
  "sel_enabled (TrySend ch p) s = True"
| "sel_enabled (TryRecv ch p) s = True"
| "sel_enabled (Send ch p dl) s = may_call s"
| "sel_enabled (Recv ch p dl) s = may_call s"
| "sel_enabled (Close ch) s = True"
| "sel_enabled (Decide c st) s = (st = SUSPENDERS_CANCELED \<or> st = SUSPENDERS_TIMEDOUT)"
| "sel_enabled (Begin rec c) s =
     (status (nodes s (Emb c)) \<noteq> S_WQ_WAITING \<and> (\<forall>i. select_rec (nodes s (Sel rec i)) = None))"
| "sel_enabled (Register ops rec c i) s = (wait_list (nodes s (Sel rec i)) = None \<and> winner s rec \<noteq> int i)"
| "sel_enabled (Unregister rec i) s = True"
| "sel_enabled (Return rec c widx scan) s = (wait_list (nodes s (Emb c)) = None)"

text \<open>Everything else leaves the channels, their lists, the nodes queued there and the select records
  alone; the embedded nodes it moves to and from other lists are no select nodes.\<close>

inductive sel_step :: "rt \<Rightarrow> rt \<Rightarrow> bool" where
  sel_call: "sel_enabled a s \<Longrightarrow> sel_step s (sel_exec a s)"
| sel_other: "chans t = chans s \<Longrightarrow> winner t = winner s \<Longrightarrow> waits_ok t \<Longrightarrow>
    (\<And>ch. wlists t (LSenders ch) = wlists s (LSenders ch)) \<Longrightarrow>
    (\<And>ch. wlists t (LReceivers ch) = wlists s (LReceivers ch)) \<Longrightarrow>
    (\<And>r i. nodes t (Sel r i) = nodes s (Sel r i)) \<Longrightarrow>
    (\<And>c. select_rec (nodes t (Emb c)) = None) \<Longrightarrow> sel_step s t"

definition sel_start :: "rt \<Rightarrow> bool" where
  "sel_start s \<longleftrightarrow> (\<forall>ch. chan_wf (chans s ch)) \<and> (\<forall>l. wlists s l = []) \<and> (\<forall>r. winner s r = -1) \<and>
     (\<forall>n. wait_list (nodes s n) = None \<and> status (nodes s n) \<noteq> S_WQ_WAITING \<and> select_rec (nodes s n) = None)"

lemma sel_exec_inv:
  assumes "sel_inv s" and "sel_enabled a s"
  shows "sel_inv (sel_exec a s)"
  using assms send_impl_sel [OF assms(1), of True] send_impl_sel [OF assms(1), of False] recv_impl_sel [OF assms(1), of True]
    recv_impl_sel [OF assms(1), of False] close_sel [OF assms(1)]
    waiter_wake_sel [OF assms(1)] select_init_sel [OF assms(1)] select_register_sel [OF assms(1)]
    select_unregister_sel [OF assms(1)] select_result_sel [OF assms(1)]
  by (cases a) (auto simp: suspenders_chan_try_send_def suspenders_chan_try_recv_def suspenders_chan_send_dl_def
      suspenders_chan_recv_dl_def)

lemma sel_other_inv:
  assumes inv: "sel_inv s" and t: "chans t = chans s" "winner t = winner s" "waits_ok t"
    "\<And>ch. wlists t (LSenders ch) = wlists s (LSenders ch)" "\<And>ch. wlists t (LReceivers ch) = wlists s (LReceivers ch)"
    "\<And>r i. nodes t (Sel r i) = nodes s (Sel r i)" "\<And>c. select_rec (nodes t (Emb c)) = None"
  shows "sel_inv t"
proof -
  have so: "sel_ok s" and po: "pairs_ok s" and ci: "chan_inv s ch" for ch
    using inv by (auto simp: sel_inv_def chans_inv_def)
  have emb: "select_rec (nodes s (Emb c)) = None" for c
    using so by (cases "select_rec (nodes s (Emb c))") (auto simp: sel_ok_def sel_node_def)
  have rec: "select_rec (nodes t n) = select_rec (nodes s n)" for n using t(6,7) emb by (cases n) auto
  have "sel_node t n" for n
  proof (cases n)
    case (Emb c)
    then show ?thesis using t(7) by (simp add: sel_node_def)
  next
    case (Sel r i)
    have "sel_node s n" using so by (simp add: sel_ok_def)
    then show ?thesis by (rule sel_node_cong) (use Sel in \<open>simp_all add: t\<close>)
  qed
  moreover have "sel_win t r" for r
  proof -
    have "sel_win s r" using so by (simp add: sel_ok_def)
    then show ?thesis by (rule sel_win_cong) (simp_all add: t)
  qed
  moreover have "pairs_ok t"
    unfolding pairs_ok_def t rec by (rule po [unfolded pairs_ok_def])
  moreover have "chan_inv t ch" for ch using ci [of ch] chan_inv_cong [of t ch s] t by simp
  ultimately show ?thesis using t(3) by (simp add: sel_inv_def chans_inv_def sel_ok_def)
qed

interpretation selm: machine sel_start sel_step sel_inv
proof unfold_locales
  fix s assume s: "sel_start s"
  have "sel_ok s" using s by (simp add: sel_start_def sel_ok_def sel_node_def sel_win_def)
  moreover have "pairs_ok s" using s by (simp add: sel_start_def pairs_ok_def)
  moreover have "waits_ok s" using s by (simp add: sel_start_def wait_ok_def)
  ultimately show "sel_inv s" using s by (auto simp: sel_inv_def chans_inv_def sel_start_def chan_inv_def)
next
  fix s t assume inv: "sel_inv s" and st: "sel_step s t"
  from st show "sel_inv t"
  proof cases
    case (sel_call a)
    with sel_exec_inv [OF inv] show ?thesis by simp
  next
    case sel_other
    then show ?thesis by (rule sel_other_inv [OF inv])
  qed
qed

text \<open>Case \<open>i\<close> of select \<open>r\<close> has been completed by a channel operation.\<close>

definition completed :: "rt \<Rightarrow> nat \<Rightarrow> nat \<Rightarrow> bool" where
  "completed s r i \<longleftrightarrow> select_rec (nodes s (Sel r i)) = Some r \<and> status (nodes s (Sel r i)) \<noteq> S_WQ_WAITING"


text \<open>C25. No rendezvous is missed: whenever a channel has parked senders and parked receivers at the same
  time, it is unbuffered and all of them are cases of one and the same select call, so no two
  coroutines wait for each other on a channel.\<close>

theorem no_missed_rendezvous:
  assumes "reach sel_start sel_step s"
    and "a \<in> set (wlists s (LSenders ch))" and "b \<in> set (wlists s (LReceivers ch))"
  shows "buf_sz (chans s ch) = 0 \<and> (\<exists>r i j. a = Sel r i \<and> b = Sel r j)"
proof -
  have inv: "sel_inv s" by (rule selm.reach_inv [OF assms(1)])
  then have "pairs_ok s" "chan_inv s ch" "sel_node s a" "sel_node s b"
    by (auto simp: sel_inv_def sel_ok_def chans_inv_def)
  moreover obtain r where "select_rec (nodes s a) = Some r" "select_rec (nodes s b) = Some r"
    using \<open>pairs_ok s\<close> assms(2,3) unfolding pairs_ok_def by (metis not_None_eq)
  ultimately show ?thesis using assms(2,3) by (fastforce simp: sel_node_def chan_inv_def)
qed

section \<open>The scan\<close>

lemma scan_idx_exact:
  assumes "unat r + n \<le> 2 ^ 32" and "i < n"
  shows "scan_idx r n i = (unat r + i) mod n"
proof -
  have n: "n < 2 ^ 32 \<or> n = 2 ^ 32" and lt: "unat r + i < 2 ^ 32" using assms by auto
  have u: "unat (r + of_nat i) = unat r + i"
    using lt assms by (simp add: unat_word_ariths unat_of_nat)
  show ?thesis
  proof (cases "n = 2 ^ 32")
    case True
    then have z: "(of_nat n :: u32) = 0" by simp
    show ?thesis unfolding scan_idx_def z using u lt True by simp
  next
    case False
    then have "unat (of_nat n :: u32) = n" using n by (simp add: unat_of_nat)
    then show ?thesis by (simp add: scan_idx_def unat_mod u)
  qed
qed

lemma scan_covers:
  assumes "unat r + n \<le> 2 ^ 32" and "k < n"
  shows "\<exists>i < n. scan_idx r n i = k"
proof -
  let ?i = "(k + (n - unat r mod n)) mod n"
  have m: "unat r mod n < n" using assms(2) by simp
  have "(unat r + ?i) mod n = (unat r mod n + (k + (n - unat r mod n))) mod n"
    by (simp add: mod_add_left_eq mod_add_right_eq)
  also have "\<dots> = (k + n) mod n" using m by simp
  finally have "(unat r + ?i) mod n = k" using assms(2) by simp
  moreover have "?i < n" using assms(2) by simp
  ultimately show ?thesis using scan_idx_exact [OF assms(1)] by auto
qed

text \<open>A case that cannot proceed: no room and nobody to take from or give to.\<close>

definition stuck :: "chan_op \<Rightarrow> rt \<Rightarrow> bool" where
  "stuck op s \<longleftrightarrow> \<not> closed (chans s (op_ch op)) \<and>
     (if is_send op
      then \<not> (buf_sz (chans s (op_ch op)) \<noteq> 0 \<and> ch_count (chans s (op_ch op)) < buf_sz (chans s (op_ch op))) \<and>
           wlists s (LReceivers (op_ch op)) = []
      else \<not> (buf_sz (chans s (op_ch op)) \<noteq> 0 \<and> ch_count (chans s (op_ch op)) > 0) \<and> wlists s (LSenders (op_ch op)) = [])"

lemma stuck_not_ready: "stuck op s \<Longrightarrow> \<not> s_select_case_ready op rec s"
  by (auto simp: stuck_def s_select_case_ready_def Let_def split: if_splits)

definition calmer :: "rt \<Rightarrow> rt \<Rightarrow> bool" where
  "calmer s t \<longleftrightarrow> chans t = chans s \<and> mem t = mem s \<and> (\<forall>l. wlists s l = [] \<longrightarrow> wlists t l = [])"

lemma calmer_stuck: "calmer s t \<Longrightarrow> stuck op s \<Longrightarrow> stuck op t"
  by (auto simp: calmer_def stuck_def)

lemma calmer_trans: "calmer s t \<Longrightarrow> calmer t u \<Longrightarrow> calmer s u"
  by (simp add: calmer_def)

lemma try_op_cases:
  assumes e: "try_op op s = (r, t)" and v: "op_val op \<noteq> 0"
  shows "\<exists>st. r = Some st \<and> (st = SUSPENDERS_OK \<or> st = SUSPENDERS_CLOSED \<or> (calmer s t \<and> stuck op t))"
proof (cases "is_send op")
  case True
  let ?ch = "op_ch op"
  have e: "chan_send_locked ?ch (op_val op) 0 True False s = (r, t)"
    using e v True by (simp add: try_op_def suspenders_chan_try_send_def s_chan_send_impl_def)
  obtain rx s1 where tk: "s_chan_take_waiter (LReceivers ?ch) s = (rx, s1)" by fastforce
  then obtain ls where t1: "took (LReceivers ?ch) s ls rx s1" using take_waiter_took by blast
  note tl = took_lists [OF t1]
  show ?thesis
  proof (cases "closed (chans s ?ch) \<or> rx \<noteq> None \<or> (buf_sz (chans s1 ?ch) \<noteq> 0 \<and> ch_count (chans s1 ?ch) < buf_sz (chans s1 ?ch))")
    case True
    with e tk show ?thesis by (auto simp: chan_send_locked_def fail_def Let_def split: if_splits option.splits)
  next
    case False
    with e tk have "r = Some SUSPENDERS_FULL" "t = set_errno SUSPENDERS_FULL s1"
      by (auto simp: chan_send_locked_def fail_def split: if_splits)
    with False True tl show ?thesis by (auto simp: calmer_def stuck_def)
  qed
next
  case False
  let ?ch = "op_ch op"
  have e: "chan_recv_locked ?ch (op_val op) 0 True False s = (r, t)"
    using e v False by (simp add: try_op_def suspenders_chan_try_recv_def s_chan_recv_impl_def)
  obtain tx s1 where tk: "s_chan_take_waiter (LSenders ?ch) s = (tx, s1)" by fastforce
  then obtain ls where t1: "took (LSenders ?ch) s ls tx s1" using take_waiter_took by blast
  note tl = took_lists [OF t1]
  show ?thesis
  proof (cases "buf_sz (chans s ?ch) \<noteq> 0 \<and> ch_count (chans s ?ch) > 0")
    case True
    with e show ?thesis by (auto simp: chan_recv_locked_def Let_def split: prod.splits option.splits)
  next
    case low: False
    show ?thesis
    proof (cases "closed (chans s1 ?ch) \<or> tx \<noteq> None")
      case True
      with e low tk show ?thesis by (auto simp: chan_recv_locked_def fail_def Let_def split: if_splits option.splits)
    next
      case opn: False
      with e tk low have "r = Some SUSPENDERS_EMPTY" "t = set_errno SUSPENDERS_EMPTY s1"
        by (auto simp: chan_recv_locked_def fail_def split: if_splits)
      with opn False low tl show ?thesis by (auto simp: calmer_def stuck_def)
    qed
  qed
qed

lemma select_scan_run:
  assumes "select_scan ops r is s = (res, t)" and "\<forall>op \<in> set ops. op_val op \<noteq> 0"
    and "\<forall>i \<in> set is. scan_idx r (length ops) i < length ops"
  shows "case res of
      None \<Rightarrow> calmer s t \<and> (\<forall>i \<in> set is. stuck (ops ! scan_idx r (length ops) i) t)
    | Some (idx, st) \<Rightarrow> idx < length ops \<and> (st = SUSPENDERS_OK \<or> st = SUSPENDERS_CLOSED) \<and>
        (\<exists>u. calmer s u \<and> try_op (ops ! idx) u = (Some st, t))"
  using assms
proof (induction "is" arbitrary: s)
  case Nil
  then show ?case by (auto simp: calmer_def)
next
  case (Cons i "is")
  define idx where "idx = scan_idx r (length ops) i"
  have il: "idx < length ops" using Cons.prems(3) by (simp add: idx_def)
  obtain q s1 where e: "try_op (ops ! idx) s = (q, s1)" by fastforce
  have "op_val (ops ! idx) \<noteq> 0" using Cons.prems(2) il by simp
  from try_op_cases [OF e this] obtain st where st: "q = Some st"
    "st = SUSPENDERS_OK \<or> st = SUSPENDERS_CLOSED \<or> (calmer s s1 \<and> stuck (ops ! idx) s1)" by blast
  show ?case
  proof (cases "st = SUSPENDERS_OK \<or> st = SUSPENDERS_CLOSED")
    case True
    with Cons.prems(1) e st(1) have "res = Some (idx, st)" "t = s1" by (auto simp: idx_def [symmetric])
    moreover have "calmer s s" by (simp add: calmer_def)
    ultimately show ?thesis using True il e st(1) by auto
  next
    case False
    with st(2) have c: "calmer s s1" "stuck (ops ! idx) s1" by auto
    have "select_scan ops r is s1 = (res, t)" using Cons.prems(1) e st(1) False by (simp add: idx_def [symmetric])
    from Cons.IH [OF this Cons.prems(2)] Cons.prems(3)
    show ?thesis using c calmer_trans [OF c(1)] calmer_stuck [of s1 t]
      by (auto split: option.splits simp: idx_def)
  qed
qed

text \<open>The scan of a select: when the random start does not make the 32-bit sum wrap, every case is
  tried. A scan that finds nothing leaves channels and memory alone and every case is then not ready;
  a scan that finds a case performs exactly that case's operation, with the result it reports.\<close>

theorem select_scan_complete:
  assumes "select_scan ops r [0..<length ops] s = (res, t)" and "\<forall>op \<in> set ops. op_val op \<noteq> 0"
    and "unat r + length ops \<le> 2 ^ 32"
  shows "case res of
      None \<Rightarrow> chans t = chans s \<and> mem t = mem s \<and> (\<forall>op \<in> set ops. \<not> s_select_case_ready op rec t)
    | Some (idx, st) \<Rightarrow> idx < length ops \<and> (st = SUSPENDERS_OK \<or> st = SUSPENDERS_CLOSED) \<and>
        (\<exists>u. chans u = chans s \<and> mem u = mem s \<and> try_op (ops ! idx) u = (Some st, t))"
proof -
  have b: "\<forall>i \<in> set [0..<length ops]. scan_idx r (length ops) i < length ops"
    using scan_idx_exact [OF assms(3)] by (fastforce intro: mod_less_divisor)
  note run = select_scan_run [OF assms(1,2) b]
  show ?thesis
  proof (cases res)
    case None
    have "stuck op t" if "op \<in> set ops" for op
    proof -
      from that obtain k where k: "k < length ops" "op = ops ! k" by (auto simp: in_set_conv_nth)
      from scan_covers [OF assms(3) k(1)] run None k(2) show ?thesis by auto
    qed
    with run None stuck_not_ready show ?thesis by (auto simp: calmer_def)
  next
    case (Some p)
    with run show ?thesis by (auto simp: calmer_def split: prod.splits)
  qed
qed

section \<open>Examples\<close>

text \<open>Coroutine 5 selects between receiving from channel 3 and sending to channel 4; then a value is sent
  to channel 3.\<close>

definition two_ops :: "chan_op list" where
  "two_ops = [\<lparr>op_ch = 3, op_val = 8, is_send = False\<rparr>, \<lparr>op_ch = 4, op_val = 9, is_send = True\<rparr>]"

definition sel_parked :: rt where
  "sel_parked = sel_exec (Register two_ops 0 5 1) (sel_exec (Register two_ops 0 5 0)
     (sel_exec (Begin 0 5) (run_on 5 blank_rt)))"

definition sel_won :: rt where
  "sel_won = sel_exec (TrySend (Some 3) 9) sel_parked"

lemmas sel_eval = run_on_def blank_rt_def upd_cr_def upd_node_def upd_list_def zero_node_def select_init_def
  select_register_def two_ops_def s_select_case_ready_def op_list_def Let_def

lemma sel_reach:
  "reach sel_start sel_step sel_parked" "reach sel_start sel_step sel_won"
proof -
  have "sel_start (run_on 5 blank_rt)"
    by (simp add: sel_start_def run_on_def blank_rt_def upd_cr_def zero_node_def chan_wf_def)
  then have r0: "reach sel_start sel_step (run_on 5 blank_rt)" by (rule reach.reach_init)
  have r1: "reach sel_start sel_step (sel_exec (Begin 0 5) (run_on 5 blank_rt))"
    by (rule reach.reach_step [OF r0 sel_step.sel_call]) (simp add: sel_eval)
  have r2: "reach sel_start sel_step (sel_exec (Register two_ops 0 5 0) (sel_exec (Begin 0 5) (run_on 5 blank_rt)))"
    by (rule reach.reach_step [OF r1 sel_step.sel_call]) (simp add: sel_eval)
  show r3: "reach sel_start sel_step sel_parked"
    unfolding sel_parked_def by (rule reach.reach_step [OF r2 sel_step.sel_call]) (simp add: sel_eval)
  show "reach sel_start sel_step sel_won"
    unfolding sel_won_def by (rule reach.reach_step [OF r3 sel_step.sel_call]) simp
qed

lemma sel_parked_facts:
  "wlists sel_parked (LReceivers 3) = [Sel 0 0]" "wlists sel_parked (LSenders 4) = [Sel 0 1]"
  "winner sel_parked 0 = -1" "select_rec (nodes sel_parked (Sel 0 0)) = Some 0"
  "select_idx (nodes sel_parked (Sel 0 0)) = 0" "closed (chans sel_parked 3) = False"
  by (simp_all add: sel_parked_def sel_eval)

lemma sel_won_winner: "winner sel_won 0 = 0"
  by (simp add: sel_won_def suspenders_chan_try_send_def s_chan_send_impl_def chan_send_locked_def s_chan_take_waiter_def
      sel_parked_facts Let_def upd_list_def)


text \<open>The same channel in both cases: the select's own nodes are the only ones on both sides.\<close>

definition own_ops :: "chan_op list" where
  "own_ops = [\<lparr>op_ch = 3, op_val = 8, is_send = False\<rparr>, \<lparr>op_ch = 3, op_val = 9, is_send = True\<rparr>]"

definition own_parked :: rt where
  "own_parked = sel_exec (Register own_ops 0 5 1) (sel_exec (Register own_ops 0 5 0)
     (sel_exec (Begin 0 5) (run_on 5 blank_rt)))"

lemma own_parked_reach: "reach sel_start sel_step own_parked"
proof -
  have "sel_start (run_on 5 blank_rt)"
    by (simp add: sel_start_def run_on_def blank_rt_def upd_cr_def zero_node_def chan_wf_def)
  then have r0: "reach sel_start sel_step (run_on 5 blank_rt)" by (rule reach.reach_init)
  have r1: "reach sel_start sel_step (sel_exec (Begin 0 5) (run_on 5 blank_rt))"
    by (rule reach.reach_step [OF r0 sel_step.sel_call]) (simp add: sel_eval)
  have r2: "reach sel_start sel_step (sel_exec (Register own_ops 0 5 0) (sel_exec (Begin 0 5) (run_on 5 blank_rt)))"
    by (rule reach.reach_step [OF r1 sel_step.sel_call]) (simp add: sel_eval)
  show ?thesis
    unfolding own_parked_def by (rule reach.reach_step [OF r2 sel_step.sel_call]) (simp add: sel_eval own_ops_def)
qed

theorem no_missed_rendezvous_witness:
  "wlists own_parked (LSenders 3) = [Sel 0 1] \<and> wlists own_parked (LReceivers 3) = [Sel 0 0] \<and>
   buf_sz (chans own_parked 3) = 0 \<and> (\<exists>r i j. Sel 0 1 = Sel r i \<and> Sel 0 0 = Sel r j)"
proof -
  have w: "wlists own_parked (LSenders 3) = [Sel 0 1]" "wlists own_parked (LReceivers 3) = [Sel 0 0]"
    by (simp_all add: own_parked_def sel_eval own_ops_def)
  with no_missed_rendezvous [OF own_parked_reach, where ch = 3 and a = "Sel 0 1" and b = "Sel 0 0"]
  show ?thesis by simp
qed

theorem select_scan_complete_witness:
  "\<exists>t. select_scan two_ops 7 [0..<length two_ops] blank_rt = (None, t) \<and> chans t = chans blank_rt \<and>
     \<not> s_select_case_ready (two_ops ! 0) 0 t \<and> \<not> s_select_case_ready (two_ops ! 1) 0 t"
proof -
  obtain res t where e: "select_scan two_ops 7 [0..<length two_ops] blank_rt = (res, t)" by fastforce
  have "fst (select_scan two_ops 7 [0..<length two_ops] blank_rt) = None"
    by (simp add: two_ops_def upt_rec scan_idx_def try_op_def suspenders_chan_try_send_def suspenders_chan_try_recv_def
        s_chan_send_impl_def s_chan_recv_impl_def chan_send_locked_def chan_recv_locked_def s_chan_take_waiter_def blank_rt_def
        fail_def set_errno_def)
  with e have "res = None" by simp
  with select_scan_complete [OF e, where rec = 0] e show ?thesis by (simp add: two_ops_def)
qed

section \<open>What the scan misses\<close>

text \<open>Three receive cases outside a coroutine; only channel 12 holds a value. The seed makes the random
  start \<open>2 ^ 32 - 1\<close>.\<close>

definition three_ops :: "chan_op list" where
  "three_ops = [\<lparr>op_ch = 10, op_val = 8, is_send = False\<rparr>, \<lparr>op_ch = 11, op_val = 8, is_send = False\<rparr>,
     \<lparr>op_ch = 12, op_val = 8, is_send = False\<rparr>]"

definition full_12 :: chan where
  "full_12 = \<lparr>elem_sz = 1, buf_sz = 1, ch_count = 1, ch_head = 0, ch_buf = [42], closed = False\<rparr>"

definition wrap_rt :: rt where
  "wrap_rt = blank_rt\<lparr>select_seed := 0x5e6cfce7, chans := (chans blank_rt)(12 := full_12)\<rparr>"

lemma wrap_rand: "xorshift 0x5e6cfce7 = 0xffffffff"
  unfolding xorshift_def by code_simp

text \<open>The scan adds the round to the random start in 32 bits before it takes the remainder. When the sum
  wraps and the number of cases is no power of two, some case is tried twice and another is not tried:
  a select outside a coroutine then fails with \<open>SUSPENDERS_PERM\<close> although a value is waiting.\<close>

theorem select_scan_wrap_misses:
  "map (scan_idx 0xffffffff 3) [0..<3] = [0, 0, 1] \<and>
   chan_contents (chans wrap_rt 12) = [[42]] \<and> s_select_case_ready (three_ops ! 2) 0 wrap_rt \<and>
   map_option fst (suspenders_select_dl 0 (Some three_ops) 0 wrap_rt) = Some (SelReturned SUSPENDERS_PERM)"
proof (intro conjI)
  show i: "map (scan_idx 0xffffffff 3) [0..<3] = [0, 0, 1]" unfolding scan_idx_def by code_simp
  show "chan_contents (chans wrap_rt 12) = [[42]]"
    by (simp add: wrap_rt_def full_12_def chan_contents_def slot_def)
  show "s_select_case_ready (three_ops ! 2) 0 wrap_rt"
    by (simp add: three_ops_def wrap_rt_def full_12_def s_select_case_ready_def)
  have idx: "scan_idx 0xffffffff 3 0 = 0" "scan_idx 0xffffffff 3 1 = 0" "scan_idx 0xffffffff 3 2 = 1"
    using i by (simp_all add: upt_rec numeral_2_eq_2)
  define s1 where "s1 = wrap_rt\<lparr>select_seed := 0xffffffff\<rparr>"
  have r: "s_rand32 wrap_rt = (0xffffffff, s1)" by (simp add: s_rand32_def wrap_rt_def s1_def wrap_rand)
  have len: "length three_ops = 3" "[0..<3] = [0, 1, 2 :: nat]" by (simp_all add: three_ops_def upt_rec)
  have f: "try_op (three_ops ! k) s = (Some SUSPENDERS_EMPTY, set_errno SUSPENDERS_EMPTY s)"
    if "k = 0 \<or> k = 1" and "chans s = chans wrap_rt" and "wlists s = (\<lambda>_. [])" for k s
    using that by (auto simp: try_op_def three_ops_def suspenders_chan_try_recv_def s_chan_recv_impl_def chan_recv_locked_def
        s_chan_take_waiter_def wrap_rt_def blank_rt_def fail_def)
  have w: "wlists s1 = (\<lambda>_. [])" "chans s1 = chans wrap_rt" by (simp_all add: s1_def wrap_rt_def blank_rt_def)
  have "fst (select_scan three_ops 0xffffffff [0, 1, 2] s1) = None"
    using f idx w by (simp add: len)
  then obtain s2 where sc: "select_scan three_ops 0xffffffff [0, 1, 2] s1 = (None, s2)" by (metis prod.collapse)
  have nb: "\<not> s_io_is_cr wrap_rt" by (simp add: s_io_is_cr_def wrap_rt_def blank_rt_def)
  show "map_option fst (suspenders_select_dl 0 (Some three_ops) 0 wrap_rt) = Some (SelReturned SUSPENDERS_PERM)"
    using nb r sc by (simp add: suspenders_select_dl_def len)
qed

text \<open>The state in which a registration pass over a closed channel with a null value starts over.\<close>

definition spinning :: "nat \<Rightarrow> nat \<Rightarrow> cr_ref \<Rightarrow> rt \<Rightarrow> bool" where
  "spinning ch rec c s \<longleftrightarrow> closed (chans s ch) \<and> winner s rec = -1 \<and> status (nodes s (Emb c)) = S_WQ_WAITING"

lemma spin_pass:
  assumes "spinning ch rec c s"
  shows "\<exists>t. select_pass [\<lparr>op_ch = ch, op_val = 0, is_send = b\<rparr>] rec c armed s = (SelAgain, t) \<and> spinning ch rec c t"
proof -
  let ?ops = "[\<lparr>op_ch = ch, op_val = 0, is_send = b\<rparr>]"
  obtain s1 where s1: "select_register ?ops rec c 0 s = (True, s1)" "chans s1 = chans s" "winner s1 = winner s"
    "nodes s1 (Emb c) = nodes s (Emb c)"
    using assms by (simp add: spinning_def select_register_def s_select_case_ready_def Let_def)
  obtain r s2 where s2: "s_rand32 s1 = (r, s2)" by fastforce
  have f2: "chans s2 = chans s1" "winner s2 = winner s1" "nodes s2 = nodes s1"
    using s2 by (auto simp: s_rand32_def Let_def)
  have sc: "select_scan ?ops r [0] s2 = (None, set_errno SUSPENDERS_INVAL s2)"
    by (simp add: scan_idx_def try_op_def suspenders_chan_try_send_def suspenders_chan_try_recv_def
        s_chan_send_impl_def s_chan_recv_impl_def fail_def)
  have "select_pass ?ops rec c armed s = (SelAgain, set_errno SUSPENDERS_INVAL s2)"
    using assms s1 s2 sc by (simp add: select_pass_def select_after_def spinning_def)
  moreover have "spinning ch rec c (set_errno SUSPENDERS_INVAL s2)"
    using assms s1 f2 by (simp add: spinning_def)
  ultimately show ?thesis by blast
qed

text \<open>\<open>suspenders_select_dl\<close> does not check the value pointers. A case with a null value on a closed
  channel counts as ready when it is registered, but its operation fails with
  \<open>SUSPENDERS_INVAL\<close>, so the call registers and rescans forever without ever suspending.\<close>

theorem select_null_value_spins:
  assumes "closed (chans s ch)" and "winner s rec = -1" and "status (nodes s (Emb c)) = S_WQ_WAITING"
  shows "select_loop [\<lparr>op_ch = ch, op_val = 0, is_send = b\<rparr>] rec c armed s = None"
proof -
  let ?ops = "[\<lparr>op_ch = ch, op_val = 0, is_send = b\<rparr>]"
  have "\<not> spinning ch rec c s" if "select_loop ?ops rec c armed s = Some y" for y
  proof (rule select_loop.raw_induct [where P = "\<lambda>ops rec c armed s y. ops = ?ops \<longrightarrow> \<not> spinning ch rec c s", OF _ that,
        THEN mp, OF _ refl], intro impI notI)
    fix f ops rec c armed s y
    assume IH: "\<And>ops rec c armed s y. f ops rec c armed s = Some y \<Longrightarrow> ops = ?ops \<longrightarrow> \<not> spinning ch rec c s"
      and eq: "(case select_pass ops rec c armed s of (SelAgain, s1) \<Rightarrow> f ops rec c armed s1
                | (SelWaiting a, b) \<Rightarrow> Some (SelWaiting a, b) | (SelSyncing a c, b) \<Rightarrow> Some (SelSyncing a c, b)
                | (SelReturned a, b) \<Rightarrow> Some (SelReturned a, b)) = Some y"
      and ops: "ops = ?ops" and sp: "spinning ch rec c s"
    from spin_pass [OF sp] obtain t where t: "select_pass ?ops rec c armed s = (SelAgain, t)" "spinning ch rec c t" by blast
    with eq ops have "f ?ops rec c armed t = Some y" by simp
    from IH [OF this] t(2) show False by simp
  qed
  with assms show ?thesis by (cases "select_loop ?ops rec c armed s") (auto simp: spinning_def)
qed

theorem select_null_value_spins_witness:
  "select_loop [\<lparr>op_ch = 3, op_val = 0, is_send = False\<rparr>] 0 5 False
     (select_init 0 5 (snd (suspenders_chan_close (Some 3) (run_on 5 blank_rt)))) = None"
proof -
  have "closed (chans (snd (suspenders_chan_close (Some 3) (run_on 5 blank_rt))) 3)"
    by (simp add: suspenders_chan_close_def close_list.simps s_chan_take_waiter_def run_on_def blank_rt_def upd_cr_def
        upd_chan_def)
  then show ?thesis by (intro select_null_value_spins) (simp_all add: select_init_def)
qed

end
