(* ===== verification/Quic_Wire.thy ===== *)
theory Quic_Wire
  imports Prelude "HOL-Library.Monad_Syntax"
begin

text \<open>
  The wire format of \<open>suspenders_quic.h\<close>: variable-length integers, transport parameters, TLS
  extensions and the handshake messages with their parsers, over lists of bytes. A writer gets the
  capacity of its output buffer and returns what it wrote, or \<open>None\<close> when the C function
  returns -1. A parser walks a message by its positions; a read past the end of the message is a
  result of its own, \<open>Oob\<close>, because the C code does not prevent all of them. The random bytes
  of \<open>RAND_bytes\<close> are an argument.
\<close>

section \<open>Variable-length integers\<close>

definition s_quic_varint_size :: "u64 \<Rightarrow> nat" where
  "s_quic_varint_size v =
     (if v \<le> 63 then 1 else if v \<le> 16383 then 2 else if v \<le> 1073741823 then 4 else 8)"

definition varint_bytes :: "u64 \<Rightarrow> bytes" where
  "varint_bytes v =
     (let n = s_quic_varint_size v in
      if n = 1 then [ucast v]
      else if n = 2 then [ucast (drop_bit 8 v OR 0x40), ucast v]
      else if n = 4 then [ucast (drop_bit 24 v OR 0x80), ucast (drop_bit 16 v), ucast (drop_bit 8 v), ucast v]
      else ucast (drop_bit 56 v OR 0xc0) # map (\<lambda>i. ucast (drop_bit (56 - 8 * i) v)) [1..<8])"

definition s_quic_put_varint :: "nat \<Rightarrow> u64 \<Rightarrow> bytes option" where
  "s_quic_put_varint cap v = (if s_quic_varint_size v > cap then None else Some (varint_bytes v))"

text \<open>Big-endian accumulation, \<open>v = (v << 8) | p[i]\<close>.\<close>

definition be_acc :: "u64 \<Rightarrow> bytes \<Rightarrow> u64" where
  "be_acc v bs = foldl (\<lambda>v b. push_bit 8 v OR ucast b) v bs"

definition s_quic_get_varint :: "bytes \<Rightarrow> (u64 \<times> bytes) option" where
  "s_quic_get_varint bs =
     (case bs of
        [] \<Rightarrow> None
      | b # rest \<Rightarrow>
          (let n = 2 ^ unat (drop_bit 6 b) in
           if length bs < n then None
           else Some (be_acc (ucast (b AND 0x3f)) (take (n - 1) rest), drop (n - 1) rest)))"

subsection \<open>Bytes as numbers\<close>

lemma unat_ucast64_8: "unat (ucast (v :: u64) :: u8) = unat v mod 256"
  by (simp add: unsigned_ucast_eq take_bit_eq_mod)

lemma unat_byte: "unat (ucast (drop_bit k v :: u64) :: u8) = unat v div 2 ^ k mod 256"
  unfolding unat_ucast64_8 unat_drop_bit_eq by (simp add: drop_bit_eq_div)

lemma unat_ucast8_64: "unat (ucast (b :: u8) :: u64) = unat b"
  using unsigned_less [of b, where ?'a = nat] by (simp add: unsigned_ucast_eq take_bit_eq_mod)

lemma or_shift8:
  fixes v :: u64 and b :: u8
  assumes "unat v < 2 ^ 56"
  shows "unat (push_bit 8 v OR ucast b) = unat v * 256 + unat b"
proof -
  have "push_bit 8 v OR (ucast b :: u64) = push_bit 8 v + ucast b"
    by (rule disjunctive_add_eq_or [symmetric]) (auto simp: bit_eq_iff bit_simps dest: bit_imp_le_length)
  moreover have "unat (push_bit 8 v :: u64) = unat v * 256"
    unfolding unsigned_push_bit_eq using assms by (simp add: push_bit_eq_mult take_bit_eq_mod)
  moreover have "unat b < 256" using unsigned_less [of b, where ?'a = nat] by simp
  ultimately show ?thesis using assms by (simp add: unat_word_ariths unat_ucast8_64)
qed

text \<open>The same accumulation on numbers.\<close>

definition be_nat :: "nat \<Rightarrow> bytes \<Rightarrow> nat" where
  "be_nat v bs = foldl (\<lambda>v b. v * 256 + unat b) v bs"

lemma be_nat_bound: "v < 2 ^ k \<Longrightarrow> be_nat v bs < 2 ^ (k + 8 * length bs)"
proof (induction bs arbitrary: v k)
  case (Cons b bs)
  have "unat b < 256" using unsigned_less [of b, where ?'a = nat] by simp
  with Cons.prems have "v * 256 + unat b < 2 ^ (k + 8)" by (simp add: power_add)
  from Cons.IH [OF this] show ?case by (simp add: be_nat_def add.assoc)
qed (simp add: be_nat_def)

lemma be_acc_nat:
  "unat v < 2 ^ k \<Longrightarrow> k + 8 * length bs \<le> 64 \<Longrightarrow> unat (be_acc v bs) = be_nat (unat v) bs"
proof (induction bs arbitrary: v k)
  case (Cons b bs)
  have "(2 :: nat) ^ k \<le> 2 ^ 56" using Cons.prems(2) by (intro power_increasing) auto
  with Cons.prems(1) have s: "unat (push_bit 8 v OR ucast b) = unat v * 256 + unat b" by (intro or_shift8) simp
  have "unat b < 256" using unsigned_less [of b, where ?'a = nat] by simp
  with Cons.prems(1) have "unat (push_bit 8 v OR ucast b) < 2 ^ (k + 8)" by (simp add: s power_add)
  from Cons.IH [OF this] Cons.prems(2) s show ?case by (simp add: be_acc_def be_nat_def)
qed (simp add: be_acc_def be_nat_def)

lemma be_nat_digits:
  "be_nat (v div 256 ^ n) (map (\<lambda>i. of_nat (v div 256 ^ (n - 1 - i))) [0..<n]) = v"
proof (induction n)
  case (Suc n)
  have l: "[0..<Suc n] = 0 # map Suc [0..<n]" by (simp add: map_Suc_upt upt_conv_Cons del: upt_Suc)
  have d: "v div 256 ^ Suc n * 256 + v div 256 ^ n mod 256 = v div 256 ^ n"
  proof -
    have "v div 256 ^ Suc n = v div 256 ^ n div 256" by (simp only: power_Suc2 div_mult2_eq)
    then show ?thesis by simp
  qed
  show ?case unfolding l using Suc d by (simp add: be_nat_def unat_of_nat comp_def)
qed (simp add: be_nat_def)

lemma of_nat_mod256: "(of_nat (n mod 256) :: u8) = of_nat n"
  by (simp add: word_unat_eq_iff unat_of_nat)

subsection \<open>Round trip\<close>

lemma byte_digit: "(ucast (drop_bit (8 * k) (v :: u64)) :: u8) = of_nat (unat v div 256 ^ k)"
  by (simp add: word_unat_eq_iff unat_byte unat_of_nat power_mult)

definition varint_tag :: "nat \<Rightarrow> u64" where
  "varint_tag n = (if n = 1 then 0 else if n = 2 then 0x40 else if n = 4 then 0x80 else 0xc0)"

lemma varint_tail:
  "varint_bytes v =
    (let n = s_quic_varint_size v in
     ucast (drop_bit (8 * (n - 1)) v OR varint_tag n) # map (\<lambda>i. ucast (drop_bit (8 * (n - 1 - 1 - i)) v)) [0..<n - 1])"
proof -
  have u: "[1..<8] = [1, 2, 3, 4, 5, 6, 7]" "[0..<8 - 1] = [0, 1, 2, 3, 4, 5, 6]" "[0..<4 - 1] = [0, 1, 2]"
    "[0..<2 - 1] = [0]" "[0..<1 - 1] = []" by (simp_all add: upt_rec)
  have "s_quic_varint_size v \<in> {1, 2, 4, 8}" by (simp add: s_quic_varint_size_def)
  then consider "s_quic_varint_size v = 1" | "s_quic_varint_size v = 2" | "s_quic_varint_size v = 4" | "s_quic_varint_size v = 8"
    by blast
  then show ?thesis
    by cases (simp_all only: varint_bytes_def Let_def u varint_tag_def, simp_all)
qed

lemma varint_head:
  fixes v :: u64
  assumes "unat v < 2 ^ 62"
  defines "n \<equiv> s_quic_varint_size v"
  defines "b \<equiv> (ucast (drop_bit (8 * (n - 1)) v OR varint_tag n) :: u8)"
  shows "2 ^ unat (drop_bit 6 b) = n" and "unat (ucast (b AND 0x3f) :: u64) = unat v div 256 ^ (n - 1)"
    and "unat v div 256 ^ (n - 1) < 64"
proof -
  define y where "y = (ucast (drop_bit (8 * (n - 1)) v) :: u8)"
  have n: "n \<in> {1, 2, 4, 8}" by (simp add: n_def s_quic_varint_size_def)
  have "n = 1 \<longrightarrow> unat v \<le> 63" "n = 2 \<longrightarrow> unat v \<le> 16383" "n = 4 \<longrightarrow> unat v \<le> 1073741823"
    by (auto simp: n_def s_quic_varint_size_def word_le_nat_alt)
  with n assms(1) show lt: "unat v div 256 ^ (n - 1) < 64" by auto
  have uy: "unat y = unat v div 256 ^ (n - 1)"
    using lt by (simp add: y_def byte_digit unat_of_nat)
  have y6: "take_bit 6 y = y" "drop_bit 6 y = 0"
    using lt uy unfolding word_unat_eq_iff unsigned_take_bit_eq unat_drop_bit_eq
    by (simp_all add: take_bit_eq_mod drop_bit_eq_div)
  have b: "b = y OR ucast (varint_tag n)" by (simp add: b_def y_def unsigned_or_eq)
  have "drop_bit 6 b = drop_bit 6 (ucast (varint_tag n) :: u8)" unfolding b drop_bit_or y6 by simp
  with n show "2 ^ unat (drop_bit 6 b) = n" by (auto simp: varint_tag_def)
  have "b AND 0x3f = (y AND mask 6) OR (ucast (varint_tag n) AND mask 6)"
    unfolding b by (simp add: bit.conj_disj_distrib2 mask_eq_exp_minus_1)
  also have "\<dots> = y"
  proof -
    have "y AND mask 6 = y" using y6(1) by (simp add: take_bit_eq_mask)
    moreover have "(ucast (varint_tag n) :: u8) AND mask 6 = 0" using n by (auto simp: varint_tag_def mask_eq_exp_minus_1)
    ultimately show ?thesis by simp
  qed
  finally show "unat (ucast (b AND 0x3f) :: u64) = unat v div 256 ^ (n - 1)" by (simp add: unat_ucast8_64 uy)
qed

lemma varint_size_bounds: "s_quic_varint_size v \<in> {1, 2, 4, 8}" "0 < s_quic_varint_size v" "s_quic_varint_size v \<le> 8"
  by (simp_all add: s_quic_varint_size_def)

lemma length_varint_bytes [simp]: "length (varint_bytes v) = s_quic_varint_size v"
  using varint_size_bounds(2) [of v] by (simp add: varint_tail Let_def)

lemma get_put_varint:
  assumes "v < 2 ^ 62"
  shows "s_quic_get_varint (varint_bytes v @ rest) = Some (v, rest)"
proof -
  define n where "n = s_quic_varint_size v"
  define b where "b = (ucast (drop_bit (8 * (n - 1)) v OR varint_tag n) :: u8)"
  define ds where "ds = map (\<lambda>i. (of_nat (unat v div 256 ^ (n - 1 - 1 - i)) :: u8)) [0..<n - 1]"
  have lt: "unat v < 2 ^ 62" using assms by (simp add: word_less_nat_alt)
  note h = varint_head [OF lt, folded n_def, folded b_def]
  have n: "0 < n" "n \<le> 8" using varint_size_bounds [of v] by (auto simp: n_def)
  have vb: "varint_bytes v = b # ds" by (simp add: varint_tail n_def [symmetric] Let_def b_def ds_def byte_digit)
  have acc: "unat (be_acc (ucast (b AND 0x3f)) ds) = be_nat (unat v div 256 ^ (n - 1)) ds"
    using be_acc_nat [of "ucast (b AND 0x3f)" 6 ds] h(2,3) n by (simp add: ds_def)
  have "be_acc (ucast (b AND 0x3f)) ds = v"
    using acc be_nat_digits [of "unat v" "n - 1"] by (simp add: word_unat_eq_iff ds_def)
  then show ?thesis using h(1) n by (simp add: s_quic_get_varint_def vb Let_def) (simp add: ds_def)
qed

text \<open>Integers below \<open>2 ^ 62\<close> are a prefix code.\<close>

interpretation varint: codec "\<lambda>v. v < 2 ^ 62" varint_bytes s_quic_get_varint
  by unfold_locales (rule get_put_varint)

lemma get_varint_shorter: "s_quic_get_varint bs = Some (v, rest) \<Longrightarrow> length rest < length bs"
  by (auto simp: s_quic_get_varint_def Let_def split: list.splits if_splits)

lemma get_varint_bound:
  assumes "s_quic_get_varint bs = Some (v, rest)"
  shows "v < 2 ^ 62"
proof -
  from assms obtain b r where bs: "bs = b # r" and n: "2 ^ unat (drop_bit 6 b) \<le> length bs"
    and v: "v = be_acc (ucast (b AND 0x3f)) (take (2 ^ unat (drop_bit 6 b) - 1) r)"
    by (auto simp: s_quic_get_varint_def Let_def split: list.splits if_splits)
  let ?k = "2 ^ unat (drop_bit 6 b) - 1 :: nat"
  have "unat b < 256" using unsigned_less [of b, where ?'a = nat] by simp
  then have "unat (drop_bit 6 b) < 4" unfolding unat_drop_bit_eq by (simp add: drop_bit_eq_div)
  then have "unat (drop_bit 6 b) \<in> {0, 1, 2, 3}" by auto
  then have k: "?k \<le> 7" by auto
  have "unat (b AND 0x3f) = unat (take_bit 6 b)" by (simp add: take_bit_eq_mask mask_eq_exp_minus_1)
  then have s: "unat (ucast (b AND 0x3f) :: u64) < 2 ^ 6"
    unfolding unat_ucast8_64 unsigned_take_bit_eq by (simp add: take_bit_eq_mod)
  have l: "length (take ?k r) \<le> 7" using k by simp
  have "unat v < 2 ^ (6 + 8 * length (take ?k r))"
    using be_acc_nat [OF s, of "take ?k r"] be_nat_bound [OF s, of "take ?k r"] l v by simp
  also have "\<dots> \<le> (2 :: nat) ^ 62" using l by (intro power_increasing) auto
  finally show ?thesis by (simp add: word_less_nat_alt)
qed

text \<open>Variable-length integers round-trip: every value below \<open>2 ^ 62\<close> is written in the smallest of
  the four sizes when the buffer has room for it, and reading it back in front of any other bytes
  returns the value and exactly those bytes.\<close>

theorem varint_roundtrip:
  assumes "v < 2 ^ 62" and "s_quic_varint_size v \<le> cap"
  shows "\<exists>bs. s_quic_put_varint cap v = Some bs \<and> length bs = s_quic_varint_size v \<and>
     s_quic_get_varint (bs @ rest) = Some (v, rest)"
  using assms varint.decode_encode [OF assms(1)] by (simp add: s_quic_put_varint_def)

theorem varint_roundtrip_witness:
  "\<exists>bs. s_quic_put_varint 4 15293 = Some bs \<and> length bs = 2 \<and> s_quic_get_varint (bs @ [7]) = Some (15293, [7])"
  using varint_roundtrip [of 15293 4 "[7]"] by (simp add: s_quic_varint_size_def)

text \<open>Reading a variable-length integer never runs past the input: it takes between one and eight
  bytes off the front and yields a value below \<open>2 ^ 62\<close>. Hence the writer, which accepts any
  64-bit value, cannot be read back from \<open>2 ^ 62\<close> on: that value is read as 0.\<close>

theorem varint_read_bounds:
  assumes "s_quic_get_varint bs = Some (v, rest)"
  shows "v < 2 ^ 62 \<and> (\<exists>pre. bs = pre @ rest \<and> 1 \<le> length pre \<and> length pre \<le> 8) \<and>
     s_quic_get_varint (varint_bytes (2 ^ 62)) = Some (0, [])"
proof -
  obtain b r where b: "bs = b # r" "2 ^ unat (drop_bit 6 b) \<le> length bs" "rest = drop (2 ^ unat (drop_bit 6 b) - 1) r"
    using assms by (auto simp: s_quic_get_varint_def Let_def split: list.splits if_splits)
  have "unat b < 256" using unsigned_less [of b, where ?'a = nat] by simp
  then have "unat (drop_bit 6 b) < 4" unfolding unat_drop_bit_eq by (simp add: drop_bit_eq_div)
  then have "unat (drop_bit 6 b) \<in> {0, 1, 2, 3}" by auto
  then have k: "2 ^ unat (drop_bit 6 b) - 1 \<le> (7 :: nat)" by auto
  have "bs = (b # take (2 ^ unat (drop_bit 6 b) - 1) r) @ rest" using b by simp
  moreover have "length (b # take (2 ^ unat (drop_bit 6 b) - 1) r) \<le> 8" using k by simp
  moreover have "s_quic_get_varint (varint_bytes (2 ^ 62)) = Some (0, [])" by code_simp
  ultimately show ?thesis using get_varint_bound [OF assms] by fastforce
qed

theorem varint_read_bounds_witness:
  "s_quic_get_varint [0x7b, 0xbd, 9] = Some (15293, [9]) \<and> (15293 :: u64) < 2 ^ 62 \<and>
   (\<exists>pre. [0x7b, 0xbd, 9] = pre @ [9 :: u8] \<and> 1 \<le> length pre \<and> length pre \<le> 8)"
proof -
  have e: "s_quic_get_varint [0x7b, 0xbd, 9] = Some (15293, [9])" by code_simp
  with varint_read_bounds [OF e] show ?thesis by blast
qed

section \<open>Connections\<close>

definition S_QUIC_CID_LEN :: nat where [simp]: "S_QUIC_CID_LEN = 8"
definition S_QUIC_CRYPTO_MAX :: nat where [simp]: "S_QUIC_CRYPTO_MAX = 8192"
definition S_QUIC_STREAM_MAX :: nat where [simp]: "S_QUIC_STREAM_MAX = 262144"
definition S_QUIC_FLOW :: u64 where [simp]: "S_QUIC_FLOW = 8388608"
definition S_QUIC_INITIAL :: nat where [simp]: "S_QUIC_INITIAL = 0"
definition S_QUIC_HANDSHAKE :: nat where [simp]: "S_QUIC_HANDSHAKE = 1"
definition S_QUIC_APP :: nat where [simp]: "S_QUIC_APP = 2"

record quic_keys =
  k_secret :: bytes
  k_key :: bytes
  k_iv :: bytes
  k_hp :: bytes
  k_have :: bool

record quic_flight =
  live :: bool
  fl_pn :: u64
  sent_ns :: u64
  frames :: bytes

text \<open>The keys are indexed by the direction (\<open>False\<close>: client to server) and the level. The transcript
  is the text hashed so far. \<open>rx_crypto\<close> holds the received crypto bytes, its length is
  \<open>rx_crypto_len\<close>; \<open>rx\<close> is the stream buffer with its capacity, \<open>None\<close> before
  it is allocated. \<open>sent\<close> records the datagrams handed to the socket, newest first.\<close>

record quic_conn =
  is_server :: bool
  owns_fd :: bool
  app_ready :: bool
  q_closed :: bool
  ch_done :: bool
  client_fin_sent :: bool
  peer_set :: bool
  local_cid :: bytes
  peer_cid :: bytes
  orig_dcid :: bytes
  x25519 :: "bytes option"
  my_pub :: bytes
  peer_pub :: bytes
  have_peer_pub :: bool
  shared :: bytes
  hs_secret :: bytes
  have_shared :: bool
  keys :: "bool \<Rightarrow> nat \<Rightarrow> quic_keys"
  tx_pn :: "nat \<Rightarrow> u64"
  rx_have :: "nat \<Rightarrow> bool"
  rx_max :: "nat \<Rightarrow> u64"
  rx_mask :: "nat \<Rightarrow> u64"
  transcript :: bytes
  rx_crypto :: "nat \<Rightarrow> bytes"
  rx_crypto_parsed :: "nat \<Rightarrow> nat"
  rx :: "bytes option"
  rx_len :: nat
  rx_pos :: nat
  tx_off :: u64
  peer_bidi_local :: u64
  peer_bidi_remote :: u64
  rx_fin :: bool
  flight :: "nat \<Rightarrow> quic_flight"
  cert_der :: bytes
  saw_params :: bool
  sent :: "bytes list"

definition no_keys :: quic_keys where
  "no_keys = \<lparr>k_secret = replicate 32 0, k_key = replicate 16 0, k_iv = replicate 12 0, k_hp = replicate 16 0, k_have = False\<rparr>"

definition no_flight :: quic_flight where
  "no_flight = \<lparr>live = False, fl_pn = 0, sent_ns = 0, frames = []\<rparr>"

text \<open>The connection \<open>s_quic_conn_new\<close> makes once its memory is allocated.\<close>

definition s_quic_conn_new :: quic_conn where
  "s_quic_conn_new = \<lparr>is_server = False, owns_fd = False, app_ready = False, q_closed = False, ch_done = False,
     client_fin_sent = False, peer_set = False, local_cid = replicate 8 0, peer_cid = replicate 8 0,
     orig_dcid = replicate 8 0, x25519 = None, my_pub = replicate 32 0, peer_pub = replicate 32 0,
     have_peer_pub = False, shared = replicate 32 0, hs_secret = replicate 32 0, have_shared = False,
     keys = (\<lambda>_ _. no_keys), tx_pn = (\<lambda>_. 0), rx_have = (\<lambda>_. False), rx_max = (\<lambda>_. 0), rx_mask = (\<lambda>_. 0),
     transcript = [], rx_crypto = (\<lambda>_. []), rx_crypto_parsed = (\<lambda>_. 0), rx = None, rx_len = 0, rx_pos = 0,
     tx_off = 0, peer_bidi_local = S_QUIC_FLOW, peer_bidi_remote = S_QUIC_FLOW, rx_fin = False,
     flight = (\<lambda>_. no_flight), cert_der = [], saw_params = False, sent = []\<rparr>"

section \<open>Transport parameters\<close>

text \<open>Append a variable-length integer to what has been written into a buffer of size \<open>cap\<close>.\<close>

definition put_v :: "nat \<Rightarrow> u64 \<Rightarrow> bytes \<Rightarrow> bytes option" where
  "put_v cap v acc = (case s_quic_put_varint (cap - length acc) v of None \<Rightarrow> None | Some bs \<Rightarrow> Some (acc @ bs))"

definition put_item :: "nat \<Rightarrow> u64 \<times> u64 \<Rightarrow> bytes \<Rightarrow> bytes option" where
  "put_item cap it acc = do {
     acc1 \<leftarrow> put_v cap (fst it) acc;
     acc2 \<leftarrow> put_v cap (of_nat (s_quic_varint_size (snd it))) acc1;
     put_v cap (snd it) acc2 }"

fun put_items :: "nat \<Rightarrow> (u64 \<times> u64) list \<Rightarrow> bytes \<Rightarrow> bytes option" where
  "put_items cap [] acc = Some acc"
| "put_items cap (it # its) acc = do { acc1 \<leftarrow> put_item cap it acc; put_items cap its acc1 }"

definition put_cid :: "nat \<Rightarrow> u64 \<Rightarrow> bytes \<Rightarrow> bytes \<Rightarrow> bytes option" where
  "put_cid cap ident cid acc = do {
     acc1 \<leftarrow> put_v cap ident acc;
     acc2 \<leftarrow> put_v cap (of_nat S_QUIC_CID_LEN) acc1;
     if length acc2 + S_QUIC_CID_LEN > cap then None else Some (acc2 @ take S_QUIC_CID_LEN cid) }"

definition param_items :: "(u64 \<times> u64) list" where
  "param_items = [(0x04, S_QUIC_FLOW), (0x05, S_QUIC_FLOW), (0x06, S_QUIC_FLOW), (0x08, 4), (0x01, 30000)]"

definition s_quic_put_params :: "nat \<Rightarrow> bytes \<Rightarrow> bool \<Rightarrow> bytes option \<Rightarrow> bytes option" where
  "s_quic_put_params cap cid srv odcid = do {
     acc \<leftarrow> put_items cap param_items [];
     acc1 \<leftarrow> put_cid cap 0x0f cid acc;
     (case odcid of Some od \<Rightarrow> if srv then put_cid cap 0x00 od acc1 else Some acc1 | None \<Rightarrow> Some acc1) }"

text \<open>One parameter of the peer: \<open>None\<close> when the connection is refused.\<close>

definition take_param :: "bool \<Rightarrow> u64 \<Rightarrow> bytes \<Rightarrow> quic_conn \<Rightarrow> quic_conn option" where
  "take_param from_server ident val c =
     (if ident = 0x05 \<or> ident = 0x06 \<or> ident = 0x04 \<or> ident = 0x01 then
        (case s_quic_get_varint val of
           None \<Rightarrow> None
         | Some (v, _) \<Rightarrow>
             Some (if ident = 0x05 then c\<lparr>peer_bidi_local := v\<rparr>
                   else if ident = 0x06 then c\<lparr>peer_bidi_remote := v\<rparr> else c))
      else if ident = 0x0f then
        (if length val \<noteq> S_QUIC_CID_LEN \<or> val \<noteq> peer_cid c then None else Some c)
      else if ident = 0x00 \<and> from_server then
        (if length val \<noteq> S_QUIC_CID_LEN \<or> val \<noteq> orig_dcid c then None else Some c)
      else Some c)"

function take_params_loop :: "bool \<Rightarrow> bytes \<Rightarrow> quic_conn \<Rightarrow> bool \<times> quic_conn" where
  "take_params_loop from_server bs c =
     (if bs = [] then (True, c\<lparr>saw_params := True\<rparr>)
      else
        (case s_quic_get_varint bs of
           None \<Rightarrow> (False, c)
         | Some (ident, b1) \<Rightarrow>
             (case s_quic_get_varint b1 of
                None \<Rightarrow> (False, c)
              | Some (len, b2) \<Rightarrow>
                  if length b2 < unat len then (False, c)
                  else
                    (case take_param from_server ident (take (unat len) b2) c of
                       None \<Rightarrow> (False, c)
                     | Some c1 \<Rightarrow> take_params_loop from_server (drop (unat len) b2) c1))))"
  by pat_completeness auto
termination
  by (relation "measure (\<lambda>(_, bs, _). length bs)") (auto dest!: get_varint_shorter)

declare take_params_loop.simps [simp del]

definition s_quic_take_params :: "quic_conn \<Rightarrow> bytes \<Rightarrow> bool \<Rightarrow> bool \<times> quic_conn" where
  "s_quic_take_params c bs from_server = take_params_loop from_server bs c"

subsection \<open>Round trip\<close>

lemma put_v_Some:
  assumes "length acc + s_quic_varint_size v \<le> cap"
  shows "put_v cap v acc = Some (acc @ varint_bytes v)"
  using assms by (simp add: put_v_def s_quic_put_varint_def)

lemma varint_bytes_not_Nil [simp]: "varint_bytes v \<noteq> []"
  using varint_size_bounds(2) [of v] by (metis length_varint_bytes length_0_conv less_irrefl)

lemma take_params_step:
  assumes "ident < 2 ^ 62" and "val = varint_bytes ident @ varint_bytes (of_nat (length v)) @ v" and "length v < 2 ^ 62"
    and "take_param fs ident v c = Some c1"
  shows "take_params_loop fs (val @ rest) c = take_params_loop fs rest c1"
proof -
  have l: "(of_nat (length v) :: u64) < 2 ^ 62" "unat (of_nat (length v) :: u64) = length v"
    using assms(3) by (simp_all add: word_less_nat_alt unat_of_nat)
  show ?thesis
    using assms(4) varint.decode_encode [OF assms(1)] varint.decode_encode [OF l(1)] l(2)
    by (subst take_params_loop.simps) (simp add: assms(2))
qed

lemma put_params_bytes:
  assumes "length cid = 8" and "\<And>d. od = Some d \<Longrightarrow> length d = 8" and "100 \<le> cap"
  shows "s_quic_put_params cap cid srv od =
    Some (concat (map (\<lambda>(i, v). varint_bytes i @ varint_bytes (of_nat (length (varint_bytes v))) @ varint_bytes v) param_items) @
          varint_bytes 0x0f @ varint_bytes 8 @ cid @
          (case od of Some d \<Rightarrow> if srv then varint_bytes 0 @ varint_bytes 8 @ d else [] | None \<Rightarrow> []))"
  using assms
  by (cases od) (simp_all add: s_quic_put_params_def param_items_def put_item_def put_cid_def put_v_Some s_quic_varint_size_def)

lemma take_params_items:
  assumes "srv \<Longrightarrow> orig_dcid c = d \<and> length d = 8" and "peer_cid c = cid" and "length cid = 8"
  shows "take_params_loop srv
     (concat (map (\<lambda>(i, v). varint_bytes i @ varint_bytes (of_nat (length (varint_bytes v))) @ varint_bytes v) param_items) @
          varint_bytes 0x0f @ varint_bytes 8 @ cid @ (if srv then varint_bytes 0 @ varint_bytes 8 @ d else [])) c =
     (True, c\<lparr>peer_bidi_local := S_QUIC_FLOW, peer_bidi_remote := S_QUIC_FLOW, saw_params := True\<rparr>)"
proof -
  have int: "take_params_loop srv ((varint_bytes i @ varint_bytes (of_nat (length (varint_bytes v))) @ varint_bytes v) @ rest) c =
      take_params_loop srv rest c1"
    if "i < 2 ^ 62" and "take_param srv i (varint_bytes v) c = Some c1" for i v rest c c1
    using varint_size_bounds(3) [of v] by (intro take_params_step [OF that(1) refl _ that(2)]) simp
  have cidp: "take_params_loop srv ((varint_bytes i @ varint_bytes 8 @ x) @ rest) c = take_params_loop srv rest c1"
    if "i < 2 ^ 62" and "length x = 8" and "take_param srv i x c = Some c1" for i x rest c c1
    using that(2) by (intro take_params_step [OF that(1) _ _ that(3)]) simp_all
  have v: "s_quic_get_varint (varint_bytes S_QUIC_FLOW) = Some (S_QUIC_FLOW, [])"
    "s_quic_get_varint (varint_bytes 30000) = Some (30000, [])"
    using varint.decode_encode [of S_QUIC_FLOW "[]"] varint.decode_encode [of 30000 "[]"] by simp_all
  let ?c = "c\<lparr>peer_bidi_local := S_QUIC_FLOW, peer_bidi_remote := S_QUIC_FLOW\<rparr>"
  have last: "take_params_loop srv (varint_bytes 0x0f @ varint_bytes 8 @ cid @ (if srv then varint_bytes 0 @ varint_bytes 8 @ d else [])) ?c =
      (True, ?c\<lparr>saw_params := True\<rparr>)"
    using assms cidp [where i = 15 and x = cid and c = ?c and ?c1.0 = ?c and rest = "if srv then varint_bytes 0 @ varint_bytes 8 @ d else []"]
      cidp [where i = 0 and x = d and c = ?c and ?c1.0 = ?c and rest = "[]"] by (cases srv) (simp_all add: take_param_def take_params_loop.simps [of _ "[]"])
  note i1 = int [where i = 4 and c = c and v = S_QUIC_FLOW and ?c1.0 = c] and i2 = int [where i = 5 and c = c and v = S_QUIC_FLOW and ?c1.0 = "c\<lparr>peer_bidi_local := S_QUIC_FLOW\<rparr>"]
    and i3 = int [where i = 6 and c = "c\<lparr>peer_bidi_local := S_QUIC_FLOW\<rparr>" and v = S_QUIC_FLOW and ?c1.0 = ?c] and i4 = int [where i = 8 and c = ?c and v = 4 and ?c1.0 = ?c] and i5 = int [where i = 1 and c = ?c and v = 30000 and ?c1.0 = ?c]
  show ?thesis
    using i1 i2 i3 i4 i5 v last by (simp add: param_items_def take_param_def)
qed

text \<open>Transport parameters round-trip: what one end writes is accepted by the other end when
  the connection identifiers in it are the ones the receiver knows its peer by, and then the receiver
  has learnt the writer's flow-control windows and nothing else.\<close>

theorem params_roundtrip:
  assumes "length cid = 8" and "length d = 8" and "100 \<le> cap" and "peer_cid c = cid" and "orig_dcid c = d"
  shows "\<exists>bs. s_quic_put_params cap cid srv (if srv then Some d else None) = Some bs \<and>
     s_quic_take_params c bs srv =
       (True, c\<lparr>peer_bidi_local := S_QUIC_FLOW, peer_bidi_remote := S_QUIC_FLOW, saw_params := True\<rparr>)"
  using put_params_bytes [of cid "if srv then Some d else None" cap srv] take_params_items [of srv c d cid] assms
  by (cases srv) (simp_all add: s_quic_take_params_def)

theorem params_roundtrip_witness:
  "\<exists>bs. s_quic_put_params 256 (replicate 8 1) True (Some (replicate 8 2)) = Some bs \<and>
     fst (s_quic_take_params (s_quic_conn_new\<lparr>peer_cid := replicate 8 1, orig_dcid := replicate 8 2\<rparr>) bs True)"
  using params_roundtrip [where cid = "replicate 8 1" and d = "replicate 8 2" and cap = 256 and srv = True
      and c = "s_quic_conn_new\<lparr>peer_cid := replicate 8 1, orig_dcid := replicate 8 2\<rparr>"] by auto

section \<open>Handshake messages\<close>

definition be16 :: "nat \<Rightarrow> bytes" where
  "be16 n = [of_nat (n div 256), of_nat n]"

definition be24 :: "nat \<Rightarrow> bytes" where
  "be24 n = [of_nat (n div 65536), of_nat (n div 256), of_nat n]"

definition rd16 :: "u8 \<Rightarrow> u8 \<Rightarrow> nat" where
  "rd16 a b = unat a * 256 + unat b"

definition rd24 :: "u8 \<Rightarrow> u8 \<Rightarrow> u8 \<Rightarrow> nat" where
  "rd24 a b c = unat a * 65536 + unat b * 256 + unat c"

definition ascii :: "string \<Rightarrow> bytes" where
  "ascii s = map (\<lambda>ch. of_nat (of_char ch)) s"

definition s_quic_ext :: "nat \<Rightarrow> nat \<Rightarrow> bytes \<Rightarrow> bytes option" where
  "s_quic_ext cap ty data = (if cap < 4 + length data then None else Some (be16 ty @ be16 (length data) @ data))"

definition add_ext :: "nat \<Rightarrow> nat \<Rightarrow> bytes \<Rightarrow> bytes \<Rightarrow> bytes option" where
  "add_ext cap ty data acc =
     (case s_quic_ext (cap - length acc) ty data of None \<Rightarrow> None | Some e \<Rightarrow> Some (acc @ e))"

text \<open>The header, the length of the body and the body.\<close>

definition finish_msg :: "nat \<Rightarrow> u8 \<Rightarrow> bytes \<Rightarrow> bytes option" where
  "finish_msg cap ty body = (if cap < 4 + length body then None else Some (ty # be24 (length body) @ body))"

definition hello_alpn :: bytes where
  "hello_alpn = [0x00, 0x05, 4] @ ascii ''susp''"

definition s_quic_build_client_hello :: "bytes option \<Rightarrow> quic_conn \<Rightarrow> nat \<Rightarrow> bytes option" where
  "s_quic_build_client_hello rnd c cap = do {
     random \<leftarrow> rnd;
     let body = [0x03, 0x03] @ random @ [0] @ [0x00, 0x02] @ [0x13, 0x01] @ [1, 0];
     e1 \<leftarrow> add_ext 800 0x002b [0x02, 0x03, 0x04] [];
     e2 \<leftarrow> add_ext 800 0x000d [0x00, 0x02, 0x08, 0x07] e1;
     e3 \<leftarrow> add_ext 800 0x000a [0x00, 0x02, 0x00, 0x1d] e2;
     e4 \<leftarrow> add_ext 800 0x0033 ([0, 36, 0x00, 0x1d, 0, 32] @ my_pub c) e3;
     e5 \<leftarrow> add_ext 800 0x0010 hello_alpn e4;
     params \<leftarrow> s_quic_put_params 256 (local_cid c) False None;
     exts \<leftarrow> add_ext 800 0x0039 params e5;
     if length body + 2 + length exts > 1024 then None
     else finish_msg cap 1 (body @ be16 (length exts) @ exts) }"

function s_quic_find_ext :: "bytes \<Rightarrow> nat \<Rightarrow> bytes option" where
  "s_quic_find_ext bs ty =
     (case bs of
        a # b # c # d # rest \<Rightarrow>
          (let n = rd16 c d in
           if length rest < n then None
           else if rd16 a b = ty then Some (take n rest)
           else s_quic_find_ext (drop n rest) ty)
      | _ \<Rightarrow> None)"
  by pat_completeness auto
termination
  by (relation "measure (\<lambda>(bs, _). length bs)") auto

declare s_quic_find_ext.simps [simp del]

text \<open>The outcome of a parser: accepted, refused with -1, or a read past the end of the message.\<close>

datatype outcome = Good | Bad | Oob

text \<open>The test \<open>(size_t)(end - p) < n\<close>. Once \<open>p\<close> has passed the end the difference is negative, its
  conversion huge, and the test false.\<close>

definition short :: "nat \<Rightarrow> nat \<Rightarrow> nat \<Rightarrow> bool" where
  "short len p n \<longleftrightarrow> p \<le> len \<and> len - p < n"

text \<open>The part of the client's hello after the random: position of the extensions and their length.\<close>

definition hello_exts :: "bytes \<Rightarrow> outcome \<times> bytes" where
  "hello_exts msg =
     (let len = length msg; p1 = 39 + unat (msg ! 38) in
      if short len p1 2 then (Bad, [])
      else if len \<le> p1 + 1 then (Oob, [])
      else
        (let cl = rd16 (msg ! p1) (msg ! (p1 + 1)); p2 = p1 + 2 in
         if short len p2 (cl + 1) then (Bad, [])
         else
           (let p3 = p2 + cl in
            if len \<le> p3 then (Oob, [])
            else
              (let p4 = p3 + 1 + unat (msg ! p3) in
               if short len p4 2 then (Bad, [])
               else if len \<le> p4 + 1 then (Oob, [])
               else
                 (let el = rd16 (msg ! p4) (msg ! (p4 + 1)); p5 = p4 + 2 in
                  if short len p5 el then (Bad, []) else (Good, take el (drop p5 msg)))))))"

text \<open>The extensions of the client's hello, in the order the code looks them up.\<close>

definition client_exts :: "quic_conn \<Rightarrow> bytes \<Rightarrow> outcome \<times> quic_conn" where
  "client_exts c exts =
     (case s_quic_find_ext exts 0x0033 of
        None \<Rightarrow> (Bad, c)
      | Some ks \<Rightarrow>
          if length ks < 38 then (Bad, c)
          else if ks ! 2 \<noteq> 0x00 \<or> ks ! 3 \<noteq> 0x1d then (Bad, c)
          else if ks ! 4 \<noteq> 0 \<or> ks ! 5 \<noteq> 32 then (Bad, c)
          else
            (let c1 = c\<lparr>peer_pub := take 32 (drop 6 ks), have_peer_pub := True\<rparr> in
             case s_quic_find_ext exts 0x0010 of
               None \<Rightarrow> (Bad, c1)
             | Some alpn \<Rightarrow>
                 if length alpn < 7 \<or> alpn ! 2 \<noteq> 4 \<or> take 4 (drop 3 alpn) \<noteq> ascii ''susp'' then (Bad, c1)
                 else
                   (case s_quic_find_ext exts 0x0039 of
                      None \<Rightarrow> (Bad, c1)
                    | Some params \<Rightarrow>
                        (case s_quic_take_params c1 params False of
                           (ok, c2) \<Rightarrow> (if ok then Good else Bad, c2)))))"

definition s_quic_parse_client_hello :: "quic_conn \<Rightarrow> bytes \<Rightarrow> outcome \<times> quic_conn" where
  "s_quic_parse_client_hello c msg =
     (if length msg < 4 \<or> msg ! 0 \<noteq> 1 then (Bad, c)
      else if length msg - 4 < 35 then (Bad, c)
      else
        (case hello_exts msg of
           (Good, exts) \<Rightarrow> client_exts c exts
         | (r, _) \<Rightarrow> (r, c)))"

subsection \<open>Extensions\<close>

lemma rd_be16: "n < 65536 \<Longrightarrow> rd16 (of_nat (n div 256)) (of_nat n) = n"
  by (simp add: rd16_def unat_of_nat)

lemma rd_be24: "n < 16777216 \<Longrightarrow> rd24 (of_nat (n div 65536)) (of_nat (n div 256)) (of_nat n) = n"
proof -
  assume n: "n < 16777216"
  have "n div 65536 = n div 256 div 256" by (simp add: div_mult2_eq [symmetric])
  moreover have "n div 256 * 256 + n mod 256 = n" "n div 256 div 256 * 256 + n div 256 mod 256 = n div 256" by simp_all
  then have "n div 256 div 256 * 65536 + n div 256 mod 256 * 256 + n mod 256 = n" by linarith
  ultimately show ?thesis using n by (simp add: rd24_def unat_of_nat)
qed

definition ext_bytes :: "nat \<Rightarrow> bytes \<Rightarrow> bytes" where
  "ext_bytes ty data = be16 ty @ be16 (length data) @ data"

lemma length_ext_bytes [simp]: "length (ext_bytes ty data) = 4 + length data"
  by (simp add: ext_bytes_def be16_def)

lemma add_ext_Some: "length acc + 4 + length data \<le> cap \<Longrightarrow> add_ext cap ty data acc = Some (acc @ ext_bytes ty data)"
  by (simp add: add_ext_def s_quic_ext_def ext_bytes_def)

lemma find_ext_bytes:
  assumes "t < 65536" and "length data < 65536"
  shows "s_quic_find_ext (ext_bytes t data @ rest) ty = (if t = ty then Some data else s_quic_find_ext rest ty)"
  using assms by (subst s_quic_find_ext.simps) (simp add: ext_bytes_def be16_def rd_be16)

subsection \<open>The client's hello\<close>

definition client_ext_bytes :: "quic_conn \<Rightarrow> bytes \<Rightarrow> bytes" where
  "client_ext_bytes c params =
     ext_bytes 0x002b [0x02, 0x03, 0x04] @ ext_bytes 0x000d [0x00, 0x02, 0x08, 0x07] @
     ext_bytes 0x000a [0x00, 0x02, 0x00, 0x1d] @ ext_bytes 0x0033 ([0, 36, 0x00, 0x1d, 0, 32] @ my_pub c) @
     ext_bytes 0x0010 hello_alpn @ ext_bytes 0x0039 params"

definition hello_body :: "bytes \<Rightarrow> bytes \<Rightarrow> bytes" where
  "hello_body random exts = [0x03, 0x03] @ random @ [0] @ [0x00, 0x02] @ [0x13, 0x01] @ [1, 0] @ be16 (length exts) @ exts"

lemma length_hello_alpn [simp]: "length hello_alpn = 7"
  by (simp add: hello_alpn_def ascii_def)

lemma params_client:
  assumes "length cid = 8"
  obtains params where "s_quic_put_params 256 cid False None = Some params" and "length params = 37"
    and "\<And>c. peer_cid c = cid \<Longrightarrow> s_quic_take_params c params False =
      (True, c\<lparr>peer_bidi_local := S_QUIC_FLOW, peer_bidi_remote := S_QUIC_FLOW, saw_params := True\<rparr>)"
proof -
  define params where "params = concat (map (\<lambda>(i, v). varint_bytes i @ varint_bytes (of_nat (length (varint_bytes v))) @ varint_bytes v) param_items) @
          varint_bytes 0x0f @ varint_bytes 8 @ cid"
  show thesis
  proof (rule that [of params])
    show "s_quic_put_params 256 cid False None = Some params"
      using put_params_bytes [of cid None 256 False] assms by (simp add: params_def)
    show "length params = 37" using assms by (simp add: params_def param_items_def s_quic_varint_size_def)
    fix c :: quic_conn assume "peer_cid c = cid"
    then show "s_quic_take_params c params False =
      (True, c\<lparr>peer_bidi_local := S_QUIC_FLOW, peer_bidi_remote := S_QUIC_FLOW, saw_params := True\<rparr>)"
      using take_params_items [of False c "[]" cid] assms by (simp add: s_quic_take_params_def params_def)
  qed
qed

lemma client_exts_read:
  assumes "length (my_pub a) = 32" and "length params < 65536"
    and t: "\<And>c. peer_cid c = cid \<Longrightarrow> s_quic_take_params c params False =
      (True, c\<lparr>peer_bidi_local := S_QUIC_FLOW, peer_bidi_remote := S_QUIC_FLOW, saw_params := True\<rparr>)"
    and "peer_cid c = cid"
  shows "client_exts c (client_ext_bytes a params) =
    (Good, c\<lparr>peer_pub := my_pub a, have_peer_pub := True, peer_bidi_local := S_QUIC_FLOW, peer_bidi_remote := S_QUIC_FLOW, saw_params := True\<rparr>)"
proof -
  have f: "s_quic_find_ext (client_ext_bytes a params) 0x0033 = Some ([0, 36, 0x00, 0x1d, 0, 32] @ my_pub a)"
    "s_quic_find_ext (client_ext_bytes a params) 0x0010 = Some hello_alpn"
    "s_quic_find_ext (client_ext_bytes a params) 0x0039 = Some params"
    using assms(1,2) find_ext_bytes [of "0x0039" params "[]"] by (simp_all add: client_ext_bytes_def find_ext_bytes)
  have al: "hello_alpn ! 2 = 4" "take 4 (drop 3 hello_alpn) = ascii ''susp''" by (simp_all add: hello_alpn_def ascii_def)
  show ?thesis
    using t [of "c\<lparr>peer_pub := my_pub a, have_peer_pub := True\<rparr>"] assms(1,4)
    unfolding client_exts_def f option.case by (simp add: al)
qed

lemma build_client_hello_bytes:
  assumes "length random = 32" and "length (my_pub a) = 32" and "s_quic_put_params 256 (local_cid a) False None = Some params"
    and "length params = 37" and "164 \<le> cap"
  shows "s_quic_build_client_hello (Some random) a cap =
    Some (1 # be24 160 @ hello_body random (client_ext_bytes a params))"
  using assms
  by (simp add: s_quic_build_client_hello_def add_ext_Some finish_msg_def hello_body_def client_ext_bytes_def be16_def)

lemma hello_exts_read:
  assumes "length random = 32" and "length exts < 65536"
  shows "hello_exts (1 # be24 n @ hello_body random exts) = (Good, exts)"
proof -
  let ?m = "1 # be24 n @ hello_body random exts"
  have m: "?m = (1 # be24 n @ [0x03, 0x03] @ random) @ [0, 0x00, 0x02, 0x13, 0x01, 1, 0] @ be16 (length exts) @ exts"
    by (simp add: hello_body_def)
  have l: "length (1 # be24 n @ [0x03, 0x03] @ random) = 38" using assms by (simp add: be24_def)
  have nth: "?m ! (38 + k) = ([0, 0x00, 0x02, 0x13, 0x01, 1, 0] @ be16 (length exts) @ exts) ! k" for k
    unfolding m using nth_append_length_plus [of "1 # be24 n @ [0x03, 0x03] @ random" "[0, 0x00, 0x02, 0x13, 0x01, 1, 0] @ be16 (length exts) @ exts" k]
    by (simp only: l)
  have len: "length ?m = 47 + length exts" using assms by (simp add: be24_def hello_body_def be16_def)
  have bs: "?m ! 38 = 0" "?m ! 39 = 0" "?m ! 40 = 2" "?m ! 43 = 1"
    using nth [of 0] nth [of 1] nth [of 2] nth [of 5] by simp_all
  have el: "rd16 (?m ! 45) (?m ! 46) = length exts"
    using nth [of 7] nth [of 8] assms(2) by (simp add: be16_def rd_be16)
  have dr: "drop 47 ?m = exts" unfolding m using assms(1) by (simp add: be16_def be24_def)
  have b39: "rd16 (?m ! 39) (?m ! (39 + 1)) = 2" using bs by (simp add: rd16_def)
  show ?thesis
    unfolding hello_exts_def Let_def len bs(1)
    using b39 bs el dr by (simp add: short_def del: append.simps)
qed

lemma parse_client_hello_body:
  assumes "length random = 32" and "length exts < 65536"
  shows "s_quic_parse_client_hello c (1 # be24 n @ hello_body random exts) = client_exts c exts"
proof -
  have "length (1 # be24 n @ hello_body random exts) = 47 + length exts"
    using assms by (simp add: be24_def hello_body_def be16_def)
  then show ?thesis using hello_exts_read [OF assms] by (simp add: s_quic_parse_client_hello_def)
qed

text \<open>C30. The client's hello round-trips: what the client builds (with 32 random bytes and a 32-byte public
  key) is accepted by a server that knows the client's connection identifier, and the server then has
  the client's public key and flow-control windows. It is 164 bytes long.\<close>

theorem client_hello_roundtrip:
  assumes "length random = 32" and "length (my_pub a) = 32" and "length (local_cid a) = 8"
    and "peer_cid c = local_cid a"
  shows "\<exists>m. s_quic_build_client_hello (Some random) a 1024 = Some m \<and> length m = 164 \<and>
     s_quic_parse_client_hello c m =
       (Good, c\<lparr>peer_pub := my_pub a, have_peer_pub := True, peer_bidi_local := S_QUIC_FLOW,
                peer_bidi_remote := S_QUIC_FLOW, saw_params := True\<rparr>)"
proof -
  obtain params where p: "s_quic_put_params 256 (local_cid a) False None = Some params" "length params = 37"
    and t: "\<And>c. peer_cid c = local_cid a \<Longrightarrow> s_quic_take_params c params False =
      (True, c\<lparr>peer_bidi_local := S_QUIC_FLOW, peer_bidi_remote := S_QUIC_FLOW, saw_params := True\<rparr>)"
    using params_client [OF assms(3)] by metis
  let ?e = "client_ext_bytes a params"
  have le: "length ?e = 117" using assms(2) p(2) by (simp add: client_ext_bytes_def)
  have "s_quic_parse_client_hello c (1 # be24 160 @ hello_body random ?e) = client_exts c ?e"
    using le by (intro parse_client_hello_body [OF assms(1)]) simp
  moreover have "length (1 # be24 160 @ hello_body random ?e) = 164"
    using assms(1) le by (simp add: be24_def hello_body_def be16_def)
  ultimately show ?thesis
    using build_client_hello_bytes [OF assms(1,2) p, of 1024] client_exts_read [OF assms(2) _ t assms(4)] p(2) by simp
qed

definition hello_client :: quic_conn where
  "hello_client = s_quic_conn_new\<lparr>local_cid := replicate 8 5, my_pub := replicate 32 9\<rparr>"

theorem client_hello_roundtrip_witness:
  "\<exists>m. s_quic_build_client_hello (Some (replicate 32 7)) hello_client 1024 = Some m \<and>
     fst (s_quic_parse_client_hello (s_quic_conn_new\<lparr>peer_cid := replicate 8 5\<rparr>) m) = Good"
  using client_hello_roundtrip [where random = "replicate 32 7" and a = hello_client and c = "s_quic_conn_new\<lparr>peer_cid := replicate 8 5\<rparr>"]
  by (auto simp: hello_client_def)

text \<open>The bounds checks of the client's hello do not cover the session identifier: a message that ends
  right after a nonzero session-id length moves the read position past the end, the check
  \<open>(size_t)(end - p) < 2\<close> passes because the difference is negative, and the parser reads outside
  the message.\<close>

theorem client_hello_out_of_bounds:
  assumes "length msg = 39" and "msg ! 0 = 1" and "msg ! 38 \<noteq> 0"
  shows "s_quic_parse_client_hello c msg = (Oob, c)"
proof -
  have "0 < unat (msg ! 38)" using assms(3) by (simp add: unat_gt_0)
  then have "hello_exts msg = (Oob, [])" using assms(1) by (simp add: hello_exts_def short_def)
  with assms show ?thesis by (simp add: s_quic_parse_client_hello_def)
qed

theorem client_hello_out_of_bounds_witness:
  "s_quic_parse_client_hello s_quic_conn_new ([1, 0, 0, 35] @ replicate 34 0 @ [200]) = (Oob, s_quic_conn_new)"
  by (rule client_hello_out_of_bounds) (simp_all add: nth_append)

subsection \<open>The server's messages\<close>

definition s_quic_build_server_hello :: "bytes option \<Rightarrow> quic_conn \<Rightarrow> nat \<Rightarrow> bytes option" where
  "s_quic_build_server_hello rnd c cap = do {
     random \<leftarrow> rnd;
     let body = [0x03, 0x03] @ random @ [0] @ [0x13, 0x01] @ [0];
     e1 \<leftarrow> add_ext 64 0x002b [0x03, 0x04] [];
     exts \<leftarrow> add_ext 64 0x0033 ([0x00, 0x1d, 0, 32] @ my_pub c) e1;
     if length body + 2 + length exts > 128 then None
     else finish_msg cap 2 (body @ be16 (length exts) @ exts) }"

definition server_exts :: "bytes \<Rightarrow> outcome \<times> bytes" where
  "server_exts msg =
     (let len = length msg; p1 = 39 + unat (msg ! 38) in
      if short len p1 3 then (Bad, [])
      else if len \<le> p1 + 1 then (Oob, [])
      else if msg ! p1 \<noteq> 0x13 \<or> msg ! (p1 + 1) \<noteq> 0x01 then (Bad, [])
      else
        (let p2 = p1 + 3 in
         if short len p2 2 then (Bad, [])
         else if len \<le> p2 + 1 then (Oob, [])
         else
           (let el = rd16 (msg ! p2) (msg ! (p2 + 1)); p3 = p2 + 2 in
            if short len p3 el then (Bad, []) else (Good, take el (drop p3 msg)))))"

definition s_quic_parse_server_hello :: "quic_conn \<Rightarrow> bytes \<Rightarrow> outcome \<times> quic_conn" where
  "s_quic_parse_server_hello c msg =
     (if length msg < 4 \<or> msg ! 0 \<noteq> 2 then (Bad, c)
      else if length msg - 4 < 35 then (Bad, c)
      else
        (case server_exts msg of
           (Good, exts) \<Rightarrow>
             (case s_quic_find_ext exts 0x0033 of
                None \<Rightarrow> (Bad, c)
              | Some ks \<Rightarrow>
                  if length ks < 36 \<or> ks ! 0 \<noteq> 0x00 \<or> ks ! 1 \<noteq> 0x1d \<or> ks ! 2 \<noteq> 0 \<or> ks ! 3 \<noteq> 32 then (Bad, c)
                  else (Good, c\<lparr>peer_pub := take 32 (drop 4 ks), have_peer_pub := True\<rparr>))
         | (r, _) \<Rightarrow> (r, c)))"

definition s_quic_build_encrypted_extensions :: "quic_conn \<Rightarrow> nat \<Rightarrow> bytes option" where
  "s_quic_build_encrypted_extensions c cap = do {
     e1 \<leftarrow> add_ext 400 0x0010 (4 # ascii ''susp'') [];
     params \<leftarrow> s_quic_put_params 256 (local_cid c) True (Some (orig_dcid c));
     exts \<leftarrow> add_ext 400 0x0039 params e1;
     if cap < 4 + 2 + length exts then None
     else Some (8 # be24 (length exts + 2) @ be16 (length exts) @ exts) }"

definition s_quic_parse_ee :: "quic_conn \<Rightarrow> bytes \<Rightarrow> bool \<times> quic_conn" where
  "s_quic_parse_ee c msg =
     (if length msg < 6 \<or> msg ! 0 \<noteq> 8 then (False, c)
      else
        (let elen = rd16 (msg ! 4) (msg ! 5) in
         if length msg - 6 < elen then (False, c)
         else
           (let exts = take elen (drop 6 msg) in
            case s_quic_find_ext exts 0x0010 of
              None \<Rightarrow> (False, c)
            | Some alpn \<Rightarrow>
                if length alpn < 5 \<or> alpn ! 0 \<noteq> 4 \<or> take 4 (drop 1 alpn) \<noteq> ascii ''susp'' then (False, c)
                else
                  (case s_quic_find_ext exts 0x0039 of
                     None \<Rightarrow> (False, c)
                   | Some params \<Rightarrow> s_quic_take_params c params True))))"

text \<open>\<open>der\<close> is the server's certificate, empty while there is none.\<close>

definition s_quic_build_certificate :: "bytes \<Rightarrow> nat \<Rightarrow> bytes option" where
  "s_quic_build_certificate der cap =
     (if length der = 0 then None
      else
        (let list = 3 + length der + 2; body = 1 + 3 + list in
         if cap < 4 + body then None
         else Some (11 # be24 body @ [0] @ be24 list @ be24 (length der) @ der @ [0, 0])))"

definition s_quic_parse_certificate :: "quic_conn \<Rightarrow> bytes \<Rightarrow> bool \<times> quic_conn" where
  "s_quic_parse_certificate c msg =
     (if length msg < 13 \<or> msg ! 0 \<noteq> 11 then (False, c)
      else if msg ! 4 \<noteq> 0 then (False, c)
      else
        (let clen = rd24 (msg ! 8) (msg ! 9) (msg ! 10) in
         if 11 + clen + 2 > length msg \<or> clen > 1024 then (False, c)
         else (True, c\<lparr>cert_der := take clen (drop 11 msg)\<rparr>)))"

text \<open>The text a certificate signature covers: 33 bytes of the context string and the transcript hash.\<close>

definition verify_tbs :: "bytes \<Rightarrow> bytes" where
  "verify_tbs th = replicate 64 0x20 @ take 33 (ascii ''TLS 1.3, server CertificateVerify'' @ [0]) @ th"

definition cert_verify_msg :: "bytes \<Rightarrow> nat \<Rightarrow> bytes option" where
  "cert_verify_msg sig cap =
     (let body = 2 + 2 + length sig in
      if cap < 4 + body \<or> length sig > 65535 then None
      else Some (15 # be24 body @ [0x08, 0x07] @ be16 (length sig) @ sig))"

text \<open>The \<open>info\<close> argument of HKDF for a TLS 1.3 label.\<close>

definition label_info :: "string \<Rightarrow> bytes \<Rightarrow> nat \<Rightarrow> bytes option" where
  "label_info label ctx out_len =
     (if length label > 64 \<or> length ctx > 32 \<or> out_len > 255 then None
      else Some ([0, of_nat out_len, of_nat (6 + length label)] @ ascii ''tls13 '' @ ascii label @ [of_nat (length ctx)] @ ctx))"

subsection \<open>They are read back\<close>

lemma server_hello_roundtrip:
  assumes "length random = 32" and "length (my_pub a) = 32"
  shows "\<exists>m. s_quic_build_server_hello (Some random) a 256 = Some m \<and>
     s_quic_parse_server_hello c m = (Good, c\<lparr>peer_pub := my_pub a, have_peer_pub := True\<rparr>)"
proof -
  let ?x = "ext_bytes 0x002b [0x03, 0x04] @ ext_bytes 0x0033 ([0x00, 0x1d, 0, 32] @ my_pub a)"
  let ?h = "2 # be24 86 @ [0x03, 0x03] @ random"
  let ?t = "[0, 0x13, 0x01, 0] @ be16 46 @ ?x"
  have lx: "length ?x = 46" using assms by simp
  have b: "s_quic_build_server_hello (Some random) a 256 = Some (?h @ ?t)"
    using assms by (simp add: s_quic_build_server_hello_def add_ext_Some finish_msg_def be16_def)
  have lh: "length ?h = 38" using assms by (simp add: be24_def)
  have len: "length (?h @ ?t) = 90" using lh lx by (simp add: be16_def)
  have nth: "(?h @ ?t) ! (38 + k) = ?t ! k" for k
    using nth_append_length_plus [of ?h ?t k] by (simp only: lh)
  have bs: "(?h @ ?t) ! 38 = 0" "(?h @ ?t) ! 39 = 0x13" "(?h @ ?t) ! 40 = 1" "rd16 ((?h @ ?t) ! 42) ((?h @ ?t) ! 43) = 46"
    using nth [of 0] nth [of 1] nth [of 2] nth [of 4] nth [of 5] by (simp_all add: be16_def rd16_def)
  have dr: "drop 44 (?h @ ?t) = ?x" using assms(1) by (simp add: be16_def be24_def)
  have se: "server_exts (?h @ ?t) = (Good, ?x)"
    unfolding server_exts_def Let_def len bs(1) using bs dr lx by (simp add: short_def del: append.simps append_Cons)
  have fe: "s_quic_find_ext ?x 0x0033 = Some ([0x00, 0x1d, 0, 32] @ my_pub a)"
    using assms find_ext_bytes [of "0x0033" "[0x00, 0x1d, 0, 32] @ my_pub a" "[]"] by (simp add: find_ext_bytes)
  have "s_quic_parse_server_hello c (?h @ ?t) = (Good, c\<lparr>peer_pub := my_pub a, have_peer_pub := True\<rparr>)"
    unfolding s_quic_parse_server_hello_def len se prod.case outcome.case fe option.case using assms(2) by simp
  with b show ?thesis by blast
qed

lemma certificate_roundtrip:
  assumes "0 < length der" and "length der \<le> 1024"
  shows "\<exists>m. s_quic_build_certificate der 1200 = Some m \<and> s_quic_parse_certificate c m = (True, c\<lparr>cert_der := der\<rparr>)"
proof -
  have "rd24 0 (of_nat (length der div 256)) (of_nat (length der)) = length der"
    using rd_be24 [of "length der"] assms(2) by simp
  with assms show ?thesis
    by (simp add: s_quic_build_certificate_def s_quic_parse_certificate_def be24_def)
qed

text \<open>The context string has 33 characters, so the terminating zero byte is not part of the signed text.\<close>

lemma verify_tbs_no_separator: "verify_tbs th = replicate 64 0x20 @ ascii ''TLS 1.3, server CertificateVerify'' @ th"
  by (simp add: verify_tbs_def ascii_def)

end
