(* ===== verification/Quic_Conn.thy ===== *)
theory Quic_Conn
  imports Quic_Wire
begin

text \<open>
  QUIC connections: key schedule, packet protection, acknowledgement bookkeeping, stream and crypto
  reassembly, frames, packets, the handshake and the byte-stream operations of the transport.

  OpenSSL and the socket are the argument \<open>env\<close> of the operations that use them: HKDF, header
  protection masks, AES-GCM (which returns the text and the tag), SHA-256 of a text, HMAC, X25519,
  Ed25519 signatures over the certificate, random bytes, the clock, and whether a datagram is
  accepted by \<open>s_io_sendto\<close>. \<open>None\<close> is the failure of such a call. A function that returns
  0 or -1 in C returns \<open>True\<close> or \<open>False\<close> here, with the connection as it is left behind.
\<close>

section \<open>The environment\<close>

record quic_env =
  e_hkdf :: "bool \<Rightarrow> bytes \<Rightarrow> bytes \<Rightarrow> bytes \<Rightarrow> nat \<Rightarrow> bytes option"
  e_mask :: "bytes \<Rightarrow> bytes \<Rightarrow> bytes option"
  e_seal :: "bytes \<Rightarrow> bytes \<Rightarrow> bytes \<Rightarrow> bytes \<Rightarrow> (bytes \<times> bytes) option"
  e_open :: "bytes \<Rightarrow> bytes \<Rightarrow> bytes \<Rightarrow> bytes \<Rightarrow> bytes \<Rightarrow> bytes option"
  e_hash :: "bytes \<Rightarrow> bytes option"
  e_hmac :: "bytes \<Rightarrow> bytes \<Rightarrow> bytes option"
  e_keygen :: "(bytes \<times> bytes) option"
  e_derive :: "bytes \<Rightarrow> bytes \<Rightarrow> bytes option"
  e_cert :: "bytes option"
  e_sign :: "bytes \<Rightarrow> bytes option"
  e_verify :: "bytes \<Rightarrow> bytes \<Rightarrow> bytes \<Rightarrow> bool"
  e_rand :: "nat \<Rightarrow> bytes option"
  e_now :: u64
  e_sendto :: "bytes \<Rightarrow> bool"
  e_alloc :: "nat \<Rightarrow> bool"

section \<open>Key schedule\<close>

definition s_quic_v1_salt :: bytes where
  "s_quic_v1_salt = [0x38, 0x76, 0x2c, 0xf7, 0xf5, 0x59, 0x34, 0xb3, 0x4d, 0x17,
     0x9a, 0xe6, 0xa4, 0xc8, 0x0c, 0xad, 0xcc, 0xbb, 0x7f, 0x0a]"

definition s_quic_empty_hash :: bytes where
  "s_quic_empty_hash = [227, 176, 196, 66, 152, 252, 28, 20, 154, 251, 244, 200,
     153, 111, 185, 36, 39, 174, 65, 228, 100, 155, 147, 76,
     164, 149, 153, 27, 120, 82, 184, 85]"

definition s_quic_expand_label :: "quic_env \<Rightarrow> bytes \<Rightarrow> string \<Rightarrow> bytes \<Rightarrow> nat \<Rightarrow> bytes option" where
  "s_quic_expand_label env secret label ctx out_len =
     (case label_info label ctx out_len of None \<Rightarrow> None | Some info \<Rightarrow> e_hkdf env True secret [] info out_len)"

definition s_quic_install_from_secret :: "quic_env \<Rightarrow> quic_keys \<Rightarrow> bool \<times> quic_keys" where
  "s_quic_install_from_secret env k =
     (case s_quic_expand_label env (k_secret k) ''quic key'' [] 16 of
        None \<Rightarrow> (False, k)
      | Some key \<Rightarrow>
          (let k1 = k\<lparr>k_key := key\<rparr> in
           case s_quic_expand_label env (k_secret k) ''quic iv'' [] 12 of
             None \<Rightarrow> (False, k1)
           | Some iv \<Rightarrow>
               (let k2 = k1\<lparr>k_iv := iv\<rparr> in
                case s_quic_expand_label env (k_secret k) ''quic hp'' [] 16 of
                  None \<Rightarrow> (False, k2)
                | Some hp \<Rightarrow> (True, k2\<lparr>k_hp := hp, k_have := True\<rparr>))))"

definition upd_keys :: "bool \<Rightarrow> nat \<Rightarrow> quic_keys \<Rightarrow> quic_conn \<Rightarrow> quic_conn" where
  "upd_keys dir level k c = c\<lparr>keys := (keys c)(dir := (keys c dir)(level := k))\<rparr>"

text \<open>Both secrets of a level from a parent secret and two labels, then both key sets.\<close>

definition install_level :: "quic_env \<Rightarrow> bytes \<Rightarrow> string \<Rightarrow> string \<Rightarrow> bytes \<Rightarrow> nat \<Rightarrow> quic_conn \<Rightarrow> bool \<times> quic_conn" where
  "install_level env parent cl sl th level c =
     (case s_quic_expand_label env parent cl th 32 of
        None \<Rightarrow> (False, c)
      | Some cs \<Rightarrow>
          (let c1 = upd_keys False level ((keys c False level)\<lparr>k_secret := cs\<rparr>) c in
           case s_quic_expand_label env parent sl th 32 of
             None \<Rightarrow> (False, c1)
           | Some ss \<Rightarrow>
               (let c2 = upd_keys True level ((keys c1 True level)\<lparr>k_secret := ss\<rparr>) c1;
                    (ok1, k1) = s_quic_install_from_secret env (keys c2 False level);
                    c3 = upd_keys False level k1 c2
                in if \<not> ok1 then (False, c3)
                   else (let (ok2, k2) = s_quic_install_from_secret env (keys c3 True level)
                         in (ok2, upd_keys True level k2 c3)))))"

definition s_quic_install_initial :: "quic_env \<Rightarrow> quic_conn \<Rightarrow> bool \<times> quic_conn" where
  "s_quic_install_initial env c =
     (case e_hkdf env False (orig_dcid c) s_quic_v1_salt [] 32 of
        None \<Rightarrow> (False, c)
      | Some initial \<Rightarrow> install_level env initial ''client in'' ''server in'' [] S_QUIC_INITIAL c)"

definition s_quic_hash_update :: "bytes \<Rightarrow> quic_conn \<Rightarrow> quic_conn" where
  "s_quic_hash_update p c = c\<lparr>transcript := transcript c @ p\<rparr>"

definition s_quic_hash_peek :: "quic_env \<Rightarrow> quic_conn \<Rightarrow> bytes option" where
  "s_quic_hash_peek env c = e_hash env (transcript c)"

definition s_quic_x25519 :: "quic_env \<Rightarrow> quic_conn \<Rightarrow> bool \<times> quic_conn" where
  "s_quic_x25519 env c =
     (case e_keygen env of
        None \<Rightarrow> (False, c)
      | Some (priv, pub) \<Rightarrow> (length pub = 32, c\<lparr>x25519 := Some priv, my_pub := pub\<rparr>))"

definition s_quic_derive_shared :: "quic_env \<Rightarrow> quic_conn \<Rightarrow> bool \<times> quic_conn" where
  "s_quic_derive_shared env c =
     (if have_shared c then (True, c)
      else
        (case x25519 c of
           None \<Rightarrow> (False, c)
         | Some priv \<Rightarrow>
             (case e_derive env priv (peer_pub c) of
                None \<Rightarrow> (False, c)
              | Some sh \<Rightarrow> (True, c\<lparr>shared := sh, have_shared := True\<rparr>))))"

definition s_quic_derive_handshake :: "quic_env \<Rightarrow> quic_conn \<Rightarrow> bool \<times> quic_conn" where
  "s_quic_derive_handshake env c =
     (let (ok, c1) = s_quic_derive_shared env c in
      if \<not> ok then (False, c1)
      else
        (case e_hkdf env False (replicate 32 0) (replicate 32 0) [] 32 of
           None \<Rightarrow> (False, c1)
         | Some early \<Rightarrow>
             (case s_quic_expand_label env early ''derived'' s_quic_empty_hash 32 of
                None \<Rightarrow> (False, c1)
              | Some derived \<Rightarrow>
                  (case e_hkdf env False (shared c1) derived [] 32 of
                     None \<Rightarrow> (False, c1)
                   | Some hs \<Rightarrow>
                       (let c2 = c1\<lparr>hs_secret := hs\<rparr> in
                        case s_quic_hash_peek env c2 of
                          None \<Rightarrow> (False, c2)
                        | Some th \<Rightarrow> install_level env hs ''c hs traffic'' ''s hs traffic'' th S_QUIC_HANDSHAKE c2)))))"

definition s_quic_derive_app :: "quic_env \<Rightarrow> quic_conn \<Rightarrow> bool \<times> quic_conn" where
  "s_quic_derive_app env c =
     (case s_quic_expand_label env (hs_secret c) ''derived'' s_quic_empty_hash 32 of
        None \<Rightarrow> (False, c)
      | Some derived \<Rightarrow>
          (case e_hkdf env False (replicate 32 0) derived [] 32 of
             None \<Rightarrow> (False, c)
           | Some master \<Rightarrow>
               (case s_quic_hash_peek env c of
                  None \<Rightarrow> (False, c)
                | Some th \<Rightarrow> install_level env master ''c ap traffic'' ''s ap traffic'' th S_QUIC_APP c)))"

section \<open>Packet protection\<close>

definition pn_bytes :: "nat \<Rightarrow> u64 \<Rightarrow> bytes" where
  "pn_bytes n pn = map (\<lambda>i. ucast (drop_bit (8 * (n - 1 - i)) pn)) [0..<n]"

definition quic_nonce :: "bytes \<Rightarrow> u64 \<Rightarrow> bytes" where
  "quic_nonce iv pn = take 4 iv @ map2 (\<lambda>a b. a XOR b) (drop 4 iv) (pn_bytes 8 pn)"

text \<open>\<open>s_quic_aead\<close> for encryption: the cipher text and the tag.\<close>

definition quic_seal :: "quic_env \<Rightarrow> quic_keys \<Rightarrow> u64 \<Rightarrow> bytes \<Rightarrow> bytes \<Rightarrow> (bytes \<times> bytes) option" where
  "quic_seal env k pn aad plain = e_seal env (k_key k) (quic_nonce (k_iv k) pn) aad plain"

definition quic_unseal :: "quic_env \<Rightarrow> quic_keys \<Rightarrow> u64 \<Rightarrow> bytes \<Rightarrow> bytes \<Rightarrow> bytes \<Rightarrow> bytes option" where
  "quic_unseal env k pn aad text tag = e_open env (k_key k) (quic_nonce (k_iv k) pn) aad text tag"

text \<open>Masking of the first byte and of \<open>n\<close> packet number bytes at \<open>off\<close>; it undoes itself.\<close>

definition mask_header :: "u8 \<Rightarrow> nat \<Rightarrow> nat \<Rightarrow> bytes \<Rightarrow> bytes \<Rightarrow> bytes" where
  "mask_header bits off n msk pkt =
     map (\<lambda>i. if i = 0 then pkt ! i XOR (msk ! 0 AND bits)
              else if off \<le> i \<and> i < off + n then pkt ! i XOR msk ! (1 + (i - off)) else pkt ! i) [0..<length pkt]"

section \<open>Received packet numbers and acknowledgements\<close>

definition s_quic_note_rx :: "nat \<Rightarrow> u64 \<Rightarrow> quic_conn \<Rightarrow> bool \<times> quic_conn" where
  "s_quic_note_rx level pn c =
     (if \<not> rx_have c level then
        (False, c\<lparr>rx_have := (rx_have c)(level := True), rx_max := (rx_max c)(level := pn), rx_mask := (rx_mask c)(level := 1)\<rparr>)
      else if pn > rx_max c level then
        (let shift = pn - rx_max c level;
             m = (if shift \<ge> 64 then 1 else push_bit (unat shift) (rx_mask c level) OR 1)
         in (False, c\<lparr>rx_mask := (rx_mask c)(level := m), rx_max := (rx_max c)(level := pn)\<rparr>))
      else
        (let d = rx_max c level - pn in
         if d \<ge> 64 then (False, c)
         else if bit (rx_mask c level) (unat d) then (True, c)
         else (False, c\<lparr>rx_mask := (rx_mask c)(level := rx_mask c level OR push_bit (unat d) 1)\<rparr>)))"

function ack_first :: "u64 \<Rightarrow> nat \<Rightarrow> nat" where
  "ack_first m first = (if first < 63 \<and> bit m (first + 1) then ack_first m (first + 1) else first)"
  by pat_completeness auto
termination
  by (relation "measure (\<lambda>(_, f). 63 - f)") auto

declare ack_first.simps [simp del]

text \<open>The acknowledgement frame of a level, nothing when there is nothing to acknowledge.\<close>

definition s_quic_encode_ack :: "quic_conn \<Rightarrow> nat \<Rightarrow> nat \<Rightarrow> bytes option" where
  "s_quic_encode_ack c level cap =
     (if \<not> rx_have c level \<or> cap < 8 then Some []
      else do {
        a1 \<leftarrow> put_v cap (rx_max c level) [0x02];
        a2 \<leftarrow> put_v cap 0 a1;
        a3 \<leftarrow> put_v cap 0 a2;
        put_v cap (of_nat (ack_first (rx_mask c level) 0)) a3 })"

definition s_quic_apply_ack :: "nat \<Rightarrow> u64 \<Rightarrow> u64 \<Rightarrow> quic_conn \<Rightarrow> quic_conn" where
  "s_quic_apply_ack level largest first c =
     (let low = (if largest \<ge> first then largest - first else 0) in
      if \<not> live (flight c level) then c
      else if fl_pn (flight c level) \<le> largest \<and> fl_pn (flight c level) \<ge> low
      then c\<lparr>flight := (flight c)(level := (flight c level)\<lparr>live := False\<rparr>)\<rparr> else c)"

section \<open>Sending\<close>

text \<open>The loop that settles the size of the length field: the field size and the plain text length.\<close>

fun fit_length :: "nat \<Rightarrow> nat \<Rightarrow> nat \<Rightarrow> nat \<Rightarrow> nat \<Rightarrow> nat \<Rightarrow> nat \<times> nat" where
  "fit_length 0 fixed flen pad_to ls plain_len = (ls, plain_len)"
| "fit_length (Suc n) fixed flen pad_to ls plain_len =
     (let hdr = fixed + ls + 4;
          pl = (if pad_to \<noteq> 0 \<and> pad_to > hdr + 16 \<and> pad_to - hdr - 16 > flen then pad_to - hdr - 16 else flen);
          sz = s_quic_varint_size (of_nat (4 + pl + 16))
      in if sz = ls then (ls, pl) else fit_length n fixed flen pad_to sz pl)"

definition long_prefix :: "quic_conn \<Rightarrow> nat \<Rightarrow> bytes" where
  "long_prefix c level =
     [0xc0 OR push_bit 4 (if level = S_QUIC_INITIAL then 0 else 2) OR 0x03, 0, 0, 0, 1, of_nat S_QUIC_CID_LEN] @
     take S_QUIC_CID_LEN (peer_cid c) @ [of_nat S_QUIC_CID_LEN] @ take S_QUIC_CID_LEN (local_cid c) @
     (if level = S_QUIC_INITIAL then [0] else [])"

text \<open>Seal the text under a header and mask the header: the datagram.\<close>

definition protect :: "quic_env \<Rightarrow> quic_keys \<Rightarrow> u64 \<Rightarrow> u8 \<Rightarrow> bytes \<Rightarrow> bytes \<Rightarrow> bytes option" where
  "protect env k pn bits hdr plain =
     (case quic_seal env k pn hdr plain of
        None \<Rightarrow> None
      | Some (text, tag) \<Rightarrow>
          (case e_mask env (k_hp k) (take 16 (text @ tag)) of
             None \<Rightarrow> None
           | Some msk \<Rightarrow> Some (mask_header bits (length hdr - 4) 4 msk (hdr @ text @ tag))))"

definition build_long :: "quic_env \<Rightarrow> quic_conn \<Rightarrow> nat \<Rightarrow> u64 \<Rightarrow> bytes \<Rightarrow> nat \<Rightarrow> bytes option" where
  "build_long env c level pn fr pad_to =
     (let flen = length fr;
          fixed = 1 + 4 + 1 + S_QUIC_CID_LEN + 1 + S_QUIC_CID_LEN + (if level = S_QUIC_INITIAL then 1 else 0);
          (ls, plain_len) = fit_length 2 fixed flen pad_to 2 flen
      in if plain_len > 1400 then None
         else if fixed + ls + 4 + plain_len + 16 > 1500 then None
         else
           (case s_quic_put_varint ls (of_nat (4 + plain_len + 16)) of
              None \<Rightarrow> None
            | Some lb \<Rightarrow>
                if length lb \<noteq> ls then None
                else protect env (keys c (is_server c) level) pn 0x0f (long_prefix c level @ lb @ pn_bytes 4 pn)
                       (fr @ replicate (plain_len - flen) 0)))"

definition build_short :: "quic_env \<Rightarrow> quic_conn \<Rightarrow> u64 \<Rightarrow> bytes \<Rightarrow> bytes option" where
  "build_short env c pn fr =
     (if 1 + S_QUIC_CID_LEN + 4 + length fr + 16 > 1500 then None
      else protect env (keys c (is_server c) S_QUIC_APP) pn 0x1f
             (0x43 # take S_QUIC_CID_LEN (peer_cid c) @ pn_bytes 4 pn) fr)"

definition s_quic_send_frames :: "quic_env \<Rightarrow> nat \<Rightarrow> bytes \<Rightarrow> bool \<Rightarrow> nat \<Rightarrow> quic_conn \<Rightarrow> bool \<times> quic_conn" where
  "s_quic_send_frames env level fr retransmit pad_to c =
     (if \<not> k_have (keys c (is_server c) level) then (False, c)
      else
        (let pn = tx_pn c level;
             c1 = c\<lparr>tx_pn := (tx_pn c)(level := pn + 1)\<rparr>
         in if length fr > 1400 then (False, c1)
            else
              (case (if level \<noteq> S_QUIC_APP then build_long env c1 level pn fr pad_to else build_short env c1 pn fr) of
                 None \<Rightarrow> (False, c1)
               | Some pkt \<Rightarrow>
                   if \<not> e_sendto env pkt then (False, c1)
                   else
                     (let c2 = c1\<lparr>sent := pkt # sent c1\<rparr> in
                      (True, if retransmit \<and> length fr \<le> 1200
                             then c2\<lparr>flight := (flight c2)(level :=
                                    \<lparr>live = True, fl_pn = pn, sent_ns = e_now env, frames = fr\<rparr>)\<rparr>
                             else c2)))))"

definition s_quic_send_crypto :: "quic_env \<Rightarrow> nat \<Rightarrow> bytes \<Rightarrow> u64 \<Rightarrow> nat \<Rightarrow> quic_conn \<Rightarrow> bool \<times> quic_conn" where
  "s_quic_send_crypto env level msg crypto_off pad_to c =
     (case (do {
         ack \<leftarrow> s_quic_encode_ack c level 1400;
         if length ack + 1 + 16 + length msg > 1400 then None
         else do {
           a1 \<leftarrow> put_v 1400 crypto_off (ack @ [0x06]);
           a2 \<leftarrow> put_v 1400 (of_nat (length msg)) a1;
           Some (a2 @ msg) } }) of
        None \<Rightarrow> (False, c)
      | Some fr \<Rightarrow> s_quic_send_frames env level fr True pad_to c)"

section \<open>Handshake\<close>

definition finished_mac :: "quic_env \<Rightarrow> bytes \<Rightarrow> quic_conn \<Rightarrow> bytes option" where
  "finished_mac env secret c = do {
     fin_key \<leftarrow> s_quic_expand_label env secret ''finished'' [] 32;
     th \<leftarrow> s_quic_hash_peek env c;
     e_hmac env fin_key th }"

definition s_quic_build_finished :: "quic_env \<Rightarrow> quic_conn \<Rightarrow> bool \<Rightarrow> nat \<Rightarrow> bytes option" where
  "s_quic_build_finished env c sender_is_server cap =
     (let k = keys c sender_is_server S_QUIC_HANDSHAKE in
      if \<not> k_have k then None
      else do {
        verify \<leftarrow> finished_mac env (k_secret k) c;
        if cap < 4 + 32 then None else Some ([20, 0, 0, 32] @ verify) })"

definition s_quic_check_finished :: "quic_env \<Rightarrow> quic_conn \<Rightarrow> bool \<Rightarrow> bytes \<Rightarrow> bool" where
  "s_quic_check_finished env c sender_is_server msg =
     (if length msg \<noteq> 36 \<or> msg ! 0 \<noteq> 20 then False
      else
        (case finished_mac env (k_secret (keys c sender_is_server S_QUIC_HANDSHAKE)) c of
           None \<Rightarrow> False
         | Some verify \<Rightarrow> verify = drop 4 msg))"

definition s_quic_cert_verify_tbs :: "quic_env \<Rightarrow> quic_conn \<Rightarrow> nat \<Rightarrow> bytes option" where
  "s_quic_cert_verify_tbs env c cap =
     (if cap < 64 + 33 + 32 then None
      else (case s_quic_hash_peek env c of None \<Rightarrow> None | Some th \<Rightarrow> Some (verify_tbs th)))"

definition s_quic_build_cert_verify :: "quic_env \<Rightarrow> quic_conn \<Rightarrow> nat \<Rightarrow> bytes option" where
  "s_quic_build_cert_verify env c cap = do {
     tbs \<leftarrow> s_quic_cert_verify_tbs env c 160;
     sig \<leftarrow> e_sign env tbs;
     cert_verify_msg sig cap }"

definition s_quic_parse_cert_verify :: "quic_env \<Rightarrow> quic_conn \<Rightarrow> bytes \<Rightarrow> bool" where
  "s_quic_parse_cert_verify env c msg =
     (if length msg < 8 \<or> msg ! 0 \<noteq> 15 then False
      else if msg ! 4 \<noteq> 0x08 \<or> msg ! 5 \<noteq> 0x07 then False
      else
        (let sig_len = rd16 (msg ! 6) (msg ! 7) in
         if sig_len + 8 > length msg \<or> length (cert_der c) = 0 then False
         else
           (case s_quic_cert_verify_tbs env c 160 of
              None \<Rightarrow> False
            | Some tbs \<Rightarrow> e_verify env (cert_der c) (take sig_len (drop 8 msg)) tbs)))"

definition s_quic_server_flight :: "quic_env \<Rightarrow> quic_conn \<Rightarrow> bool \<times> quic_conn" where
  "s_quic_server_flight env c =
     (case e_cert env of
        None \<Rightarrow> (False, c)
      | Some der \<Rightarrow>
          (let (okx, c1) = s_quic_x25519 env c in
           if \<not> okx then (False, c1)
           else
             (case s_quic_build_server_hello (e_rand env 32) c1 256 of
                None \<Rightarrow> (False, c1)
              | Some sh \<Rightarrow>
                  (let (okd, c2) = s_quic_derive_handshake env (s_quic_hash_update sh c1) in
                   if \<not> okd then (False, c2)
                   else
                     (let (oks, c3) = s_quic_send_crypto env S_QUIC_INITIAL sh 0 0 c2 in
                      if \<not> oks then (False, c3)
                      else
                        (case (s_quic_build_encrypted_extensions c3 512, s_quic_build_certificate der 1200) of
                           (Some ee, Some cert) \<Rightarrow>
                             (let c4 = s_quic_hash_update cert (s_quic_hash_update ee c3) in
                              case s_quic_build_cert_verify env c4 200 of
                                None \<Rightarrow> (False, c4)
                              | Some cv \<Rightarrow>
                                  (let c5 = s_quic_hash_update cv c4 in
                                   case s_quic_build_finished env c5 True 40 of
                                     None \<Rightarrow> (False, c5)
                                   | Some fin \<Rightarrow>
                                       (let (oka, c6) = s_quic_derive_app env (s_quic_hash_update fin c5);
                                            hs = ee @ cert @ cv @ fin
                                        in if \<not> oka then (False, c6)
                                           else if length hs > 4096 then (False, c6)
                                           else s_quic_send_crypto env S_QUIC_HANDSHAKE hs 0 0 c6)))
                         | _ \<Rightarrow> (False, c3)))))))"

definition s_quic_client_finish :: "quic_env \<Rightarrow> quic_conn \<Rightarrow> bool \<times> quic_conn" where
  "s_quic_client_finish env c =
     (if client_fin_sent c then (True, c)
      else
        (case s_quic_build_finished env c False 40 of
           None \<Rightarrow> (False, c)
         | Some fin \<Rightarrow>
             (let (ok, c1) = s_quic_send_crypto env S_QUIC_HANDSHAKE fin 0 0 (s_quic_hash_update fin c) in
              if \<not> ok then (False, c1) else (True, c1\<lparr>client_fin_sent := True, app_ready := True\<rparr>))))"

text \<open>A handshake message. A parser that leaves its message is kept apart from one that refuses it.\<close>

definition s_quic_on_msg :: "quic_env \<Rightarrow> nat \<Rightarrow> bytes \<Rightarrow> quic_conn \<Rightarrow> outcome \<times> quic_conn" where
  "s_quic_on_msg env level msg c =
     (let res = (\<lambda>(ok, c'). (if ok then Good else Bad, c')) in
      if length msg < 4 then (Bad, c)
      else if \<not> is_server c \<and> level = S_QUIC_INITIAL \<and> msg ! 0 = 2 then
        (case s_quic_parse_server_hello c msg of
           (Good, c1) \<Rightarrow> res (s_quic_derive_handshake env (s_quic_hash_update msg c1))
         | r \<Rightarrow> r)
      else if \<not> is_server c \<and> level = S_QUIC_HANDSHAKE \<and> msg ! 0 = 8 then
        (case s_quic_parse_ee c msg of
           (True, c1) \<Rightarrow> (Good, s_quic_hash_update msg c1) | (False, c1) \<Rightarrow> (Bad, c1))
      else if \<not> is_server c \<and> level = S_QUIC_HANDSHAKE \<and> msg ! 0 = 11 then
        (case s_quic_parse_certificate c msg of
           (True, c1) \<Rightarrow> (Good, s_quic_hash_update msg c1) | (False, c1) \<Rightarrow> (Bad, c1))
      else if \<not> is_server c \<and> level = S_QUIC_HANDSHAKE \<and> msg ! 0 = 15 then
        (if s_quic_parse_cert_verify env c msg then (Good, s_quic_hash_update msg c) else (Bad, c))
      else if \<not> is_server c \<and> level = S_QUIC_HANDSHAKE \<and> msg ! 0 = 20 then
        (if \<not> s_quic_check_finished env c True msg then (Bad, c)
         else (let (ok, c1) = s_quic_derive_app env (s_quic_hash_update msg c) in
               if \<not> ok then (Bad, c1) else res (s_quic_client_finish env c1)))
      else if is_server c \<and> level = S_QUIC_INITIAL \<and> msg ! 0 = 1 then
        (if ch_done c then (Good, c)
         else
           (case s_quic_parse_client_hello c msg of
              (Good, c1) \<Rightarrow> res (s_quic_server_flight env ((s_quic_hash_update msg c1)\<lparr>ch_done := True\<rparr>))
            | r \<Rightarrow> r))
      else if is_server c \<and> level = S_QUIC_HANDSHAKE \<and> msg ! 0 = 20 then
        (if \<not> s_quic_check_finished env c False msg then (Bad, c)
         else (Good, (s_quic_hash_update msg c)\<lparr>app_ready := True\<rparr>))
      else (Bad, c))"

section \<open>Receiving\<close>

text \<open>Handshake processing does not touch the receive buffers, and only its last step announces that the
  connection is ready.\<close>

definition hs_view :: "quic_conn \<Rightarrow> _" where
  "hs_view c = (rx_crypto c, rx_crypto_parsed c, rx c, rx_len c, rx_pos c, rx_fin c, tx_off c, is_server c,
     rx_have c, rx_max c, rx_mask c, local_cid c, owns_fd c, app_ready c)"

lemma hs_view_upd [simp]:
  "hs_view (upd_keys d l k c) = hs_view c" "hs_view (s_quic_hash_update p c) = hs_view c"
  by (simp_all add: hs_view_def upd_keys_def s_quic_hash_update_def)

lemma hs_view_install_level: "hs_view (snd (install_level env p cl sl th lv c)) = hs_view c"
  by (simp add: install_level_def Let_def split: option.split prod.split)

lemma hs_view_derive:
  "hs_view (snd (s_quic_derive_shared env c)) = hs_view c" "hs_view (snd (s_quic_x25519 env c)) = hs_view c"
  "hs_view (snd (s_quic_derive_handshake env c)) = hs_view c" "hs_view (snd (s_quic_derive_app env c)) = hs_view c"
proof -
  show s: "hs_view (snd (s_quic_derive_shared env c)) = hs_view c"
    by (simp add: s_quic_derive_shared_def hs_view_def split: option.split)
  show "hs_view (snd (s_quic_x25519 env c)) = hs_view c"
    by (simp add: s_quic_x25519_def hs_view_def split: option.split)
  obtain ok c1 where e: "s_quic_derive_shared env c = (ok, c1)" by fastforce
  have h: "hs_view (c1\<lparr>hs_secret := hs\<rparr>) = hs_view c" for hs using s e by (simp add: hs_view_def)
  show "hs_view (snd (s_quic_derive_handshake env c)) = hs_view c"
    using s e by (simp add: s_quic_derive_handshake_def Let_def hs_view_install_level h split: option.split)
  show "hs_view (snd (s_quic_derive_app env c)) = hs_view c"
    by (simp add: s_quic_derive_app_def hs_view_install_level split: option.split)
qed

lemma hs_view_send:
  "hs_view (snd (s_quic_send_frames env level fr rtx pad c)) = hs_view c"
  "hs_view (snd (s_quic_send_crypto env level msg off pad c)) = hs_view c"
proof -
  show f: "hs_view (snd (s_quic_send_frames env level fr rtx pad c)) = hs_view c" for fr rtx
    by (simp add: s_quic_send_frames_def Let_def hs_view_def split: option.split)
  show "hs_view (snd (s_quic_send_crypto env level msg off pad c)) = hs_view c"
    by (simp add: s_quic_send_crypto_def f split: option.split)
qed

lemma hs_view_take_params: "hs_view (snd (s_quic_take_params c bs fs)) = hs_view c"
proof -
  have "hs_view (snd (take_params_loop fs bs c)) = hs_view c"
  proof (induction fs bs c rule: take_params_loop.induct)
    case (1 fs bs c)
    have t: "hs_view c1 = hs_view c" if "take_param fs i v c = Some c1" for i v c1
      using that by (auto simp: take_param_def hs_view_def split: option.splits if_splits)
    show ?case
      using 1 t by (subst take_params_loop.simps) (auto simp: hs_view_def split: option.split)
  qed
  then show ?thesis by (simp add: s_quic_take_params_def)
qed

lemma hs_view_parse:
  "hs_view (snd (s_quic_parse_client_hello c msg)) = hs_view c" "hs_view (snd (s_quic_parse_server_hello c msg)) = hs_view c"
  "hs_view (snd (s_quic_parse_ee c msg)) = hs_view c" "hs_view (snd (s_quic_parse_certificate c msg)) = hs_view c"
proof -
  have "hs_view (snd (client_exts c exts)) = hs_view c" for exts
  proof -
    have p: "hs_view (c\<lparr>peer_pub := k, have_peer_pub := True\<rparr>) = hs_view c" for k by (simp add: hs_view_def)
    then show ?thesis
      using hs_view_take_params by (auto simp: client_exts_def Let_def split: option.split prod.split) (metis p snd_conv)+
  qed
  then show "hs_view (snd (s_quic_parse_client_hello c msg)) = hs_view c"
    by (auto simp: s_quic_parse_client_hello_def split: prod.split outcome.split)
  show "hs_view (snd (s_quic_parse_server_hello c msg)) = hs_view c"
    by (auto simp: s_quic_parse_server_hello_def hs_view_def split: prod.split outcome.split option.split)
  show "hs_view (snd (s_quic_parse_ee c msg)) = hs_view c"
    by (auto simp: s_quic_parse_ee_def Let_def hs_view_take_params split: option.split)
  show "hs_view (snd (s_quic_parse_certificate c msg)) = hs_view c"
    by (auto simp: s_quic_parse_certificate_def Let_def hs_view_def)
qed

lemma hs_view_flight: "hs_view (snd (s_quic_server_flight env c)) = hs_view c"
proof -
  obtain o1 c1 where e1: "s_quic_x25519 env c = (o1, c1)" by fastforce
  have v1: "hs_view c1 = hs_view c" using hs_view_derive(2) [of env c] e1 by simp
  show ?thesis
  proof (cases "s_quic_build_server_hello (e_rand env 32) c1 256")
    case None
    with v1 e1 show ?thesis by (simp add: s_quic_server_flight_def split: option.split)
  next
    case (Some sh)
    obtain o2 c2 where e2: "s_quic_derive_handshake env (s_quic_hash_update sh c1) = (o2, c2)" by fastforce
    have v2: "hs_view c2 = hs_view c" using hs_view_derive(3) [of env "s_quic_hash_update sh c1"] e2 v1 by simp
    obtain o3 c3 where e3: "s_quic_send_crypto env S_QUIC_INITIAL sh 0 0 c2 = (o3, c3)" by fastforce
    have v3: "hs_view c3 = hs_view c" using hs_view_send(2) [of env S_QUIC_INITIAL sh 0 0 c2] e3 v2 by simp
    have app: "hs_view (snd (s_quic_derive_app env (s_quic_hash_update p c'))) = hs_view c'" for p c' by (simp add: hs_view_derive)
    have snd3: "hs_view (snd (let (oka, c6) = s_quic_derive_app env (s_quic_hash_update p c') in
        if \<not> oka then (False, c6) else if b then (False, c6) else s_quic_send_crypto env S_QUIC_HANDSHAKE hs 0 0 c6)) = hs_view c'" for p c' b hs
      using app [of p c'] by (auto simp: hs_view_send split: prod.split)
    show ?thesis
      using e1 v1 Some e2 v2 e3 v3 snd3
      by (simp add: s_quic_server_flight_def Let_def split: option.split del: S_QUIC_HANDSHAKE_def S_QUIC_INITIAL_def)
  qed
qed

definition rx_view :: "quic_conn \<Rightarrow> _" where
  "rx_view c = (rx_crypto c, rx_crypto_parsed c, rx c, rx_len c, rx_pos c, rx_fin c, tx_off c, is_server c,
     rx_have c, rx_max c, rx_mask c, local_cid c, owns_fd c)"

lemma hs_view_rx: "hs_view c = hs_view d \<Longrightarrow> rx_view c = rx_view d"
  by (simp add: hs_view_def rx_view_def)

lemma hs_view_ready: "hs_view c = hs_view d \<Longrightarrow> app_ready c = app_ready d"
  by (simp add: hs_view_def)

lemmas rx_view_upd [simp] = hs_view_upd [THEN hs_view_rx]
lemmas rx_view_derive = hs_view_derive [THEN hs_view_rx]
lemmas rx_view_send = hs_view_send [THEN hs_view_rx]
lemmas rx_view_parse = hs_view_parse [THEN hs_view_rx]
lemmas rx_view_flight = hs_view_flight [THEN hs_view_rx]

lemma rx_view_finish: "rx_view (snd (s_quic_client_finish env c)) = rx_view c"
proof -
  have "rx_view (c'\<lparr>client_fin_sent := True, app_ready := True\<rparr>) = rx_view c'" for c' by (simp add: rx_view_def)
  then show ?thesis
    using rx_view_send(2) [of env S_QUIC_HANDSHAKE _ 0 0] by (auto simp: s_quic_client_finish_def Let_def split: option.split prod.split)
      (metis rx_view_upd(2) snd_conv)+
qed

lemma rx_view_on_msg: "rx_view (snd (s_quic_on_msg env level msg c)) = rx_view c"
proof -
  have r: "rx_view (snd (case x of (ok, c') \<Rightarrow> (if ok then Good else Bad, c'))) = rx_view (snd x)" for x
    by (simp split: prod.split)
  have d: "rx_view (c'\<lparr>app_ready := True\<rparr>) = rx_view c'" "rx_view (c'\<lparr>ch_done := True\<rparr>) = rx_view c'" for c'
    by (simp_all add: rx_view_def)
  have p: "s_quic_parse_server_hello c msg = (o1, c1) \<Longrightarrow> rx_view c1 = rx_view c"
    "s_quic_parse_client_hello c msg = (o1, c1) \<Longrightarrow> rx_view c1 = rx_view c"
    "s_quic_parse_ee c msg = (b, c1) \<Longrightarrow> rx_view c1 = rx_view c"
    "s_quic_parse_certificate c msg = (b, c1) \<Longrightarrow> rx_view c1 = rx_view c"
    "s_quic_derive_app env (s_quic_hash_update msg c) = (b, c1) \<Longrightarrow> rx_view c1 = rx_view c" for o1 b c1
    using rx_view_parse [of c msg] rx_view_derive(4) [of env "s_quic_hash_update msg c"] by auto
  let ?res = "\<lambda>(ok, c'). (if ok then Good else Bad, c')"
  have b1: "rx_view (snd (case s_quic_parse_server_hello c msg of
      (Good, c1) \<Rightarrow> ?res (s_quic_derive_handshake env (s_quic_hash_update msg c1)) | q \<Rightarrow> q)) = rx_view c"
  proof -
    obtain o1 c1 where e: "s_quic_parse_server_hello c msg = (o1, c1)" by fastforce
    from p(1) [OF e] e r show ?thesis by (cases o1) (simp_all add: rx_view_derive)
  qed
  have b2: "rx_view (snd (case s_quic_parse_client_hello c msg of
      (Good, c1) \<Rightarrow> ?res (s_quic_server_flight env ((s_quic_hash_update msg c1)\<lparr>ch_done := True\<rparr>)) | q \<Rightarrow> q)) = rx_view c"
  proof -
    obtain o1 c1 where e: "s_quic_parse_client_hello c msg = (o1, c1)" by fastforce
    from p(2) [OF e] e r show ?thesis by (cases o1) (simp_all add: rx_view_flight d)
  qed
  have b3: "rx_view (snd (case s_quic_parse_ee c msg of (True, c1) \<Rightarrow> (Good, s_quic_hash_update msg c1) | (False, c1) \<Rightarrow> (Bad, c1))) = rx_view c"
  proof -
    obtain o1 c1 where e: "s_quic_parse_ee c msg = (o1, c1)" by fastforce
    from p(3) [OF e] e show ?thesis by (cases o1) simp_all
  qed
  have b4: "rx_view (snd (case s_quic_parse_certificate c msg of (True, c1) \<Rightarrow> (Good, s_quic_hash_update msg c1) | (False, c1) \<Rightarrow> (Bad, c1))) = rx_view c"
  proof -
    obtain o1 c1 where e: "s_quic_parse_certificate c msg = (o1, c1)" by fastforce
    from p(4) [OF e] e show ?thesis by (cases o1) simp_all
  qed
  have b5: "rx_view (snd (case s_quic_derive_app env (s_quic_hash_update msg c) of
      (ok, c1) \<Rightarrow> if \<not> ok then (Bad, c1) else ?res (s_quic_client_finish env c1))) = rx_view c"
  proof -
    obtain o1 c1 where e: "s_quic_derive_app env (s_quic_hash_update msg c) = (o1, c1)" by fastforce
    from p(5) [OF e] e r show ?thesis by (cases o1) (simp_all add: rx_view_finish)
  qed
  have if_view: "rx_view (snd (if P then x else y)) = rx_view c" if "rx_view (snd x) = rx_view c" "rx_view (snd y) = rx_view c" for P x y
    using that by simp
  show ?thesis
    unfolding s_quic_on_msg_def Let_def by (intro if_view b1 b2 b3 b4 b5) (simp_all add: d)
qed

text \<open>Complete messages at the front of the unparsed crypto bytes are handed on one by one. Messages have at
  least their four header bytes, so this ends.\<close>

function crypto_msgs :: "quic_env \<Rightarrow> nat \<Rightarrow> quic_conn \<Rightarrow> outcome \<times> quic_conn" where
  "crypto_msgs env level c =
     (let pend = drop (rx_crypto_parsed c level) (rx_crypto c level) in
      if length pend < 4 then (Good, c)
      else
        (let total = 4 + rd24 (pend ! 1) (pend ! 2) (pend ! 3) in
         if length pend < total then (Good, c)
         else
           (case s_quic_on_msg env level (take total pend) c of
              (Good, c1) \<Rightarrow>
                crypto_msgs env level
                  (c1\<lparr>rx_crypto_parsed := (rx_crypto_parsed c1)(level := rx_crypto_parsed c1 level + total)\<rparr>)
            | r \<Rightarrow> r)))"
  by pat_completeness auto
termination
proof (relation "measure (\<lambda>(env, level, c). length (drop (rx_crypto_parsed c level) (rx_crypto c level)))", goal_cases)
  case (2 env level c pend total oc c1)
  have v: "rx_view c1 = rx_view c" using rx_view_on_msg [of env level "take total pend" c] 2 by (metis snd_conv)
  with 2 show ?case by (auto simp: rx_view_def)
qed simp

declare crypto_msgs.simps [simp del]

definition s_quic_crypto_input :: "quic_env \<Rightarrow> nat \<Rightarrow> u64 \<Rightarrow> bytes \<Rightarrow> quic_conn \<Rightarrow> outcome \<times> quic_conn" where
  "s_quic_crypto_input env level offset data c =
     (if level > S_QUIC_HANDSHAKE then (Good, c)
      else if unat offset > S_QUIC_CRYPTO_MAX \<or> length data > S_QUIC_CRYPTO_MAX - unat offset then (Bad, c)
      else if unat offset = length (rx_crypto c level) then
        crypto_msgs env level (c\<lparr>rx_crypto := (rx_crypto c)(level := rx_crypto c level @ data)\<rparr>)
      else if unat offset + length data \<le> length (rx_crypto c level) then (Good, c)
      else (Bad, c))"

text \<open>The capacity of the stream buffer is doubled until it suffices, \<open>None\<close> beyond the limit.\<close>

function stream_cap :: "nat \<Rightarrow> nat \<Rightarrow> nat option" where
  "stream_cap ncap need =
     (if ncap < need then (if ncap > S_QUIC_STREAM_MAX div 2 \<or> ncap = 0 then None else stream_cap (ncap * 2) need)
      else Some ncap)"
  by pat_completeness auto
termination
  by (relation "measure (\<lambda>(ncap, need). need - ncap)") auto

declare stream_cap.simps [simp del]

definition stream_room :: "quic_env \<Rightarrow> nat \<Rightarrow> quic_conn \<Rightarrow> (bytes \<times> quic_conn) option" where
  "stream_room env need c =
     (case (case rx c of
              Some b \<Rightarrow> Some (b, c)
            | None \<Rightarrow> if e_alloc env 8192 then Some (replicate 8192 0, c\<lparr>rx := Some (replicate 8192 0)\<rparr>) else None) of
        None \<Rightarrow> None
      | Some (b, c1) \<Rightarrow>
          if need > length b then
            (case stream_cap (length b) need of
               None \<Rightarrow> None
             | Some ncap \<Rightarrow>
                 if \<not> e_alloc env ncap then None
                 else (let nb = take (rx_len c1) b @ replicate (ncap - rx_len c1) 0 in Some (nb, c1\<lparr>rx := Some nb\<rparr>)))
          else Some (b, c1))"

definition s_quic_stream_input :: "quic_env \<Rightarrow> u64 \<Rightarrow> bytes \<Rightarrow> bool \<Rightarrow> quic_conn \<Rightarrow> bool \<times> quic_conn" where
  "s_quic_stream_input env offset data fin c =
     (let off = unat offset in
      if off > S_QUIC_STREAM_MAX \<or> length data > S_QUIC_STREAM_MAX - off then (False, c)
      else
        (case stream_room env (off + length data) c of
           None \<Rightarrow> (False, if rx c = None \<and> e_alloc env 8192 then c\<lparr>rx := Some (replicate 8192 0)\<rparr> else c)
         | Some (b, c1) \<Rightarrow>
             (let fin_c = (\<lambda>c'. if fin then c'\<lparr>rx_fin := True\<rparr> else c') in
              if off = rx_len c1 then
                (True, fin_c (c1\<lparr>rx := Some (take off b @ data @ drop (off + length data) b), rx_len := rx_len c1 + length data\<rparr>))
              else if off + length data \<le> rx_len c1 then (True, fin_c c1)
              else (False, c1))))"

text \<open>Skip \<open>n\<close> pairs of integers of an acknowledgement.\<close>

fun skip_ints :: "nat \<Rightarrow> bytes \<Rightarrow> bytes option" where
  "skip_ints 0 bs = Some bs"
| "skip_ints (Suc n) bs = (case s_quic_get_varint bs of None \<Rightarrow> None | Some (_, r) \<Rightarrow> skip_ints n r)"

text \<open>One frame after its type byte: the outcome, the connection, the bytes that follow, and whether the
  rest of the packet is to be looked at.\<close>

definition ack_frame :: "nat \<Rightarrow> u8 \<Rightarrow> bytes \<Rightarrow> quic_conn \<Rightarrow> outcome \<times> quic_conn \<times> bytes" where
  "ack_frame level t bs c =
     (case do {
         (largest, b1) \<leftarrow> s_quic_get_varint bs;
         (delay, b2) \<leftarrow> s_quic_get_varint b1;
         (range_count, b3) \<leftarrow> s_quic_get_varint b2;
         (first, b4) \<leftarrow> s_quic_get_varint b3;
         Some (largest, range_count, first, b4) } of
        None \<Rightarrow> (Bad, c, bs)
      | Some (largest, range_count, first, b4) \<Rightarrow>
          (let c1 = s_quic_apply_ack level largest first c in
           case skip_ints (2 * unat range_count) b4 of
             None \<Rightarrow> (Bad, c1, bs)
           | Some b5 \<Rightarrow>
               (case skip_ints (if t = 0x03 then 3 else 0) b5 of
                  None \<Rightarrow> (Bad, c1, bs)
                | Some b6 \<Rightarrow> (Good, c1, b6))))"

definition crypto_frame :: "quic_env \<Rightarrow> nat \<Rightarrow> bytes \<Rightarrow> quic_conn \<Rightarrow> outcome \<times> quic_conn \<times> bytes" where
  "crypto_frame env level bs c =
     (case do { (offset, b1) \<leftarrow> s_quic_get_varint bs; (clen, b2) \<leftarrow> s_quic_get_varint b1; Some (offset, clen, b2) } of
        None \<Rightarrow> (Bad, c, bs)
      | Some (offset, clen, b2) \<Rightarrow>
          if length b2 < unat clen then (Bad, c, bs)
          else (let (r, c1) = s_quic_crypto_input env level offset (take (unat clen) b2) c
                in (r, c1, drop (unat clen) b2)))"

definition stream_frame :: "quic_env \<Rightarrow> u8 \<Rightarrow> bytes \<Rightarrow> quic_conn \<Rightarrow> outcome \<times> quic_conn \<times> bytes" where
  "stream_frame env t bs c =
     (case do {
         (sid, b1) \<leftarrow> s_quic_get_varint bs;
         (offset, b2) \<leftarrow> (if t AND 0x04 \<noteq> 0 then s_quic_get_varint b1 else Some (0, b1));
         (slen, b3) \<leftarrow> (if t AND 0x02 \<noteq> 0 then s_quic_get_varint b2 else Some (of_nat (length b2), b2));
         Some (sid, offset, slen, b3) } of
        None \<Rightarrow> (Bad, c, bs)
      | Some (sid, offset, slen, b3) \<Rightarrow>
          if length b3 < unat slen then (Bad, c, bs)
          else if sid = 0 then
            (let (ok, c1) = s_quic_stream_input env offset (take (unat slen) b3) (t AND 0x01 \<noteq> 0) c
             in (if ok then Good else Bad, c1, drop (unat slen) b3))
          else (Good, c, drop (unat slen) b3))"

lemma skip_ints_shorter: "skip_ints n bs = Some r \<Longrightarrow> length r \<le> length bs"
proof (induction n arbitrary: bs)
  case (Suc n)
  then show ?case by (auto split: option.splits dest!: get_varint_shorter) fastforce
qed simp

lemma frame_shorter:
  "ack_frame level t bs c = (oc, c1, r) \<Longrightarrow> length r \<le> length bs"
  "crypto_frame env level bs c = (oc, c1, r) \<Longrightarrow> length r \<le> length bs"
  "stream_frame env t bs c = (oc, c1, r) \<Longrightarrow> length r \<le> length bs"
proof -
  show "length r \<le> length bs" if e: "ack_frame level t bs c = (oc, c1, r)"
  proof (cases "oc = Good")
    case True
    with e obtain a b1 d b2 rc b3 f b4 b5 where "s_quic_get_varint bs = Some (a, b1)" "s_quic_get_varint b1 = Some (d, b2)"
      "s_quic_get_varint b2 = Some (rc, b3)" "s_quic_get_varint b3 = Some (f, b4)" "skip_ints (2 * unat rc) b4 = Some b5"
      "skip_ints (if t = 0x03 then 3 else 0) b5 = Some r"
      by (auto simp: ack_frame_def Let_def bind_eq_Some_conv split: option.splits)
    then show ?thesis by (auto dest!: get_varint_shorter skip_ints_shorter)
  next
    case False
    with e show ?thesis by (auto simp: ack_frame_def Let_def split: option.splits prod.splits)
  qed
  show "length r \<le> length bs" if e: "crypto_frame env level bs c = (oc, c1, r)"
    using e by (auto simp: crypto_frame_def bind_eq_Some_conv Let_def split: option.splits prod.splits if_splits
        dest!: get_varint_shorter)
  show "length r \<le> length bs" if e: "stream_frame env t bs c = (oc, c1, r)"
    using e by (auto simp: stream_frame_def bind_eq_Some_conv Let_def split: option.splits prod.splits if_splits
        dest!: get_varint_shorter)
qed

function s_quic_parse_frames :: "quic_env \<Rightarrow> nat \<Rightarrow> bytes \<Rightarrow> quic_conn \<Rightarrow> outcome \<times> quic_conn" where
  "s_quic_parse_frames env level bs c =
     (case bs of
        [] \<Rightarrow> (Good, c)
      | t # rest \<Rightarrow>
          if t = 0x00 \<or> t = 0x01 \<or> t = 0x1e then s_quic_parse_frames env level rest c
          else if t = 0x1c \<or> t = 0x1d then (Good, c\<lparr>q_closed := True\<rparr>)
          else if t = 0x02 \<or> t = 0x03 \<or> t = 0x06 \<or> t AND 0xf8 = 0x08 then
            (case (if t = 0x02 \<or> t = 0x03 then ack_frame level t rest c
                   else if t = 0x06 then crypto_frame env level rest c else stream_frame env t rest c) of
               (Good, c1, rest') \<Rightarrow> s_quic_parse_frames env level rest' c1
             | (r, c1, _) \<Rightarrow> (r, c1))
          else (Bad, c))"
  by pat_completeness auto
termination
  by (relation "measure (\<lambda>(env, level, bs, c). length bs)")
    (auto split: if_splits dest!: frame_shorter [OF sym] frame_shorter)

declare s_quic_parse_frames.simps [simp del]

section \<open>Packets\<close>

text \<open>What a packet is worth: processed, dropped (-2), fatal (-1), or a parser left its message.\<close>

datatype pkt_rc = PktOk | PktDrop | PktBad | PktOob

text \<open>The header before protection is removed: the level, the offset of the packet number, the bytes the
  packet takes of the datagram, and the connection (a server learns the peer's identifier here).\<close>

definition long_header :: "bytes \<Rightarrow> quic_conn \<Rightarrow> (nat \<times> nat \<times> nat) option \<times> quic_conn" where
  "long_header pkt c =
     (let len = length pkt in
      if take 4 (drop 1 pkt) \<noteq> [0, 0, 0, 1] then (None, c)
      else if pkt ! 5 \<noteq> of_nat S_QUIC_CID_LEN then (None, c)
      else if take 8 (drop 6 pkt) \<noteq> local_cid c then (None, c)
      else if pkt ! 14 \<noteq> of_nat S_QUIC_CID_LEN then (None, c)
      else if 15 + S_QUIC_CID_LEN > len then (None, c)
      else
        (let scid = take 8 (drop 15 pkt);
             c1 = (if peer_cid c \<noteq> scid \<and> is_server c \<and> \<not> ch_done c then c\<lparr>peer_cid := scid\<rparr> else c);
             ty = drop_bit 4 (pkt ! 0 AND 0x30);
             after = (if ty = 0 then
                        (case s_quic_get_varint (drop 23 pkt) of
                           None \<Rightarrow> None
                         | Some (token_len, r) \<Rightarrow>
                             if (len - length r) + unat token_len > len then None
                             else Some (S_QUIC_INITIAL, drop (unat token_len) r))
                      else if ty = 2 then Some (S_QUIC_HANDSHAKE, drop 23 pkt)
                      else None)
         in case after of
              None \<Rightarrow> (None, c1)
            | Some (level, r) \<Rightarrow>
                (case s_quic_get_varint r of
                   None \<Rightarrow> (None, c1)
                 | Some (plen, r2) \<Rightarrow>
                     (let off = len - length r2 in
                      if off + unat plen > len then (None, c1)
                      else (Some (level, off, off + unat plen), c1)))))"

definition short_header :: "bytes \<Rightarrow> quic_conn \<Rightarrow> (nat \<times> nat \<times> nat) option" where
  "short_header pkt c =
     (if length pkt < 1 + S_QUIC_CID_LEN + 4 + 16 then None
      else if take 8 (drop 1 pkt) \<noteq> local_cid c then None
      else Some (S_QUIC_APP, 1 + S_QUIC_CID_LEN, length pkt))"

text \<open>Removing the protection: packet number and plain text.\<close>

definition unprotect :: "quic_env \<Rightarrow> quic_keys \<Rightarrow> u8 \<Rightarrow> nat \<Rightarrow> nat \<Rightarrow> bytes \<Rightarrow> (u64 \<times> bytes) option" where
  "unprotect env k bits pn_off consumed pkt =
     (if pn_off + 4 + 16 > consumed then None
      else
        (case e_mask env (k_hp k) (take 16 (drop (pn_off + 4) pkt)) of
           None \<Rightarrow> None
         | Some msk \<Rightarrow>
             (let pn_len = unat ((pkt ! 0 XOR (msk ! 0 AND bits)) AND 0x03) + 1 in
              if pn_off + pn_len + 16 > consumed then None
              else
                (let clear = mask_header bits pn_off pn_len msk (take consumed pkt);
                     hdr = take (pn_off + pn_len) clear;
                     pn = be_acc 0 (drop pn_off hdr);
                     payload_len = consumed - (pn_off + pn_len)
                 in if payload_len - 16 > 1500 then None
                    else
                      (case quic_unseal env k pn hdr (take (payload_len - 16) (drop (pn_off + pn_len) clear))
                              (drop (consumed - 16) clear) of
                         None \<Rightarrow> None
                       | Some plain \<Rightarrow> Some (pn, plain))))))"

text \<open>The plain text of a packet: a duplicate is ignored, otherwise its frames are processed.\<close>

definition open_plain :: "quic_env \<Rightarrow> nat \<Rightarrow> u64 \<Rightarrow> bytes \<Rightarrow> nat \<Rightarrow> quic_conn \<Rightarrow> pkt_rc \<times> nat \<times> quic_conn" where
  "open_plain env level pn plain consumed c =
     (case s_quic_note_rx level pn c of
        (True, c1) \<Rightarrow> (PktOk, consumed, c1)
      | (False, c1) \<Rightarrow>
          (case s_quic_parse_frames env level plain c1 of
             (Good, c2) \<Rightarrow> (PktOk, consumed, c2)
           | (Bad, c2) \<Rightarrow> (PktBad, consumed, c2)
           | (Oob, c2) \<Rightarrow> (PktOob, consumed, c2)))"

definition s_quic_open_packet :: "quic_env \<Rightarrow> bytes \<Rightarrow> quic_conn \<Rightarrow> pkt_rc \<times> nat \<times> quic_conn" where
  "s_quic_open_packet env pkt c =
     (if length pkt < 20 then (PktDrop, 0, c)
      else
        (let long_hdr = (pkt ! 0 AND 0x80 \<noteq> 0);
             (h, c1) = (if long_hdr then long_header pkt c else (short_header pkt c, c))
         in case h of
              None \<Rightarrow> (PktDrop, 0, c1)
            | Some (level, pn_off, consumed) \<Rightarrow>
                (let k = keys c1 (\<not> is_server c1) level in
                 if \<not> k_have k then (PktDrop, consumed, c1)
                 else
                   (case unprotect env k (if long_hdr then 0x0f else 0x1f) pn_off consumed pkt of
                      None \<Rightarrow> (PktDrop, consumed, c1)
                    | Some (pn, plain) \<Rightarrow> open_plain env level pn plain consumed c1))))"

function s_quic_ingest :: "quic_env \<Rightarrow> bytes \<Rightarrow> quic_conn \<Rightarrow> outcome \<times> quic_conn" where
  "s_quic_ingest env buf c =
     (if buf = [] then (Good, c)
      else
        (case s_quic_open_packet env buf c of
           (PktDrop, _, c1) \<Rightarrow> (if app_ready c1 \<and> buf ! 0 AND 0x80 = 0 then Bad else Good, c1)
         | (PktBad, _, c1) \<Rightarrow> (Bad, c1)
         | (PktOob, _, c1) \<Rightarrow> (Oob, c1)
         | (PktOk, consumed, c1) \<Rightarrow>
             if consumed = 0 then (Bad, c1)
             else if buf ! 0 AND 0x80 = 0 then (Good, c1)
             else s_quic_ingest env (drop consumed buf) c1))"
  by pat_completeness auto
termination
  by (relation "measure (\<lambda>(env, buf, c). length buf)") auto

declare s_quic_ingest.simps [simp del]

section \<open>Retransmission and driving a connection\<close>

fun retransmit_levels :: "quic_env \<Rightarrow> nat list \<Rightarrow> quic_conn \<Rightarrow> bool \<times> quic_conn" where
  "retransmit_levels env [] c = (True, c)"
| "retransmit_levels env (level # ls) c =
     (let f = flight c level in
      if \<not> live f then retransmit_levels env ls c
      else if app_ready c \<and> level \<noteq> S_QUIC_APP then
        retransmit_levels env ls (c\<lparr>flight := (flight c)(level := f\<lparr>live := False\<rparr>)\<rparr>)
      else if e_now env < sent_ns f + 40000000 then retransmit_levels env ls c
      else
        (case s_quic_send_frames env level (frames f) True
                (if level = S_QUIC_INITIAL \<and> \<not> is_server c then 1200 else 0) c of
           (False, c1) \<Rightarrow> (False, c1)
         | (True, c1) \<Rightarrow> retransmit_levels env ls c1))"

definition s_quic_retransmit :: "quic_env \<Rightarrow> quic_conn \<Rightarrow> bool \<times> quic_conn" where
  "s_quic_retransmit env c = retransmit_levels env [S_QUIC_INITIAL, S_QUIC_HANDSHAKE, S_QUIC_APP] c"

text \<open>What \<open>s_io_recvfrom\<close> delivers: nothing in time, an error, or a datagram. Each pass of a receive
  loop takes its environment (the clock) and one event; a list that ends leaves the loop waiting.\<close>

datatype net_event = NetTimeout | NetError | NetData bytes

fun s_quic_drive :: "(quic_env \<times> net_event) list \<Rightarrow> u64 \<Rightarrow> bool \<Rightarrow> quic_conn \<Rightarrow> bool option \<times> quic_conn" where
  "s_quic_drive [] deadline want_app c = (None, c)"
| "s_quic_drive ((env, ev) # evs) deadline want_app c =
     (if \<not> e_now env < deadline then (Some False, c)
      else if q_closed c then (Some False, c)
      else if want_app \<and> app_ready c then (Some True, c)
      else
        (let (ok, c1) = s_quic_retransmit env c in
         if \<not> ok then (Some False, c1)
         else
           (case ev of
              NetTimeout \<Rightarrow> s_quic_drive evs deadline want_app c1
            | NetError \<Rightarrow> (Some False, c1)
            | NetData buf \<Rightarrow>
                (case s_quic_ingest env buf (c1\<lparr>peer_set := True\<rparr>) of
                   (Good, c2) \<Rightarrow> if want_app \<and> app_ready c2 then (Some True, c2)
                                 else s_quic_drive evs deadline want_app c2
                 | (_, c2) \<Rightarrow> (Some False, c2)))))"

section \<open>The byte stream\<close>

text \<open>The read once data is there: how much is copied and what.\<close>

definition take_rx :: "nat \<Rightarrow> quic_conn \<Rightarrow> bytes \<times> quic_conn" where
  "take_rx len c =
     (let have = min (rx_len c - rx_pos c) len in
      (take have (drop (rx_pos c) (the (rx c))), c\<lparr>rx_pos := rx_pos c + have\<rparr>))"

datatype read_result = ReadData bytes | ReadEof | ReadFail | ReadTimedOut | ReadWaiting

fun quic_read :: "(quic_env \<times> net_event) list \<Rightarrow> u64 \<Rightarrow> nat \<Rightarrow> quic_conn \<Rightarrow> read_result \<times> quic_conn" where
  "quic_read [] deadline len c =
     (if rx_pos c \<ge> rx_len c then (if q_closed c \<or> rx_fin c then ReadEof else ReadWaiting, c)
      else (let (bs, c1) = take_rx len c in (ReadData bs, c1)))"
| "quic_read ((env, ev) # evs) deadline len c =
     (if rx_pos c \<ge> rx_len c then
        (if q_closed c \<or> rx_fin c then (ReadEof, c)
         else if e_now env > deadline then (ReadTimedOut, c)
         else
           (let (ok, c1) = s_quic_retransmit env c in
            if \<not> ok then (ReadFail, c1)
            else
              (case ev of
                 NetTimeout \<Rightarrow> quic_read evs deadline len c1
               | NetError \<Rightarrow> (ReadFail, c1)
               | NetData buf \<Rightarrow>
                   (case s_quic_ingest env buf c1 of
                      (Good, c2) \<Rightarrow> quic_read evs deadline len c2
                    | (_, c2) \<Rightarrow> (ReadFail, c2)))))
      else (let (bs, c1) = take_rx len c in (ReadData bs, c1)))"

text \<open>The vectored form, given for each buffer what arrives during its read, its deadline and its size:
  the total (-1 when nothing was transferred before a failure) and the bytes; \<open>None\<close> while it waits.\<close>

fun quic_readv :: "((quic_env \<times> net_event) list \<times> u64 \<times> nat) list \<Rightarrow> bytes \<Rightarrow> quic_conn \<Rightarrow> int option \<times> bytes \<times> quic_conn" where
  "quic_readv [] got c = (Some (int (length got)), got, c)"
| "quic_readv ((evs, deadline, len) # vs) got c =
     (if len = 0 then quic_readv vs got c
      else
        (case quic_read evs deadline len c of
           (ReadData bs, c1) \<Rightarrow>
             if length bs < len then (Some (int (length (got @ bs))), got @ bs, c1) else quic_readv vs (got @ bs) c1
         | (ReadEof, c1) \<Rightarrow> (Some (int (length got)), got, c1)
         | (ReadWaiting, c1) \<Rightarrow> (None, got, c1)
         | (_, c1) \<Rightarrow> (Some (if length got > 0 then int (length got) else -1), got, c1)))"

text \<open>A stream frame with offset and length for one chunk, behind an acknowledgement.\<close>

definition stream_frame_bytes :: "quic_conn \<Rightarrow> bytes \<Rightarrow> bytes option" where
  "stream_frame_bytes c chunk = do {
     ack \<leftarrow> s_quic_encode_ack c S_QUIC_APP 1200;
     a1 \<leftarrow> put_v 1200 0 (ack @ [0x0e]);
     a2 \<leftarrow> put_v 1200 (tx_off c) a1;
     a3 \<leftarrow> put_v 1200 (of_nat (length chunk)) a2;
     Some (a3 @ chunk) }"

function write_loop :: "quic_env \<Rightarrow> u64 \<Rightarrow> bytes \<Rightarrow> quic_conn \<Rightarrow> bool \<times> quic_conn" where
  "write_loop env limit src c =
     (if src = [] then (True, c)
      else
        (let chunk = take 1000 src in
         if tx_off c + of_nat (length chunk) > limit then (False, c)
         else
           (case stream_frame_bytes c chunk of
              None \<Rightarrow> (False, c)
            | Some fr \<Rightarrow>
                (case s_quic_send_frames env S_QUIC_APP fr True 0 c of
                   (False, c1) \<Rightarrow> (False, c1)
                 | (True, c1) \<Rightarrow>
                     write_loop env limit (drop 1000 src) (c1\<lparr>tx_off := tx_off c1 + of_nat (length chunk)\<rparr>)))))"
  by pat_completeness auto
termination
  by (relation "measure (\<lambda>(env, limit, src, c). length src)") auto

declare write_loop.simps [simp del]

definition quic_write :: "quic_env \<Rightarrow> bool \<Rightarrow> bytes \<Rightarrow> quic_conn \<Rightarrow> bool \<times> quic_conn" where
  "quic_write env writer src c =
     (if \<not> app_ready c \<or> \<not> writer then (False, c)
      else write_loop env (if is_server c then peer_bidi_local c else peer_bidi_remote c) src c)"

text \<open>The vectored form: the total, or -1 when nothing was transferred before a failure.\<close>

fun quic_writev :: "quic_env \<Rightarrow> bool \<Rightarrow> bytes list \<Rightarrow> int \<Rightarrow> quic_conn \<Rightarrow> int \<times> quic_conn" where
  "quic_writev env writer [] tot c = (tot, c)"
| "quic_writev env writer (v # vs) tot c =
     (if v = [] then quic_writev env writer vs tot c
      else
        (case quic_write env writer v c of
           (False, c1) \<Rightarrow> (if tot > 0 then tot else -1, c1)
         | (True, c1) \<Rightarrow> quic_writev env writer vs (tot + int (length v)) c1))"

text \<open>Closing: a connection that is up sends a CONNECTION_CLOSE; the result tells whether the socket is
  closed with it.\<close>

definition quic_close :: "quic_env \<Rightarrow> quic_conn \<Rightarrow> bool \<times> quic_conn" where
  "quic_close env c =
     (let c1 = (if \<not> q_closed c \<and> app_ready c then snd (s_quic_send_frames env S_QUIC_APP [0x1c, 0x00, 0x00, 0x00] False 0 c) else c)
      in (owns_fd c1, c1))"

section \<open>Opening connections\<close>

text \<open>\<open>quic_dial\<close> after its socket is open: identifiers, keys, the client's hello, then driving the
  handshake with the datagrams that arrive.\<close>

definition quic_dial :: "quic_env \<Rightarrow> (quic_env \<times> net_event) list \<Rightarrow> bytes option \<Rightarrow> bytes option \<Rightarrow> bool option \<times> quic_conn" where
  "quic_dial env evs lcid pcid =
     (let c0 = s_quic_conn_new\<lparr>owns_fd := True, is_server := False, peer_set := True\<rparr> in
      case (lcid, pcid) of
        (Some l, Some p) \<Rightarrow>
          (let c1 = c0\<lparr>local_cid := l, peer_cid := p, orig_dcid := p\<rparr>;
               (ok2, c2) = s_quic_install_initial env c1
           in if \<not> ok2 then (Some False, c2)
              else
                (let (ok3, c3) = s_quic_x25519 env c2 in
                 if \<not> ok3 then (Some False, c3)
                 else
                   (case s_quic_build_client_hello (e_rand env 32) c3 1024 of
                      None \<Rightarrow> (Some False, c3)
                    | Some ch \<Rightarrow>
                        (let (ok4, c4) = s_quic_send_crypto env S_QUIC_INITIAL ch 0 1200 (s_quic_hash_update ch c3) in
                         if \<not> ok4 then (Some False, c4)
                         else s_quic_drive evs (e_now env + 5000000000) True c4))))
      | _ \<Rightarrow> (Some False, c0))"

text \<open>\<open>quic_accept\<close> from the first datagram on; on success it announces the end of the handshake.\<close>

definition quic_accept :: "quic_env \<Rightarrow> bytes \<Rightarrow> (quic_env \<times> net_event) list \<Rightarrow> bool option \<times> quic_conn" where
  "quic_accept env buf evs =
     (let c0 = s_quic_conn_new\<lparr>is_server := True, peer_set := True\<rparr> in
      if length buf < 6 + S_QUIC_CID_LEN \<or> buf ! 0 AND 0x80 = 0 \<or> buf ! 5 \<noteq> of_nat S_QUIC_CID_LEN then (Some False, c0)
      else
        (let cid = take 8 (drop 6 buf);
             (ok1, c1) = s_quic_install_initial env (c0\<lparr>local_cid := cid, orig_dcid := cid\<rparr>)
         in if \<not> ok1 then (Some False, c1)
            else
              (case s_quic_ingest env buf c1 of
                 (Good, c2) \<Rightarrow>
                   (case s_quic_drive evs (e_now env + 5000000000) True c2 of
                      (Some True, c3) \<Rightarrow>
                        (let ack = (case s_quic_encode_ack c3 S_QUIC_APP 7 of None \<Rightarrow> [] | Some a \<Rightarrow> a) in
                         (Some True, snd (s_quic_send_frames env S_QUIC_APP (0x1e # ack) False 0 c3)))
                    | r \<Rightarrow> r)
               | (_, c2) \<Rightarrow> (Some False, c2))))"

section \<open>Duplicates\<close>

text \<open>The record of a level stands for the set of packet numbers received there: the largest one, and a
  bit for each of the 64 numbers up to it.\<close>

definition rx_repr :: "nat set \<Rightarrow> nat \<Rightarrow> quic_conn \<Rightarrow> bool" where
  "rx_repr R level c \<longleftrightarrow>
     (rx_have c level \<longleftrightarrow> R \<noteq> {}) \<and>
     (R \<noteq> {} \<longrightarrow> unat (rx_max c level) \<in> R \<and> (\<forall>p \<in> R. p \<le> unat (rx_max c level)) \<and>
        (\<forall>d < 64. bit (rx_mask c level) d \<longleftrightarrow> d \<le> unat (rx_max c level) \<and> unat (rx_max c level) - d \<in> R))"

lemma bit_shift_one: "d < 64 \<Longrightarrow> s < 64 \<Longrightarrow> bit (push_bit s (m :: u64) OR 1) d \<longleftrightarrow> d = 0 \<or> (s \<le> d \<and> bit m (d - s))"
  by (auto simp: bit_simps bit_1_iff)

lemma bit_set_one: "d < 64 \<Longrightarrow> s < 64 \<Longrightarrow> bit ((m :: u64) OR push_bit s 1) d \<longleftrightarrow> bit m d \<or> d = s"
  by (auto simp: bit_simps bit_1_iff)

lemma note_rx_spec:
  assumes r: "rx_repr R level c" and e: "s_quic_note_rx level pn c = (dup, c')"
  shows "rx_repr (insert (unat pn) R) level c' \<and> (dup \<longrightarrow> unat pn \<in> R \<and> c' = c) \<and>
     (unat pn \<in> R \<and> unat (rx_max c level) < unat pn + 64 \<longrightarrow> dup)"
proof (cases "R = {}")
  case True
  with r have "\<not> rx_have c level" by (simp add: rx_repr_def)
  with e have "\<not> dup" "rx_have c' level" "rx_max c' level = pn" "rx_mask c' level = 1"
    by (auto simp: s_quic_note_rx_def)
  with True show ?thesis by (auto simp: rx_repr_def bit_1_iff)
next
  case ne: False
  let ?m = "unat (rx_max c level)" and ?p = "unat pn"
  have h: "rx_have c level" "?m \<in> R" "\<And>p. p \<in> R \<Longrightarrow> p \<le> ?m"
    and b: "\<And>d. d < 64 \<Longrightarrow> bit (rx_mask c level) d \<longleftrightarrow> d \<le> ?m \<and> ?m - d \<in> R"
    using r ne by (auto simp: rx_repr_def)
  show ?thesis
  proof (cases "pn > rx_max c level")
    case True
    then have lt: "?m < ?p" by (simp add: word_less_nat_alt)
    have sh: "unat (pn - rx_max c level) = ?p - ?m" using True by (simp add: unat_sub less_imp_le)
    have new: "?p \<notin> R" using lt h(3) by fastforce
    define m' where "m' = (if pn - rx_max c level \<ge> 64 then 1 else push_bit (unat (pn - rx_max c level)) (rx_mask c level) OR 1 :: u64)"
    have c': "\<not> dup" "rx_have c' = rx_have c" "rx_max c' level = pn" "rx_mask c' level = m'"
      using e True h(1) by (auto simp: s_quic_note_rx_def Let_def m'_def)
    have "bit m' d \<longleftrightarrow> d \<le> ?p \<and> ?p - d \<in> insert ?p R" if d: "d < 64" for d
    proof (cases "pn - rx_max c level \<ge> 64")
      case True
      then have big: "64 \<le> ?p - ?m" using sh by (simp add: word_le_nat_alt)
      have "?p - d \<notin> R" using h(3) [of "?p - d"] big d by auto
      with True d big show ?thesis by (auto simp: m'_def bit_1_iff)
    next
      case False
      then have sm: "?p - ?m < 64" using sh by (simp add: word_le_nat_alt)
      have "bit m' d \<longleftrightarrow> d = 0 \<or> (?p - ?m \<le> d \<and> bit (rx_mask c level) (d - (?p - ?m)))"
        using False bit_shift_one [OF d, of "?p - ?m"] sm sh by (simp add: m'_def)
      also have "\<dots> \<longleftrightarrow> d \<le> ?p \<and> ?p - d \<in> insert ?p R"
      proof (cases "?p - ?m \<le> d")
        case True
        then have "?m - (d - (?p - ?m)) = ?p - d" "d - (?p - ?m) \<le> ?m \<longleftrightarrow> d \<le> ?p" using lt by auto
        with True b [of "d - (?p - ?m)"] d lt show ?thesis by auto
      next
        case False
        then have "?p - d > ?m" using lt by auto
        with h(3) [of "?p - d"] False lt show ?thesis by auto
      qed
      finally show ?thesis .
    qed
    moreover have "p \<le> ?p" if "p \<in> R" for p using h(3) [OF that] lt by simp
    ultimately show ?thesis using c' h lt new by (simp add: rx_repr_def)
  next
    case False
    then have le: "?p \<le> ?m" by (simp add: word_less_nat_alt)
    have d: "unat (rx_max c level - pn) = ?m - ?p" using False by (simp add: unat_sub)
    show ?thesis
    proof (cases "rx_max c level - pn \<ge> 64")
      case True
      then have far: "64 \<le> ?m - ?p" using d by (simp add: word_le_nat_alt)
      have "c' = c" "\<not> dup" using e h(1) False True by (auto simp: s_quic_note_rx_def Let_def)
      moreover have "?m - k \<in> insert ?p R \<longleftrightarrow> ?m - k \<in> R" if "k < 64" for k using far that by auto
      ultimately show ?thesis using r ne far le by (auto simp: rx_repr_def)
    next
      case near: False
      then have nr: "?m - ?p < 64" using d by (simp add: word_le_nat_alt)
      have bp: "bit (rx_mask c level) (?m - ?p) \<longleftrightarrow> ?p \<in> R" using b [OF nr] le by simp
      show ?thesis
      proof (cases "?p \<in> R")
        case True
        with bp e h(1) False near d have "dup" "c' = c" by (auto simp: s_quic_note_rx_def Let_def)
        with True r show ?thesis by (simp add: insert_absorb)
      next
        case notin: False
        with bp e h(1) False near d have c': "\<not> dup" "rx_have c' = rx_have c" "rx_max c' = rx_max c"
          "rx_mask c' level = rx_mask c level OR push_bit (?m - ?p) 1" by (auto simp: s_quic_note_rx_def Let_def)
        have "bit (rx_mask c' level) k \<longleftrightarrow> k \<le> ?m \<and> ?m - k \<in> insert ?p R" if k: "k < 64" for k
          using bit_set_one [OF k nr, of "rx_mask c level"] b [OF k] c'(4) le by auto
        with c' h le notin show ?thesis by (auto simp: rx_repr_def)
      qed
    qed
  qed
qed

lemma note_all_repr:
  "rx_repr R level c \<Longrightarrow> rx_repr (R \<union> unat ` set pns) level (fold (\<lambda>pn c. snd (s_quic_note_rx level pn c)) pns c)"
proof (induction pns arbitrary: R c)
  case (Cons pn pns)
  then have "rx_repr (insert (unat pn) R) level (snd (s_quic_note_rx level pn c))"
    using note_rx_spec [OF Cons.prems, of pn] by (metis prod.collapse)
  from Cons.IH [OF this] show ?case by simp
qed simp

text \<open>C29. Duplicate suppression: after any sequence of packet numbers received at a level, the receiver
  calls a packet a duplicate only if that very number has arrived before, and it recognises every number
  that has, as long as it is less than 64 behind the largest one received.\<close>

theorem note_rx_detects_duplicates:
  assumes "\<not> rx_have c level"
    and after: "after = fold (\<lambda>pn c. snd (s_quic_note_rx level pn c)) pns c"
  shows "(fst (s_quic_note_rx level pn after) \<longrightarrow> pn \<in> set pns) \<and>
    (pn \<in> set pns \<and> (\<forall>q \<in> set pns. unat q < unat pn + 64) \<longrightarrow> fst (s_quic_note_rx level pn after))"
proof -
  have "rx_repr {} level c" using assms(1) by (simp add: rx_repr_def)
  from note_all_repr [OF this, of pns] have r: "rx_repr (unat ` set pns) level after" by (simp add: after)
  have s: "(fst (s_quic_note_rx level pn after) \<longrightarrow> unat pn \<in> unat ` set pns) \<and>
     (unat pn \<in> unat ` set pns \<and> unat (rx_max after level) < unat pn + 64 \<longrightarrow> fst (s_quic_note_rx level pn after))"
    using note_rx_spec [OF r, of pn] by (metis prod.collapse)
  have i: "unat pn \<in> unat ` set pns \<longleftrightarrow> pn \<in> set pns" by (auto dest: unsigned_word_eqI)
  have m: "pn \<in> set pns \<Longrightarrow> unat (rx_max after level) \<in> unat ` set pns" using r by (auto simp: rx_repr_def)
  have "unat (rx_max after level) < unat pn + 64" if "pn \<in> set pns" "\<forall>q \<in> set pns. unat q < unat pn + 64"
    using m [OF that(1)] that(2) by auto
  with s i show ?thesis by blast
qed

theorem note_rx_detects_duplicates_witness:
  "fst (s_quic_note_rx 3 70 (snd (s_quic_note_rx 3 75 (snd (s_quic_note_rx 3 70 (s_quic_conn_new))))))"
  using note_rx_detects_duplicates [OF _ refl, of s_quic_conn_new 3 70 "[70, 75]"] by (simp add: s_quic_conn_new_def)

text \<open>A number that is 64 or more behind the largest one is accepted again.\<close>

lemma note_rx_forgets:
  "\<not> fst (s_quic_note_rx 3 6 (snd (s_quic_note_rx 3 70 (snd (s_quic_note_rx 3 6 (s_quic_conn_new))))))"
  by (simp add: s_quic_conn_new_def s_quic_note_rx_def)

section \<open>Stream reassembly\<close>

text \<open>The bytes of the stream that have been received in order, and the shape of the buffer.\<close>

definition rx_stream :: "quic_conn \<Rightarrow> bytes" where
  "rx_stream c = (case rx c of None \<Rightarrow> [] | Some b \<Rightarrow> take (rx_len c) b)"

definition rx_ok :: "quic_conn \<Rightarrow> bool" where
  "rx_ok c \<longleftrightarrow> (case rx c of None \<Rightarrow> rx_len c = 0 | Some b \<Rightarrow> rx_len c \<le> length b)"

lemma length_rx_stream: "rx_ok c \<Longrightarrow> length (rx_stream c) = rx_len c"
  by (simp add: rx_ok_def rx_stream_def split: option.splits)

lemma rx_buffer:
  "rx c = Some b \<Longrightarrow> rx_stream c = take (rx_len c) b" "rx c = Some b \<Longrightarrow> rx_ok c \<longleftrightarrow> rx_len c \<le> length b"
  by (simp_all add: rx_ok_def rx_stream_def)

lemma stream_cap_ge: "stream_cap a n = Some m \<Longrightarrow> n \<le> m \<and> a \<le> m"
proof (induction a n rule: stream_cap.induct)
  case (1 a n)
  then show ?case by (subst (asm) (2) stream_cap.simps) (auto split: if_splits)
qed

lemma stream_room_spec:
  assumes "rx_ok c" "stream_room env need c = Some (b, c1)"
  shows "rx c1 = Some b \<and> need \<le> length b \<and> rx_len c1 = rx_len c \<and> rx_len c \<le> length b \<and>
     take (rx_len c) b = rx_stream c \<and> rx_fin c1 = rx_fin c \<and> rx_pos c1 = rx_pos c"
  using assms by (auto simp: stream_room_def rx_ok_def rx_stream_def Let_def split: option.splits if_splits dest!: stream_cap_ge)

text \<open>One piece of stream data: it is taken when it continues the stream, ignored when the stream has it
  all, and refused otherwise; a refusal leaves what was received.\<close>

lemma stream_input_cases:
  assumes ok: "rx_ok c" and e: "s_quic_stream_input env offset data fin c = (r, c')"
  shows "rx_ok c' \<and> rx_pos c' = rx_pos c \<and>
     (if r then
        (if unat offset = rx_len c then rx_stream c' = rx_stream c @ data
         else unat offset + length data \<le> rx_len c \<and> rx_stream c' = rx_stream c) \<and> rx_fin c' = (fin \<or> rx_fin c)
      else rx_stream c' = rx_stream c \<and> rx_fin c' = rx_fin c)"
proof (cases "unat offset > S_QUIC_STREAM_MAX \<or> length data > S_QUIC_STREAM_MAX - unat offset")
  case True
  with ok e show ?thesis by (auto simp: s_quic_stream_input_def Let_def)
next
  case fits: False
  show ?thesis
  proof (cases "stream_room env (unat offset + length data) c")
    case None
    with ok e fits show ?thesis
      by (auto simp: s_quic_stream_input_def Let_def rx_ok_def rx_stream_def split: if_splits option.splits)
  next
    case (Some p)
    obtain b c1 where p: "p = (b, c1)" by force
    note s = stream_room_spec [OF ok Some [unfolded p]]
    from e fits Some p have e': "(r, c') = (let fin_c = (\<lambda>c'. if fin then c'\<lparr>rx_fin := True\<rparr> else c') in
              if unat offset = rx_len c1 then
                (True, fin_c (c1\<lparr>rx := Some (take (unat offset) b @ data @ drop (unat offset + length data) b), rx_len := rx_len c1 + length data\<rparr>))
              else if unat offset + length data \<le> rx_len c1 then (True, fin_c c1) else (False, c1))"
      by (simp add: s_quic_stream_input_def Let_def)
    have len: "length (rx_stream c) = rx_len c" by (rule length_rx_stream [OF ok])
    show ?thesis
    proof (cases "unat offset = rx_len c")
      case True
      with e' s have "r" "rx c' = Some (rx_stream c @ data @ drop (rx_len c + length data) b)"
        "rx_len c' = rx_len c + length data" "rx_fin c' = (fin \<or> rx_fin c)" "rx_pos c' = rx_pos c"
        by (auto simp: Let_def split: if_splits)
      with True s len show ?thesis by (simp add: rx_buffer)
    next
      case False
      with e' s have "rx c' = Some b" "rx_len c' = rx_len c" "rx_pos c' = rx_pos c"
        "r \<longleftrightarrow> unat offset + length data \<le> rx_len c" "rx_fin c' = (r \<and> fin \<or> rx_fin c)"
        by (auto simp: Let_def split: if_splits)
      with False s show ?thesis by (simp add: rx_buffer)
    qed
  qed
qed

lemma stream_input_accepts:
  assumes ok: "rx_ok c" and off: "unat offset \<le> rx_len c"
    and cont: "unat offset = rx_len c \<or> unat offset + length data \<le> rx_len c"
    and lim: "unat offset + length data \<le> S_QUIC_STREAM_MAX"
    and room: "stream_room env (unat offset + length data) c \<noteq> None"
  shows "fst (s_quic_stream_input env offset data fin c)"
proof -
  from room obtain b c1 where r: "stream_room env (unat offset + length data) c = Some (b, c1)" by force
  with stream_room_spec [OF ok r] cont lim show ?thesis by (auto simp: s_quic_stream_input_def Let_def)
qed

text \<open>The data of stream frames, offset and bytes, in the order they are processed.\<close>

definition stream_inputs :: "quic_env \<Rightarrow> (u64 \<times> bytes \<times> bool) list \<Rightarrow> quic_conn \<Rightarrow> quic_conn" where
  "stream_inputs env ps c = fold (\<lambda>(off, data, fin) c. snd (s_quic_stream_input env off data fin c)) ps c"

text \<open>C28. Stream integrity: if every piece of stream data that arrives is a piece of the byte sequence the
  peer sent, at its offset, then whatever order the pieces arrive in, however often they are repeated and
  whichever are lost or refused, the bytes received so far are a prefix of that sequence; they never shrink
  or change.\<close>

theorem stream_integrity:
  assumes "rx_ok c" and "\<exists>rest. sent_bytes = rx_stream c @ rest"
    and "\<forall>(off, data, fin) \<in> set ps. take (length data) (drop (unat off) sent_bytes) = data"
  shows "(\<exists>rest. sent_bytes = rx_stream (stream_inputs env ps c) @ rest) \<and>
    (\<exists>more. rx_stream (stream_inputs env ps c) = rx_stream c @ more)"
  using assms
proof (induction ps arbitrary: c)
  case Nil
  then show ?case by (simp add: stream_inputs_def)
next
  case (Cons p ps)
  obtain off data fin where p: "p = (off, data, fin)" by (cases p)
  obtain r c' where e: "s_quic_stream_input env off data fin c = (r, c')" by force
  note s = stream_input_cases [OF Cons.prems(1) e]
  have step: "stream_inputs env (p # ps) c = stream_inputs env ps c'" by (simp add: stream_inputs_def p e)
  from Cons.prems(2) obtain rest where rest: "sent_bytes = rx_stream c @ rest" by blast
  have piece: "take (length data) (drop (unat off) sent_bytes) = data" using Cons.prems(3) p by simp
  have "(\<exists>rest'. sent_bytes = rx_stream c' @ rest') \<and> (\<exists>more. rx_stream c' = rx_stream c @ more)"
  proof (cases "r \<and> unat off = rx_len c")
    case True
    then have "drop (unat off) sent_bytes = rest" using rest length_rx_stream [OF Cons.prems(1)] by simp
    then have "rest = data @ drop (length data) rest" using piece by (metis append_take_drop_id)
    with True s rest have "sent_bytes = rx_stream c' @ drop (length data) rest" "rx_stream c' = rx_stream c @ data"
      by auto
    then show ?thesis by blast
  next
    case False
    then have "rx_stream c' = rx_stream c" using s by (auto split: if_splits)
    with rest show ?thesis by auto
  qed
  then obtain rest' more where c': "sent_bytes = rx_stream c' @ rest'" "rx_stream c' = rx_stream c @ more" by blast
  with Cons.IH [of c'] s Cons.prems(3) show ?case unfolding step by fastforce
qed

section \<open>Packets between the two ends\<close>

text \<open>What the connection relies on of the cipher suite: sealing keeps the length, its tag has 16 bytes and
  opening under the same key, nonce and header gives the text back; a header protection mask has at least
  five bytes.\<close>

definition crypto_laws :: "quic_env \<Rightarrow> bool" where
  "crypto_laws env \<longleftrightarrow>
     (\<forall>key nonce aad plain text tag. e_seal env key nonce aad plain = Some (text, tag) \<longrightarrow>
        length text = length plain \<and> length tag = 16 \<and> e_open env key nonce aad text tag = Some plain) \<and>
     (\<forall>key sample msk. e_mask env key sample = Some msk \<longrightarrow> 5 \<le> length msk)"

lemma crypto_seal:
  "crypto_laws env \<Longrightarrow> quic_seal env k pn aad plain = Some (text, tag) \<Longrightarrow>
     length text = length plain \<and> length tag = 16 \<and> quic_unseal env k pn aad text tag = Some plain"
  unfolding crypto_laws_def quic_seal_def quic_unseal_def by blast

lemma length_mask_header [simp]: "length (mask_header bits off n msk pkt) = length pkt"
  by (simp add: mask_header_def)

lemma nth_mask_header:
  "i < length pkt \<Longrightarrow> mask_header bits off n msk pkt ! i =
     (if i = 0 then pkt ! i XOR (msk ! 0 AND bits)
      else if off \<le> i \<and> i < off + n then pkt ! i XOR msk ! (1 + (i - off)) else pkt ! i)"
  by (cases i) (simp_all add: mask_header_def)

lemma mask_header_undo: "mask_header bits off n msk (mask_header bits off n msk pkt) = pkt"
  by (rule nth_equalityI) (auto simp: nth_mask_header bit_eq_iff bit_simps)

lemma mask_header_outside:
  assumes "0 < a" "b \<le> off" "b \<le> length pkt"
  shows "take (b - a) (drop a (mask_header bits off n msk pkt)) = take (b - a) (drop a pkt)"
  using assms by (intro nth_equalityI) (auto simp: nth_mask_header)

lemma mask_header_after:
  assumes "off + n \<le> a" "0 < a"
  shows "drop a (mask_header bits off n msk pkt) = drop a pkt"
  using assms by (intro nth_equalityI) (auto simp: nth_mask_header)

lemma pn_roundtrip:
  assumes "unat pn < 2 ^ 32"
  shows "be_acc 0 (pn_bytes 4 pn) = pn" "length (pn_bytes 4 pn) = 4"
proof -
  have "pn_bytes 4 pn = map (\<lambda>i. of_nat (unat pn div 256 ^ (4 - 1 - i))) [0..<4]"
    unfolding pn_bytes_def byte_digit ..
  moreover have "unat pn div 256 ^ 4 = 0" using assms by simp
  ultimately have "be_nat 0 (pn_bytes 4 pn) = unat pn" using be_nat_digits [of "unat pn" 4] by metis
  moreover have "unat (be_acc 0 (pn_bytes 4 pn)) = be_nat 0 (pn_bytes 4 pn)"
    using be_acc_nat [of 0 0 "pn_bytes 4 pn"] by (simp add: pn_bytes_def)
  ultimately show "be_acc 0 (pn_bytes 4 pn) = pn" by (simp add: word_unat_eq_iff)
  show "length (pn_bytes 4 pn) = 4" by (simp add: pn_bytes_def)
qed

lemma unprotect_protect:
  assumes laws: "crypto_laws env" and p: "protect env k pn bits (h @ pn_bytes 4 pn) plain = Some pkt"
    and h: "h \<noteq> []" "h ! 0 AND 0x03 = 0x03" and pn: "unat pn < 2 ^ 32" and len: "length plain \<le> 1500"
  shows "unprotect env k bits (length h) (length pkt) (pkt @ rest) = Some (pn, plain) \<and>
     length pkt = length h + 4 + length plain + 16 \<and> take (length h - 1) (drop 1 pkt) = tl h \<and>
     (\<exists>m. pkt ! 0 = h ! 0 XOR (m AND bits))"
proof -
  let ?hdr = "h @ pn_bytes 4 pn"
  note pnl = pn_roundtrip(2) [OF pn]
  from p obtain ctext tag msk where s: "quic_seal env k pn ?hdr plain = Some (ctext, tag)"
    and m: "e_mask env (k_hp k) (take 16 (ctext @ tag)) = Some msk"
    and pkt: "pkt = mask_header bits (length h) 4 msk (?hdr @ ctext @ tag)"
    using pnl by (auto simp: protect_def split: option.splits)
  note c = crypto_seal [OF laws s]
  have l: "length pkt = length h + 4 + length plain + 16" using c pnl by (simp add: pkt)
  have dr: "drop (length h + 4) pkt = ctext @ tag"
    using mask_header_after [of "length h" 4 "length h + 4" bits msk "?hdr @ ctext @ tag"] pnl by (simp add: pkt)
  have undo: "mask_header bits (length h) 4 msk pkt = ?hdr @ ctext @ tag" by (simp add: pkt mask_header_undo)
  have p0: "pkt ! 0 = h ! 0 XOR (msk ! 0 AND bits)" using h by (simp add: pkt nth_mask_header nth_append)
  have "(pkt ! 0 XOR (msk ! 0 AND bits)) AND 0x03 = h ! 0 AND 0x03" unfolding p0 by (rule bit_word_eqI) (auto simp: bit_simps)
  then have n4: "unat ((pkt ! 0 XOR (msk ! 0 AND bits)) AND 0x03) + 1 = 4" using h by simp
  have at0: "(pkt @ rest) ! 0 = pkt ! 0" using l by (simp add: nth_append)
  have sample: "take 16 (drop (length h + 4) (pkt @ rest)) = take 16 (ctext @ tag)" using dr l c by simp
  have "unprotect env k bits (length h) (length pkt) (pkt @ rest) = Some (pn, plain)"
    unfolding unprotect_def sample m at0 option.case Let_def n4
    using l c pnl len pn_roundtrip(1) [OF pn] by (simp add: undo)
  moreover have "take (length h - 1) (drop 1 pkt) = tl h"
    using mask_header_outside [of 1 "length h" "length h" "?hdr @ ctext @ tag" bits 4 msk] h(1)
    by (simp add: pkt drop_Suc)
  ultimately show ?thesis using l p0 by blast
qed

text \<open>Two ends of a connection at a level: opposite roles, the sender's keys, the identifier the sender
  addresses, and the same cipher suite.\<close>

definition ends :: "nat \<Rightarrow> quic_env \<Rightarrow> quic_conn \<Rightarrow> quic_env \<Rightarrow> quic_conn \<Rightarrow> bool" where
  "ends level env c env' d \<longleftrightarrow>
     (is_server d \<longleftrightarrow> \<not> is_server c) \<and> keys d (is_server c) level = keys c (is_server c) level \<and>
     local_cid d = peer_cid c \<and> length (peer_cid c) = 8 \<and> length (local_cid c) = 8 \<and>
     e_open env' = e_open env \<and> e_mask env' = e_mask env"

lemma unprotect_same:
  "e_open env' = e_open env \<Longrightarrow> e_mask env' = e_mask env \<Longrightarrow> unprotect env' k bits off n pkt = unprotect env k bits off n pkt"
proof -
  assume e: "e_open env' = e_open env" and m: "e_mask env' = e_mask env"
  have q: "quic_unseal env' = quic_unseal env" by (intro ext) (simp add: quic_unseal_def e)
  show ?thesis unfolding unprotect_def m q ..
qed

lemma send_frames_True:
  assumes "s_quic_send_frames env level fr rt pad_to c = (True, c1)"
  obtains pkt where "sent c1 = pkt # sent c" "k_have (keys c (is_server c) level)" "length fr \<le> 1400"
    "(if level \<noteq> S_QUIC_APP then build_long env c level (tx_pn c level) fr pad_to else build_short env c (tx_pn c level) fr) = Some pkt"
    "tx_pn c1 level = tx_pn c level + 1" "e_sendto env pkt"
    "\<exists>fl. c1 = c\<lparr>tx_pn := (tx_pn c)(level := tx_pn c level + 1), sent := pkt # sent c, flight := fl\<rparr>"
proof -
  have u: "long_prefix (c\<lparr>tx_pn := t\<rparr>) level = long_prefix c level" for t by (simp add: long_prefix_def)
  have b: "build_long env (c\<lparr>tx_pn := t\<rparr>) level pn fr pad_to = build_long env c level pn fr pad_to"
    "build_short env (c\<lparr>tx_pn := t\<rparr>) pn fr = build_short env c pn fr" for t pn
    unfolding build_long_def build_short_def by (simp_all add: u cong: option.case_cong prod.case_cong if_cong)
  from assms obtain pkt where bl: "(if level \<noteq> S_QUIC_APP then build_long env c level (tx_pn c level) fr pad_to
      else build_short env c (tx_pn c level) fr) = Some pkt" and so: "e_sendto env pkt"
    by (auto simp: s_quic_send_frames_def Let_def b split: if_splits option.splits)
  have fl: "\<exists>fl. c1 = c\<lparr>tx_pn := (tx_pn c)(level := tx_pn c level + 1), sent := pkt # sent c, flight := fl\<rparr>"
  proof -
    define u where "u = c\<lparr>tx_pn := (tx_pn c)(level := tx_pn c level + 1), sent := pkt # sent c\<rparr>"
    from assms bl so have "c1 = u \<or> (\<exists>fl. c1 = u\<lparr>flight := fl\<rparr>)"
      by (auto simp: s_quic_send_frames_def Let_def b u_def split: if_splits)
    moreover have "u = u\<lparr>flight := flight u\<rparr>" by simp
    ultimately obtain fl where "c1 = u\<lparr>flight := fl\<rparr>" by metis
    then show ?thesis by (auto simp: u_def)
  qed
  have kh: "k_have (keys c (is_server c) level)" "length fr \<le> 1400"
    using assms by (auto simp: s_quic_send_frames_def Let_def split: if_splits)
  from fl have "sent c1 = pkt # sent c" "tx_pn c1 level = tx_pn c level + 1" by auto
  from that [OF this(1) kh bl this(2) so fl] show ?thesis .
qed

lemma masked_bits:
  fixes a m b c :: u8
  assumes "b AND c = 0"
  shows "(a XOR (m AND b)) AND c = a AND c"
proof -
  have "(a XOR (m AND b)) AND c = (a AND c) XOR (m AND (b AND c))" by (rule bit_word_eqI) (auto simp: bit_simps)
  with assms show ?thesis by simp
qed

lemma short_packet_opens:
  assumes laws: "crypto_laws env" and ends: "ends S_QUIC_APP env c env' d" and pn: "unat pn < 2 ^ 32"
    and b: "build_short env c pn fr = Some pkt" and kh: "k_have (keys c (is_server c) S_QUIC_APP)"
  shows "s_quic_open_packet env' pkt d = open_plain env' S_QUIC_APP pn fr (length pkt) d \<and>
    pkt ! 0 AND 0x80 = 0 \<and> length pkt = 29 + length fr"
proof -
  let ?k = "keys c (is_server c) S_QUIC_APP" and ?h = "0x43 # peer_cid c"
  have cid: "length (peer_cid c) = 8" "local_cid d = peer_cid c" using ends by (auto simp: ends_def)
  from b cid have p: "protect env ?k pn 0x1f (?h @ pn_bytes 4 pn) fr = Some pkt" and fr: "length fr \<le> 1471"
    by (auto simp: build_short_def S_QUIC_CID_LEN_def split: if_splits)
  have "unprotect env ?k 0x1f 9 (length pkt) pkt = Some (pn, fr) \<and> length pkt = 29 + length fr \<and>
      take 8 (drop 1 pkt) = peer_cid c \<and> (\<exists>m. pkt ! 0 = 0x43 XOR (m AND 0x1f))"
    using unprotect_protect [OF laws p _ _ pn, of "[]"] fr cid by (simp add: add.commute) metis
  then obtain m where u: "unprotect env ?k 0x1f 9 (length pkt) pkt = Some (pn, fr)" and l: "length pkt = 29 + length fr"
    and t: "take 8 (drop 1 pkt) = peer_cid c" and m: "pkt ! 0 = 0x43 XOR (m AND 0x1f)"
    by blast
  have hi: "pkt ! 0 AND 0x80 = 0" by (simp add: m masked_bits)
  have "short_header pkt d = Some (S_QUIC_APP, 9, length pkt)" using l t cid by (simp add: short_header_def S_QUIC_CID_LEN_def)
  moreover have "keys d (\<not> is_server d) S_QUIC_APP = ?k" using ends by (simp add: ends_def)
  moreover have "unprotect env' ?k 0x1f 9 (length pkt) pkt = Some (pn, fr)" using u ends unprotect_same [of env' env] by (simp add: ends_def)
  ultimately show ?thesis using hi l kh by (simp add: s_quic_open_packet_def)
qed

subsection \<open>Frames\<close>

lemma get_varint_append: "v < 2 ^ 62 \<Longrightarrow> s_quic_get_varint (varint_bytes v @ rest) = Some (v, rest)"
  by (rule get_put_varint)

lemma ack_first_bound: "first \<le> 63 \<Longrightarrow> ack_first m first \<le> 63"
  by (induction m first rule: ack_first.induct) (subst ack_first.simps, simp)

lemma small_word: "n < 2 ^ 62 \<Longrightarrow> (of_nat n :: u64) < 2 ^ 62 \<and> unat (of_nat n :: u64) = n"
  by (simp add: word_less_nat_alt unat_of_nat)

lemma put_v_eq: "put_v cap v acc = Some r \<Longrightarrow> r = acc @ varint_bytes v"
  by (auto simp: put_v_def s_quic_put_varint_def split: if_splits)

lemma encode_ack_bytes:
  assumes "s_quic_encode_ack c level cap = Some ack"
  shows "ack = [] \<or> (rx_have c level \<and>
    ack = 0x02 # varint_bytes (rx_max c level) @ varint_bytes 0 @ varint_bytes 0 @ varint_bytes (of_nat (ack_first (rx_mask c level) 0)))"
  using assms by (auto simp: s_quic_encode_ack_def bind_eq_Some_conv dest!: put_v_eq split: if_splits)

lemma ack_frame_encoded:
  assumes "a < 2 ^ 62" "f < 2 ^ 62"
  shows "ack_frame level 2 (varint_bytes a @ varint_bytes 0 @ varint_bytes 0 @ varint_bytes f @ rest) d =
    (Good, s_quic_apply_ack level a f d, rest)"
  using assms by (simp add: ack_frame_def get_varint_append)

lemma apply_ack_flight: "\<exists>fl. s_quic_apply_ack level a f d = d\<lparr>flight := fl\<rparr>"
proof -
  have "\<exists>fl. d = d\<lparr>flight := fl\<rparr>" by (rule exI [of _ "flight d"]) simp
  then show ?thesis by (auto simp: s_quic_apply_ack_def Let_def)
qed

lemma parse_ack:
  assumes "s_quic_encode_ack c level cap = Some ack" and "rx_have c level \<Longrightarrow> rx_max c level < 2 ^ 62"
  shows "\<exists>fl. s_quic_parse_frames env level (ack @ rest) d = s_quic_parse_frames env level rest (d\<lparr>flight := fl\<rparr>)"
proof (cases "ack = []")
  case True
  show ?thesis unfolding True append_Nil by (rule exI [of _ "flight d"]) simp
next
  case False
  let ?f = "of_nat (ack_first (rx_mask c level) 0) :: u64"
  from encode_ack_bytes [OF assms(1)] False have h: "rx_have c level"
    and ack: "ack = 0x02 # varint_bytes (rx_max c level) @ varint_bytes 0 @ varint_bytes 0 @ varint_bytes ?f" by auto
  have "ack_first (rx_mask c level) 0 \<le> 63" by (rule ack_first_bound) simp
  then have f: "?f < 2 ^ 62" using small_word [of "ack_first (rx_mask c level) 0"] by simp
  have "s_quic_parse_frames env level (ack @ rest) d =
      s_quic_parse_frames env level rest (s_quic_apply_ack level (rx_max c level) ?f d)"
    using ack_frame_encoded [OF assms(2) [OF h] f] by (subst s_quic_parse_frames.simps) (simp add: ack)
  moreover obtain fl where "s_quic_apply_ack level (rx_max c level) ?f d = d\<lparr>flight := fl\<rparr>"
    using apply_ack_flight by blast
  ultimately show ?thesis by (intro exI [of _ fl]) simp
qed

lemma parse_stream_frame:
  assumes "toff < 2 ^ 62" and "length chunk < 2 ^ 62"
  shows "s_quic_parse_frames env level (0x0e # varint_bytes 0 @ varint_bytes toff @ varint_bytes (of_nat (length chunk)) @ chunk) d =
    (case s_quic_stream_input env toff chunk False d of (True, d1) \<Rightarrow> (Good, d1) | (False, d1) \<Rightarrow> (Bad, d1))"
proof -
  have b: "(0x0e :: u8) AND 0x04 \<noteq> 0" "(0x0e :: u8) AND 0x02 \<noteq> 0" "(0x0e :: u8) AND 0x01 = 0" "(0x0e :: u8) AND 0xf8 = 8" by simp_all
  note w = small_word [OF assms(2)]
  have "stream_frame env 0x0e (varint_bytes 0 @ varint_bytes toff @ varint_bytes (of_nat (length chunk)) @ chunk) d =
      (let (ok, d1) = s_quic_stream_input env toff chunk False d in (if ok then Good else Bad, d1, []))"
    using assms w by (simp add: stream_frame_def get_varint_append)
  then show ?thesis
    by (subst s_quic_parse_frames.simps) (auto simp: Let_def s_quic_parse_frames.simps [of env level "[]"] split: prod.splits)
qed

subsection \<open>The receive buffer\<close>

text \<open>The buffer starts with 8 KiB and is doubled, so up to the limit there is always a capacity that fits.\<close>

definition cap_ok :: "nat \<Rightarrow> bool" where
  "cap_ok n \<longleftrightarrow> n \<in> {8192, 16384, 32768, 65536, 131072, 262144}"

lemma stream_cap_total:
  "cap_ok n \<Longrightarrow> need \<le> S_QUIC_STREAM_MAX \<Longrightarrow> \<exists>m. stream_cap n need = Some m \<and> cap_ok m"
proof (induction n need rule: stream_cap.induct)
  case (1 n need)
  show ?case
  proof (cases "n < need")
    case False
    with 1 show ?thesis by (subst stream_cap.simps) simp
  next
    case True
    with 1 have "n \<le> S_QUIC_STREAM_MAX div 2" "n \<noteq> 0" "cap_ok (n * 2)" by (auto simp: cap_ok_def)
    with True 1 show ?thesis by (subst stream_cap.simps) simp
  qed
qed

definition rx_wf :: "quic_conn \<Rightarrow> bool" where
  "rx_wf d \<longleftrightarrow> rx_ok d \<and> (\<forall>b. rx d = Some b \<longrightarrow> cap_ok (length b))"

lemma stream_room_total:
  assumes "rx_wf d" "need \<le> S_QUIC_STREAM_MAX" "\<And>n. e_alloc env n"
  shows "\<exists>b d1. stream_room env need d = Some (b, d1) \<and> cap_ok (length b) \<and> (\<exists>x. d1 = d\<lparr>rx := x\<rparr>)"
proof -
  define b where "b = (case rx d of Some b \<Rightarrow> b | None \<Rightarrow> replicate 8192 0)"
  define d0 where "d0 = d\<lparr>rx := Some b\<rparr>"
  have d0: "(case rx d of Some b \<Rightarrow> Some (b, d)
      | None \<Rightarrow> if e_alloc env 8192 then Some (replicate 8192 0, d\<lparr>rx := Some (replicate 8192 0)\<rparr>) else None) = Some (b, d0)"
    using assms(3) by (auto simp: b_def d0_def split: option.splits)
  have cb: "cap_ok (length b)" using assms(1) by (auto simp: rx_wf_def b_def cap_ok_def split: option.splits)
  from stream_cap_total [OF cb assms(2)] obtain m where m: "stream_cap (length b) need = Some m" "cap_ok m" by blast
  show ?thesis
  proof (cases "need > length b")
    case True
    have l: "rx_len d \<le> length b" using assms(1) by (auto simp: rx_wf_def rx_ok_def b_def split: option.splits)
    have "length b \<le> m" using stream_cap_ge [OF m(1)] by simp
    then have "cap_ok (length (take (rx_len d) b @ replicate (m - rx_len d) 0))" using m(2) l by simp
    with True m(1) assms(3) show ?thesis unfolding stream_room_def d0 by (auto simp: Let_def d0_def)
  next
    case False
    with cb show ?thesis unfolding stream_room_def d0 by (auto simp: d0_def)
  qed
qed

lemma stream_input_continues:
  assumes wf: "rx_wf d" and off: "unat toff = rx_len d" and lim: "rx_len d + length data \<le> S_QUIC_STREAM_MAX"
    and al: "\<And>n. e_alloc env n"
  obtains d1 where "s_quic_stream_input env toff data False d = (True, d1)" "rx_wf d1" "rx_stream d1 = rx_stream d @ data"
    "rx_len d1 = rx_len d + length data" "\<exists>x n. d1 = d\<lparr>rx := x, rx_len := n\<rparr>"
proof -
  from stream_room_total [OF wf, of "unat toff + length data" env] off lim al obtain b d0 x where
    r: "stream_room env (unat toff + length data) d = Some (b, d0)" "cap_ok (length b)" "d0 = d\<lparr>rx := x\<rparr>" by auto
  have ok: "rx_ok d" using wf by (simp add: rx_wf_def)
  note s = stream_room_spec [OF ok r(1)]
  define d1 where "d1 = d0\<lparr>rx := Some (take (unat toff) b @ data @ drop (unat toff + length data) b), rx_len := rx_len d0 + length data\<rparr>"
  have e: "s_quic_stream_input env toff data False d = (True, d1)"
    using off lim r(1) s by (simp add: s_quic_stream_input_def Let_def d1_def)
  note c = stream_input_cases [OF ok e]
  have len: "rx_len d1 = rx_len d + length data" using s by (simp add: d1_def)
  have wf1: "rx_wf d1" using c r(2) s off length_rx_stream [OF ok] by (simp add: rx_wf_def d1_def)
  have st: "rx_stream d1 = rx_stream d @ data" using c off by simp
  have "\<exists>x n. d1 = d\<lparr>rx := x, rx_len := n\<rparr>" unfolding d1_def r(3) by (intro exI) simp
  from that [OF e wf1 st len this] show ?thesis .
qed

subsection \<open>Delivery\<close>

text \<open>A sender and a receiver with everything sent so far received: the receiver continues where the
  sender's stream is, and has seen no packet number the sender has not used.\<close>

definition link :: "quic_env \<Rightarrow> quic_conn \<Rightarrow> quic_env \<Rightarrow> quic_conn \<Rightarrow> bool" where
  "link env c env' d \<longleftrightarrow>
     ends S_QUIC_APP env c env' d \<and> rx_wf d \<and> unat (tx_off c) = rx_len d \<and>
     (rx_have d S_QUIC_APP \<longrightarrow> rx_max d S_QUIC_APP < tx_pn c S_QUIC_APP) \<and>
     (rx_have c S_QUIC_APP \<longrightarrow> rx_max c S_QUIC_APP < 2 ^ 62)"

lemma note_rx_fresh:
  assumes "rx_have d level \<longrightarrow> rx_max d level < pn"
  obtains d1 m where "s_quic_note_rx level pn d = (False, d1)" "rx_max d1 level = pn"
    "d1 = d\<lparr>rx_have := (rx_have d)(level := True), rx_max := (rx_max d)(level := pn), rx_mask := m\<rparr>"
proof (cases "rx_have d level")
  case True
  then have "rx_have d = (rx_have d)(level := True)" by (intro fun_upd_idem [symmetric]) simp
  then have "d\<lparr>rx_mask := m, rx_max := x\<rparr> = d\<lparr>rx_have := (rx_have d)(level := True), rx_max := x, rx_mask := m\<rparr>" for m x
    by simp
  with True assms show ?thesis by (intro that) (auto simp: s_quic_note_rx_def Let_def)
next
  case False
  then show ?thesis by (intro that) (auto simp: s_quic_note_rx_def)
qed

lemma stream_frame_shape:
  "stream_frame_bytes c chunk = Some fr \<Longrightarrow> \<exists>ack. s_quic_encode_ack c S_QUIC_APP 1200 = Some ack \<and>
     fr = ack @ 0x0e # varint_bytes 0 @ varint_bytes (tx_off c) @ varint_bytes (of_nat (length chunk)) @ chunk"
  by (auto simp: stream_frame_bytes_def bind_eq_Some_conv dest!: put_v_eq)

text \<open>One chunk: the packet is accepted and extends the stream.\<close>

lemma chunk_delivered:
  assumes laws: "crypto_laws env" and lk: "link env c env' d" and fr: "stream_frame_bytes c chunk = Some fr"
    and snd: "s_quic_send_frames env S_QUIC_APP fr True 0 c = (True, c1)"
    and lim: "rx_len d + length chunk \<le> S_QUIC_STREAM_MAX" and pn: "unat (tx_pn c S_QUIC_APP) < 2 ^ 32 - 1"
    and al: "\<And>n. e_alloc env' n"
  obtains pkt d1 where "sent c1 = pkt # sent c" "s_quic_ingest env' pkt d = (Good, d1)"
    "rx_stream d1 = rx_stream d @ chunk" "link env (c1\<lparr>tx_off := tx_off c1 + of_nat (length chunk)\<rparr>) env' d1"
    "rx_len d1 = rx_len d + length chunk"
proof -
  let ?pn = "tx_pn c S_QUIC_APP"
  have en: "ends S_QUIC_APP env c env' d" and wf: "rx_wf d" and off: "unat (tx_off c) = rx_len d"
    and fresh: "rx_have d S_QUIC_APP \<longrightarrow> rx_max d S_QUIC_APP < ?pn"
    and mx: "rx_have c S_QUIC_APP \<Longrightarrow> rx_max c S_QUIC_APP < 2 ^ 62" using lk by (auto simp: link_def)
  from send_frames_True [OF snd] obtain pkt fl where pkt: "sent c1 = pkt # sent c" "k_have (keys c (is_server c) S_QUIC_APP)"
    "build_short env c ?pn fr = Some pkt"
    "c1 = c\<lparr>tx_pn := (tx_pn c)(S_QUIC_APP := ?pn + 1), sent := pkt # sent c, flight := fl\<rparr>" by (metis (full_types))
  have "unat ?pn < 2 ^ 32" using pn by simp
  note op = short_packet_opens [OF laws en this pkt(3,2)]
  from note_rx_fresh [OF fresh] obtain d0 m where n: "s_quic_note_rx S_QUIC_APP ?pn d = (False, d0)" "rx_max d0 S_QUIC_APP = ?pn"
    and d0: "d0 = d\<lparr>rx_have := (rx_have d)(S_QUIC_APP := True), rx_max := (rx_max d)(S_QUIC_APP := ?pn), rx_mask := m\<rparr>" .
  from stream_frame_shape [OF fr] obtain ack where ack: "s_quic_encode_ack c S_QUIC_APP 1200 = Some ack"
    and fr': "fr = ack @ 0x0e # varint_bytes 0 @ varint_bytes (tx_off c) @ varint_bytes (of_nat (length chunk)) @ chunk" by blast
  from parse_ack [OF ack mx] obtain fl' where pa: "s_quic_parse_frames env' S_QUIC_APP fr d0 =
      s_quic_parse_frames env' S_QUIC_APP (0x0e # varint_bytes 0 @ varint_bytes (tx_off c) @ varint_bytes (of_nat (length chunk)) @ chunk) (d0\<lparr>flight := fl'\<rparr>)"
    unfolding fr' by blast
  let ?d = "d0\<lparr>flight := fl'\<rparr>"
  have same: "rx_wf ?d" "rx_len ?d = rx_len d" "rx_stream ?d = rx_stream d"
    using wf by (auto simp: d0 rx_wf_def rx_ok_def rx_stream_def split: option.splits)
  have small: "tx_off c < 2 ^ 62" "length chunk < 2 ^ 62" using off lim by (simp_all add: word_less_nat_alt)
  have "unat (tx_off c) = rx_len ?d" "rx_len ?d + length chunk \<le> S_QUIC_STREAM_MAX" using same off lim by simp_all
  from stream_input_continues [OF same(1) this al, unfolded same] obtain d1 x k where
    s: "s_quic_stream_input env' (tx_off c) chunk False ?d = (True, d1)" "rx_wf d1" "rx_stream d1 = rx_stream d @ chunk"
    "rx_len d1 = rx_len d + length chunk" "d1 = ?d\<lparr>rx := x, rx_len := k\<rparr>" by metis
  have "s_quic_parse_frames env' S_QUIC_APP fr d0 = (Good, d1)" unfolding pa parse_stream_frame [OF small] s(1) by simp
  then have opn: "s_quic_open_packet env' pkt d = (PktOk, length pkt, d1)" using op n by (simp add: open_plain_def)
  have ing: "s_quic_ingest env' pkt d = (Good, d1)" using op by (subst s_quic_ingest.simps) (auto simp: opn)
  have "unat (tx_off c + of_nat (length chunk)) = rx_len d1"
    using off lim s(4) by (simp add: unat_word_ariths unat_of_nat)
  moreover have "?pn < ?pn + 1" using pn by (simp add: word_less_nat_alt unat_word_ariths)
  ultimately have "link env (c1\<lparr>tx_off := tx_off c1 + of_nat (length chunk)\<rparr>) env' d1"
    using s(2) en mx by (simp add: link_def pkt(4) s(5) ends_def d0)
  from that [OF pkt(1) ing s(3) this s(4)] show ?thesis .
qed

text \<open>Datagrams as the peer ingests them, in order.\<close>

fun ingest_all :: "quic_env \<Rightarrow> bytes list \<Rightarrow> quic_conn \<Rightarrow> outcome \<times> quic_conn" where
  "ingest_all env [] d = (Good, d)"
| "ingest_all env (p # ps) d = (case s_quic_ingest env p d of (Good, d1) \<Rightarrow> ingest_all env ps d1 | r \<Rightarrow> r)"

lemma write_loop_delivers:
  assumes al: "\<And>n. e_alloc env' n"
  shows "crypto_laws env \<Longrightarrow> write_loop env limit src c = (True, c1) \<Longrightarrow> link env c env' d \<Longrightarrow>
    rx_len d + length src \<le> S_QUIC_STREAM_MAX \<Longrightarrow> unat (tx_pn c S_QUIC_APP) + length src < 2 ^ 32 \<Longrightarrow>
    \<exists>pkts d1. sent c1 = rev pkts @ sent c \<and> ingest_all env' pkts d = (Good, d1) \<and> rx_stream d1 = rx_stream d @ src \<and>
      link env c1 env' d1"
proof (induction env limit src c arbitrary: d rule: write_loop.induct)
  case (1 env limit src c)
  show ?case
  proof (cases "src = []")
    case True
    with 1 show ?thesis by (intro exI [of _ "[]"] exI [of _ d]) (simp add: write_loop.simps)
  next
    case False
    let ?chunk = "take 1000 src"
    from 1(3) False obtain fr c2 where fr: "stream_frame_bytes c ?chunk = Some fr"
      and se: "s_quic_send_frames env S_QUIC_APP fr True 0 c = (True, c2)"
      and lm: "\<not> tx_off c + of_nat (length ?chunk) > limit"
      and re: "write_loop env limit (drop 1000 src) (c2\<lparr>tx_off := tx_off c2 + of_nat (length ?chunk)\<rparr>) = (True, c1)"
      by (subst (asm) write_loop.simps) (simp add: Let_def split: if_splits option.splits prod.splits bool.splits)
    have len: "length ?chunk + length (drop 1000 src) = length src" "0 < length ?chunk" using False by simp_all
    let ?c = "c2\<lparr>tx_off := tx_off c2 + of_nat (length ?chunk)\<rparr>"
    have lim: "rx_len d + length ?chunk \<le> S_QUIC_STREAM_MAX" using 1(5) len by simp
    have pn: "unat (tx_pn c S_QUIC_APP) < 2 ^ 32 - 1" using 1(6) len by linarith
    from chunk_delivered [OF 1(2,4) fr se lim pn al] obtain pkt d1 where p: "sent c2 = pkt # sent c"
      "s_quic_ingest env' pkt d = (Good, d1)" "rx_stream d1 = rx_stream d @ ?chunk" "link env ?c env' d1"
      "rx_len d1 = rx_len d + length ?chunk" by metis
    have "tx_pn ?c S_QUIC_APP = tx_pn c S_QUIC_APP + 1" by (rule send_frames_True [OF se]) simp
    then have "unat (tx_pn ?c S_QUIC_APP) = unat (tx_pn c S_QUIC_APP) + 1"
      using pn by (simp add: unat_word_ariths)
    then have "unat (tx_pn ?c S_QUIC_APP) + length (drop 1000 src) < 2 ^ 32" using 1(6) len by linarith
    moreover have "rx_len d1 + length (drop 1000 src) \<le> S_QUIC_STREAM_MAX" using p(5) 1(5) len by linarith
    ultimately obtain pkts d2 where q: "sent c1 = rev pkts @ sent ?c" "ingest_all env' pkts d1 = (Good, d2)"
      "rx_stream d2 = rx_stream d1 @ drop 1000 src" "link env c1 env' d2"
      using 1(1) [OF False refl lm fr se [symmetric] refl 1(2) re p(4)] by blast
    have "sent c1 = rev (pkt # pkts) @ sent c" "ingest_all env' (pkt # pkts) d = (Good, d2)" "rx_stream d2 = rx_stream d @ src"
      using p q by simp_all
    with q(4) show ?thesis by blast
  qed
qed

text \<open>C26. End-to-end delivery: if a connection and its peer agree on keys and identifiers and everything sent
  so far has been received, then the datagrams a successful write of any length puts on the wire, ingested by
  the peer in order, are all accepted and extend the peer's stream by exactly the bytes written, and the two
  are in step again afterwards. The cipher suite is assumed to satisfy its laws, the peer to have memory, its
  stream to stay within its 256 KiB, and packet numbers to stay below \<open>2 ^ 32\<close>.\<close>

theorem quic_write_delivers:
  assumes "crypto_laws env" and "\<And>n. e_alloc env' n" and "link env c env' d"
    and "quic_write env True src c = (True, c1)" and "rx_len d + length src \<le> S_QUIC_STREAM_MAX"
    and "unat (tx_pn c S_QUIC_APP) + length src < 2 ^ 32"
  shows "\<exists>pkts d1. sent c1 = rev pkts @ sent c \<and> ingest_all env' pkts d = (Good, d1) \<and>
    rx_stream d1 = rx_stream d @ src \<and> link env c1 env' d1"
proof -
  have "write_loop env (if is_server c then peer_bidi_local c else peer_bidi_remote c) src c = (True, c1)"
    using assms(4) by (simp add: quic_write_def split: if_splits)
  from write_loop_delivers [OF assms(2,1) this assms(3,5,6)] show ?thesis .
qed

text \<open>A cipher suite that keeps texts as they are, for examples.\<close>

definition clear_env :: quic_env where
  "clear_env = \<lparr>e_hkdf = (\<lambda>_ _ _ _ n. Some (replicate n 0)), e_mask = (\<lambda>_ _. Some [1, 2, 3, 4, 5]),
     e_seal = (\<lambda>_ _ _ p. Some (p, replicate 16 0)), e_open = (\<lambda>_ _ _ p _. Some p), e_hash = (\<lambda>_. Some (replicate 32 0)),
     e_hmac = (\<lambda>_ _. Some (replicate 32 0)), e_keygen = Some ([], replicate 32 0), e_derive = (\<lambda>_ _. Some (replicate 32 0)),
     e_cert = Some [1], e_sign = (\<lambda>_. Some [1]), e_verify = (\<lambda>_ _ _. True), e_rand = (\<lambda>n. Some (replicate n 0)),
     e_now = 0, e_sendto = (\<lambda>_. True), e_alloc = (\<lambda>_. True)\<rparr>"

definition clear_conn :: "bool \<Rightarrow> quic_conn" where
  "clear_conn srv = s_quic_conn_new\<lparr>is_server := srv, app_ready := True, keys := (\<lambda>_ _. no_keys\<lparr>k_have := True\<rparr>)\<rparr>"

lemma clear_laws: "crypto_laws clear_env"
  by (simp add: crypto_laws_def clear_env_def)

lemma clear_link: "link clear_env (clear_conn False) clear_env (clear_conn True)"
  by (simp add: link_def ends_def clear_conn_def s_quic_conn_new_def rx_wf_def rx_ok_def)

lemma clear_write: "fst (quic_write clear_env True [1, 2, 3] (clear_conn False))"
  by (simp add: quic_write_def write_loop.simps clear_conn_def clear_env_def s_quic_conn_new_def stream_frame_bytes_def
      s_quic_encode_ack_def put_v_def s_quic_put_varint_def s_quic_varint_size_def varint_bytes_def S_QUIC_FLOW_def
      s_quic_send_frames_def build_short_def protect_def quic_seal_def no_keys_def S_QUIC_CID_LEN_def)

theorem quic_write_delivers_witness:
  "\<exists>pkts d1. sent (snd (quic_write clear_env True [1, 2, 3] (clear_conn False))) = rev pkts @ [] \<and>
    ingest_all clear_env pkts (clear_conn True) = (Good, d1) \<and> rx_stream d1 = [1, 2, 3]"
proof -
  obtain c1 where c1: "quic_write clear_env True [1, 2, 3] (clear_conn False) = (True, c1)"
    using clear_write by (cases "quic_write clear_env True [1, 2, 3] (clear_conn False)") auto
  have "\<exists>pkts d1. sent c1 = rev pkts @ sent (clear_conn False) \<and> ingest_all clear_env pkts (clear_conn True) = (Good, d1) \<and>
      rx_stream d1 = rx_stream (clear_conn True) @ [1, 2, 3] \<and> link clear_env c1 clear_env d1"
    by (rule quic_write_delivers [OF clear_laws _ clear_link c1]) (simp_all add: clear_env_def clear_conn_def s_quic_conn_new_def)
  then show ?thesis unfolding c1 by (auto simp: clear_conn_def s_quic_conn_new_def rx_stream_def)
qed

theorem stream_integrity_witness:
  "\<exists>rest. [1, 2, 3, 4] = rx_stream (stream_inputs clear_env [(2, [3, 4], False), (0, [1, 2], False), (0, [1, 2], False)] s_quic_conn_new) @ rest"
  using stream_integrity [of s_quic_conn_new "[1, 2, 3, 4]" "[(2, [3, 4], False), (0, [1, 2], False), (0, [1, 2], False)]" clear_env]
  by (simp add: s_quic_conn_new_def rx_ok_def rx_stream_def)

section \<open>The end of the handshake\<close>

text \<open>C27. A connection becomes ready for application data only through a Finished message at the handshake
  level whose verify data is the MAC, under the peer's handshake secret, of everything exchanged so far: no
  other message, and no failing one, opens it.\<close>

theorem ready_needs_finished:
  assumes new: "\<not> app_ready c" and r: "app_ready (snd (s_quic_on_msg env level msg c))"
  shows "level = S_QUIC_HANDSHAKE \<and> s_quic_check_finished env c (\<not> is_server c) msg"
proof (rule ccontr)
  assume n: "\<not> ?thesis"
  have res: "snd (case x of (ok, c') \<Rightarrow> (if ok then Good else Bad, c')) = snd x" for x by (simp split: prod.split)
  obtain o1 c1 where e1: "s_quic_parse_server_hello c msg = (o1, c1)" by fastforce
  obtain o2 c2 where e2: "s_quic_parse_client_hello c msg = (o2, c2)" by fastforce
  obtain o3 c3 where e3: "s_quic_parse_ee c msg = (o3, c3)" by fastforce
  obtain o4 c4 where e4: "s_quic_parse_certificate c msg = (o4, c4)" by fastforce
  note p = hs_view_parse [of c msg, THEN hs_view_ready, unfolded e1 e2 e3 e4 snd_conv]
  have u: "app_ready (s_quic_hash_update m d) = app_ready d" for m d by (simp add: s_quic_hash_update_def)
  have q: "app_ready (snd (s_quic_derive_handshake env d)) = app_ready d" "app_ready (snd (s_quic_server_flight env d)) = app_ready d" for d
    by (rule hs_view_derive(3) [THEN hs_view_ready], rule hs_view_flight [THEN hs_view_ready])
  have if_no: "\<not> app_ready (snd (if P then x else y))"
    if "P \<Longrightarrow> \<not> app_ready (snd x)" "\<not> P \<Longrightarrow> \<not> app_ready (snd y)" for P and x y :: "outcome \<times> quic_conn"
    using that by simp
  have "\<not> app_ready (snd (s_quic_on_msg env level msg c))"
    unfolding s_quic_on_msg_def Let_def e1 e2 e3 e4
    by (intro if_no) (use n new p in \<open>simp_all add: res q u split: bool.split outcome.split\<close>)
  with r show False by simp
qed

definition hello_done :: quic_conn where
  "hello_done = s_quic_conn_new\<lparr>keys := (\<lambda>_ _. no_keys\<lparr>k_have := True\<rparr>)\<rparr>"

text \<open>A client accepts that message although the server has sent neither a certificate nor a signature.\<close>

lemma finished_without_certificate:
  "fst (s_quic_on_msg clear_env 1 ([20, 0, 0, 32] @ replicate 32 0) hello_done) = Good \<and>
   app_ready (snd (s_quic_on_msg clear_env 1 ([20, 0, 0, 32] @ replicate 32 0) hello_done)) \<and> cert_der hello_done = []"
  by code_simp

theorem ready_needs_finished_witness:
  "s_quic_check_finished clear_env hello_done True ([20, 0, 0, 32] @ replicate 32 0)"
proof -
  have "\<not> app_ready hello_done" "\<not> is_server hello_done" by (simp_all add: hello_done_def s_quic_conn_new_def)
  then show ?thesis using ready_needs_finished [of hello_done clear_env 1] finished_without_certificate by simp
qed

end
