(* ===== verification/Timers.thy ===== *)
theory Timers
  imports Wait_Protocol
begin

text \<open>
  The armed timers and \<open>suspenders_timer_fire_expired\<close>: the loop that pops overdue timers,
  re-arms the repeating ones and runs the callbacks terminates and fires each overdue timer once, in
  the order of the deadlines.
\<close>

section \<open>Callbacks do not touch the timers\<close>

definition timer_view :: "rt \<Rightarrow> _" where
  "timer_view s = (timers s, timer_heap s, alloc s)"

lemma timer_view_frame [simp]:
  "timer_view (upd_cr c f s) = timer_view s" "timer_view (upd_node n g s) = timer_view s"
  "timer_view (upd_list l h s) = timer_view s" "timer_view (suspenders_ready_enqueue c s) = timer_view s"
  "timer_view (ctx_switch_main s) = timer_view s" "timer_view (s_worker_signal w s) = timer_view s"
  "timer_view (s_wait_decide_end n s) = timer_view s" "timer_view (s_iou_cancel op s) = timer_view s"
  by (simp_all add: timer_view_def upd_cr_def upd_node_def upd_list_def suspenders_ready_enqueue_def
      ctx_switch_main_def s_worker_signal_def s_wait_decide_end_def s_iou_cancel_def Let_def split: option.split)

lemma timer_view_inbox_wake [simp]: "timer_view (s_inbox_wake c s) = timer_view s"
  by (auto simp: s_inbox_wake_def split: option.split) (simp add: timer_view_def upd_cr_def)

lemma timer_view_wake [simp]:
  "timer_view (suspenders_resume c s) = timer_view s" "timer_view (s_wake_no_preempt c s) = timer_view s"
  by (simp_all add: suspenders_resume_def s_wake_no_preempt_def Let_def split: option.split)

lemma timer_view_finish_wake [simp]: "timer_view (s_wait_finish_wake n s) = timer_view s"
  by (simp add: s_wait_finish_wake_def Let_def split: option.split)

lemma timer_view_waiter_wake: "timer_view (snd (s_waiter_wake c st s)) = timer_view s"
  by (simp add: s_waiter_wake_def Let_def split: option.split)

lemma run_timer_cb_view: "timer_view (run_timer_cb f s) = timer_view s"
proof (cases f)
  case (DeadlineCb c)
  then show ?thesis using timer_view_waiter_wake [of c SUSPENDERS_TIMEDOUT s]
    by (auto simp: s_deadline_cb_def split: option.split prod.split bool.split if_splits)
qed (auto simp: s_wait_deadline_cb_def s_sleep_cb_def s_io_timeout_cb_def timer_view_waiter_wake
      simp del: SUSPENDERS_TIMEDOUT_def, simp add: timer_view_def)

section \<open>Firing\<close>

text \<open>The heap holds exactly the active timers, and a repeating timer has the positive period that
  \<open>suspenders_timer_create\<close> insists on, a C \<open>int\<close>.\<close>

definition timers_ok :: "rt \<Rightarrow> bool" where
  "timers_ok s \<longleftrightarrow> theap_inv (timer_key s) (timer_heap s) \<and> distinct (th_data (timer_heap s)) \<and>
     (\<forall>t. t \<in> set (th_data (timer_heap s)) \<longleftrightarrow> active (timers s t)) \<and>
     (\<forall>t. active (timers s t) \<and> repeat (timers s t) \<longrightarrow>
        0 < period_ms (timers s t) \<and> period_ms (timers s t) < 2 ^ 31)"

definition expired :: "u64 \<Rightarrow> rt \<Rightarrow> timer_ref list" where
  "expired now s = filter (\<lambda>t. timer_key s t \<le> now) (th_data (timer_heap s))"

text \<open>The clock is far enough from its wrap-around that no next period passes it.\<close>

definition clock_ok :: "u64 \<Rightarrow> bool" where
  "clock_ok now \<longleftrightarrow> unat now + 2 ^ 31 * 1000000 < 2 ^ 64"

lemma next_deadline_later:
  assumes "clock_ok now" and "0 < p" and "p < 2 ^ 31"
  shows "now < now + word_of_int p * 1000000"
proof -
  define k where "k = nat p"
  have p: "p = int k" "0 < k" "k < 2 ^ 31" using assms(2,3) by (auto simp: k_def)
  have m: "unat (word_of_nat k * (1000000 :: u64)) = k * 1000000"
    using p(3) by (simp add: unat_word_ariths unat_of_nat)
  have "unat now + k * 1000000 < 2 ^ 64" using assms(1) p(3) by (simp add: clock_ok_def)
  then have "unat (now + word_of_nat k * 1000000) = unat now + k * 1000000"
    using m by (simp add: unat_word_ariths(1))
  then show ?thesis using p by (simp add: word_less_nat_alt)
qed

lemma theap_inv_cong:
  "(\<And>t. t \<in> set (th_data h) \<Longrightarrow> key t = key' t) \<Longrightarrow> theap_inv key h = theap_inv key' h"
proof -
  assume k: "\<And>t. t \<in> set (th_data h) \<Longrightarrow> key t = key' t"
  have "edge_ok key (th_data h) j = edge_ok key' (th_data h) j" if "j < length (th_data h)" for j
    using that k parent_le [of j] by (simp add: edge_ok_def)
  then show ?thesis by (simp add: theap_inv_def heap_ok_def)
qed


definition after_fire :: "u64 \<Rightarrow> timer \<Rightarrow> timer" where
  "after_fire now x =
     (if repeat x then x\<lparr>deadline_ns := now + word_of_int (period_ms x) * 1000000\<rparr> else x\<lparr>active := False\<rparr>)"

definition user_calls :: "timer_cb \<Rightarrow> (fn \<times> ptr) list" where
  "user_calls f = (case f of UserCb g a \<Rightarrow> [(g, a)] | _ \<Rightarrow> [])"

lemma calls_frame [simp]:
  "calls (upd_cr c f s) = calls s" "calls (upd_node n g s) = calls s" "calls (upd_list l h s) = calls s"
  "calls (suspenders_ready_enqueue c s) = calls s" "calls (ctx_switch_main s) = calls s"
  "calls (s_worker_signal w s) = calls s" "calls (s_wait_decide_end n s) = calls s" "calls (s_iou_cancel op s) = calls s"
  by (simp_all add: upd_cr_def upd_node_def upd_list_def suspenders_ready_enqueue_def
      ctx_switch_main_def s_worker_signal_def s_wait_decide_end_def s_iou_cancel_def Let_def split: option.split)

lemma calls_wake [simp]:
  "calls (s_inbox_wake c s) = calls s" "calls (suspenders_resume c s) = calls s" "calls (s_wake_no_preempt c s) = calls s"
  by (auto simp: s_inbox_wake_def suspenders_resume_def s_wake_no_preempt_def Let_def split: option.split)

lemma calls_finish_wake [simp]: "calls (s_wait_finish_wake n s) = calls s"
  by (simp add: s_wait_finish_wake_def Let_def split: option.split)

lemma calls_waiter_wake: "calls (snd (s_waiter_wake c st s)) = calls s"
  by (simp add: s_waiter_wake_def Let_def split: option.split)

lemma run_timer_cb_calls: "calls (run_timer_cb f s) = calls s @ user_calls f"
proof (cases f)
  case (DeadlineCb c)
  then show ?thesis using calls_waiter_wake [of c SUSPENDERS_TIMEDOUT s]
    by (auto simp: s_deadline_cb_def user_calls_def split: option.split prod.split bool.split if_splits)
qed (auto simp: s_wait_deadline_cb_def s_sleep_cb_def s_io_timeout_cb_def calls_waiter_wake user_calls_def
      simp del: SUSPENDERS_TIMEDOUT_def)

lemma mset_cons_distinct:
  "mset xs = add_mset t (mset ys) \<Longrightarrow> distinct xs \<longleftrightarrow> t \<notin> set ys \<and> distinct ys"
  using mset_eq_imp_distinct_iff [of xs "t # ys"] by simp

lemma push_with_room:
  assumes "length (th_data h) < th_cap h"
  shows "fst (suspenders_timer_heap_push a key h t)"
  using assms by (simp add: suspenders_timer_heap_push_def suspenders_timer_heap_ensure_cap_def)

lemma pop_cap: "suspenders_timer_heap_pop key h = (r, h') \<Longrightarrow> th_cap h' = th_cap h"
  by (auto simp: suspenders_timer_heap_pop_def Let_def split: if_splits)

text \<open>One turn of the loop: the popped timer is re-armed or retired, and nothing else moves.\<close>

lemma fire_one_effect:
  assumes ok: "timers_ok s" and pop: "suspenders_timer_heap_pop (timer_key s) (timer_heap s) = (Some t, h)"
    and clock: "clock_ok now"
  defines "u \<equiv> fire_one now t (s\<lparr>timer_heap := h\<rparr>)"
  shows "timers u = (timers s)(t := after_fire now (timers s t)) \<and>
     theap_inv (timer_key u) (timer_heap u) \<and>
     theap_entries (timer_heap u) = theap_entries h + (if repeat (timers s t) then {#t#} else {#}) \<and>
     theap_entries (timer_heap s) = add_mset t (theap_entries h) \<and>
     (\<forall>y \<in> set (th_data (timer_heap s)). timer_key s t \<le> timer_key s y) \<and>
     calls u = calls s @ user_calls (cb (timers s t))"
proof -
  have inv: "theap_inv (timer_key s) (timer_heap s)" and d: "distinct (th_data (timer_heap s))"
    using ok by (auto simp: timers_ok_def)
  have ne: "theap_entries (timer_heap s) \<noteq> {#}" using pop by (auto simp: suspenders_timer_heap_pop_def split: if_splits)
  from th.pop_min_some [OF inv ne] obtain t' h' where
    "suspenders_timer_heap_pop (timer_key s) (timer_heap s) = (Some t', h')" "theap_inv (timer_key s) h'"
    "theap_entries (timer_heap s) = add_mset t' (theap_entries h')"
    "\<forall>y \<in># theap_entries (timer_heap s). timer_key s t' \<le> timer_key s y" by blast
  with pop have p: "theap_inv (timer_key s) h"
    "theap_entries (timer_heap s) = add_mset t (theap_entries h)"
    "\<forall>y \<in># theap_entries (timer_heap s). timer_key s t \<le> timer_key s y" by simp_all
  have p3: "\<forall>y \<in> set (th_data (timer_heap s)). timer_key s t \<le> timer_key s y" using p(3) by (simp only: set_mset_mset)
  have tn: "t \<notin> set (th_data h)" using mset_cons_distinct [OF p(2)] d by simp
  have room: "length (th_data h) < th_cap h"
  proof -
    have "length (th_data (timer_heap s)) = Suc (length (th_data h))" using p(2) by (metis size_add_mset size_mset)
    then show ?thesis using inv pop_cap [OF pop] by (simp add: theap_inv_def)
  qed
  have key: "theap_inv k h" if "\<And>x. x \<noteq> t \<Longrightarrow> k x = timer_key s x" for k
    using p(1) theap_inv_cong [of h k "timer_key s"] that tn by metis
  show ?thesis
  proof (cases "repeat (timers s t)")
    case False
    define v where "v = upd_timer t (\<lambda>x. x\<lparr>active := False\<rparr>) (s\<lparr>timer_heap := h\<rparr>)"
    have u: "u = run_timer_cb (cb (timers v t)) v"
      using False by (simp add: u_def fire_one_def v_def Let_def upd_timer_def)
    have v: "timers v = (timers s)(t := after_fire now (timers s t))" "timer_heap v = h" "calls v = calls s"
      using False by (simp_all add: v_def upd_timer_def after_fire_def)
    have uv: "timers u = timers v" "timer_heap u = h"
      using run_timer_cb_view [of "cb (timers v t)" v] v(2) by (simp_all add: u timer_view_def)
    have "theap_inv (timer_key u) h" by (rule key) (simp add: timer_key_def uv v)
    moreover have "cb (timers v t) = cb (timers s t)" by (simp add: v after_fire_def)
    ultimately show ?thesis using False p(1,2) p3 uv v by (simp add: u run_timer_cb_calls)
  next
    case True
    define w where "w = upd_timer t (\<lambda>x. x\<lparr>deadline_ns := now + word_of_int (period_ms (timers s t)) * 1000000\<rparr>)
      (s\<lparr>timer_heap := h\<rparr>)"
    have w: "timers w = (timers s)(t := after_fire now (timers s t))" "timer_heap w = h" "calls w = calls s"
      using True by (simp_all add: w_def upd_timer_def after_fire_def)
    have hw: "theap_inv (timer_key w) h" by (rule key) (simp add: timer_key_def w)
    obtain h2 where push: "suspenders_timer_heap_push (alloc w) (timer_key w) h t = (True, h2)"
      using push_with_room [OF room, of "alloc w" "timer_key w" t] by (metis (full_types) prod.collapse)
    note r = push_result [OF hw push]
    define v where "v = w\<lparr>timer_heap := h2\<rparr>"
    have u: "u = run_timer_cb (cb (timers v t)) v"
      using True push by (simp add: u_def fire_one_def v_def w_def Let_def upd_timer_def)
    have uv: "timers u = timers w" "timer_heap u = h2"
      using run_timer_cb_view [of "cb (timers v t)" v] by (simp_all add: u timer_view_def v_def)
    have "theap_inv (timer_key u) h2" using r by (simp add: timer_key_def [abs_def] uv)
    moreover have "cb (timers v t) = cb (timers s t)" "calls v = calls s" by (simp_all add: v_def w after_fire_def)
    ultimately show ?thesis using True p(1,2) p3 uv w r by (simp add: u run_timer_cb_calls)
  qed
qed

lemma fire_one_ok:
  assumes ok: "timers_ok s" and pop: "suspenders_timer_heap_pop (timer_key s) (timer_heap s) = (Some t, h)"
    and clock: "clock_ok now" and late: "timer_key s t \<le> now"
  defines "u \<equiv> fire_one now t (s\<lparr>timer_heap := h\<rparr>)"
  shows "timers_ok u \<and> mset (expired now s) = add_mset t (mset (expired now u)) \<and>
     (\<forall>x \<in> set (expired now u). timer_key u x = timer_key s x \<and> timers u x = timers s x \<and> x \<noteq> t)"
proof -
  note e = fire_one_effect [OF ok pop clock, folded u_def]
  have d: "distinct (th_data (timer_heap s))" using ok by (simp add: timers_ok_def)
  have dh: "distinct (th_data h)" and tn: "t \<notin> set (th_data h)"
    using d mset_cons_distinct [of "th_data (timer_heap s)" t "th_data h"] e by auto
  have sets: "set (th_data (timer_heap s)) = insert t (set (th_data h))"
    using e by (metis set_mset_add_mset_insert set_mset_mset)
  have rep: "0 < period_ms (timers s t)" "period_ms (timers s t) < 2 ^ 31" if "repeat (timers s t)"
    using ok that sets unfolding timers_ok_def by blast+
  have later: "now < timer_key u t" if "repeat (timers s t)"
    using next_deadline_later [OF clock rep [OF that]] e that by (simp add: timer_key_def after_fire_def)
  have setu: "set (th_data (timer_heap u)) = (if repeat (timers s t) then insert t (set (th_data h)) else set (th_data h))"
  proof -
    have "set_mset (theap_entries (timer_heap u)) = set_mset (theap_entries h + (if repeat (timers s t) then {#t#} else {#}))"
      using e by (simp only:)
    then show ?thesis by simp
  qed
  have du: "distinct (th_data (timer_heap u))"
  proof (cases "repeat (timers s t)")
    case True
    with e have "theap_entries (timer_heap u) = add_mset t (theap_entries h)" by simp
    from mset_cons_distinct [OF this] dh tn show ?thesis by simp
  next
    case False
    with e have "theap_entries (timer_heap u) = theap_entries h" by simp
    from mset_eq_imp_distinct_iff [OF this] dh show ?thesis by simp
  qed
  have act: "x \<in> set (th_data (timer_heap u)) \<longleftrightarrow> active (timers u x)" for x
    using ok e sets setu tn by (auto simp: timers_ok_def after_fire_def)
  have per: "0 < period_ms (timers u x) \<and> period_ms (timers u x) < 2 ^ 31"
    if "active (timers u x)" "repeat (timers u x)" for x
    using ok e that rep by (auto simp: timers_ok_def after_fire_def split: if_splits)
  have keys: "timer_key u x = timer_key s x" if "x \<noteq> t" for x using e that by (simp add: timer_key_def)
  have "mset (expired now u) = filter_mset (\<lambda>x. timer_key u x \<le> now) (theap_entries (timer_heap u))"
    by (simp add: expired_def)
  also have "\<dots> = filter_mset (\<lambda>x. timer_key u x \<le> now) (theap_entries h)" using e later by auto
  also have "\<dots> = filter_mset (\<lambda>x. timer_key s x \<le> now) (theap_entries h)"
  proof (intro filter_mset_cong refl)
    fix x assume "x \<in># theap_entries h"
    with tn have "x \<noteq> t" by auto
    with keys show "(timer_key u x \<le> now) = (timer_key s x \<le> now)" by simp
  qed
  finally have m: "mset (expired now s) = add_mset t (mset (expired now u))"
    using e late by (simp add: expired_def)
  have "x \<noteq> t" if "x \<in> set (expired now u)" for x
    using that setu tn later by (auto simp: expired_def split: if_splits)
  with e act per du m keys show ?thesis by (auto simp: timers_ok_def)
qed

lemma fire_loop_correct:
  assumes "timers_ok s" and "clock_ok now"
  shows "\<exists>t fs. fire_loop now s = Some t \<and> timers_ok t \<and> expired now t = [] \<and>
     mset fs = mset (expired now s) \<and> sorted (map (timer_key s) fs) \<and>
     calls t = calls s @ concat (map (\<lambda>x. user_calls (cb (timers s x))) fs) \<and>
     (\<forall>x. timers t x = (if x \<in> set (expired now s) then after_fire now (timers s x) else timers s x))"
  using assms
proof (induction "length (expired now s)" arbitrary: s)
  case 0
  then have none: "expired now s = []" by simp
  have "fire_loop now s = Some s"
  proof (cases "suspenders_timer_heap_pop (timer_key s) (timer_heap s)")
    case (Pair r h)
    have "\<not> timer_key s t \<le> now" if "r = Some t" for t
    proof -
      have "t \<in> set (th_data (timer_heap s))"
        using Pair that by (auto simp: suspenders_timer_heap_pop_def Let_def split: if_splits)
      with none show ?thesis by (auto simp: expired_def filter_empty_conv)
    qed
    with Pair show ?thesis by (subst fire_loop.simps) (auto split: option.split)
  qed
  with 0 none show ?case by (intro exI [of _ s] exI [of _ "[]"]) simp
next
  case (Suc n)
  then obtain y where y: "y \<in> set (expired now s)" by (metis length_greater_0_conv nth_mem zero_less_Suc)
  obtain r h where pop: "suspenders_timer_heap_pop (timer_key s) (timer_heap s) = (r, h)" by fastforce
  obtain t where r: "r = Some t"
    using pop y by (cases r) (auto simp: suspenders_timer_heap_pop_def expired_def Let_def split: if_splits)
  note pop = pop [unfolded r]
  define u where "u = fire_one now t (s\<lparr>timer_heap := h\<rparr>)"
  note e = fire_one_effect [OF Suc.prems(1) pop Suc.prems(2), folded u_def]
  have late: "timer_key s t \<le> now" using e y by (force simp: expired_def)
  note o = fire_one_ok [OF Suc.prems(1) pop Suc.prems(2) late, folded u_def]
  have "length (expired now u) = n" using o Suc.hyps(2) by (metis add_left_cancel plus_1_eq_Suc size_add_mset size_mset)
  with Suc.hyps(1) [of u] o Suc.prems(2) obtain v fs where IH: "fire_loop now u = Some v" "timers_ok v" "expired now v = []"
     "mset fs = mset (expired now u)" "sorted (map (timer_key u) fs)"
     "calls v = calls u @ concat (map (\<lambda>x. user_calls (cb (timers u x))) fs)"
     "\<forall>x. timers v x = (if x \<in> set (expired now u) then after_fire now (timers u x) else timers u x)" by auto
  have fs: "set fs = set (expired now u)" using IH(4) by (metis set_mset_mset)
  have step: "fire_loop now s = Some v" using pop late IH(1) by (subst fire_loop.simps) (simp add: u_def)
  have ins: "set (expired now s) = insert t (set (expired now u))" using o by (metis set_mset_add_mset_insert set_mset_mset)
  have keys: "map (timer_key u) fs = map (timer_key s) fs" using o fs by auto
  have cbs: "map (\<lambda>x. user_calls (cb (timers u x))) fs = map (\<lambda>x. user_calls (cb (timers s x))) fs" using o fs by auto
  have "mset (t # fs) = mset (expired now s)" using IH(4) o by simp
  moreover have "sorted (map (timer_key s) (t # fs))"
  proof -
    have "set fs \<subseteq> set (th_data (timer_heap s))" using fs ins by (auto simp: expired_def)
    with IH(5) keys e show ?thesis by (auto simp: subset_iff)
  qed
  moreover have "calls v = calls s @ concat (map (\<lambda>x. user_calls (cb (timers s x))) (t # fs))"
    using IH(6) [unfolded cbs] e by (simp del: map_eq_conv)
  moreover have "timers v x = (if x \<in> set (expired now s) then after_fire now (timers s x) else timers s x)" for x
    using IH(7) ins o e by auto
  ultimately show ?case using step IH(2,3) by blast
qed


definition timers_example :: rt where
  "timers_example = blank_rt\<lparr>now_ns := 5000000,
     timers := (timers blank_rt)(THeap 1 := \<lparr>deadline_ns = 4000000, period_ms = 3, repeat = True, active = True,
       heap_allocated = True, cb = UserCb 7 8\<rparr>, THeap 2 := \<lparr>deadline_ns = 9000000, period_ms = 9, repeat = False,
       active = True, heap_allocated = True, cb = UserCb 5 6\<rparr>),
     timer_heap := \<lparr>th_data = [THeap 1, THeap 2], th_cap = 16\<rparr>\<rparr>"

lemma timers_example_ok: "timers_ok timers_example" "clock_ok (now_ns timers_example)"
  "expired 5000000 timers_example = [THeap 1]"
  by (auto simp: timers_ok_def timers_example_def blank_rt_def theap_inv_def heap_ok_def edge_ok_def parent_def
      timer_key_def clock_ok_def expired_def less_Suc_eq)


end
