(* ===== verification/Io.thy ===== *)
theory Io
  imports Timers
begin

text \<open>
  The blocking I/O layer over the poll backend: the table of registered descriptors, waiting for a descriptor
  from a coroutine or in \<open>poll\<close>, and the loops around the socket calls.

  The operating system is what the arguments say it answers: whether memory was there, which entries
  \<open>poll\<close> reports, what a socket call returned. The io_uring backend and its calls are in \<open>Io_Uring\<close>, kqueue and the
  dispatch over the backends in \<open>Backend\<close>.
\<close>

section \<open>The poll backend\<close>

record poll_entry =
  pe_fd :: int
  pe_in :: bool
  pe_out :: bool
  pe_cr :: "cr_ref option"

text \<open>The two parallel arrays are one list of entries; \<open>dangling\<close> tells that one of them has been moved by
  \<open>realloc\<close> while the backend still points to the old block.\<close>

record poll_backend =
  poll_cap :: nat
  poll_tab :: "poll_entry list"
  dangling :: bool

definition s_poll_create :: "bool \<Rightarrow> bool \<Rightarrow> bool \<Rightarrow> poll_backend option" where
  "s_poll_create mem_be mem_fds mem_crs =
     (if \<not> mem_be then None
      else if \<not> mem_fds \<or> \<not> mem_crs then None
      else Some \<lparr>poll_cap = 256, poll_tab = [], dangling = False\<rparr>)"

text \<open>\<open>grow_fds\<close> and \<open>grow_crs\<close> are the results of the two \<open>realloc\<close> calls. A call that succeeds frees the old
  block; the pointers are stored only when both succeed.\<close>

definition s_poll_register :: "bool \<Rightarrow> bool \<Rightarrow> int \<Rightarrow> bool \<Rightarrow> bool \<Rightarrow> cr_ref option \<Rightarrow> poll_backend \<Rightarrow> int \<times> poll_backend" where
  "s_poll_register grow_fds grow_crs fd ev_in ev_out c be =
     (let full = length (poll_tab be) \<ge> poll_cap be;
          be1 = (if full then be\<lparr>poll_cap := poll_cap be * 2\<rparr> else be)
      in if full \<and> (\<not> grow_fds \<or> \<not> grow_crs) then (-1, be\<lparr>dangling := dangling be \<or> grow_fds \<or> grow_crs\<rparr>)
         else (0, be1\<lparr>poll_tab := poll_tab be1 @ [\<lparr>pe_fd = fd, pe_in = ev_in, pe_out = ev_out, pe_cr = c\<rparr>]\<rparr>))"

definition s_poll_unregister :: "int \<Rightarrow> poll_backend \<Rightarrow> poll_backend" where
  "s_poll_unregister fd be = be\<lparr>poll_tab := filter (\<lambda>e. pe_fd e \<noteq> fd) (poll_tab be)\<rparr>"

text \<open>The sweep over the table after \<open>poll\<close>: entries with events wake their coroutine and go; the wake descriptor
  of the worker, which has no coroutine, is drained and stays.\<close>

fun poll_sweep :: "(poll_entry \<times> bool) list \<Rightarrow> rt \<Rightarrow> poll_entry list \<times> nat \<times> rt" where
  "poll_sweep [] s = ([], 0, s)"
| "poll_sweep ((e, hit) # es) s =
     (if hit then
        (case pe_cr e of
           Some c \<Rightarrow>
             if cr_state (crs s c) = SUSPENDED then
               (let (tab, found, s1) = poll_sweep es (suspenders_ready_enqueue c s) in (tab, found + 1, s1))
             else poll_sweep es s
         | None \<Rightarrow>
             (let (tab, found, s1) = poll_sweep es (case s_worker s of Some w \<Rightarrow> s_wake_drain w s | None \<Rightarrow> s)
              in (e # tab, found + 1, s1)))
      else (let (tab, found, s1) = poll_sweep es s in (e # tab, found, s1)))"

text \<open>\<open>n\<close> is what \<open>poll\<close> returns and \<open>revents\<close> which entries have events then. An empty table only sleeps.\<close>

definition s_poll_wait :: "int \<Rightarrow> bool list \<Rightarrow> poll_backend \<Rightarrow> rt \<Rightarrow> int \<times> poll_backend \<times> rt" where
  "s_poll_wait n revents be s =
     (if poll_tab be = [] then (0, be, s)
      else if n \<le> 0 then (n, be, s)
      else (let (tab, found, s1) = poll_sweep (zip (poll_tab be) revents) s in (int found, be\<lparr>poll_tab := tab\<rparr>, s1)))"

section \<open>Deadlines\<close>

definition s_io_effective_deadline :: "cr_ref option \<Rightarrow> rt \<Rightarrow> u64" where
  "s_io_effective_deadline co s =
     (let dl = io_deadline_ns s in
      case co of
        None \<Rightarrow> dl
      | Some c \<Rightarrow>
          if deadline_armed (crs s c) \<and> (dl = 0 \<or> deadline_ns (timers s (TDeadline c)) < dl)
          then deadline_ns (timers s (TDeadline c)) else dl)"

text \<open>The entry check of the blocking calls: whether to proceed.\<close>

definition s_io_pre :: "rt \<Rightarrow> bool \<times> rt" where
  "s_io_pre s =
     (let co = (if s_io_is_cr s then running s else None);
          canceled = (case co of None \<Rightarrow> False | Some c \<Rightarrow> cancel_requested (crs s c));
          s1 = (case co of None \<Rightarrow> s | Some c \<Rightarrow> upd_cr c (\<lambda>r. r\<lparr>cancel_requested := False\<rparr>) s);
          dl = s_io_effective_deadline co s1
      in if canceled then (False, set_errno SUSPENDERS_CANCELED s1)
         else if dl \<noteq> 0 \<and> now_ns s1 \<ge> dl then (False, set_errno SUSPENDERS_TIMEDOUT s1)
         else (True, s1))"

text \<open>The timeout for \<open>poll\<close> in milliseconds; the increment is done in 32 bits.\<close>

definition block_timeout :: "u64 \<Rightarrow> u64 \<Rightarrow> int" where
  "block_timeout dl now =
     (let ms = (dl - now) div 1000000 in
      if unat ms > 2147483647 then 2147483647 else sint (ucast ms + 1 :: 32 word))"

text \<open>\<open>polled\<close> is the result of \<open>poll\<close> for the timeout it is called with.\<close>

definition s_io_block_poll :: "(int \<Rightarrow> int) \<Rightarrow> rt \<Rightarrow> int \<times> rt" where
  "s_io_block_poll polled s =
     (let dl = io_deadline_ns s in
      if dl \<noteq> 0 \<and> now_ns s \<ge> dl then (-1, set_errno SUSPENDERS_TIMEDOUT s)
      else
        (let n = polled (if dl = 0 then -1 else block_timeout dl (now_ns s)) in
         if n = 0 then (-1, set_errno SUSPENDERS_TIMEDOUT s)
         else if n < 0 then (-1, set_errno SUSPENDERS_ERROR s)
         else (0, s)))"

section \<open>Waiting for a descriptor\<close>

text \<open>\<open>s_io_wait_ready\<close> in a coroutine on the poll backend, up to the context switch: \<open>Some\<close> with whether the
  timer was armed when the coroutine is parked, \<open>None\<close> when the registration failed.\<close>

definition io_wait_begin :: "bool \<Rightarrow> bool \<Rightarrow> int \<Rightarrow> bool \<Rightarrow> bool \<Rightarrow> cr_ref \<Rightarrow> poll_backend \<Rightarrow> rt \<Rightarrow> bool option \<times> poll_backend \<times> rt" where
  "io_wait_begin grow_fds grow_crs fd ev_in ev_out c be s =
     (let s1 = upd_cr c (\<lambda>r. r\<lparr>io_result := 0\<rparr>) s;
          (rc, be1) = s_poll_register grow_fds grow_crs fd ev_in ev_out (Some c) be
      in if rc \<noteq> 0 then (None, be1, set_errno SUSPENDERS_ERROR s1)
         else
           (let dl = s_io_effective_deadline (Some c) s1;
                (armed, s2) = (if dl \<noteq> 0 then s_timer_arm (TStack c) (upd_timer (TStack c) (\<lambda>_. fresh_timer dl (IoTimeoutCb c)) s1)
                               else (False, s1))
            in (Some armed, be1, suspenders_suspend s2)))"

text \<open>The rest, after the coroutine has been resumed.\<close>

definition io_wait_end :: "int \<Rightarrow> bool \<Rightarrow> cr_ref \<Rightarrow> poll_backend \<Rightarrow> rt \<Rightarrow> int \<times> poll_backend \<times> rt" where
  "io_wait_end fd armed c be s =
     (let s1 = (if armed then s_timer_disarm (TStack c) s else s);
          be1 = s_poll_unregister fd be;
          r = io_result (crs s1 c)
      in if r = -1 then (-1, be1, set_errno SUSPENDERS_CANCELED (upd_cr c (\<lambda>r. r\<lparr>cancel_requested := False\<rparr>) s1))
         else if r = -2 then (-1, be1, set_errno SUSPENDERS_TIMEDOUT s1)
         else (0, be1, s1))"

text \<open>The whole call: outside a coroutine, and with io_uring, a blocking \<open>poll\<close>; otherwise the coroutine is parked,
  which is the result \<open>None\<close>.\<close>

definition s_io_wait_ready ::
    "(int \<Rightarrow> int) \<Rightarrow> bool \<Rightarrow> bool \<Rightarrow> int \<Rightarrow> bool \<Rightarrow> bool \<Rightarrow> poll_backend \<Rightarrow> rt \<Rightarrow> int option \<times> bool \<times> poll_backend \<times> rt" where
  "s_io_wait_ready polled grow_fds grow_crs fd ev_in ev_out be s =
     (if \<not> s_io_is_cr s \<or> iouring s then (let (rc, s1) = s_io_block_poll polled s in (Some rc, False, be, s1))
      else
        (case io_wait_begin grow_fds grow_crs fd ev_in ev_out (the (running s)) be s of
           (None, be1, s1) \<Rightarrow> (Some (-1), False, be1, s1)
         | (Some armed, be1, s1) \<Rightarrow> (None, armed, be1, s1)))"

section \<open>Socket calls\<close>

text \<open>What a nonblocking socket call answers, and how the wait after it ends: ready, or failed with a code.\<close>

datatype sys_result = SysOk nat | SysAgain | SysErr

datatype wait_result = Ready | WaitFailed int

text \<open>The result of a blocking call: a count (or descriptor), a failure with its code, or still waiting.\<close>

datatype io_outcome = IoOk nat | IoFailed int | IoWaiting

text \<open>The loop of \<open>s_io_recv\<close>, \<open>s_io_send\<close>, \<open>s_io_readv\<close>, \<open>s_io_writev\<close>, \<open>s_io_accept\<close>, \<open>s_io_recvfrom\<close> and
  \<open>s_io_sendto\<close> on a readiness backend: each pass makes the call and, when it would block, waits.\<close>

fun io_loop :: "(sys_result \<times> wait_result) list \<Rightarrow> io_outcome" where
  "io_loop [] = IoWaiting"
| "io_loop ((SysOk n, _) # _) = IoOk n"
| "io_loop ((SysErr, _) # _) = IoFailed SUSPENDERS_ERROR"
| "io_loop ((SysAgain, WaitFailed e) # _) = IoFailed e"
| "io_loop ((SysAgain, Ready) # ps) = io_loop ps"

definition io_call :: "(sys_result \<times> wait_result) list \<Rightarrow> rt \<Rightarrow> io_outcome \<times> rt" where
  "io_call passes s =
     (case s_io_pre s of
        (False, s1) \<Rightarrow> (IoFailed (errno s1), s1)
      | (True, s1) \<Rightarrow>
          (case io_loop passes of IoFailed e \<Rightarrow> (IoFailed e, set_errno e s1) | r \<Rightarrow> (r, s1)))"

definition s_io_recv :: "(sys_result \<times> wait_result) list \<Rightarrow> rt \<Rightarrow> io_outcome \<times> rt" where
  "s_io_recv = io_call"

definition s_io_send :: "(sys_result \<times> wait_result) list \<Rightarrow> rt \<Rightarrow> io_outcome \<times> rt" where
  "s_io_send = io_call"

definition s_io_readv :: "(sys_result \<times> wait_result) list \<Rightarrow> rt \<Rightarrow> io_outcome \<times> rt" where
  "s_io_readv = io_call"

definition s_io_writev :: "(sys_result \<times> wait_result) list \<Rightarrow> rt \<Rightarrow> io_outcome \<times> rt" where
  "s_io_writev = io_call"

definition s_io_accept :: "(sys_result \<times> wait_result) list \<Rightarrow> rt \<Rightarrow> io_outcome \<times> rt" where
  "s_io_accept = io_call"

definition s_io_recvfrom :: "(sys_result \<times> wait_result) list \<Rightarrow> rt \<Rightarrow> io_outcome \<times> rt" where
  "s_io_recvfrom = io_call"

definition s_io_sendto :: "(sys_result \<times> wait_result) list \<Rightarrow> rt \<Rightarrow> io_outcome \<times> rt" where
  "s_io_sendto = io_call"

text \<open>\<open>s_io_connect\<close>: the immediate result, the wait, and the socket's pending error (\<open>None\<close> when the query fails).\<close>

definition s_io_connect :: "sys_result \<Rightarrow> wait_result \<Rightarrow> int option \<Rightarrow> rt \<Rightarrow> bool \<times> rt" where
  "s_io_connect first w so_error s =
     (case s_io_pre s of
        (False, s1) \<Rightarrow> (False, s1)
      | (True, s1) \<Rightarrow>
          (case first of
             SysOk _ \<Rightarrow> (True, s1)
           | SysErr \<Rightarrow> (False, set_errno SUSPENDERS_ERROR s1)
           | SysAgain \<Rightarrow>
               (case w of
                  WaitFailed e \<Rightarrow> (False, set_errno e s1)
                | Ready \<Rightarrow> if so_error = Some 0 then (True, s1) else (False, set_errno SUSPENDERS_ERROR s1))))"

section \<open>Waking\<close>

definition ready_count :: "cr_ref \<Rightarrow> rt \<Rightarrow> nat" where
  "ready_count c s = (\<Sum>q < 4. count_list (ready s q) c)"

lemma ready_count_enqueue:
  "ready_count c (suspenders_ready_enqueue d s) = ready_count c s + (if c = d then 1 else 0)"
proof -
  let ?q = "suspenders_clamp_qos (effective_qos (crs s d))"
  have q: "?q < 4" by (auto simp: suspenders_clamp_qos_def)
  have "ready_count c (suspenders_ready_enqueue d s) = (\<Sum>q < 4. count_list (ready s q) c + (if q = ?q \<and> c = d then 1 else 0))"
    unfolding ready_count_def by (intro sum.cong) (auto simp: suspenders_ready_enqueue_def Let_def upd_cr_def ready_push_def)
  also have "\<dots> = ready_count c s + (\<Sum>q < 4. if q = ?q \<and> c = d then 1 else 0)" by (simp add: sum.distrib ready_count_def)
  also have "(\<Sum>q < 4. if q = ?q \<and> c = d then 1 else 0) = (if c = d then 1 else 0 :: nat)"
    using q by (cases "c = d") (simp_all add: sum.delta)
  finally show ?thesis .
qed

lemma state_enqueue: "cr_state (crs (suspenders_ready_enqueue d s) c) = (if c = d then READY else cr_state (crs s c))"
  by (simp add: suspenders_ready_enqueue_def Let_def upd_cr_def)

lemma drain_same: "crs (s_wake_drain w s) = crs s" "ready (s_wake_drain w s) = ready s"
  by (simp_all add: s_wake_drain_def split: option.split)

text \<open>Coroutine \<open>c\<close> is to be woken: it is suspended and one of its entries has an event.\<close>

definition to_wake :: "(poll_entry \<times> bool) list \<Rightarrow> rt \<Rightarrow> cr_ref \<Rightarrow> bool" where
  "to_wake es s c \<longleftrightarrow> cr_state (crs s c) = SUSPENDED \<and> (\<exists>(e, hit) \<in> set es. hit \<and> pe_cr e = Some c)"

lemma poll_sweep_spec:
  "poll_sweep es s = (tab, found, s') \<Longrightarrow>
     tab = map fst (filter (\<lambda>(e, hit). \<not> (hit \<and> pe_cr e \<noteq> None)) es) \<and>
     ready_count c s' = ready_count c s + (if to_wake es s c then 1 else 0) \<and>
     cr_state (crs s' c) = (if to_wake es s c then READY else cr_state (crs s c))"
proof (induction es arbitrary: s tab found s')
  case Nil
  then show ?case by (simp add: to_wake_def)
next
  case (Cons p es)
  obtain e hit where p: "p = (e, hit)" by force
  consider (wake) d where "hit" "pe_cr e = Some d" "cr_state (crs s d) = SUSPENDED"
    | (gone) d where "hit" "pe_cr e = Some d" "cr_state (crs s d) \<noteq> SUSPENDED" | (fd) "hit" "pe_cr e = None" | (quiet) "\<not> hit"
    by (cases "pe_cr e") auto
  then show ?case
  proof cases
    case wake
    obtain tab1 f1 s1 where r: "poll_sweep es (suspenders_ready_enqueue d s) = (tab1, f1, s1)" by (metis prod_cases3)
    from Cons.IH [OF r] Cons.prems wake r p show ?thesis
      by (auto simp: to_wake_def state_enqueue ready_count_enqueue)
  next
    case gone
    with Cons.IH [of s] Cons.prems p show ?thesis by (auto simp: to_wake_def)
  next
    case fd
    let ?s = "case s_worker s of Some w \<Rightarrow> s_wake_drain w s | None \<Rightarrow> s"
    have same: "crs ?s = crs s" "ready_count c ?s = ready_count c s" by (auto simp: ready_count_def drain_same split: option.split)
    obtain tab1 f1 s1 where r: "poll_sweep es ?s = (tab1, f1, s1)" by (metis prod_cases3)
    from Cons.IH [OF r] Cons.prems fd r p same show ?thesis by (auto simp: to_wake_def)
  next
    case quiet
    obtain tab1 f1 s1 where r: "poll_sweep es s = (tab1, f1, s1)" by (metis prod_cases3)
    from Cons.IH [OF r] Cons.prems quiet r p show ?thesis by (auto simp: to_wake_def)
  qed
qed

lemma poll_wait_spec:
  assumes "s_poll_wait n revents be s = (found, be', s')" and "0 < n" and "poll_tab be \<noteq> []"
  shows "poll_tab be' = map fst (filter (\<lambda>(e, hit). \<not> (hit \<and> pe_cr e \<noteq> None)) (zip (poll_tab be) revents)) \<and>
    ready_count c s' = ready_count c s + (if to_wake (zip (poll_tab be) revents) s c then 1 else 0) \<and>
    cr_state (crs s' c) = (if to_wake (zip (poll_tab be) revents) s c then READY else cr_state (crs s c))"
proof -
  obtain tab f s1 where r: "poll_sweep (zip (poll_tab be) revents) s = (tab, f, s1)" by (metis prod_cases3)
  with assms have "poll_tab be' = tab" "s' = s1" by (auto simp: s_poll_wait_def)
  with poll_sweep_spec [OF r, of c] show ?thesis by simp
qed

text \<open>Polling wakes exactly the right coroutines: after \<open>poll\<close> has reported events, every suspended coroutine
  with an event on one of its entries is put into the ready queue exactly once, however many of its entries
  have events, no other coroutine is touched, and the table keeps exactly the entries without events and the
  worker's own wake descriptor.\<close>

theorem poll_wait_wakes_once:
  assumes "s_poll_wait n revents be s = (found, be', s')" and "0 < n" and "poll_tab be \<noteq> []"
  shows "poll_tab be' = map fst (filter (\<lambda>(e, hit). \<not> (hit \<and> pe_cr e \<noteq> None)) (zip (poll_tab be) revents)) \<and>
    ready_count c s' = ready_count c s + (if to_wake (zip (poll_tab be) revents) s c then 1 else 0) \<and>
    cr_state (crs s' c) = (if to_wake (zip (poll_tab be) revents) s c then READY else cr_state (crs s c))"
  using assms by (rule poll_wait_spec)

section \<open>Timeouts\<close>

lemma div_million: "unat ((w :: u64) div 1000000) = unat w div 1000000"
  by (simp add: unat_div)

text \<open>Outside a coroutine the timeout handed to \<open>poll\<close> never ends before the deadline, unless it is cut to the
  largest integer, and lasts at most a millisecond longer. The one exception is a remaining time of exactly
  \<open>INT_MAX\<close> milliseconds: there the increment overflows to a negative timeout, with which \<open>poll\<close> waits forever.\<close>

theorem block_timeout_bounds:
  assumes "now \<le> dl"
  shows "(unat (dl - now) div 1000000 < 2147483647 \<longrightarrow>
      int (unat (dl - now)) < block_timeout dl now * 1000000 \<and> block_timeout dl now * 1000000 \<le> int (unat (dl - now)) + 1000000) \<and>
    (unat (dl - now) div 1000000 > 2147483647 \<longrightarrow> block_timeout dl now = 2147483647) \<and>
    (unat (dl - now) div 1000000 = 2147483647 \<longrightarrow> block_timeout dl now = -2147483648)"
proof -
  let ?d = "unat (dl - now)"
  let ?ms = "?d div 1000000"
  have "uint ((dl - now) div 1000000) = int ?ms" by (simp only: uint_nat div_million)
  then have e: "(ucast ((dl - now) div 1000000) + 1 :: 32 word) = word_of_int (int ?ms + 1)"
    by (simp only: ucast_eq of_int_add of_int_1)
  have s: "sint (ucast ((dl - now) div 1000000) + 1 :: 32 word) = (int ?ms + 1 + 2147483648) mod 4294967296 - 2147483648"
    unfolding e int_word_sint by simp
  have "int d < (int (d div 1000000) + 1) * 1000000 \<and> (int (d div 1000000) + 1) * 1000000 \<le> int d + 1000000" for d :: nat
  proof -
    define k r where "k = d div 1000000" and "r = d mod 1000000"
    then have "d = k * 1000000 + r" "r < 1000000" by simp_all
    then have "int d = int k * 1000000 + int r" "int r < 1000000" by simp_all
    then show ?thesis unfolding \<open>k = d div 1000000\<close> [symmetric] by simp
  qed
  from this [of ?d] have "int ?d < (int ?ms + 1) * 1000000 \<and> (int ?ms + 1) * 1000000 \<le> int ?d + 1000000" .
  then show ?thesis by (auto simp: block_timeout_def div_million s)
qed

theorem block_timeout_bounds_witness: "block_timeout 5000001 2000000 = 4 \<and> block_timeout 2147483647000005 5 = -2147483648"
proof -
  have u: "unat ((5000001 :: u64) - 2000000) = 3000001" "unat ((2147483647000005 :: u64) - 5) = 2147483647000000" by simp_all
  have "block_timeout 5000001 2000000 * 1000000 > 3000001" "block_timeout 5000001 2000000 * 1000000 \<le> 4000001"
    using block_timeout_bounds [of 2000000 5000001] u by simp_all
  moreover have "block_timeout 2147483647000005 5 = -2147483648" using block_timeout_bounds [of 5 2147483647000005] u by simp
  ultimately show ?thesis by linarith
qed

section \<open>Waiting\<close>

text \<open>The end of a wait: what it reports is decided by why the coroutine was resumed.\<close>

lemma io_wait_end_result:
  assumes "io_wait_end fd armed c be s = (rc, be', s')"
  shows "(io_result (crs s c) = -1 \<longrightarrow> rc = -1 \<and> errno s' = SUSPENDERS_CANCELED \<and> \<not> cancel_requested (crs s' c)) \<and>
    (io_result (crs s c) = -2 \<longrightarrow> rc = -1 \<and> errno s' = SUSPENDERS_TIMEDOUT) \<and>
    (io_result (crs s c) \<notin> {-1, -2} \<longrightarrow> rc = 0)"
proof -
  have "crs (s_timer_disarm t s) = crs s" for t by (simp add: s_timer_disarm_def Let_def upd_timer_def)
  with assms show ?thesis
    by (auto simp: io_wait_end_def Let_def upd_cr_def set_errno_def split: if_splits)
qed

text \<open>Unregistering removes every entry of the descriptor, not only the caller's: when one coroutine waits to read
  a descriptor and another to write it, then as soon as the first one's wait ends, the second one's entry is
  gone from the table while it is still suspended, and no later poll can wake it.\<close>

theorem unregister_strands_others:
  assumes "pe_cr e = Some d" and "e \<in> set (poll_tab be)" and "pe_fd e = fd" and "\<forall>x \<in> set (poll_tab be). pe_cr x = Some d \<longrightarrow> pe_fd x = fd"
    and "io_wait_end fd armed c be s = (rc, be', s')" and "c \<noteq> d" and "cr_state (crs s d) = SUSPENDED"
    and "s_poll_wait n revents be' s' = (found, be'', s'')"
  shows "cr_state (crs s' d) = SUSPENDED \<and> (\<forall>x \<in> set (poll_tab be'). pe_cr x \<noteq> Some d) \<and> cr_state (crs s'' d) = SUSPENDED"
proof -
  have cr: "crs (s_timer_disarm t s) = crs s" for t by (simp add: s_timer_disarm_def Let_def upd_timer_def)
  have be': "be' = s_poll_unregister fd be" using assms(5) by (auto simp: io_wait_end_def Let_def split: if_splits)
  have st: "cr_state (crs s' d) = SUSPENDED"
    using assms(5-7) cr by (auto simp: io_wait_end_def Let_def upd_cr_def set_errno_def split: if_splits)
  have gone: "\<forall>x \<in> set (poll_tab be'). pe_cr x \<noteq> Some d" using assms(4) by (auto simp: be' s_poll_unregister_def)
  have "cr_state (crs s'' d) = SUSPENDED"
  proof (cases "poll_tab be' \<noteq> [] \<and> 0 < n")
    case True
    have "\<not> to_wake (zip (poll_tab be') revents) s' d" using gone by (auto simp: to_wake_def dest: set_zip_leftD)
    with poll_wait_spec [OF assms(8), of d] True st show ?thesis by simp
  next
    case False
    with assms(8) st show ?thesis by (auto simp: s_poll_wait_def split: if_splits)
  qed
  with st gone show ?thesis by blast
qed

text \<open>The per-call deadline of \<open>suspenders_hose_read_dl\<close> and its relatives is a variable of the thread, not of the
  coroutine: while a call with a deadline is suspended, every other coroutine of the same thread that starts a
  call without a deadline inherits it, and its call fails with \<open>SUSPENDERS_TIMEDOUT\<close> once that deadline has passed.\<close>

theorem io_deadline_leaks:
  assumes "io_deadline_ns s = dl" and "dl \<noteq> 0" and "io_wait_begin gf gc fd ev_in ev_out c be s = (Some armed, be', s')"
    and "s'' = s'\<lparr>running := Some d, now_ns := t\<rparr>" and "main_cr s' \<noteq> Some d" and "\<not> cancel_requested (crs s' d)"
    and "\<not> deadline_armed (crs s' d)" and "t \<ge> dl"
  shows "s_io_effective_deadline (Some d) s'' = dl \<and> fst (s_io_pre s'') = False \<and> errno (snd (s_io_pre s'')) = SUSPENDERS_TIMEDOUT"
proof -
  have arm: "io_deadline_ns (snd (s_timer_arm x y)) = io_deadline_ns y" for x y
    by (simp add: s_timer_arm_def Let_def upd_timer_def split: prod.split bool.split)
  have sus: "io_deadline_ns (suspenders_suspend y) = io_deadline_ns y" for y
    by (simp add: suspenders_suspend_def ctx_switch_main_def upd_cr_def split: option.split)
  let ?s1 = "upd_cr c (\<lambda>r. r\<lparr>io_result := 0\<rparr>) s"
  let ?y = "upd_timer (TStack c) (\<lambda>_. fresh_timer (s_io_effective_deadline (Some c) ?s1) (IoTimeoutCb c)) ?s1"
  obtain a z where z: "s_timer_arm (TStack c) ?y = (a, z)" by force
  obtain rc be1 where r: "s_poll_register gf gc fd ev_in ev_out (Some c) be = (rc, be1)" by force
  have "s' = suspenders_suspend z \<or> s' = suspenders_suspend ?s1"
    using assms(3) by (auto simp: io_wait_begin_def Let_def r z split: if_splits)
  moreover have "io_deadline_ns z = dl" "io_deadline_ns ?s1 = dl"
    using arm [of "TStack c" ?y] assms(1) z by (simp_all add: upd_timer_def upd_cr_def)
  ultimately have "io_deadline_ns s' = dl" by (auto simp: sus)
  with assms show ?thesis
    by (auto simp: s_io_effective_deadline_def s_io_pre_def s_io_is_cr_def Let_def upd_cr_def set_errno_def)
qed

section \<open>Examples\<close>

text \<open>Coroutines 2 and 3 are suspended, 2 waits to read descriptor 7 and 3 to write it.\<close>

definition two_waiters :: rt where
  "two_waiters = upd_cr 2 (\<lambda>r. r\<lparr>cr_state := SUSPENDED\<rparr>) (upd_cr 3 (\<lambda>r. r\<lparr>cr_state := SUSPENDED\<rparr>) blank_rt)"

definition two_entries :: poll_backend where
  "two_entries = \<lparr>poll_cap = 256, poll_tab = [\<lparr>pe_fd = 7, pe_in = True, pe_out = False, pe_cr = Some 2\<rparr>,
     \<lparr>pe_fd = 7, pe_in = False, pe_out = True, pe_cr = Some 3\<rparr>], dangling = False\<rparr>"

theorem poll_wait_wakes_once_witness:
  "ready_count 2 (snd (snd (s_poll_wait 1 [True, False] two_entries two_waiters))) = 1 \<and>
   ready_count 3 (snd (snd (s_poll_wait 1 [True, False] two_entries two_waiters))) = 0"
proof -
  let ?w = "s_poll_wait 1 [True, False] two_entries two_waiters"
  have e: "?w = (fst ?w, fst (snd ?w), snd (snd ?w))" by simp
  have "poll_tab two_entries \<noteq> []" by (simp add: two_entries_def)
  from poll_wait_wakes_once [OF e _ this, of 2] poll_wait_wakes_once [OF e _ this, of 3] show ?thesis
    by (simp add: to_wake_def two_entries_def two_waiters_def ready_count_def blank_rt_def upd_cr_def)
qed

theorem unregister_strands_others_witness:
  "cr_state (crs (snd (snd (s_poll_wait 1 [True] (fst (snd (io_wait_end 7 False 2 two_entries two_waiters)))
     (snd (snd (io_wait_end 7 False 2 two_entries two_waiters)))))) 3) = SUSPENDED"
proof -
  let ?e = "\<lparr>pe_fd = 7, pe_in = False, pe_out = True, pe_cr = Some 3\<rparr> :: poll_entry"
  have "io_wait_end 7 False 2 two_entries two_waiters = (fst (io_wait_end 7 False 2 two_entries two_waiters),
      fst (snd (io_wait_end 7 False 2 two_entries two_waiters)), snd (snd (io_wait_end 7 False 2 two_entries two_waiters)))" by simp
  from unregister_strands_others [of ?e 3 two_entries 7, OF _ _ _ _ this _ _ prod.collapse [symmetric, THEN trans, OF arg_cong [of _ _ "Pair _", OF prod.collapse [symmetric]]]]
  show ?thesis by (simp add: two_entries_def two_waiters_def upd_cr_def)
qed

definition leak_rt :: rt where
  "leak_rt = (run_on 2 blank_rt)\<lparr>io_deadline_ns := 5000\<rparr>"

definition leaked_rt :: rt where
  "leaked_rt = snd (snd (io_wait_begin True True 7 True False 2 (two_entries\<lparr>poll_tab := []\<rparr>) leak_rt))"

theorem io_deadline_leaks_witness:
  "errno (snd (s_io_pre (leaked_rt\<lparr>running := Some 3, now_ns := 6000\<rparr>))) = SUSPENDERS_TIMEDOUT"
proof -
  obtain x be' s' where b: "io_wait_begin True True 7 True False 2 (two_entries\<lparr>poll_tab := []\<rparr>) leak_rt = (x, be', s')" by (metis prod_cases3)
  then obtain armed where x: "x = Some armed"
    by (auto simp: io_wait_begin_def Let_def s_poll_register_def two_entries_def split: if_splits prod.splits)
  have s': "s' = leaked_rt" using b by (simp add: leaked_rt_def)
  have "main_cr leaked_rt = Some 1" "\<not> cancel_requested (crs leaked_rt 3)" "\<not> deadline_armed (crs leaked_rt 3)"
    by code_simp+
  then show ?thesis using io_deadline_leaks [OF refl _ b [unfolded x s'] refl, of 3 6000] by (simp add: leak_rt_def)
qed

end
