(* ===== verification/Hose.thy ===== *)
theory Hose
  imports Io
begin

text \<open>
  Hoses: addresses of the form \<open>scheme://...\<close>, the registry of transports, the stream, datagram, Unix-domain and
  terminal transports, and the operations of the API that dispatch to them.

  What the operating system answers is an argument (record \<open>os\<close> and the passes of the I/O loops); the state keeps the
  descriptors that are open and the calls that were made.
\<close>

section \<open>Addresses\<close>

datatype hose_protocol = PROTO_UNKNOWN | PROTO_FILE | PROTO_TCP | PROTO_UDP | PROTO_UNIX | PROTO_PIPE | PROTO_TTY | PROTO_QUIC

definition schemes :: "(string \<times> hose_protocol) list" where
  "schemes = [(''tcp://'', PROTO_TCP), (''udp://'', PROTO_UDP), (''quic://'', PROTO_QUIC), (''unix://'', PROTO_UNIX),
     (''pipe://'', PROTO_PIPE), (''tty://'', PROTO_TTY)]"

definition is_digit :: "char \<Rightarrow> bool" where
  "is_digit c \<longleftrightarrow> c \<in> set ''0123456789''"

definition is_space :: "char \<Rightarrow> bool" where
  "is_space c \<longleftrightarrow> c = CHR '' '' \<or> c \<in> {CHR 0x09, CHR 0x0a, CHR 0x0b, CHR 0x0c, CHR 0x0d}"

definition digits_value :: "string \<Rightarrow> nat" where
  "digits_value ds = foldl (\<lambda>n c. n * 10 + (of_char c - 48)) 0 ds"

text \<open>The conversion \<open>%d\<close>: white space, a sign, at least one digit. (A value outside \<open>int\<close> is undefined in C and is
  kept as it is here.)\<close>

definition scan_int :: "string \<Rightarrow> int option" where
  "scan_int s =
     (let s1 = dropWhile is_space s;
          (neg, s2) = (case s1 of c # r \<Rightarrow> if c = CHR ''-'' then (True, r) else if c = CHR ''+'' then (False, r) else (False, s1)
                       | [] \<Rightarrow> (False, s1));
          ds = takeWhile is_digit s2
      in if ds = [] then None else Some (if neg then - int (digits_value ds) else int (digits_value ds)))"

text \<open>\<open>sscanf(s, "%255[^:]:%d", host, port) == 2\<close>.\<close>

definition scan_host_port :: "string \<Rightarrow> (string \<times> int) option" where
  "scan_host_port s =
     (let host = takeWhile (\<lambda>c. c \<noteq> CHR '':'') (take 255 s);
          rest = drop (length host) s
      in if host = [] then None
         else (case rest of
                 c # r \<Rightarrow> if c = CHR '':'' then map_option (\<lambda>p. (host, p)) (scan_int r) else None
               | [] \<Rightarrow> None))"

text \<open>\<open>suspenders_hose_parse_uri\<close>: the scheme and its protocol, and the host and port when the address is accepted.\<close>

fun parse_schemes :: "(string \<times> hose_protocol) list \<Rightarrow> string \<Rightarrow> (string \<times> hose_protocol \<times> (string \<times> int) option) option" where
  "parse_schemes [] uri = None"
| "parse_schemes ((prefix, proto) # sch) uri =
     (if take (length prefix) uri = prefix then
        Some (prefix, proto,
          (if proto \<in> {PROTO_TCP, PROTO_UDP, PROTO_QUIC} then scan_host_port (drop (length prefix) uri)
           else if proto \<in> {PROTO_UNIX, PROTO_PIPE, PROTO_TTY} then Some (take 255 (drop (length prefix) uri), 0)
           else None))
      else parse_schemes sch uri)"

definition suspenders_hose_parse_uri :: "string \<Rightarrow> (string \<times> hose_protocol \<times> (string \<times> int) option) option" where
  "suspenders_hose_parse_uri uri = parse_schemes schemes uri"

section \<open>The system below\<close>

text \<open>Socket addresses; the path of a Unix-domain address has room for 107 characters.\<close>

datatype sock_addr = Inet "32 word" "16 word" | UnixPath string

definition INADDR_ANY :: "32 word" where "INADDR_ANY = 0"

text \<open>The calls that reach the network or the file system, in the order they are made.\<close>

datatype syscall = Connect sock_addr | Bind sock_addr | Listen | Unlink string

text \<open>What the system answers: the descriptor of \<open>socket\<close> (-1 when it fails), whether nonblocking mode could be
  set, the result of \<open>inet_pton\<close>, the result of \<open>connect\<close> with that of the wait and of the error query after it,
  and whether \<open>bind\<close> and \<open>listen\<close> succeed.\<close>

record os =
  os_socket :: int
  os_nonblocking :: bool
  os_pton :: "string \<Rightarrow> 32 word option"
  os_connect :: "sock_addr \<Rightarrow> sys_result \<times> wait_result \<times> int option"
  os_bind :: "sock_addr \<Rightarrow> bool"
  os_listen :: bool

text \<open>The descriptors that are open, the calls made, and the runtime.\<close>

record net =
  fds :: "int set"
  net_calls :: "syscall list"
  core :: rt

definition net_call :: "syscall \<Rightarrow> net \<Rightarrow> net" where
  "net_call c n = n\<lparr>net_calls := net_calls n @ [c]\<rparr>"

definition suspenders_close_socket :: "int \<Rightarrow> net \<Rightarrow> net" where
  "suspenders_close_socket fd n = n\<lparr>fds := fds n - {fd}\<rparr>"

definition suspenders_socket :: "os \<Rightarrow> net \<Rightarrow> int \<times> net" where
  "suspenders_socket sys n =
     (os_socket sys, if os_socket sys = -1 then n else n\<lparr>fds := insert (os_socket sys) (fds n)\<rparr>)"

section \<open>Hoses\<close>

definition ROLE_READER :: u8 where "ROLE_READER = 1"
definition ROLE_WRITER :: u8 where "ROLE_WRITER = 2"
definition ROLE_DIALER :: u8 where "ROLE_DIALER = 4"
definition ROLE_LISTENER :: u8 where "ROLE_LISTENER = 8"

text \<open>The buffer, the table of operations and the private state are pointers.\<close>

record hose =
  roles :: u8
  protocol :: hose_protocol
  h_fd :: int
  h_buffer :: "nat option"
  h_transport :: "nat option"
  h_priv :: "nat option"

definition suspenders_hose_init :: "nat option \<Rightarrow> hose" where
  "suspenders_hose_init b =
     \<lparr>roles = 0, protocol = PROTO_UNKNOWN, h_fd = -1, h_buffer = b, h_transport = None, h_priv = None\<rparr>"

definition give_up :: "hose \<Rightarrow> net \<Rightarrow> bool \<times> hose \<times> net" where
  "give_up h n = (False, h\<lparr>h_fd := -1\<rparr>, suspenders_close_socket (h_fd h) n)"

definition grant_roles :: "u8 \<Rightarrow> hose \<Rightarrow> hose" where
  "grant_roles r h = h\<lparr>roles := roles h OR r\<rparr>"

definition may_read :: "hose \<Rightarrow> bool" where
  "may_read h \<longleftrightarrow> roles h AND ROLE_READER \<noteq> 0 \<and> h_fd h \<noteq> -1"

definition may_write :: "hose \<Rightarrow> bool" where
  "may_write h \<longleftrightarrow> roles h AND ROLE_WRITER \<noteq> 0 \<and> h_fd h \<noteq> -1"

section \<open>Shared operations of stream sockets\<close>

text \<open>The passes of the loop of one I/O call.\<close>

type_synonym passes = "(sys_result \<times> wait_result) list"

text \<open>The value of a call, or \<open>None\<close> while it waits.\<close>

definition io_value :: "io_outcome \<Rightarrow> int option" where
  "io_value r = (case r of IoOk n \<Rightarrow> Some (int n) | IoFailed _ \<Rightarrow> Some (-1) | IoWaiting \<Rightarrow> None)"

definition on_core :: "(rt \<Rightarrow> io_outcome \<times> rt) \<Rightarrow> net \<Rightarrow> io_outcome \<times> net" where
  "on_core f n = (let (r, s) = f (core n) in (r, n\<lparr>core := s\<rparr>))"

text \<open>Accepting: the descriptor comes from \<open>s_io_accept\<close>; the client is a fresh hose.\<close>

definition s_stream_accept :: "passes \<Rightarrow> bool \<Rightarrow> hose \<Rightarrow> hose \<Rightarrow> net \<Rightarrow> bool option \<times> hose \<times> net" where
  "s_stream_accept ps nonblocking listener client n =
     (if roles listener AND ROLE_LISTENER = 0 \<or> h_fd listener = -1 then (Some False, client, n)
      else
        (case on_core (s_io_accept ps) n of
           (IoWaiting, n1) \<Rightarrow> (None, client, n1)
         | (IoFailed e, n1) \<Rightarrow> (Some False, client, n1)
         | (IoOk fd, n1) \<Rightarrow>
             (let n2 = n1\<lparr>fds := insert (int fd) (fds n1)\<rparr> in
              if \<not> nonblocking then (Some False, client, suspenders_close_socket (int fd) n2)
              else (Some True,
                    (suspenders_hose_init None)\<lparr>h_fd := int fd, protocol := protocol listener,
                       h_transport := h_transport listener, roles := ROLE_READER OR ROLE_WRITER\<rparr>, n2))))"

definition s_stream_read :: "passes \<Rightarrow> hose \<Rightarrow> net \<Rightarrow> int option \<times> net" where
  "s_stream_read ps h n =
     (if \<not> may_read h then (Some (-1), n) else (let (r, n1) = on_core (s_io_recv ps) n in (io_value r, n1)))"

text \<open>The write loop: each send takes some of the bytes that are left. The result, the bytes that went out and the
  state; one list of passes per send.\<close>

fun stream_write_loop :: "passes list \<Rightarrow> bytes \<Rightarrow> bytes \<Rightarrow> net \<Rightarrow> int option \<times> bytes \<times> net" where
  "stream_write_loop pss [] out n = (Some (int (length out)), out, n)"
| "stream_write_loop [] (b # bs) out n = (None, out, n)"
| "stream_write_loop (ps # pss) (b # bs) out n =
     (case on_core (s_io_send ps) n of
        (IoFailed e, n1) \<Rightarrow> (Some (-1), out, n1)
      | (IoWaiting, n1) \<Rightarrow> (None, out, n1)
      | (IoOk k, n1) \<Rightarrow>
          if k = 0 then (Some (int (length out)), out, n1)
          else stream_write_loop pss (drop k (b # bs)) (out @ take k (b # bs)) n1)"

definition s_stream_write :: "passes list \<Rightarrow> bytes \<Rightarrow> hose \<Rightarrow> net \<Rightarrow> int option \<times> bytes \<times> net" where
  "s_stream_write pss src h n = (if \<not> may_write h then (Some (-1), [], n) else stream_write_loop pss src [] n)"

definition s_stream_readv :: "passes \<Rightarrow> hose \<Rightarrow> net \<Rightarrow> int option \<times> net" where
  "s_stream_readv ps h n =
     (if \<not> may_read h then (Some (-1), n) else (let (r, n1) = on_core (s_io_readv ps) n in (io_value r, n1)))"

definition s_stream_writev :: "passes \<Rightarrow> hose \<Rightarrow> net \<Rightarrow> int option \<times> net" where
  "s_stream_writev ps h n =
     (if \<not> may_write h then (Some (-1), n) else (let (r, n1) = on_core (s_io_writev ps) n in (io_value r, n1)))"

definition s_sock_close :: "hose \<Rightarrow> net \<Rightarrow> hose \<times> net" where
  "s_sock_close h n =
     (if h_fd h \<noteq> -1 then (h\<lparr>h_fd := -1, roles := 0\<rparr>, suspenders_close_socket (h_fd h) n) else (h\<lparr>roles := 0\<rparr>, n))"

section \<open>The transports\<close>

text \<open>A socket in nonblocking mode, or the failure.\<close>

definition open_socket :: "os \<Rightarrow> (hose \<Rightarrow> net \<Rightarrow> bool \<times> hose \<times> net) \<Rightarrow> hose \<Rightarrow> net \<Rightarrow> bool \<times> hose \<times> net" where
  "open_socket sys rest h n =
     (let (fd, n1) = suspenders_socket sys n; h1 = h\<lparr>h_fd := fd\<rparr> in
      if fd = -1 then (False, h1, n1)
      else if \<not> os_nonblocking sys then give_up h1 n1
      else rest h1 n1)"

text \<open>Connecting through the scheduler, as \<open>tcp_dial\<close> and \<open>unix_dial\<close> do.\<close>

definition dial_connect :: "os \<Rightarrow> sock_addr \<Rightarrow> hose \<Rightarrow> net \<Rightarrow> bool \<times> hose \<times> net" where
  "dial_connect sys addr h n =
     (let (first, w, e) = os_connect sys addr;
          (ok, s) = s_io_connect first w e (core n);
          n1 = (net_call (Connect addr) n)\<lparr>core := s\<rparr>
      in if \<not> ok then give_up h n1 else (True, grant_roles (ROLE_DIALER OR ROLE_READER OR ROLE_WRITER) h, n1))"

definition tcp_dial :: "os \<Rightarrow> string \<Rightarrow> int \<Rightarrow> hose \<Rightarrow> net \<Rightarrow> bool \<times> hose \<times> net" where
  "tcp_dial sys host port = open_socket sys (\<lambda>h n.
     (case os_pton sys host of
        None \<Rightarrow> give_up h n
      | Some a \<Rightarrow> dial_connect sys (Inet a (word_of_int port)) h n))"

text \<open>Binding and listening, as \<open>tcp_listen\<close> and \<open>unix_listen\<close> do.\<close>

definition bind_listen :: "os \<Rightarrow> sock_addr \<Rightarrow> hose \<Rightarrow> net \<Rightarrow> bool \<times> hose \<times> net" where
  "bind_listen sys addr h n =
     (let n1 = net_call (Bind addr) n in
      if \<not> os_bind sys addr then give_up h n1
      else (let n2 = net_call Listen n1 in
            if \<not> os_listen sys then give_up h n2 else (True, grant_roles ROLE_LISTENER h, n2)))"

definition tcp_listen :: "os \<Rightarrow> string \<Rightarrow> int \<Rightarrow> hose \<Rightarrow> net \<Rightarrow> bool \<times> hose \<times> net" where
  "tcp_listen sys host port = open_socket sys (bind_listen sys (Inet INADDR_ANY (word_of_int port)))"

definition udp_dial :: "os \<Rightarrow> string \<Rightarrow> int \<Rightarrow> hose \<Rightarrow> net \<Rightarrow> bool \<times> hose \<times> net" where
  "udp_dial sys host port = open_socket sys (\<lambda>h n.
     (case os_pton sys host of
        None \<Rightarrow> give_up h n
      | Some a \<Rightarrow>
          (let addr = Inet a (word_of_int port); n1 = net_call (Connect addr) n in
           case fst (os_connect sys addr) of
             SysOk _ \<Rightarrow> (True, grant_roles (ROLE_DIALER OR ROLE_READER OR ROLE_WRITER) h, n1)
           | _ \<Rightarrow> give_up h n1)))"

definition udp_listen :: "os \<Rightarrow> string \<Rightarrow> int \<Rightarrow> hose \<Rightarrow> net \<Rightarrow> bool \<times> hose \<times> net" where
  "udp_listen sys host port = open_socket sys (\<lambda>h n.
     (let addr = Inet INADDR_ANY (word_of_int port); n1 = net_call (Bind addr) n in
      if \<not> os_bind sys addr then give_up h n1
      else (True, grant_roles (ROLE_LISTENER OR ROLE_READER OR ROLE_WRITER) h, n1)))"

definition udp_read :: "passes \<Rightarrow> hose \<Rightarrow> net \<Rightarrow> int option \<times> net" where
  "udp_read ps h n =
     (if \<not> may_read h then (Some (-1), n) else (let (r, n1) = on_core (s_io_recv ps) n in (io_value r, n1)))"

text \<open>A datagram is sent by one call, never split: what goes out is nothing or all of it.\<close>

definition udp_write :: "passes list \<Rightarrow> bytes \<Rightarrow> hose \<Rightarrow> net \<Rightarrow> int option \<times> bytes \<times> net" where
  "udp_write pss src h n =
     (if \<not> may_write h then (Some (-1), [], n)
      else (let (r, n1) = on_core (s_io_send (concat (take 1 pss))) n in
            (io_value r, (case r of IoOk _ \<Rightarrow> src | _ \<Rightarrow> []), n1)))"

definition udp_recvfrom :: "passes \<Rightarrow> hose \<Rightarrow> net \<Rightarrow> int option \<times> net" where
  "udp_recvfrom ps h n =
     (if \<not> may_read h then (Some (-1), n) else (let (r, n1) = on_core (s_io_recvfrom ps) n in (io_value r, n1)))"

definition udp_sendto :: "passes \<Rightarrow> hose \<Rightarrow> net \<Rightarrow> int option \<times> net" where
  "udp_sendto ps h n =
     (if \<not> may_write h then (Some (-1), n) else (let (r, n1) = on_core (s_io_sendto ps) n in (io_value r, n1)))"

definition unix_dial :: "os \<Rightarrow> string \<Rightarrow> int \<Rightarrow> hose \<Rightarrow> net \<Rightarrow> bool \<times> hose \<times> net" where
  "unix_dial sys path port = open_socket sys (dial_connect sys (UnixPath (take 107 path)))"

definition unix_listen :: "os \<Rightarrow> string \<Rightarrow> int \<Rightarrow> hose \<Rightarrow> net \<Rightarrow> bool \<times> hose \<times> net" where
  "unix_listen sys path port =
     open_socket sys (\<lambda>h n. bind_listen sys (UnixPath (take 107 path)) h (net_call (Unlink path) n))"

definition tty_dial :: "os \<Rightarrow> string \<Rightarrow> int \<Rightarrow> hose \<Rightarrow> net \<Rightarrow> bool \<times> hose \<times> net" where
  "tty_dial sys device port h n =
     (if device = ''stdin'' then (True, grant_roles (ROLE_READER OR ROLE_WRITER) (h\<lparr>h_fd := 0\<rparr>), n)
      else if device = ''stdout'' then (True, grant_roles (ROLE_READER OR ROLE_WRITER) (h\<lparr>h_fd := 1\<rparr>), n)
      else if device = ''stderr'' then (True, grant_roles (ROLE_READER OR ROLE_WRITER) (h\<lparr>h_fd := 2\<rparr>), n)
      else (False, h, n))"

definition tty_close :: "hose \<Rightarrow> net \<Rightarrow> hose \<times> net" where
  "tty_close h n = (h\<lparr>h_fd := -1, roles := 0\<rparr>, n)"

section \<open>Tables of operations and the registry\<close>

record transport_ops =
  op_scheme :: "string option"
  op_dial :: "(os \<Rightarrow> string \<Rightarrow> int \<Rightarrow> hose \<Rightarrow> net \<Rightarrow> bool \<times> hose \<times> net) option"
  op_listen :: "(os \<Rightarrow> string \<Rightarrow> int \<Rightarrow> hose \<Rightarrow> net \<Rightarrow> bool \<times> hose \<times> net) option"
  op_accept :: "(passes \<Rightarrow> bool \<Rightarrow> hose \<Rightarrow> hose \<Rightarrow> net \<Rightarrow> bool option \<times> hose \<times> net) option"
  op_read :: "(passes \<Rightarrow> hose \<Rightarrow> net \<Rightarrow> int option \<times> net) option"
  op_write :: "(passes list \<Rightarrow> bytes \<Rightarrow> hose \<Rightarrow> net \<Rightarrow> int option \<times> bytes \<times> net) option"
  op_readv :: "(passes \<Rightarrow> hose \<Rightarrow> net \<Rightarrow> int option \<times> net) option"
  op_writev :: "(passes \<Rightarrow> hose \<Rightarrow> net \<Rightarrow> int option \<times> net) option"
  op_recvfrom :: "(passes \<Rightarrow> hose \<Rightarrow> net \<Rightarrow> int option \<times> net) option"
  op_sendto :: "(passes \<Rightarrow> hose \<Rightarrow> net \<Rightarrow> int option \<times> net) option"
  op_close :: "(hose \<Rightarrow> net \<Rightarrow> hose \<times> net) option"

definition tcp_transport_ops :: transport_ops where
  "tcp_transport_ops = \<lparr>op_scheme = Some ''tcp://'', op_dial = Some tcp_dial, op_listen = Some tcp_listen,
     op_accept = Some s_stream_accept, op_read = Some s_stream_read, op_write = Some s_stream_write,
     op_readv = Some s_stream_readv, op_writev = Some s_stream_writev, op_recvfrom = None, op_sendto = None,
     op_close = Some s_sock_close\<rparr>"

definition udp_transport_ops :: transport_ops where
  "udp_transport_ops = \<lparr>op_scheme = Some ''udp://'', op_dial = Some udp_dial, op_listen = Some udp_listen,
     op_accept = None, op_read = Some udp_read, op_write = Some udp_write, op_readv = None, op_writev = None,
     op_recvfrom = Some udp_recvfrom, op_sendto = Some udp_sendto, op_close = Some s_sock_close\<rparr>"

definition unix_transport_ops :: transport_ops where
  "unix_transport_ops = \<lparr>op_scheme = Some ''unix://'', op_dial = Some unix_dial, op_listen = Some unix_listen,
     op_accept = Some s_stream_accept, op_read = Some s_stream_read, op_write = Some s_stream_write,
     op_readv = Some s_stream_readv, op_writev = Some s_stream_writev, op_recvfrom = None, op_sendto = None,
     op_close = Some s_sock_close\<rparr>"

definition tty_transport_ops :: transport_ops where
  "tty_transport_ops = \<lparr>op_scheme = Some ''tty://'', op_dial = Some tty_dial, op_listen = None, op_accept = None,
     op_read = None, op_write = None, op_readv = None, op_writev = None, op_recvfrom = None, op_sendto = None,
     op_close = Some tty_close\<rparr>"

text \<open>Tables are referred to by their address: \<open>tab\<close> is the memory they are in. The registry is the array of the
  addresses that are registered.\<close>

type_synonym ops_mem = "nat \<Rightarrow> transport_ops"

definition suspenders_transport_register :: "ops_mem \<Rightarrow> nat option \<Rightarrow> nat list \<Rightarrow> bool \<times> nat list" where
  "suspenders_transport_register tab x reg =
     (case x of
        None \<Rightarrow> (False, reg)
      | Some r \<Rightarrow>
          if op_scheme (tab r) = None then (False, reg)
          else if list_ex (\<lambda>q. op_scheme (tab q) = op_scheme (tab r)) reg then (True, reg)
          else if length reg \<ge> 16 then (False, reg)
          else (True, reg @ [r]))"

definition suspenders_transport_find :: "ops_mem \<Rightarrow> string \<Rightarrow> nat list \<Rightarrow> nat option" where
  "suspenders_transport_find tab sch reg = find (\<lambda>q. op_scheme (tab q) = Some sch) reg"

section \<open>The API\<close>

text \<open>\<open>suspenders_hose_dial\<close> and \<open>suspenders_hose_listen\<close>, which differ in the operation they call.\<close>

definition hose_open ::
    "(transport_ops \<Rightarrow> (os \<Rightarrow> string \<Rightarrow> int \<Rightarrow> hose \<Rightarrow> net \<Rightarrow> bool \<times> hose \<times> net) option) \<Rightarrow>
     ops_mem \<Rightarrow> nat list \<Rightarrow> os \<Rightarrow> string \<Rightarrow> hose \<Rightarrow> net \<Rightarrow> bool \<times> hose \<times> net" where
  "hose_open which tab reg sys uri d n =
     (case suspenders_hose_parse_uri uri of
        None \<Rightarrow> (False, d, n)
      | Some (sch, proto, None) \<Rightarrow> (False, d\<lparr>protocol := proto\<rparr>, n)
      | Some (sch, proto, Some (host, port)) \<Rightarrow>
          (case suspenders_transport_find tab sch reg of
             None \<Rightarrow> (False, d\<lparr>protocol := proto\<rparr>, n)
           | Some r \<Rightarrow>
               (case which (tab r) of
                  None \<Rightarrow> (False, d\<lparr>protocol := proto\<rparr>, n)
                | Some f \<Rightarrow> f sys host port (d\<lparr>protocol := proto, h_transport := Some r\<rparr>) n)))"

definition suspenders_hose_dial where "suspenders_hose_dial = hose_open op_dial"
definition suspenders_hose_listen where "suspenders_hose_listen = hose_open op_listen"

text \<open>The operation of a hose: none without a transport or when the transport has none.\<close>

definition hose_fn :: "(transport_ops \<Rightarrow> 'f option) \<Rightarrow> ops_mem \<Rightarrow> hose \<Rightarrow> 'f option" where
  "hose_fn which tab d = Option.bind (h_transport d) (\<lambda>r. which (tab r))"

definition suspenders_hose_accept :: "ops_mem \<Rightarrow> passes \<Rightarrow> bool \<Rightarrow> hose \<Rightarrow> hose \<Rightarrow> net \<Rightarrow> bool option \<times> hose \<times> net" where
  "suspenders_hose_accept tab ps nonblocking d client n =
     (case hose_fn op_accept tab d of None \<Rightarrow> (Some False, client, n) | Some f \<Rightarrow> f ps nonblocking d client n)"

definition suspenders_hose_read :: "ops_mem \<Rightarrow> passes \<Rightarrow> hose \<Rightarrow> net \<Rightarrow> int option \<times> net" where
  "suspenders_hose_read tab ps d n = (case hose_fn op_read tab d of None \<Rightarrow> (Some (-1), n) | Some f \<Rightarrow> f ps d n)"

definition suspenders_hose_write :: "ops_mem \<Rightarrow> passes list \<Rightarrow> bytes \<Rightarrow> hose \<Rightarrow> net \<Rightarrow> int option \<times> bytes \<times> net" where
  "suspenders_hose_write tab pss src d n =
     (case hose_fn op_write tab d of None \<Rightarrow> (Some (-1), [], n) | Some f \<Rightarrow> f pss src d n)"

definition suspenders_hose_recvfrom :: "ops_mem \<Rightarrow> passes \<Rightarrow> hose \<Rightarrow> net \<Rightarrow> int option \<times> net" where
  "suspenders_hose_recvfrom tab ps d n = (case hose_fn op_recvfrom tab d of None \<Rightarrow> (Some (-1), n) | Some f \<Rightarrow> f ps d n)"

definition suspenders_hose_sendto :: "ops_mem \<Rightarrow> passes \<Rightarrow> hose \<Rightarrow> net \<Rightarrow> int option \<times> net" where
  "suspenders_hose_sendto tab ps d n = (case hose_fn op_sendto tab d of None \<Rightarrow> (Some (-1), n) | Some f \<Rightarrow> f ps d n)"

definition net_errno :: "int \<Rightarrow> net \<Rightarrow> net" where
  "net_errno e n = n\<lparr>core := set_errno e (core n)\<rparr>"

definition suspenders_hose_readv :: "ops_mem \<Rightarrow> passes \<Rightarrow> hose \<Rightarrow> net \<Rightarrow> int option \<times> net" where
  "suspenders_hose_readv tab ps d n =
     (case hose_fn op_readv tab d of None \<Rightarrow> (Some (-1), net_errno SUSPENDERS_NOTFOUND n) | Some f \<Rightarrow> f ps d n)"

definition suspenders_hose_writev :: "ops_mem \<Rightarrow> passes \<Rightarrow> hose \<Rightarrow> net \<Rightarrow> int option \<times> net" where
  "suspenders_hose_writev tab ps d n =
     (case hose_fn op_writev tab d of None \<Rightarrow> (Some (-1), net_errno SUSPENDERS_NOTFOUND n) | Some f \<Rightarrow> f ps d n)"

text \<open>Calls on the descriptor itself; \<open>ok\<close> is whether the system call succeeds.\<close>

definition fd_call :: "bool \<Rightarrow> hose \<Rightarrow> net \<Rightarrow> int \<times> net" where
  "fd_call ok d n =
     (if h_fd d = -1 then (SUSPENDERS_INVAL, net_errno SUSPENDERS_INVAL n)
      else if \<not> ok then (SUSPENDERS_ERROR, net_errno SUSPENDERS_ERROR n)
      else (SUSPENDERS_OK, n))"

definition suspenders_hose_shutdown where "suspenders_hose_shutdown = fd_call"
definition suspenders_hose_set_option where "suspenders_hose_set_option = fd_call"
definition suspenders_hose_peername where "suspenders_hose_peername = fd_call"
definition suspenders_hose_sockname where "suspenders_hose_sockname = fd_call"

text \<open>The variants with a deadline set the deadline of the thread around the call and clear it afterwards.\<close>

definition set_io_deadline :: "u64 \<Rightarrow> net \<Rightarrow> net" where
  "set_io_deadline dl n = n\<lparr>core := (core n)\<lparr>io_deadline_ns := dl\<rparr>\<rparr>"

definition with_deadline :: "u64 \<Rightarrow> (net \<Rightarrow> 'r \<times> net) \<Rightarrow> net \<Rightarrow> 'r \<times> net" where
  "with_deadline dl f n = (let (r, n1) = f (set_io_deadline dl n) in (r, set_io_deadline 0 n1))"

definition suspenders_hose_dial_dl :: "u64 \<Rightarrow> ops_mem \<Rightarrow> nat list \<Rightarrow> os \<Rightarrow> string \<Rightarrow> hose \<Rightarrow> net \<Rightarrow> bool \<times> hose \<times> net" where
  "suspenders_hose_dial_dl dl tab reg sys uri d n =
     (let (ok, d1, n1) = suspenders_hose_dial tab reg sys uri d (set_io_deadline dl n) in (ok, d1, set_io_deadline 0 n1))"

definition suspenders_hose_accept_dl :: "u64 \<Rightarrow> ops_mem \<Rightarrow> passes \<Rightarrow> bool \<Rightarrow> hose \<Rightarrow> hose \<Rightarrow> net \<Rightarrow> bool option \<times> hose \<times> net" where
  "suspenders_hose_accept_dl dl tab ps nonblocking d client n =
     (let (ok, c1, n1) = suspenders_hose_accept tab ps nonblocking d client (set_io_deadline dl n) in (ok, c1, set_io_deadline 0 n1))"

definition suspenders_hose_read_dl :: "u64 \<Rightarrow> ops_mem \<Rightarrow> passes \<Rightarrow> hose \<Rightarrow> net \<Rightarrow> int option \<times> net" where
  "suspenders_hose_read_dl dl tab ps d = with_deadline dl (suspenders_hose_read tab ps d)"

definition suspenders_hose_write_dl :: "u64 \<Rightarrow> ops_mem \<Rightarrow> passes list \<Rightarrow> bytes \<Rightarrow> hose \<Rightarrow> net \<Rightarrow> int option \<times> bytes \<times> net" where
  "suspenders_hose_write_dl dl tab pss src d n =
     (let (r, out, n1) = suspenders_hose_write tab pss src d (set_io_deadline dl n) in (r, out, set_io_deadline 0 n1))"

definition suspenders_hose_recvfrom_dl :: "u64 \<Rightarrow> ops_mem \<Rightarrow> passes \<Rightarrow> hose \<Rightarrow> net \<Rightarrow> int option \<times> net" where
  "suspenders_hose_recvfrom_dl dl tab ps d = with_deadline dl (suspenders_hose_recvfrom tab ps d)"

definition suspenders_hose_sendto_dl :: "u64 \<Rightarrow> ops_mem \<Rightarrow> passes \<Rightarrow> hose \<Rightarrow> net \<Rightarrow> int option \<times> net" where
  "suspenders_hose_sendto_dl dl tab ps d = with_deadline dl (suspenders_hose_sendto tab ps d)"

definition suspenders_hose_close :: "ops_mem \<Rightarrow> hose \<Rightarrow> net \<Rightarrow> hose \<times> net" where
  "suspenders_hose_close tab d n =
     (case hose_fn op_close tab d of
        Some f \<Rightarrow> f d n
      | None \<Rightarrow>
          (if h_fd d \<noteq> -1 then (d\<lparr>h_fd := -1, roles := 0\<rparr>, suspenders_close_socket (h_fd d) n) else (d\<lparr>roles := 0\<rparr>, n)))"

section \<open>Addresses round-trip\<close>

text \<open>The decimal digits of a number.\<close>

fun show_nat :: "nat \<Rightarrow> string" where
  "show_nat n = (if n < 10 then [char_of (48 + n)] else show_nat (n div 10) @ [char_of (48 + n mod 10)])"

declare show_nat.simps [simp del]

lemma digit_char: "(d :: nat) < 10 \<Longrightarrow> is_digit (char_of (48 + d)) \<and> of_char (char_of (48 + d) :: char) - 48 = d"
proof -
  assume "d < 10"
  then have "d \<in> {0, 1, 2, 3, 4, 5, 6, 7, 8, 9}" by auto
  then show ?thesis by (elim insertE) (simp_all add: is_digit_def char_of_def of_char_def bit_simps)
qed

lemma show_nat_digits: "\<forall>c \<in> set (show_nat n). is_digit c"
  by (induction n rule: show_nat.induct) (subst show_nat.simps, auto simp: digit_char)

lemma show_nat_value: "digits_value (show_nat n) = n"
proof (induction n rule: less_induct)
  case (less k)
  have step: "digits_value (show_nat k) =
      (if k < 10 then k else digits_value (show_nat (k div 10)) * 10 + k mod 10)"
    by (subst show_nat.simps) (simp add: digits_value_def digit_char)
  show ?case using less.IH [of "k div 10"] by (subst step) simp
qed

lemma show_nat_Cons: "\<exists>c r. show_nat n = c # r \<and> is_digit c"
proof -
  have "show_nat n \<noteq> []" by (subst show_nat.simps) simp
  with show_nat_digits [of n] show ?thesis by (cases "show_nat n") auto
qed

lemma digit_not_special: "is_digit c \<Longrightarrow> \<not> is_space c \<and> c \<noteq> CHR ''-'' \<and> c \<noteq> CHR ''+''"
  by (auto simp: is_digit_def is_space_def)

lemma scan_show: "scan_int (show_nat n) = Some (int n)"
proof -
  obtain c r where c: "show_nat n = c # r" "is_digit c" using show_nat_Cons by blast
  have d: "dropWhile is_space (show_nat n) = show_nat n" using c digit_not_special by simp
  have r: "takeWhile is_digit r = r" using show_nat_digits [of n] c by (simp add: takeWhile_eq_all_conv)
  show ?thesis unfolding scan_int_def d using c digit_not_special [OF c(2)] show_nat_value [of n] by (simp add: Let_def r)
qed

lemma scan_address:
  assumes "host \<noteq> []" "length host \<le> 255" "CHR '':'' \<notin> set host"
  shows "scan_host_port (host @ '':'' @ show_nat n) = Some (host, int n)"
proof -
  have a: "takeWhile (\<lambda>c. c \<noteq> CHR '':'') host = host" using assms(3) by (auto simp: takeWhile_eq_all_conv)
  have "takeWhile (\<lambda>c. c \<noteq> CHR '':'') (take 255 (host @ '':'' @ show_nat n)) = host"
  proof (cases "length host = 255")
    case False
    then have "take 255 (host @ '':'' @ show_nat n) = host @ CHR '':'' # take (254 - length host) (show_nat n)"
      using assms(2) by (simp add: take_Cons' nat_less_le)
    with a assms(3) show ?thesis by (simp add: takeWhile_append)
  qed (simp add: a)
  then show ?thesis using assms(1) by (simp add: scan_host_port_def Let_def scan_show)
qed

lemma parse_network:
  "suspenders_hose_parse_uri (''tcp://'' @ s) = Some (''tcp://'', PROTO_TCP, scan_host_port s)"
  "suspenders_hose_parse_uri (''udp://'' @ s) = Some (''udp://'', PROTO_UDP, scan_host_port s)"
  "suspenders_hose_parse_uri (''quic://'' @ s) = Some (''quic://'', PROTO_QUIC, scan_host_port s)"
  by (simp_all add: suspenders_hose_parse_uri_def schemes_def)

text \<open>Addresses round-trip: a host of up to 255 characters without a colon and a port number, written behind one
  of the network schemes, are parsed back as the scheme, its protocol, exactly that host and that number.\<close>

theorem uri_roundtrip:
  assumes "host \<noteq> []" and "length host \<le> 255" and "CHR '':'' \<notin> set host"
    and "(sch, proto) \<in> {(''tcp://'', PROTO_TCP), (''udp://'', PROTO_UDP), (''quic://'', PROTO_QUIC)}"
  shows "suspenders_hose_parse_uri (sch @ host @ '':'' @ show_nat port) = Some (sch, proto, Some (host, int port))"
proof -
  from assms(4) consider "sch = ''tcp://''" "proto = PROTO_TCP" | "sch = ''udp://''" "proto = PROTO_UDP"
    | "sch = ''quic://''" "proto = PROTO_QUIC" by blast
  then show ?thesis
    by cases (simp_all only: parse_network scan_address [OF assms(1-3)])
qed

theorem uri_roundtrip_witness:
  "suspenders_hose_parse_uri ''tcp://127.0.0.1:8080'' = Some (''tcp://'', PROTO_TCP, Some (''127.0.0.1'', 8080))"
proof -
  have "show_nat 8080 = ''8080''"
    by (simp add: show_nat.simps [of 8080] show_nat.simps [of 808] show_nat.simps [of 80] show_nat.simps [of 8] char_of_def bit_simps)
  then show ?thesis using uri_roundtrip [of "''127.0.0.1''" "''tcp://''" PROTO_TCP 8080] by simp
qed

text \<open>The port is not checked: numbers beyond 65535 are accepted and cut to 16 bits by the transports.\<close>

lemma port_not_checked:
  "scan_host_port ''127.0.0.1:65616'' = Some (''127.0.0.1'', 65616) \<and> (65616 :: int) mod 2 ^ 16 = 80"
proof -
  have "show_nat 65616 = ''65616''"
    by (simp add: show_nat.simps [of 65616] show_nat.simps [of 6561] show_nat.simps [of 656] show_nat.simps [of 65] show_nat.simps [of 6] char_of_def bit_simps)
  then show ?thesis using scan_address [of "''127.0.0.1''" 65616] by simp
qed

section \<open>Descriptors\<close>

text \<open>What every \<open>dial\<close> and \<open>listen\<close> of the socket transports promises about descriptors.\<close>

definition opens_or_gives_up :: "int \<Rightarrow> net \<Rightarrow> bool \<times> hose \<times> net \<Rightarrow> bool" where
  "opens_or_gives_up sock n r \<longleftrightarrow>
     (case r of (ok, h, n') \<Rightarrow>
        if ok then sock \<noteq> -1 \<and> h_fd h = sock \<and> fds n' = insert sock (fds n) \<and> roles h \<noteq> 0
        else h_fd h = -1 \<and> fds n' = fds n)"

lemma u8_or_nonzero: "(b :: u8) \<noteq> 0 \<Longrightarrow> a OR b \<noteq> 0"
  by (metis bit.disj_zero_right or.left_commute or_eq_0_iff)

lemma grant_nonzero [simp]: "r \<noteq> 0 \<Longrightarrow> roles (grant_roles r h) \<noteq> 0" "h_fd (grant_roles r h) = h_fd h"
  by (simp_all add: grant_roles_def u8_or_nonzero)

lemma open_socket_sound:
  assumes "os_socket sys \<notin> fds n"
    and "\<And>h1 n1. h_fd h1 = os_socket sys \<Longrightarrow> os_socket sys \<noteq> -1 \<Longrightarrow> fds n1 = insert (os_socket sys) (fds n) \<Longrightarrow>
      opens_or_gives_up (os_socket sys) n (rest h1 n1)"
  shows "opens_or_gives_up (os_socket sys) n (open_socket sys rest h n)"
proof (cases "os_socket sys = -1")
  case True
  then show ?thesis by (simp add: open_socket_def suspenders_socket_def opens_or_gives_up_def)
next
  case False
  then have "\<not> os_nonblocking sys \<or> open_socket sys rest h n =
      rest (h\<lparr>h_fd := os_socket sys\<rparr>) (n\<lparr>fds := insert (os_socket sys) (fds n)\<rparr>)"
    by (simp add: open_socket_def suspenders_socket_def)
  then show ?thesis
  proof
    assume "\<not> os_nonblocking sys"
    with False assms(1) show ?thesis
      by (auto simp: open_socket_def suspenders_socket_def opens_or_gives_up_def give_up_def suspenders_close_socket_def)
  qed (use assms(2) False in simp)
qed

lemma give_up_sound:
  "h_fd h = sock \<Longrightarrow> sock \<notin> fds n \<Longrightarrow> fds n1 = insert sock (fds n) \<Longrightarrow> opens_or_gives_up sock n (give_up h n1)"
  by (auto simp: give_up_def opens_or_gives_up_def suspenders_close_socket_def)

lemma roles_nonzero [simp]:
  "ROLE_LISTENER \<noteq> 0" "ROLE_DIALER OR ROLE_READER OR ROLE_WRITER \<noteq> 0" "ROLE_LISTENER OR ROLE_READER OR ROLE_WRITER \<noteq> 0"
  "ROLE_READER OR ROLE_WRITER \<noteq> 0"
  by (simp_all add: ROLE_READER_def ROLE_WRITER_def ROLE_DIALER_def ROLE_LISTENER_def)

lemma granted_sound:
  "h_fd h = sock \<Longrightarrow> sock \<noteq> -1 \<Longrightarrow> fds n1 = insert sock (fds n) \<Longrightarrow> r \<noteq> 0 \<Longrightarrow>
     opens_or_gives_up sock n (True, grant_roles r h, n1)"
  by (simp add: opens_or_gives_up_def)

lemma net_call_fds [simp]: "fds (net_call c n) = fds n"
  by (simp add: net_call_def)

lemma dial_connect_sound:
  assumes "h_fd h = sock" "sock \<noteq> -1" "sock \<notin> fds n" "fds n1 = insert sock (fds n)"
  shows "opens_or_gives_up sock n (dial_connect sys addr h n1)"
  using give_up_sound [OF assms(1,3)] granted_sound [OF assms(1,2)] assms(4)
  by (simp add: dial_connect_def Let_def case_prod_beta)

lemma bind_listen_sound:
  assumes "h_fd h = sock" "sock \<noteq> -1" "sock \<notin> fds n" "fds n1 = insert sock (fds n)"
  shows "opens_or_gives_up sock n (bind_listen sys addr h n1)"
  using give_up_sound [OF assms(1,3)] granted_sound [OF assms(1,2)] assms(4) by (simp add: bind_listen_def Let_def)

lemma transports_sound:
  assumes fresh: "os_socket sys \<notin> fds n" and f: "f \<in> {tcp_dial, tcp_listen, udp_dial, udp_listen, unix_dial, unix_listen}"
  shows "opens_or_gives_up (os_socket sys) n (f sys host port h n)"
proof -
  note sound = give_up_sound [OF _ fresh] granted_sound dial_connect_sound [OF _ _ fresh] bind_listen_sound [OF _ _ fresh]
  have "opens_or_gives_up (os_socket sys) n (tcp_dial sys host port h n)"
    unfolding tcp_dial_def by (rule open_socket_sound [OF fresh]) (simp add: sound split: option.split)
  moreover have "opens_or_gives_up (os_socket sys) n (tcp_listen sys host port h n)"
    unfolding tcp_listen_def by (rule open_socket_sound [OF fresh]) (simp add: sound)
  moreover have "opens_or_gives_up (os_socket sys) n (udp_dial sys host port h n)"
    unfolding udp_dial_def by (rule open_socket_sound [OF fresh]) (simp add: sound Let_def split: option.split sys_result.split)
  moreover have "opens_or_gives_up (os_socket sys) n (udp_listen sys host port h n)"
    unfolding udp_listen_def by (rule open_socket_sound [OF fresh]) (simp add: sound Let_def)
  moreover have "opens_or_gives_up (os_socket sys) n (unix_dial sys host port h n)"
    unfolding unix_dial_def by (rule open_socket_sound [OF fresh]) (simp add: sound)
  moreover have "opens_or_gives_up (os_socket sys) n (unix_listen sys host port h n)"
    unfolding unix_listen_def by (rule open_socket_sound [OF fresh]) (simp add: sound)
  ultimately show ?thesis using f by (elim insertE) simp_all
qed

lemma sock_close_closes:
  "fds (snd (s_sock_close h n)) = (if h_fd h = -1 then fds n else fds n - {h_fd h})"
  "h_fd (fst (s_sock_close h n)) = -1" "roles (fst (s_sock_close h n)) = 0"
  by (simp_all add: s_sock_close_def suspenders_close_socket_def)

text \<open>C39. Dialing and listening leak no descriptor: whatever the system answers, a transport that fails leaves the hose
  without a descriptor and closes the socket it had opened, and one that succeeds leaves exactly the new
  descriptor open and in the hose. Closing the hose then closes exactly that descriptor.\<close>

theorem transports_leak_no_descriptor:
  assumes "os_socket sys \<notin> fds n"
    and "f \<in> {tcp_dial, tcp_listen, udp_dial, udp_listen, unix_dial, unix_listen}"
    and "f sys host port h n = (ok, h', n')"
  shows "if ok then os_socket sys \<noteq> -1 \<and> h_fd h' = os_socket sys \<and> roles h' \<noteq> 0 \<and> fds n' = insert (os_socket sys) (fds n) \<and>
      fds (snd (s_sock_close h' n')) = fds n
    else h_fd h' = -1 \<and> fds n' = fds n"
  using transports_sound [OF assms(1,2), of host port h] assms(1,3)
  by (simp add: opens_or_gives_up_def sock_close_closes)

definition refusing_os :: os where
  "refusing_os = \<lparr>os_socket = 5, os_nonblocking = True, os_pton = (\<lambda>_. Some 7), os_connect = (\<lambda>_. (SysErr, Ready, None)),
     os_bind = (\<lambda>_. True), os_listen = False\<rparr>"

definition std_net :: net where
  "std_net = \<lparr>fds = {0, 1, 2}, net_calls = [], core = blank_rt\<rparr>"

theorem transports_leak_no_descriptor_witness:
  "h_fd (fst (snd (tcp_listen refusing_os ''localhost'' 80 (suspenders_hose_init None) std_net))) = -1 \<and>
   fds (snd (snd (tcp_listen refusing_os ''localhost'' 80 (suspenders_hose_init None) std_net))) = {0, 1, 2}"
proof -
  let ?r = "tcp_listen refusing_os ''localhost'' 80 (suspenders_hose_init None) std_net"
  have e: "?r = (fst ?r, fst (snd ?r), snd (snd ?r))" by simp
  have "\<not> fst ?r"
    by (simp add: tcp_listen_def open_socket_def bind_listen_def suspenders_socket_def give_up_def refusing_os_def Let_def)
  with transports_leak_no_descriptor [of refusing_os std_net tcp_listen, OF _ _ e] show ?thesis
    by (simp add: refusing_os_def std_net_def)
qed

section \<open>The registry\<close>

text \<open>Registering is idempotent, keeps what is found already, and makes the scheme findable as long as there is
  room.\<close>

lemma find_snoc: "find P (xs @ [x]) = (case find P xs of Some y \<Rightarrow> Some y | None \<Rightarrow> if P x then Some x else None)"
  by (induction xs) auto

lemma register_find:
  assumes "suspenders_transport_register tab (Some r) reg = (ok, reg')"
  shows "(ok \<longrightarrow> (\<exists>sch. op_scheme (tab r) = Some sch \<and> suspenders_transport_find tab sch reg' \<noteq> None)) \<and>
    (\<forall>sch q. suspenders_transport_find tab sch reg = Some q \<longrightarrow> suspenders_transport_find tab sch reg' = Some q) \<and>
    suspenders_transport_register tab (Some r) reg' = (ok, reg') \<and> (\<not> ok \<longrightarrow> reg' = reg)"
  using assms
  by (auto simp: suspenders_transport_register_def suspenders_transport_find_def find_None_iff list_ex_iff find_snoc
      split: if_splits option.splits)

text \<open>The memory with the tables of the library at addresses 0 to 3 and the tables of applications elsewhere, and
  the registry \<open>suspenders_init\<close> leaves in a build without QUIC.\<close>

definition std_ops :: "ops_mem \<Rightarrow> ops_mem" where
  "std_ops user r =
     (if r = 0 then tcp_transport_ops else if r = 1 then udp_transport_ops else if r = 2 then unix_transport_ops
      else if r = 3 then tty_transport_ops else user r)"

lemmas transport_ops_defs = tcp_transport_ops_def udp_transport_ops_def unix_transport_ops_def tty_transport_ops_def

lemma std_ops_simps [simp]:
  "std_ops user 0 = tcp_transport_ops" "std_ops user (Suc 0) = udp_transport_ops"
  "std_ops user 2 = unix_transport_ops" "std_ops user 3 = tty_transport_ops"
  by (simp_all add: std_ops_def)

definition init_registry :: "ops_mem \<Rightarrow> nat list \<Rightarrow> nat list" where
  "init_registry tab reg = foldl (\<lambda>rg r. snd (suspenders_transport_register tab (Some r) rg)) reg [0, Suc 0, 2, 3]"

lemma init_registry_empty: "init_registry (std_ops user) [] = [0, Suc 0, 2, 3]"
  by (simp add: init_registry_def suspenders_transport_register_def transport_ops_defs)

lemma init_registry_again: "init_registry (std_ops user) [0, Suc 0, 2, 3] = [0, Suc 0, 2, 3]"
  by (simp add: init_registry_def suspenders_transport_register_def)

section \<open>Dialing\<close>

lemma find_std:
  "suspenders_transport_find (std_ops user) ''tcp://'' [0, Suc 0, 2, 3] = Some 0"
  "suspenders_transport_find (std_ops user) ''udp://'' [0, Suc 0, 2, 3] = Some 1"
  by (simp_all add: suspenders_transport_find_def transport_ops_defs)

lemma dial_connect_success:
  "dial_connect sys addr h n = (True, h', n') \<Longrightarrow>
     net_calls n' = net_calls n @ [Connect addr] \<and> h' = grant_roles (ROLE_DIALER OR ROLE_READER OR ROLE_WRITER) h"
  by (auto simp: dial_connect_def Let_def case_prod_beta net_call_def give_up_def split: if_splits)

lemma dial_connect_calls: "dial_connect sys addr h n = (ok, h', n') \<Longrightarrow> net_calls n' = net_calls n @ [Connect addr]"
  by (auto simp: dial_connect_def Let_def case_prod_beta net_call_def give_up_def suspenders_close_socket_def split: if_splits)

lemma tcp_dial_success:
  assumes "tcp_dial sys host port h n = (True, h', n')"
  shows "\<exists>a. os_pton sys host = Some a \<and> net_calls n' = net_calls n @ [Connect (Inet a (word_of_int port))] \<and>
    h' = grant_roles (ROLE_DIALER OR ROLE_READER OR ROLE_WRITER) (h\<lparr>h_fd := os_socket sys\<rparr>) \<and> os_socket sys \<noteq> -1"
  using assms
  by (auto simp: tcp_dial_def open_socket_def suspenders_socket_def give_up_def Let_def
      split: if_splits option.splits dest!: dial_connect_success)

lemma may_read_write_granted:
  assumes "h_fd h \<noteq> -1"
  shows "may_read (grant_roles (ROLE_DIALER OR ROLE_READER OR ROLE_WRITER) h)"
    and "may_write (grant_roles (ROLE_DIALER OR ROLE_READER OR ROLE_WRITER) h)"
proof -
  have "(r OR 7) AND 1 \<noteq> (0 :: u8)" "(r OR 7) AND 2 \<noteq> (0 :: u8)" for r :: u8
    by (simp_all add: bit.conj_disj_distrib2 u8_or_nonzero)
  then show "may_read (grant_roles (ROLE_DIALER OR ROLE_READER OR ROLE_WRITER) h)"
    "may_write (grant_roles (ROLE_DIALER OR ROLE_READER OR ROLE_WRITER) h)" using assms
    by (simp_all add: may_read_def may_write_def grant_roles_def ROLE_READER_def ROLE_WRITER_def ROLE_DIALER_def)
qed


text \<open>Dialing reaches the address of the URI: once the runtime has registered its transports, a dial of
  \<open>tcp://host:port\<close> that succeeds has made exactly one connection, to the address \<open>inet_pton\<close> gives for the host and
  to that port, and the hose can be read and written through the stream operations.\<close>

theorem hose_dial_connects:
  assumes "host \<noteq> []" and "length host \<le> 255" and "CHR '':'' \<notin> set host" and "port < 65536"
    and "suspenders_hose_dial (std_ops user) (init_registry (std_ops user) []) sys (''tcp://'' @ host @ '':'' @ show_nat port) d n = (True, d', n')"
  shows "\<exists>a p. os_pton sys host = Some a \<and> unat p = port \<and> net_calls n' = net_calls n @ [Connect (Inet a p)] \<and>
    h_fd d' = os_socket sys \<and> may_read d' \<and> may_write d' \<and> protocol d' = PROTO_TCP \<and>
    hose_fn op_read (std_ops user) d' = Some s_stream_read \<and> hose_fn op_write (std_ops user) d' = Some s_stream_write \<and>
    hose_fn op_close (std_ops user) d' = Some s_sock_close"
proof -
  let ?d = "d\<lparr>protocol := PROTO_TCP, h_transport := Some 0\<rparr>"
  have "suspenders_hose_dial (std_ops user) (init_registry (std_ops user) []) sys (''tcp://'' @ host @ '':'' @ show_nat port) d n
      = tcp_dial sys host (int port) ?d n"
    unfolding suspenders_hose_dial_def hose_open_def init_registry_empty parse_network scan_address [OF assms(1-3)] find_std
    by (simp add: find_std tcp_transport_ops_def)
  with assms(5) have "tcp_dial sys host (int port) ?d n = (True, d', n')" by simp
  from tcp_dial_success [OF this] obtain a where a: "os_pton sys host = Some a"
    "net_calls n' = net_calls n @ [Connect (Inet a (word_of_int (int port)))]"
    "d' = grant_roles (ROLE_DIALER OR ROLE_READER OR ROLE_WRITER) (?d\<lparr>h_fd := os_socket sys\<rparr>)" "os_socket sys \<noteq> -1" by blast
  moreover have "unat (word_of_int (int port) :: 16 word) = port"
    using assms(4) by (simp add: unat_of_nat take_bit_nat_eq_self)
  moreover have "h_transport d' = Some 0" "protocol d' = PROTO_TCP" using a(3) by (simp_all add: grant_roles_def)
  ultimately show ?thesis
    using may_read_write_granted [of "?d\<lparr>h_fd := os_socket sys\<rparr>"]
    by (intro exI conjI) (simp_all add: hose_fn_def tcp_transport_ops_def)
qed

definition open_os :: os where
  "open_os = \<lparr>os_socket = 5, os_nonblocking = True, os_pton = (\<lambda>_. Some 7), os_connect = (\<lambda>_. (SysOk 0, Ready, None)),
     os_bind = (\<lambda>_. True), os_listen = True\<rparr>"

theorem hose_dial_connects_witness:
  "\<exists>p. unat p = 8080 \<and> net_calls (snd (snd (suspenders_hose_dial (std_ops (\<lambda>_. tty_transport_ops)) (init_registry (std_ops (\<lambda>_. tty_transport_ops)) []) open_os
     (''tcp://'' @ ''10.0.0.1'' @ '':'' @ show_nat 8080) (suspenders_hose_init None) std_net))) = [Connect (Inet 7 p)]"
proof -
  let ?r = "suspenders_hose_dial (std_ops (\<lambda>_. tty_transport_ops)) (init_registry (std_ops (\<lambda>_. tty_transport_ops)) []) open_os
     (''tcp://'' @ ''10.0.0.1'' @ '':'' @ show_nat 8080) (suspenders_hose_init None) std_net"
  have "fst ?r"
    unfolding suspenders_hose_dial_def hose_open_def init_registry_empty parse_network
    by (subst scan_address) (simp_all add: find_std tcp_transport_ops_def tcp_dial_def open_socket_def suspenders_socket_def
        dial_connect_def open_os_def std_net_def blank_rt_def s_io_connect_def s_io_pre_def s_io_is_cr_def s_io_effective_deadline_def Let_def)
  then have e: "?r = (True, fst (snd ?r), snd (snd ?r))" by (simp add: prod_eq_iff)
  show ?thesis using hose_dial_connects [OF _ _ _ _ e] by (force simp: open_os_def std_net_def)
qed

section \<open>Streams\<close>

lemma stream_write_sent:
  "stream_write_loop pss src out n = (r, out', n') \<Longrightarrow>
     \<exists>k \<le> length src. out' = out @ take k src \<and> (\<forall>m. r = Some m \<longrightarrow> m = -1 \<or> m = int (length out'))"
proof (induction pss src out n rule: stream_write_loop.induct)
  case (3 ps pss b bs out n)
  obtain o1 n1 where io: "on_core (s_io_send ps) n = (o1, n1)" by fastforce
  show ?case
  proof (cases "\<exists>j. o1 = IoOk j \<and> j \<noteq> 0")
    case False
    with 3(2) io show ?thesis by (intro exI [of _ 0]) (auto split: io_outcome.splits if_splits)
  next
    case True
    then obtain j where j: "o1 = IoOk j" "j \<noteq> 0" by blast
    with 3 io obtain k where k: "k \<le> length (drop j (b # bs))" "out' = (out @ take j (b # bs)) @ take k (drop j (b # bs))"
      "\<forall>m. r = Some m \<longrightarrow> m = -1 \<or> m = int (length out')" by fastforce
    then have "out' = out @ take (j + k) (b # bs)" by (simp only: take_add append_assoc)
    with k show ?thesis
      by (cases "j \<le> length (b # bs)") (intro exI [of _ "j + k"], force, intro exI [of _ "length (b # bs)"], force)
  qed
qed (auto intro: exI [of _ 0])

definition no_empty_send :: "passes list \<Rightarrow> bool" where
  "no_empty_send pss \<longleftrightarrow> list_all (\<lambda>ps. io_loop ps \<noteq> IoOk 0) pss"

lemma send_outcome: "on_core (s_io_send ps) n = (IoOk k, n1) \<Longrightarrow> io_loop ps = IoOk k"
  by (auto simp: on_core_def s_io_send_def io_call_def Let_def split: prod.splits bool.splits io_outcome.splits)

lemma stream_write_all:
  "stream_write_loop pss src out n = (Some m, out', n') \<Longrightarrow> m \<noteq> -1 \<Longrightarrow> no_empty_send pss \<Longrightarrow> out' = out @ src"
proof (induction pss src out n rule: stream_write_loop.induct)
  case (3 ps pss b bs out n)
  obtain o1 n1 where io: "on_core (s_io_send ps) n = (o1, n1)" by fastforce
  with 3(2,3) obtain j where j: "o1 = IoOk j" by (cases o1) auto
  have "j \<noteq> 0" using 3(4) send_outcome [of ps n j n1] io j by (auto simp: no_empty_send_def)
  then have "out' = (out @ take j (b # bs)) @ drop j (b # bs)" using 3 io j by (simp add: no_empty_send_def del: take_Cons' drop_Cons')
  then show ?case by (simp only: append_assoc append_take_drop_id)
qed auto

text \<open>A stream write reports what it sent: whatever counts the socket accepts, the bytes put on the wire are an
  initial part of the source, in order, and a result other than -1 is their number; if no send accepts zero
  bytes, such a result means that everything was sent.\<close>

theorem stream_write_sends_prefix:
  assumes "s_stream_write pss src h n = (Some m, out, n')"
  shows "(\<exists>k \<le> length src. out = take k src) \<and> (m = -1 \<or> m = int (length out)) \<and>
    (m \<noteq> -1 \<and> no_empty_send pss \<longrightarrow> out = src)"
proof (cases "may_write h")
  case False
  with assms show ?thesis by (auto simp: s_stream_write_def intro: exI [of _ 0])
next
  case True
  with assms have e: "stream_write_loop pss src [] n = (Some m, out, n')" by (simp add: s_stream_write_def)
  from stream_write_sent [OF e] stream_write_all [OF e] show ?thesis by auto
qed

theorem stream_write_sends_prefix_witness:
  "fst (snd (s_stream_write [[(SysAgain, Ready), (SysOk 2, Ready)], [(SysOk 1, Ready)]] [7, 8, 9]
     ((suspenders_hose_init None)\<lparr>h_fd := 4, roles := 3\<rparr>) std_net)) = [7, 8, 9]"
proof -
  let ?w = "s_stream_write [[(SysAgain, Ready), (SysOk 2, Ready)], [(SysOk 1, Ready)]] [7, 8, 9]
     ((suspenders_hose_init None)\<lparr>h_fd := 4, roles := 3\<rparr>) std_net"
  have "?w = (Some 3, fst (snd ?w), snd (snd ?w))"
    by (simp add: s_stream_write_def may_write_def ROLE_WRITER_def on_core_def s_io_send_def io_call_def std_net_def blank_rt_def
        s_io_pre_def s_io_is_cr_def s_io_effective_deadline_def Let_def)
  from stream_write_sends_prefix [OF this] show ?thesis by (simp add: no_empty_send_def)
qed

section \<open>Closed hoses\<close>

lemma std_close:
  assumes "h_transport d \<in> {None, Some 0, Some 1, Some 2, Some 3}" and "suspenders_hose_close (std_ops user) d n = (d', n')"
  shows "d' = d\<lparr>h_fd := -1, roles := 0\<rparr> \<and>
    n' = (if h_fd d = -1 \<or> h_transport d = Some 3 then n else suspenders_close_socket (h_fd d) n)"
  using assms by (auto simp: suspenders_hose_close_def hose_fn_def transport_ops_defs s_sock_close_def tty_close_def split: if_splits)

lemmas hose_call_defs = suspenders_hose_read_def suspenders_hose_write_def suspenders_hose_recvfrom_def suspenders_hose_sendto_def
  suspenders_hose_readv_def suspenders_hose_writev_def suspenders_hose_accept_def s_stream_read_def s_stream_write_def
  s_stream_readv_def s_stream_writev_def udp_read_def udp_write_def udp_recvfrom_def udp_sendto_def

lemma inert:
  assumes "h_fd d = -1" "roles d = 0"
  shows "\<not> may_read d" "\<not> may_write d" "s_stream_accept ps nb d c n = (Some False, c, n)"
  using assms by (simp_all add: may_read_def may_write_def s_stream_accept_def)



end
