(* ===== verification/Quic_Hose.thy ===== *)
theory Quic_Hose
  imports Quic_Conn Hose
begin

text \<open>
  QUIC connections behind hoses: opening the UDP socket, the connection object in the heap, and the operations of
  the transport that create and release the two. The key self-test runs first. Shown: a dial that fails leaves neither a socket nor a connection
  behind, one that succeeds leaves exactly one of each, which closing the hose releases; an accepted connection
  borrows the socket of its listener.
\<close>

section \<open>Sockets and connection objects\<close>

record quic_sys =
  qs_net :: net
  qs_conns :: "nat \<Rightarrow> quic_conn option"
  qs_keys_done :: bool

definition s_quic_udp :: "os \<Rightarrow> string \<Rightarrow> int \<Rightarrow> bool \<Rightarrow> hose \<Rightarrow> net \<Rightarrow> bool \<times> hose \<times> net" where
  "s_quic_udp sys host port listen_mode h n =
     (case (if listen_mode then Some INADDR_ANY else os_pton sys host) of
        None \<Rightarrow> (False, h, n)
      | Some a \<Rightarrow>
          open_socket sys (\<lambda>h n.
            if listen_mode then
              (let addr = Inet a (word_of_int port); n1 = net_call (Bind addr) n
               in if \<not> os_bind sys addr then give_up h n1 else (True, h, n1))
            else (True, h, n)) h n)"

text \<open>The connection with its buffer and its keys is given back; \<open>None\<close> is a null pointer.\<close>

definition s_quic_conn_free :: "nat option \<Rightarrow> quic_sys \<Rightarrow> quic_sys" where
  "s_quic_conn_free c q = (case c of None \<Rightarrow> q | Some i \<Rightarrow> q\<lparr>qs_conns := (qs_conns q)(i := None)\<rparr>)"

definition store_conn :: "nat \<Rightarrow> quic_conn \<Rightarrow> quic_sys \<Rightarrow> quic_sys" where
  "store_conn i c q = q\<lparr>qs_conns := (qs_conns q)(i := Some c)\<rparr>"

text \<open>The self-test compares the initial key of the client with the vector of RFC 9001, until it has succeeded once
  (\<open>done\<close>). Its connection is zeroed memory.\<close>

definition s_quic_vec_cid :: bytes where
  "s_quic_vec_cid = [0x83, 0x94, 0xc8, 0xf0, 0x3e, 0x51, 0x57, 0x08]"

definition s_quic_vec_client_key :: bytes where
  "s_quic_vec_client_key = [0x1f, 0x36, 0x96, 0x13, 0xdd, 0x76, 0xd5, 0x46, 0x77, 0x30, 0xef, 0xcb, 0xe3, 0xb1, 0xa2, 0x2d]"

definition s_quic_selftest_keys :: "quic_env \<Rightarrow> quic_sys \<Rightarrow> bool \<times> quic_sys" where
  "s_quic_selftest_keys env q =
     (if qs_keys_done q then (True, q)
      else
        (let (ok, c) = s_quic_install_initial env (s_quic_conn_new\<lparr>peer_bidi_local := 0, peer_bidi_remote := 0, orig_dcid := s_quic_vec_cid\<rparr>)
         in if \<not> ok then (False, q)
            else if take 16 (k_key (keys c False S_QUIC_INITIAL)) \<noteq> s_quic_vec_client_key then (False, q)
            else (True, q\<lparr>qs_keys_done := True\<rparr>)))"

section \<open>The operations of the transport\<close>

text \<open>\<open>quic_dial\<close> with its socket: \<open>new\<close> is the memory for the connection. \<open>None\<close> while the handshake waits for datagrams.\<close>

definition quic_dial_hose ::
    "nat option \<Rightarrow> quic_env \<Rightarrow> (quic_env \<times> net_event) list \<Rightarrow> bytes option \<Rightarrow> bytes option \<Rightarrow>
     os \<Rightarrow> string \<Rightarrow> int \<Rightarrow> hose \<Rightarrow> quic_sys \<Rightarrow> bool option \<times> hose \<times> quic_sys" where
  "quic_dial_hose new env evs lcid pcid sys host port h q0 =
     (case s_quic_selftest_keys env q0 of
        (False, q) \<Rightarrow> (Some False, h, q)
      | (True, q) \<Rightarrow>
        (case s_quic_udp sys host port False h (qs_net q) of
           (False, h1, n1) \<Rightarrow> (Some False, h1, q\<lparr>qs_net := n1\<rparr>)
         | (True, h1, n1) \<Rightarrow>
             (case new of
                None \<Rightarrow> (let (_, h2, n2) = give_up h1 n1 in (Some False, h2, q\<lparr>qs_net := n2\<rparr>))
              | Some i \<Rightarrow>
                  (let (r, c) = (if os_pton sys host = None then (Some False, s_quic_conn_new\<lparr>owns_fd := True, peer_set := True\<rparr>)
                                 else quic_dial env evs lcid pcid);
                       q1 = store_conn i c (q\<lparr>qs_net := n1\<rparr>)
                   in case r of
                        None \<Rightarrow> (None, h1, q1)
                      | Some True \<Rightarrow>
                          (Some True, grant_roles (ROLE_DIALER OR ROLE_READER OR ROLE_WRITER) (h1\<lparr>h_priv := Some i, protocol := PROTO_QUIC\<rparr>), q1)
                      | Some False \<Rightarrow>
                          (Some False, h1\<lparr>h_fd := -1\<rparr>,
                           s_quic_conn_free (Some i)
                             (if owns_fd c \<and> h_fd h1 \<noteq> -1 then q1\<lparr>qs_net := suspenders_close_socket (h_fd h1) (qs_net q1)\<rparr> else q1))))))"

text \<open>\<open>cert\<close>: the self-signed certificate could be made.\<close>

definition quic_listen :: "quic_env \<Rightarrow> bool \<Rightarrow> os \<Rightarrow> string \<Rightarrow> int \<Rightarrow> hose \<Rightarrow> quic_sys \<Rightarrow> bool \<times> hose \<times> quic_sys" where
  "quic_listen env cert sys host port h q0 =
     (case s_quic_selftest_keys env q0 of
        (False, q) \<Rightarrow> (False, h, q)
      | (True, q) \<Rightarrow>
          if \<not> cert then (False, h, q)
          else
            (case s_quic_udp sys host port True h (qs_net q) of
               (False, h1, n1) \<Rightarrow> (False, h1, q\<lparr>qs_net := n1\<rparr>)
             | (True, h1, n1) \<Rightarrow> (True, grant_roles ROLE_LISTENER (h1\<lparr>protocol := PROTO_QUIC\<rparr>), q\<lparr>qs_net := n1\<rparr>)))"

text \<open>\<open>quic_accept\<close> with the hose: \<open>hash\<close> is the allocation of the transcript hash and \<open>first\<close> what the first receive
  delivers, \<open>None\<close> for an error.\<close>

definition quic_accept_hose ::
    "nat option \<Rightarrow> bool \<Rightarrow> bytes option \<Rightarrow> quic_env \<Rightarrow> (quic_env \<times> net_event) list \<Rightarrow> hose \<Rightarrow> hose \<Rightarrow> quic_sys \<Rightarrow>
     bool option \<times> hose \<times> quic_sys" where
  "quic_accept_hose new hash first env evs listener client q =
     (if roles listener AND ROLE_LISTENER = 0 then (Some False, client, q)
      else
        (case new of
           None \<Rightarrow> (Some False, client, q)
         | Some i \<Rightarrow>
             (let q0 = store_conn i (s_quic_conn_new\<lparr>is_server := True\<rparr>) q in
              if \<not> hash then (Some False, client, s_quic_conn_free (Some i) q0)
              else
                (case first of
                   None \<Rightarrow> (Some False, client, s_quic_conn_free (Some i) q0)
                 | Some buf \<Rightarrow>
                     (let (r, c) = quic_accept env buf evs; q1 = store_conn i c q0 in
                      case r of
                        None \<Rightarrow> (None, client, q1)
                      | Some False \<Rightarrow> (Some False, client, s_quic_conn_free (Some i) q1)
                      | Some True \<Rightarrow>
                          (Some True,
                           (suspenders_hose_init None)\<lparr>h_fd := h_fd listener, protocol := PROTO_QUIC, h_transport := h_transport listener,
                              roles := ROLE_READER OR ROLE_WRITER, h_priv := Some i\<rparr>, q1))))))"

definition quic_close_hose :: "quic_env \<Rightarrow> hose \<Rightarrow> quic_sys \<Rightarrow> hose \<times> quic_sys" where
  "quic_close_hose env h q =
     (case h_priv h of
        Some i \<Rightarrow>
          (let owned = (case qs_conns q i of None \<Rightarrow> False | Some c \<Rightarrow> fst (quic_close env c));
               q1 = (if owned \<and> h_fd h \<noteq> -1 then q\<lparr>qs_net := suspenders_close_socket (h_fd h) (qs_net q)\<rparr> else q)
           in (h\<lparr>h_priv := None, h_fd := -1, roles := 0\<rparr>, s_quic_conn_free (Some i) q1))
      | None \<Rightarrow>
          (h\<lparr>h_fd := -1, roles := 0\<rparr>,
           if roles h AND ROLE_LISTENER \<noteq> 0 \<and> h_fd h \<noteq> -1 then q\<lparr>qs_net := suspenders_close_socket (h_fd h) (qs_net q)\<rparr> else q))"

section \<open>Who owns the socket does not change\<close>

lemma rx_view_owner: "rx_view c = rx_view d \<Longrightarrow> owns_fd c = owns_fd d"
  by (simp add: rx_view_def)

lemma hs_view_owner: "hs_view c = hs_view d \<Longrightarrow> owns_fd c = owns_fd d"
  by (simp add: hs_view_def)

lemma owner_send [simp]:
  "owns_fd (snd (s_quic_send_frames env level fr rtx pad c)) = owns_fd c"
  "owns_fd (snd (s_quic_send_crypto env level msg off pad c)) = owns_fd c"
  by (rule hs_view_send [THEN hs_view_owner])+

lemma owner_crypto: "owns_fd (snd (crypto_msgs env level c)) = owns_fd c"
proof (induction env level c rule: crypto_msgs.induct)
  case (1 env level c)
  have "owns_fd c1 = owns_fd c" if "s_quic_on_msg env level m c = (oc, c1)" for m oc c1
    using rx_view_on_msg [of env level m c, THEN rx_view_owner] that by simp
  with 1 show ?case by (subst crypto_msgs.simps) (auto simp: Let_def split: prod.splits outcome.splits)
qed

lemma owner_room: "stream_room env need c = Some (b, c1) \<Longrightarrow> owns_fd c1 = owns_fd c"
  by (cases "rx c") (auto simp: stream_room_def Let_def split: option.splits if_splits)

lemma owner_stream: "owns_fd (snd (s_quic_stream_input env off data fin c)) = owns_fd c"
proof (cases "stream_room env (unat off + length data) c")
  case (Some r)
  then obtain b c1 where r: "stream_room env (unat off + length data) c = Some (b, c1)" by (cases r) auto
  from owner_room [OF r] show ?thesis by (simp add: s_quic_stream_input_def Let_def r)
qed (simp add: s_quic_stream_input_def Let_def)

lemma owner_frames:
  "ack_frame level t bs c = (oc, c1, r) \<Longrightarrow> owns_fd c1 = owns_fd c"
  "crypto_frame env level bs c = (oc, c1, r) \<Longrightarrow> owns_fd c1 = owns_fd c"
  "stream_frame env t bs c = (oc, c1, r) \<Longrightarrow> owns_fd c1 = owns_fd c"
proof -
  have a: "owns_fd (s_quic_apply_ack level x f d) = owns_fd d" for x f d
    using apply_ack_flight [of level x f d] by auto
  show "ack_frame level t bs c = (oc, c1, r) \<Longrightarrow> owns_fd c1 = owns_fd c"
    by (auto simp: ack_frame_def Let_def a split: option.splits prod.splits if_splits)
  have i: "owns_fd (snd (s_quic_crypto_input env level off data c)) = owns_fd c" for off data
    using owner_crypto by (auto simp: s_quic_crypto_input_def)
  show "crypto_frame env level bs c = (oc, c1, r) \<Longrightarrow> owns_fd c1 = owns_fd c"
    using i by (auto simp: crypto_frame_def Let_def split: option.splits prod.splits if_splits) (metis snd_conv)+
  show "stream_frame env t bs c = (oc, c1, r) \<Longrightarrow> owns_fd c1 = owns_fd c"
    using owner_stream by (auto simp: stream_frame_def Let_def split: option.splits prod.splits if_splits) (metis snd_conv)+
qed

lemma owner_parse: "owns_fd (snd (s_quic_parse_frames env level bs c)) = owns_fd c"
proof (induction env level bs c rule: s_quic_parse_frames.induct)
  case (1 env level bs c)
  show ?case
  proof (cases bs)
    case (Cons t rest)
    let ?f = "if t = 0x02 \<or> t = 0x03 then ack_frame level t rest c
      else if t = 0x06 then crypto_frame env level rest c else stream_frame env t rest c"
    obtain oc c1 r where f: "?f = (oc, c1, r)" by (metis prod_cases3)
    then have o: "owns_fd c1 = owns_fd c" by (metis owner_frames)
    have "owns_fd (snd (case ?f of (Good, c1, rest') \<Rightarrow> s_quic_parse_frames env level rest' c1 | (r, c1, _) \<Rightarrow> (r, c1))) = owns_fd c"
      if "t \<noteq> 0" "t \<noteq> 1" "t \<noteq> 0x1e" "\<not> (t = 0x1c \<or> t = 0x1d)" "t = 0x02 \<or> t = 0x03 \<or> t = 0x06 \<or> t AND 0xf8 = 0x08"
    proof (cases oc)
      case Good
      have "\<not> (t = 0 \<or> t = 1 \<or> t = 0x1e)" using that by simp
      from 1(2) [OF Cons this that(4,5) f [symmetric] Good refl] o show ?thesis unfolding f by (simp add: Good)
    qed (use o f in simp_all)
    with 1(1) [OF Cons] show ?thesis by (subst s_quic_parse_frames.simps) (simp add: Cons)
  qed (simp add: s_quic_parse_frames.simps)
qed

lemma owner_plain: "open_plain env level pn plain m d = (x, y, c2) \<Longrightarrow> owns_fd c2 = owns_fd d"
proof -
  assume e: "open_plain env level pn plain m d = (x, y, c2)"
  obtain dup c1 where n: "s_quic_note_rx level pn d = (dup, c1)" by force
  have "owns_fd (snd (s_quic_note_rx level pn d)) = owns_fd d" by (simp add: s_quic_note_rx_def Let_def)
  with n have "owns_fd c1 = owns_fd d" by simp
  moreover obtain oc c3 where "s_quic_parse_frames env level plain c1 = (oc, c3)" by force
  moreover from this have "owns_fd c3 = owns_fd c1" by (metis owner_parse snd_conv)
  ultimately show "owns_fd c2 = owns_fd d" using e n by (cases dup; cases oc) (auto simp: open_plain_def)
qed

lemma owner_header: "owns_fd (snd (long_header pkt d)) = owns_fd d"
  by (simp add: long_header_def Let_def split: option.split prod.split)

lemma owner_open: "s_quic_open_packet env pkt c = (rc, k, c1) \<Longrightarrow> owns_fd c1 = owns_fd c"
proof -
  assume e: "s_quic_open_packet env pkt c = (rc, k, c1)"
  let ?h = "if pkt ! 0 AND 0x80 \<noteq> 0 then long_header pkt c else (short_header pkt c, c)"
  obtain h d where h: "?h = (h, d)" by force
  then have d: "owns_fd d = owns_fd c" using owner_header [of pkt c] by (metis snd_conv)
  from e show "owns_fd c1 = owns_fd c"
    unfolding s_quic_open_packet_def Let_def h using d by (auto split: if_splits option.splits dest!: owner_plain)
qed

lemma owner_ingest: "owns_fd (snd (s_quic_ingest env buf c)) = owns_fd c"
proof (induction env buf c rule: s_quic_ingest.induct)
  case (1 env buf c)
  then show ?case
    by (subst s_quic_ingest.simps) (auto split: prod.splits pkt_rc.splits if_splits dest: owner_open)
qed

lemma owner_retransmit: "owns_fd (snd (retransmit_levels env ls c)) = owns_fd c"
proof (induction ls arbitrary: c)
  case (Cons l ls)
  have "owns_fd c1 = owns_fd c" if "s_quic_send_frames env l fr True pad c = (ok, c1)" for fr pad ok c1
    using owner_send(1) [of env l fr True pad c] that by simp
  with Cons show ?case by (auto simp: Let_def split: prod.splits bool.splits)
qed simp

lemma owner_drive: "owns_fd (snd (s_quic_drive evs deadline want c)) = owns_fd c"
proof (induction evs deadline want c rule: s_quic_drive.induct)
  case (2 env ev evs deadline want c)
  have r: "owns_fd c1 = owns_fd c" if "s_quic_retransmit env c = (ok, c1)" for ok c1
    using owner_retransmit [of env "[S_QUIC_INITIAL, S_QUIC_HANDSHAKE, S_QUIC_APP]" c] that by (simp add: s_quic_retransmit_def)
  have i: "owns_fd c2 = owns_fd d" if "s_quic_ingest env buf d = (oc, c2)" for buf d oc c2 using owner_ingest [of env buf d] that by simp
  from 2 show ?case by (auto simp: Let_def split: prod.splits net_event.splits outcome.splits dest!: r i)
qed simp

lemma owner_keys [simp]:
  "owns_fd (snd (s_quic_install_initial env c)) = owns_fd c" "owns_fd (snd (s_quic_x25519 env c)) = owns_fd c"
  "owns_fd (s_quic_hash_update m c) = owns_fd c"
proof -
  show "owns_fd (snd (s_quic_x25519 env c)) = owns_fd c" by (rule hs_view_derive(2) [THEN hs_view_owner])
  show "owns_fd (snd (s_quic_install_initial env c)) = owns_fd c"
    by (simp add: s_quic_install_initial_def hs_view_install_level [THEN hs_view_owner] split: option.split)
  show "owns_fd (s_quic_hash_update m c) = owns_fd c" by (rule hs_view_upd(2) [THEN hs_view_owner])
qed

text \<open>A dialled connection owns its socket, an accepted one does not.\<close>

lemma dial_owns: "owns_fd (snd (quic_dial env evs lcid pcid))"
proof (cases "lcid = None \<or> pcid = None")
  case True
  then show ?thesis by (cases lcid; cases pcid) (auto simp: quic_dial_def)
next
  case False
  then obtain l p where lp: "lcid = Some l" "pcid = Some p" by auto
  define c1 where "c1 = s_quic_conn_new\<lparr>owns_fd := True, is_server := False, peer_set := True, local_cid := l, peer_cid := p, orig_dcid := p\<rparr>"
  obtain ok2 c2 where c2: "s_quic_install_initial env c1 = (ok2, c2)" by force
  obtain ok3 c3 where c3: "s_quic_x25519 env c2 = (ok3, c3)" by force
  have "owns_fd c1" by (simp add: c1_def)
  then have o: "owns_fd c2" "owns_fd c3" using owner_keys(1) [of env c1] owner_keys(2) [of env c2] c2 c3 by simp_all
  show ?thesis
  proof (cases "s_quic_build_client_hello (e_rand env 32) c3 1024")
    case None
    with lp c2 c3 o show ?thesis by (simp add: quic_dial_def flip: c1_def)
  next
    case (Some ch)
    obtain ok4 c4 where c4: "s_quic_send_crypto env S_QUIC_INITIAL ch 0 1200 (s_quic_hash_update ch c3) = (ok4, c4)" by force
    have "owns_fd c4" by (metis owner_send(2) owner_keys(3) o(2) c4 snd_conv)
    with Some lp c2 c3 c4 o show ?thesis by (simp add: quic_dial_def owner_drive del: S_QUIC_INITIAL_def flip: c1_def)
  qed
qed

lemma accept_borrows: "\<not> owns_fd (snd (quic_accept env buf evs))"
proof -
  have n: "\<not> owns_fd s_quic_conn_new" by (simp add: s_quic_conn_new_def)
  have i: "\<not> owns_fd c1" if "s_quic_install_initial env (s_quic_conn_new\<lparr>is_server := True, peer_set := True, local_cid := x, orig_dcid := y\<rparr>) = (ok, c1)"
    for x y ok c1 using owner_keys(1) [of env "s_quic_conn_new\<lparr>is_server := True, peer_set := True, local_cid := x, orig_dcid := y\<rparr>"] that n by simp
  have g: "owns_fd c2 = owns_fd d" if "s_quic_ingest env buf d = (oc, c2)" for d oc c2 using owner_ingest [of env buf d] that by simp
  have v: "owns_fd c3 = owns_fd d" if "s_quic_drive evs dl w d = (r, c3)" for dl w d r c3 using owner_drive [of evs dl w d] that by simp
  show ?thesis
    by (auto simp: quic_accept_def Let_def n split: prod.splits outcome.splits option.splits bool.splits dest!: i g v)
qed

section \<open>Descriptors and connections\<close>

lemma udp_sound:
  assumes "s_quic_udp sys host port lm h n = (ok, h', n')" and "os_socket sys \<notin> fds n"
  shows "if ok then os_socket sys \<noteq> -1 \<and> h_fd h' = os_socket sys \<and> fds n' = insert (os_socket sys) (fds n) \<and> h_priv h' = h_priv h \<and> roles h' = roles h
    else fds n' = fds n"
  using assms
  by (auto simp: s_quic_udp_def open_socket_def suspenders_socket_def give_up_def suspenders_close_socket_def net_call_def Let_def
      split: option.splits if_splits)

lemma close_owner: "fst (quic_close env c) = owns_fd c"
  by (simp add: quic_close_def Let_def)

lemma selftest_only_flag:
  assumes "s_quic_selftest_keys env p = (ok, q)"
  shows "qs_net q = qs_net p" "qs_conns q = qs_conns p" "qs_keys_done p \<Longrightarrow> ok" "ok \<longleftrightarrow> qs_keys_done q"
  using assms by (auto simp: s_quic_selftest_keys_def Let_def split: if_splits prod.splits)

text \<open>Dialling a QUIC connection leaks nothing: whatever the system, the allocator, the cryptography and the peer
  answer, a dial that fails leaves the descriptors and the connection objects as they were; one that succeeds has
  added exactly one of each, both held by the hose, and closing the hose at any later state of the connection
  releases exactly these two.\<close>

theorem quic_dial_leaks_nothing:
  assumes "os_socket sys \<notin> fds (qs_net p)" and "\<forall>i. new = Some i \<longrightarrow> qs_conns p i = None"
    and "quic_dial_hose new env evs lcid pcid sys host port h p = (r, h', q')"
  shows "(r = Some False \<longrightarrow> fds (qs_net q') = fds (qs_net p) \<and> qs_conns q' = qs_conns p) \<and>
    (r = Some True \<longrightarrow>
       (\<exists>i c. new = Some i \<and> h_priv h' = Some i \<and> h_fd h' = os_socket sys \<and> fds (qs_net q') = insert (os_socket sys) (fds (qs_net p)) \<and>
          qs_conns q' = (qs_conns p)(i := Some c) \<and> owns_fd c \<and>
          (\<forall>env2 c2. owns_fd c2 = owns_fd c \<longrightarrow>
             (let q2 = snd (quic_close_hose env2 h' (store_conn i c2 q')) in
              fds (qs_net q2) = fds (qs_net p) \<and> qs_conns q2 = qs_conns p))))"
proof -
  obtain keys_ok q where t: "s_quic_selftest_keys env p = (keys_ok, q)" by (metis surj_pair)
  note tq = selftest_only_flag(1,2) [OF t]
  note fresh = assms(1,2) [folded tq]
  obtain ok h1 n1 where u: "s_quic_udp sys host port False h (qs_net q) = (ok, h1, n1)" by (metis prod_cases3)
  note s = udp_sound [OF u fresh(1)]
  obtain r0 c where d: "(if os_pton sys host = None then (Some False, s_quic_conn_new\<lparr>owns_fd := True, peer_set := True\<rparr>)
      else quic_dial env evs lcid pcid) = (r0, c)" by (rule prod.exhaust)
  have o: "owns_fd c" using d dial_owns [of env evs lcid pcid] by (auto split: if_splits)
  consider "\<not> keys_ok \<or> \<not> ok" | "keys_ok" ok "new = None" | i where "keys_ok" ok "new = Some i" by (cases new) auto
  then show ?thesis
  proof cases
    case 1
    then have "r = Some False \<and> (q' = q \<or> q' = q\<lparr>qs_net := n1\<rparr> \<and> \<not> ok)"
      using assms(3) u t by (cases keys_ok) (simp_all add: quic_dial_hose_def)
    with s show ?thesis by (auto simp: tq)
  next
    case 2
    then have "r = Some False \<and> q' = q\<lparr>qs_net := suspenders_close_socket (h_fd h1) n1\<rparr>"
      using assms(3) u t by (simp add: quic_dial_hose_def give_up_def)
    with 2 s fresh(1) show ?thesis by (simp add: suspenders_close_socket_def tq)
  next
    case (3 i)
    have free: "(qs_conns q)(i := None) = qs_conns q" using fresh(2) 3(3) by auto
    have e: "(r, h', q') =
        (case r0 of
           None \<Rightarrow> (None, h1, store_conn i c (q\<lparr>qs_net := n1\<rparr>))
         | Some True \<Rightarrow> (Some True, grant_roles (ROLE_DIALER OR ROLE_READER OR ROLE_WRITER) (h1\<lparr>h_priv := Some i, protocol := PROTO_QUIC\<rparr>),
             store_conn i c (q\<lparr>qs_net := n1\<rparr>))
         | Some False \<Rightarrow> (Some False, h1\<lparr>h_fd := -1\<rparr>,
             s_quic_conn_free (Some i) ((store_conn i c (q\<lparr>qs_net := n1\<rparr>))\<lparr>qs_net := suspenders_close_socket (h_fd h1) n1\<rparr>)))"
      using assms(3) 3 s o u t d
      by (cases r0) (auto simp: quic_dial_hose_def Let_def store_conn_def split: bool.split)
    consider "r0 = None" | "r0 = Some True" | "r0 = Some False" by (cases r0) auto
    then show ?thesis
    proof cases
      case 2
      with e 3 s o fresh(1) free show ?thesis
        by (auto simp: store_conn_def s_quic_conn_free_def suspenders_close_socket_def quic_close_hose_def close_owner grant_roles_def Let_def tq)
    qed (use e 3 s fresh(1) free in \<open>auto simp: store_conn_def s_quic_conn_free_def suspenders_close_socket_def tq\<close>)
  qed
qed

text \<open>An accepted connection shares the socket of its listener, and closing it leaves the socket open.\<close>

lemma quic_accept_borrows:
  assumes "\<forall>i. new = Some i \<longrightarrow> qs_conns q i = None" and "quic_accept_hose new hash first env evs l client q = (r, client', q')"
  shows "qs_net q' = qs_net q" "r = Some False \<Longrightarrow> client' = client \<and> qs_conns q' = qs_conns q"
    "r = Some True \<Longrightarrow> h_fd client' = h_fd l \<and> qs_net (snd (quic_close_hose env2 client' q')) = qs_net q \<and>
       qs_conns (snd (quic_close_hose env2 client' q')) = qs_conns q"
proof -
  have free: "(qs_conns q)(i := None) = qs_conns q" if "new = Some i" for i using assms(1) that by auto
  have b: "\<not> owns_fd c" if "quic_accept env buf evs = (x, c)" for buf x c using accept_borrows [of env buf evs] that by simp
  show "qs_net q' = qs_net q" "r = Some False \<Longrightarrow> client' = client \<and> qs_conns q' = qs_conns q"
    "r = Some True \<Longrightarrow> h_fd client' = h_fd l \<and> qs_net (snd (quic_close_hose env2 client' q')) = qs_net q \<and>
       qs_conns (snd (quic_close_hose env2 client' q')) = qs_conns q"
    using assms(2) free b
    by (auto simp: quic_accept_hose_def Let_def s_quic_conn_free_def store_conn_def quic_close_hose_def close_owner
        split: option.splits bool.splits if_splits prod.splits)
qed

end
