(* ===== verification/Io_Uring.thy ===== *)
theory Io_Uring
  imports Hose
begin

text \<open>
  The io_uring backend: submission entries, the operations of parked coroutines, cancellation, the wake
  descriptor of a worker, and the pass over the completion queue.

  The library liburing is a parameter: the record \<open>uring\<close> has the calls the code makes, on rings of any type. What the code
  relies on is \<open>uring_laws\<close>: every entry that is written stays outstanding, through the queue and the kernel, until its
  one completion with its user data is taken off the completion queue. The operation a coroutine waits for lies
  on the stack of the coroutine: \<open>i_ops\<close> holds the operations whose frames exist, by address, and \<open>i_stale\<close> records an
  access to one that does not.
\<close>

section \<open>Rings\<close>

datatype user_data = UNull | UOp nat

datatype prep =
    Unprepared
  | PrepRecv int ptr nat
  | PrepSend int ptr nat
  | PrepReadv int ptr nat
  | PrepWritev int ptr nat
  | PrepAccept int
  | PrepConnect int ptr nat
  | PrepRecvmsg int ptr
  | PrepSendmsg int ptr
  | PrepCancel nat
  | PrepPollAdd int
  | PrepLinkTimeout u64 u64

record sqe =
  sqe_prep :: prep
  sqe_link :: bool
  sqe_data :: user_data

record cqe =
  cqe_data :: user_data
  cqe_res :: int

text \<open>The calls of the library: whether \<open>io_uring_get_sqe\<close> has an entry; filling in the entry it returned; clearing the
  link flag of the entry filled in last; \<open>io_uring_submit\<close>; the completions that are visible; \<open>io_uring_cq_advance\<close>;
  \<open>io_uring_wait_cqe\<close> and \<open>io_uring_wait_cqe_timeout\<close>.\<close>

record 'r uring =
  u_room :: "'r \<Rightarrow> bool"
  u_put :: "sqe \<Rightarrow> 'r \<Rightarrow> 'r"
  u_unlink :: "'r \<Rightarrow> 'r"
  u_submit :: "'r \<Rightarrow> 'r"
  u_cqes :: "'r \<Rightarrow> cqe list"
  u_advance :: "nat \<Rightarrow> 'r \<Rightarrow> 'r"
  u_wait :: "(int \<times> int) option \<Rightarrow> 'r \<Rightarrow> int \<times> 'r"

text \<open>The kernel at work: nothing gets lost, and completions are added behind those that are visible.\<close>

definition kernel_works :: "'r uring \<Rightarrow> ('r \<Rightarrow> user_data multiset) \<Rightarrow> 'r \<Rightarrow> 'r \<Rightarrow> bool" where
  "kernel_works L out r r' \<longleftrightarrow> out r' = out r \<and> (\<exists>es. u_cqes L r' = u_cqes L r @ es)"

definition uring_laws :: "'r uring \<Rightarrow> ('r \<Rightarrow> user_data multiset) \<Rightarrow> bool" where
  "uring_laws L out \<longleftrightarrow>
     (\<forall>e r. u_room L r \<longrightarrow> out (u_put L e r) = add_mset (sqe_data e) (out r) \<and> u_cqes L (u_put L e r) = u_cqes L r) \<and>
     (\<forall>r. kernel_works L out r (u_unlink L r)) \<and>
     (\<forall>r. kernel_works L out r (u_submit L r)) \<and>
     (\<forall>ts r. kernel_works L out r (snd (u_wait L ts r))) \<and>
     (\<forall>r. mset (map cqe_data (u_cqes L r)) \<subseteq># out r) \<and>
     (\<forall>n r. n \<le> length (u_cqes L r) \<longrightarrow> u_cqes L (u_advance L n r) = drop n (u_cqes L r) \<and>
        out r = out (u_advance L n r) + mset (map cqe_data (take n (u_cqes L r))))"

section \<open>Creation\<close>

text \<open>\<open>sscanf(s, "%d.%d", major, minor) == 2\<close>.\<close>

definition scan_release :: "string \<Rightarrow> (int \<times> int) option" where
  "scan_release s =
     (let s1 = dropWhile is_space s;
          s2 = (case s1 of c # r \<Rightarrow> if c = CHR ''-'' \<or> c = CHR ''+'' then r else s1 | [] \<Rightarrow> s1)
      in case scan_int s of
           None \<Rightarrow> None
         | Some major \<Rightarrow>
             (case dropWhile is_digit s2 of
                c # r \<Rightarrow> if c = CHR ''.'' then map_option (Pair major) (scan_int r) else None
              | [] \<Rightarrow> None))"

text \<open>The release string is \<open>None\<close> when \<open>uname\<close> fails.\<close>

definition s_kernel_iouring_reliable :: "string option \<Rightarrow> bool" where
  "s_kernel_iouring_reliable release =
     (case release of
        None \<Rightarrow> False
      | Some u \<Rightarrow>
          (case scan_release u of
             None \<Rightarrow> False
           | Some (major, minor) \<Rightarrow> if major > 5 then True else if major = 5 \<and> minor \<ge> 19 then True else False))"

text \<open>\<open>queue_init\<close> is what \<open>io_uring_queue_init\<close> answers for a size and the optional flags: a ring, or failure.\<close>

definition s_iou_create :: "bool \<Rightarrow> (nat \<Rightarrow> nat \<Rightarrow> 'r option) \<Rightarrow> nat \<Rightarrow> nat \<Rightarrow> 'r option" where
  "s_iou_create mem_be queue_init flags hint =
     (if \<not> mem_be then None
      else
        (let ret = queue_init hint flags
         in case ret of
              None \<Rightarrow> if flags \<noteq> 0 then queue_init hint 0 else None
            | Some r \<Rightarrow> Some r))"

section \<open>Submission\<close>

record io_op =
  op_cr :: "cr_ref option"
  op_result :: int
  op_code :: int
  op_completed :: bool

record 'r iou =
  i_rt :: rt
  i_ring :: 'r
  i_ops :: "nat \<Rightarrow> io_op option"
  i_wake :: nat
  i_stale :: bool
  i_errno :: int

text \<open>Whether there is a free entry, after one submission if need be.\<close>

definition s_iou_get_sqe :: "'r uring \<Rightarrow> 'r \<Rightarrow> bool \<times> 'r" where
  "s_iou_get_sqe L r =
     (if u_room L r then (True, r)
      else (let r1 = u_submit L r in (u_room L r1, r1)))"

definition iou_cancel :: "'r uring \<Rightarrow> nat \<Rightarrow> 'r \<Rightarrow> 'r" where
  "iou_cancel L a r =
     (case s_iou_get_sqe L r of
        (False, r1) \<Rightarrow> r1
      | (True, r1) \<Rightarrow>
          u_submit L (u_put L \<lparr>sqe_prep = PrepCancel a, sqe_link = False, sqe_data = UNull\<rparr> r1))"

text \<open>The wake descriptor of worker \<open>w\<close> is known by the number of the worker; \<open>None\<close> stands for a worker that is
  \<open>NULL\<close>, has no descriptor or no sentinel.\<close>

definition s_iou_arm_wake :: "'r uring \<Rightarrow> nat option \<Rightarrow> 'r iou \<Rightarrow> 'r iou" where
  "s_iou_arm_wake L wo t =
     (case wo of
        None \<Rightarrow> t
      | Some w \<Rightarrow>
          if wake_fd (i_rt t) w = None then t
          else
            (case s_iou_get_sqe L (i_ring t) of
               (False, r1) \<Rightarrow> t\<lparr>i_ring := r1\<rparr>
             | (True, r1) \<Rightarrow>
                 t\<lparr>i_ring := u_submit L
                     (u_put L \<lparr>sqe_prep = PrepPollAdd (int w), sqe_link = False, sqe_data = UOp (i_wake t)\<rparr> r1)\<rparr>))"

section \<open>Operations\<close>

definition S_IOU_RECV :: int where "S_IOU_RECV = 0"
definition S_IOU_SEND :: int where "S_IOU_SEND = 1"
definition S_IOU_READV :: int where "S_IOU_READV = 2"
definition S_IOU_WRITEV :: int where "S_IOU_WRITEV = 3"
definition S_IOU_ACCEPT :: int where "S_IOU_ACCEPT = 4"
definition S_IOU_CONNECT :: int where "S_IOU_CONNECT = 5"
definition S_IOU_RECVMSG :: int where "S_IOU_RECVMSG = 6"
definition S_IOU_SENDMSG :: int where "S_IOU_SENDMSG = 7"

lemmas iou_codes = S_IOU_RECV_def S_IOU_SEND_def S_IOU_READV_def S_IOU_WRITEV_def S_IOU_ACCEPT_def
  S_IOU_CONNECT_def S_IOU_RECVMSG_def S_IOU_SENDMSG_def

text \<open>The arguments of \<open>s_iou_op\<close> after the code.\<close>

record iou_args =
  a_fd :: int
  a_buf :: ptr
  a_len :: nat
  a_iov :: ptr
  a_iovcnt :: nat
  a_addr :: ptr
  a_addrlen :: nat
  a_msg :: ptr

definition iou_prep :: "int \<Rightarrow> iou_args \<Rightarrow> prep option" where
  "iou_prep code x =
     (if code = S_IOU_RECV then Some (PrepRecv (a_fd x) (a_buf x) (a_len x))
      else if code = S_IOU_SEND then Some (PrepSend (a_fd x) (a_buf x) (a_len x))
      else if code = S_IOU_READV then Some (PrepReadv (a_fd x) (a_iov x) (a_iovcnt x))
      else if code = S_IOU_WRITEV then Some (PrepWritev (a_fd x) (a_iov x) (a_iovcnt x))
      else if code = S_IOU_ACCEPT then Some (PrepAccept (a_fd x))
      else if code = S_IOU_CONNECT then Some (PrepConnect (a_fd x) (a_addr x) (a_addrlen x))
      else if code = S_IOU_RECVMSG then Some (PrepRecvmsg (a_fd x) (a_msg x))
      else if code = S_IOU_SENDMSG then Some (PrepSendmsg (a_fd x) (a_msg x))
      else None)"

text \<open>The linked timeout for a deadline, after the operation's own entry has been written: without room for it the
  link is taken back.\<close>

definition iou_link_timeout :: "'r uring \<Rightarrow> u64 \<Rightarrow> u64 \<Rightarrow> 'r \<Rightarrow> 'r" where
  "iou_link_timeout L dl now r =
     (case s_iou_get_sqe L r of
        (True, r1) \<Rightarrow>
          (let delta = (if dl > now then dl - now else 0) in
           u_put L \<lparr>sqe_prep = PrepLinkTimeout (delta div 1000000000) (delta mod 1000000000), sqe_link = False, sqe_data = UNull\<rparr> r1)
      | (False, r1) \<Rightarrow> u_unlink L r1)"

text \<open>\<open>s_iou_op\<close> in coroutine \<open>c\<close> up to the first suspension; \<open>a\<close> is the address of its operation. The result is
  \<open>None\<close> when the coroutine is parked.\<close>

definition iou_op_begin :: "'r uring \<Rightarrow> nat \<Rightarrow> int \<Rightarrow> iou_args \<Rightarrow> cr_ref \<Rightarrow> 'r iou \<Rightarrow> int option \<times> 'r iou" where
  "iou_op_begin L a code x c t =
     (case s_iou_get_sqe L (i_ring t) of
        (False, r1) \<Rightarrow> (Some (-1), t\<lparr>i_ring := r1, i_rt := set_errno SUSPENDERS_NOMEM (i_rt t)\<rparr>)
      | (True, r1) \<Rightarrow>
          (case iou_prep code x of
             None \<Rightarrow>
               (Some (-1), t\<lparr>i_ring := u_put L \<lparr>sqe_prep = Unprepared, sqe_link = False, sqe_data = UNull\<rparr> r1,
                  i_rt := set_errno SUSPENDERS_INVAL (i_rt t)\<rparr>)
           | Some p \<Rightarrow>
               (let dl = s_io_effective_deadline (Some c) (i_rt t);
                    r2 = u_put L \<lparr>sqe_prep = p, sqe_link = (dl \<noteq> 0), sqe_data = UOp a\<rparr> r1;
                    r3 = (if dl \<noteq> 0 then iou_link_timeout L dl (now_ns (i_rt t)) r2 else r2);
                    s1 = upd_cr c (\<lambda>r. r\<lparr>pending_io := Some a\<rparr>) (i_rt t)
                in (None, t\<lparr>i_ring := u_submit L r3,
                      i_ops := (i_ops t)(a := Some \<lparr>op_cr = Some c, op_result = 0, op_code = code, op_completed = False\<rparr>),
                      i_rt := suspenders_suspend s1\<rparr>))))"

definition ECANCELED :: int where [simp]: "ECANCELED = 125"

text \<open>What a finished operation returns, from the result of its completion.\<close>

definition iou_outcome :: "cr_ref \<Rightarrow> int \<Rightarrow> 'r iou \<Rightarrow> int \<times> 'r iou" where
  "iou_outcome c res t =
     (if res < 0 then
        (if res = - ECANCELED then
           (let s1 = upd_cr c (\<lambda>r. r\<lparr>cancel_requested := False\<rparr>) (i_rt t) in
            (-1, t\<lparr>i_rt := set_errno (if cancel_requested (crs (i_rt t) c) then SUSPENDERS_CANCELED else SUSPENDERS_TIMEDOUT) s1\<rparr>))
         else (-1, t\<lparr>i_errno := - res, i_rt := set_errno SUSPENDERS_ERROR (i_rt t)\<rparr>))
      else (res, t))"

text \<open>The rest of \<open>s_iou_op\<close>, each time the coroutine runs again: it parks again until the operation is complete.
  When it returns the frame with the operation is gone.\<close>

definition iou_op_resume :: "nat \<Rightarrow> cr_ref \<Rightarrow> 'r iou \<Rightarrow> int option \<times> 'r iou" where
  "iou_op_resume a c t =
     (case i_ops t a of
        None \<Rightarrow> (None, t\<lparr>i_stale := True\<rparr>)
      | Some op \<Rightarrow>
          if \<not> op_completed op then (None, t\<lparr>i_rt := suspenders_suspend (i_rt t)\<rparr>)
          else
            (let (ret, t1) = iou_outcome c (op_result op)
                   (t\<lparr>i_rt := upd_cr c (\<lambda>r. r\<lparr>pending_io := None\<rparr>) (i_rt t)\<rparr>)
             in (Some ret, t1\<lparr>i_ops := (i_ops t1)(a := None)\<rparr>)))"

section \<open>Completions\<close>

text \<open>One completion: whether it counts as found.\<close>

definition flush_cqe :: "'r uring \<Rightarrow> cqe \<Rightarrow> 'r iou \<Rightarrow> bool \<times> 'r iou" where
  "flush_cqe L e t =
     (case cqe_data e of
        UNull \<Rightarrow> (False, t)
      | UOp a \<Rightarrow>
          (case i_ops t a of
             None \<Rightarrow> (True, t\<lparr>i_stale := True\<rparr>)
           | Some op \<Rightarrow>
               (case op_cr op of
                  None \<Rightarrow>
                    (True, s_iou_arm_wake L (s_worker (i_rt t))
                       (t\<lparr>i_rt := (case s_worker (i_rt t) of None \<Rightarrow> i_rt t | Some w \<Rightarrow> s_wake_drain w (i_rt t))\<rparr>))
                | Some c \<Rightarrow>
                    (True, t\<lparr>i_ops := (i_ops t)(a := Some (op\<lparr>op_result := cqe_res e, op_completed := True\<rparr>)),
                       i_rt := (if cr_state (crs (i_rt t) c) = SUSPENDED then suspenders_ready_enqueue c (i_rt t) else i_rt t)\<rparr>))))"

fun flush_loop :: "'r uring \<Rightarrow> cqe list \<Rightarrow> 'r iou \<Rightarrow> nat \<times> 'r iou" where
  "flush_loop L [] t = (0, t)"
| "flush_loop L (e # es) t =
     (let (hit, t1) = flush_cqe L e t; (found, t2) = flush_loop L es t1 in (if hit then found + 1 else found, t2))"

text \<open>The completions that are visible when the pass begins are handled and then taken off the queue; those posted
  meanwhile are for the next pass.\<close>

definition s_iou_flush_cqes :: "'r uring \<Rightarrow> 'r iou \<Rightarrow> nat \<times> 'r iou" where
  "s_iou_flush_cqes L t =
     (let es = u_cqes L (i_ring t); (found, t1) = flush_loop L es t in
      (found, t1\<lparr>i_ring := u_advance L (length es) (i_ring t1)\<rparr>))"

definition s_iou_wait :: "'r uring \<Rightarrow> int \<Rightarrow> 'r iou \<Rightarrow> nat \<times> 'r iou" where
  "s_iou_wait L timeout_ms t =
     (let t0 = t\<lparr>i_ring := u_submit L (i_ring t)\<rparr>;
          (found, t1) = s_iou_flush_cqes L t0
      in if found > 0 \<or> timeout_ms = 0 then (found, t1)
         else
           (let (ret, r) = u_wait L (if timeout_ms < 0 then None else Some (timeout_ms div 1000, (timeout_ms mod 1000) * 1000000)) (i_ring t1);
                t2 = t1\<lparr>i_ring := r\<rparr>
            in if ret = 0 then s_iou_flush_cqes L t2 else (found, t2)))"

section \<open>The version check\<close>

lemma scan_show_rest:
  assumes "rest = [] \<or> \<not> is_digit (hd rest)"
  shows "scan_int (show_nat n @ rest) = Some (int n)"
proof -
  obtain c r where c: "show_nat n = c # r" "is_digit c" using show_nat_Cons by blast
  have r: "\<forall>x \<in> set r. is_digit x" using show_nat_digits [of n] c by simp
  have "takeWhile is_digit (r @ rest) = r" using r assms by (cases rest) (auto simp: takeWhile_append takeWhile_eq_all_conv)
  with c digit_not_special [OF c(2)] show_nat_value [of n] show ?thesis by (simp add: scan_int_def Let_def)
qed

lemma dropWhile_show:
  assumes "rest = [] \<or> \<not> is_digit (hd rest)"
  shows "dropWhile is_digit (show_nat n @ rest) = rest"
proof -
  have "dropWhile is_digit (show_nat n @ rest) = dropWhile is_digit rest"
    using show_nat_digits [of n] by (intro dropWhile_append2) blast
  with assms show ?thesis by (cases rest) auto
qed

lemma scan_release_show:
  assumes "rest = [] \<or> \<not> is_digit (hd rest)"
  shows "scan_release (show_nat a @ ''.'' @ show_nat b @ rest) = Some (int a, int b)"
proof -
  have dot: "\<not> is_digit CHR ''.''" by (simp add: is_digit_def)
  obtain c r where c: "show_nat a = c # r" "is_digit c" using show_nat_Cons by blast
  have "scan_int (show_nat a @ ''.'' @ show_nat b @ rest) = Some (int a)"
    "dropWhile is_digit (show_nat a @ ''.'' @ show_nat b @ rest) = ''.'' @ show_nat b @ rest"
    using dot by (simp_all add: scan_show_rest dropWhile_show)
  with c digit_not_special [OF c(2)] scan_show_rest [OF assms] show ?thesis by (simp add: scan_release_def Let_def)
qed

text \<open>The ring is used from version 5.19 of the kernel on, whatever follows the two numbers in the release string.\<close>

lemma kernel_reliable_from_5_19:
  assumes "rest = [] \<or> \<not> is_digit (hd rest)"
  shows "s_kernel_iouring_reliable (Some (show_nat a @ ''.'' @ show_nat b @ rest)) \<longleftrightarrow> 5 < a \<or> a = 5 \<and> 19 \<le> b"
  by (simp only: s_kernel_iouring_reliable_def scan_release_show [OF assms] option.case prod.case) auto

section \<open>Where the operations are\<close>

lemma works_refl [simp]: "kernel_works L out r r"
  by (simp add: kernel_works_def)

lemma works_trans: "kernel_works L out r r' \<Longrightarrow> kernel_works L out r' r'' \<Longrightarrow> kernel_works L out r r''"
  by (auto simp: kernel_works_def)

lemma uring_lawsD:
  assumes "uring_laws L out"
  shows "u_room L r \<Longrightarrow> out (u_put L e r) = add_mset (sqe_data e) (out r)"
    and "u_room L r \<Longrightarrow> u_cqes L (u_put L e r) = u_cqes L r"
    and "kernel_works L out r (u_unlink L r)"
    and "kernel_works L out r (u_submit L r)"
    and "kernel_works L out r (snd (u_wait L ts r))"
    and "mset (map cqe_data (u_cqes L r)) \<subseteq># out r"
    and "n \<le> length (u_cqes L r) \<Longrightarrow> u_cqes L (u_advance L n r) = drop n (u_cqes L r)"
    and "n \<le> length (u_cqes L r) \<Longrightarrow> out r = out (u_advance L n r) + mset (map cqe_data (take n (u_cqes L r)))"
  using assms unfolding uring_laws_def by blast+

lemma get_sqe_works:
  assumes "uring_laws L out" and "s_iou_get_sqe L r = (b, r1)"
  shows "kernel_works L out r r1" and "b \<Longrightarrow> u_room L r1"
  using assms uring_lawsD(4) [OF assms(1), of r] by (auto simp: s_iou_get_sqe_def Let_def split: if_splits)

text \<open>Writing an entry, after submitting if need be, and submitting.\<close>

lemma put_works:
  assumes "uring_laws L out" and "u_room L r"
  shows "out (u_submit L (u_put L e r)) = add_mset (sqe_data e) (out r)" and "\<exists>es. u_cqes L (u_submit L (u_put L e r)) = u_cqes L r @ es"
  using uring_lawsD(1,2) [OF assms, of e] uring_lawsD(4) [OF assms(1), of "u_put L e r"] by (simp_all add: kernel_works_def)

lemma link_timeout_out:
  assumes "uring_laws L out"
  shows "count (out (iou_link_timeout L dl now r)) (UOp a) = count (out r) (UOp a)"
proof -
  obtain b r1 where g: "s_iou_get_sqe L r = (b, r1)" by fastforce
  note w = get_sqe_works [OF assms g]
  show ?thesis using g w uring_lawsD(1) [OF assms w(2)] uring_lawsD(3) [OF assms, of r1]
    by (cases b) (simp_all add: iou_link_timeout_def kernel_works_def Let_def)
qed

text \<open>Every entry of the ring that names an operation of a coroutine names one whose frame exists and that is not
  complete, and there is exactly one such entry for each of them; an operation that is complete has a coroutine
  that will run.\<close>

definition op_uses :: "io_op option \<Rightarrow> nat" where
  "op_uses oo = (case oo of Some op \<Rightarrow> if op_completed op then 0 else 1 | None \<Rightarrow> 0)"

definition iou_inv :: "user_data multiset \<Rightarrow> 'r iou \<Rightarrow> bool" where
  "iou_inv U t \<longleftrightarrow>
     \<not> i_stale t \<and>
     (\<exists>op. i_ops t (i_wake t) = Some op \<and> op_cr op = None) \<and>
     count U (UOp (i_wake t)) \<le> 1 \<and>
     (\<forall>a. a \<noteq> i_wake t \<longrightarrow> count U (UOp a) = op_uses (i_ops t a)) \<and>
     (\<forall>a op. i_ops t a = Some op \<and> a \<noteq> i_wake t \<longrightarrow> (\<exists>c. op_cr op = Some c \<and> pending_io (crs (i_rt t) c) = Some a)) \<and>
     (\<forall>c a. pending_io (crs (i_rt t) c) = Some a \<longrightarrow>
        (\<exists>op. i_ops t a = Some op \<and> op_cr op = Some c \<and> (op_completed op \<longrightarrow> cr_state (crs (i_rt t) c) \<noteq> SUSPENDED)))"

definition iou_ok :: "('r \<Rightarrow> user_data multiset) \<Rightarrow> 'r iou \<Rightarrow> bool" where
  "iou_ok out t = iou_inv (out (i_ring t)) t"

text \<open>What the rest of the runtime may do meanwhile: it does not touch \<open>pending_io\<close>, and a coroutine in an
  operation is parked only by its own loop.\<close>

definition rt_rely :: "rt \<Rightarrow> rt \<Rightarrow> bool" where
  "rt_rely s s' \<longleftrightarrow> (\<forall>c. pending_io (crs s' c) = pending_io (crs s c) \<and>
     (pending_io (crs s c) \<noteq> None \<and> cr_state (crs s' c) = SUSPENDED \<longrightarrow> cr_state (crs s c) = SUSPENDED))"

lemma rely_refl [simp]: "rt_rely s s"
  by (simp add: rt_rely_def)

lemma rely_trans: "rt_rely s s' \<Longrightarrow> rt_rely s' s'' \<Longrightarrow> rt_rely s s''"
  by (simp add: rt_rely_def)

lemma inv_rely:
  assumes "iou_inv U t" and "rt_rely (i_rt t) s"
  shows "iou_inv U (t\<lparr>i_rt := s\<rparr>)"
  using assms unfolding iou_inv_def rt_rely_def by simp (metis option.distinct(1))

lemma inv_ring:
  assumes "iou_inv U t" and "\<And>a. count V (UOp a) = count U (UOp a)"
  shows "iou_inv V (t\<lparr>i_ring := r\<rparr>)"
  using assms by (simp add: iou_inv_def)

lemma enqueue_rely [simp]: "rt_rely s (suspenders_ready_enqueue c s)"
  by (simp add: rt_rely_def suspenders_ready_enqueue_def upd_cr_def Let_def)

lemma drain_rely [simp]: "rt_rely s (s_wake_drain w s)"
  by (simp add: rt_rely_def drain_same)

lemma errno_rely [simp]: "rt_rely s (set_errno e s)"
  by (simp add: rt_rely_def set_errno_def)

lemma iou_invI:
  assumes "\<not> i_stale t" and "\<exists>op. i_ops t (i_wake t) = Some op \<and> op_cr op = None" and "count U (UOp (i_wake t)) \<le> 1"
    and "\<And>a. a \<noteq> i_wake t \<Longrightarrow> count U (UOp a) = op_uses (i_ops t a)"
    and "\<And>a op. i_ops t a = Some op \<Longrightarrow> a \<noteq> i_wake t \<Longrightarrow> \<exists>c. op_cr op = Some c \<and> pending_io (crs (i_rt t) c) = Some a"
    and "\<And>c a. pending_io (crs (i_rt t) c) = Some a \<Longrightarrow>
        \<exists>op. i_ops t a = Some op \<and> op_cr op = Some c \<and> (op_completed op \<longrightarrow> cr_state (crs (i_rt t) c) \<noteq> SUSPENDED)"
  shows "iou_inv U t"
  using assms by (simp add: iou_inv_def)

lemma iou_invD:
  assumes "iou_inv U t"
  shows "\<not> i_stale t" and "\<exists>op. i_ops t (i_wake t) = Some op \<and> op_cr op = None" and "count U (UOp (i_wake t)) \<le> 1"
    and "a \<noteq> i_wake t \<Longrightarrow> count U (UOp a) = op_uses (i_ops t a)"
    and "i_ops t a = Some op \<Longrightarrow> a \<noteq> i_wake t \<Longrightarrow> \<exists>c. op_cr op = Some c \<and> pending_io (crs (i_rt t) c) = Some a"
    and "pending_io (crs (i_rt t) c) = Some a \<Longrightarrow>
        \<exists>op. i_ops t a = Some op \<and> op_cr op = Some c \<and> (op_completed op \<longrightarrow> cr_state (crs (i_rt t) c) \<noteq> SUSPENDED)"
  using assms unfolding iou_inv_def by blast+

section \<open>Every step keeps it\<close>

lemma cancel_out:
  assumes "uring_laws L out"
  shows "count (out (iou_cancel L b r)) (UOp a) = count (out r) (UOp a)"
proof -
  obtain f r1 where g: "s_iou_get_sqe L r = (f, r1)" by fastforce
  note w = get_sqe_works [OF assms g]
  show ?thesis using g w put_works(1) [OF assms w(2)] by (cases f) (simp_all add: iou_cancel_def kernel_works_def)
qed

lemma arm_wake_ring:
  assumes "uring_laws L out" and "t' = s_iou_arm_wake L wo t"
  shows "\<exists>es. u_cqes L (i_ring t') = u_cqes L (i_ring t) @ es" and "\<exists>r. t' = t\<lparr>i_ring := r\<rparr>"
    and "out (i_ring t') = out (i_ring t) \<or> out (i_ring t') = add_mset (UOp (i_wake t)) (out (i_ring t))"
proof -
  obtain f r1 where g: "s_iou_get_sqe L (i_ring t) = (f, r1)" by fastforce
  note w = get_sqe_works [OF assms(1) g]
  have p: "out (u_submit L (u_put L e r1)) = add_mset (sqe_data e) (out (i_ring t))"
    "\<exists>es. u_cqes L (u_submit L (u_put L e r1)) = u_cqes L (i_ring t) @ es" if f for e
    using put_works [OF assms(1) w(2) [OF that], of e] w(1) by (auto simp: kernel_works_def)
  have "\<exists>r. t = t\<lparr>i_ring := r\<rparr>" by (intro exI [of _ "i_ring t"]) simp
  with g p w(1) show "\<exists>es. u_cqes L (i_ring t') = u_cqes L (i_ring t) @ es" "\<exists>r. t' = t\<lparr>i_ring := r\<rparr>"
    "out (i_ring t') = out (i_ring t) \<or> out (i_ring t') = add_mset (UOp (i_wake t)) (out (i_ring t))"
    unfolding assms(2) by (auto simp: s_iou_arm_wake_def kernel_works_def split: option.split bool.split)
qed

text \<open>A completion of an operation finds it alive and not complete.\<close>

lemma inv_uses_op:
  assumes "iou_inv U t" and "count U (UOp a) > 0" and "a \<noteq> i_wake t"
  obtains op c where "i_ops t a = Some op" "\<not> op_completed op" "op_cr op = Some c" "pending_io (crs (i_rt t) c) = Some a"
proof -
  have "op_uses (i_ops t a) > 0" using assms by (auto simp: iou_inv_def)
  then obtain op where "i_ops t a = Some op" "\<not> op_completed op" by (auto simp: op_uses_def split: option.splits if_splits)
  with assms that show thesis unfolding iou_inv_def by blast
qed

text \<open>The completion of an operation of a coroutine, on its own.\<close>

definition wake_op :: "nat \<Rightarrow> int \<Rightarrow> io_op \<Rightarrow> cr_ref \<Rightarrow> 'r iou \<Rightarrow> 'r iou" where
  "wake_op a res op c t =
     t\<lparr>i_ops := (i_ops t)(a := Some (op\<lparr>op_result := res, op_completed := True\<rparr>)),
       i_rt := (if cr_state (crs (i_rt t) c) = SUSPENDED then suspenders_ready_enqueue c (i_rt t) else i_rt t)\<rparr>"

lemma flush_cqe_op:
  assumes "cqe_data e = UOp a" "i_ops t a = Some op" "op_cr op = Some c"
  shows "flush_cqe L e t = (True, wake_op a (cqe_res e) op c t)"
  using assms by (simp add: flush_cqe_def wake_op_def)

lemma enqueue_pending [simp]: "pending_io (crs (suspenders_ready_enqueue c s) d) = pending_io (crs s d)"
  by (simp add: suspenders_ready_enqueue_def upd_cr_def Let_def)

lemma wake_op_inv:
  assumes "iou_inv (add_mset (UOp a) U) t" and "a \<noteq> i_wake t"
    and "i_ops t a = Some op" and "op_cr op = Some c"
  shows "iou_inv U (wake_op a res op c t)"
proof -
  have "count (add_mset (UOp a) U) (UOp a) = op_uses (i_ops t a)" using assms(1,2) unfolding iou_inv_def by blast
  then have u: "count U (UOp a) = 0" using assms(3) by (simp add: op_uses_def split: if_splits)
  have p: "d = c" if "pending_io (crs (i_rt t) d) = Some a" for d
    using assms(1,3,4) that unfolding iou_inv_def by fastforce
  have "\<exists>op'. i_ops (wake_op a res op c t) b = Some op' \<and> op_cr op' = Some d \<and>
      (op_completed op' \<longrightarrow> cr_state (crs (i_rt (wake_op a res op c t)) d) \<noteq> SUSPENDED)"
    if "pending_io (crs (i_rt t) d) = Some b" for b d
  proof -
    from assms(1) that obtain op' where "i_ops t b = Some op'" "op_cr op' = Some d"
      "op_completed op' \<longrightarrow> cr_state (crs (i_rt t) d) \<noteq> SUSPENDED" unfolding iou_inv_def by blast
    with p that assms(3,4) show ?thesis by (auto simp: wake_op_def state_enqueue)
  qed
  moreover have "pending_io (crs (i_rt (wake_op a res op c t)) d) = pending_io (crs (i_rt t) d)" for d by (simp add: wake_op_def)
  moreover have "\<exists>d. op_cr op' = Some d \<and> pending_io (crs (i_rt t) d) = Some b"
    if "i_ops (wake_op a res op c t) b = Some op'" "b \<noteq> i_wake t" for b op'
    using assms(1,3) that unfolding iou_inv_def wake_op_def by (auto split: if_splits)
  ultimately show ?thesis using assms(1,2) u unfolding iou_inv_def by (auto simp: wake_op_def op_uses_def)
qed

text \<open>The pass: \<open>V\<close> is outstanding and not handled yet, \<open>D\<close> is handled but not taken off the queue yet.\<close>

lemma flush_cqe_inv:
  assumes laws: "uring_laws L out" and inv: "iou_inv (add_mset (cqe_data e) V) t" and o: "out (i_ring t) = add_mset (cqe_data e) V + D"
    and u: "u = snd (flush_cqe L e t)"
  shows "\<exists>V' es. iou_inv V' u \<and> V \<subseteq># V' \<and> out (i_ring u) = V' + add_mset (cqe_data e) D \<and> u_cqes L (i_ring u) = u_cqes L (i_ring t) @ es"
proof (cases "cqe_data e")
  case UNull
  have "iou_inv V (t\<lparr>i_ring := i_ring t\<rparr>)" using UNull by (intro inv_ring [OF inv]) simp
  with UNull o show ?thesis by (intro exI [of _ V] exI [of _ "[]"]) (simp add: u flush_cqe_def)
next
  case (UOp a)
  show ?thesis
  proof (cases "a = i_wake t")
    case True
    let ?s = "case s_worker (i_rt t) of None \<Rightarrow> i_rt t | Some w \<Rightarrow> s_wake_drain w (i_rt t)"
    let ?t = "t\<lparr>i_rt := ?s\<rparr>"
    obtain op where op: "i_ops t (i_wake t) = Some op" "op_cr op = None" using iou_invD(2) [OF inv] by blast
    have z: "count V (UOp (i_wake t)) = 0" using iou_invD(3) [OF inv] UOp True by simp
    have "rt_rely (i_rt t) ?s" by (simp split: option.split)
    from inv_rely [OF inv this] have i: "iou_inv V ?t" using UOp True by (auto simp: iou_inv_def)
    have ut: "u = s_iou_arm_wake L (s_worker (i_rt t)) ?t" using op True UOp by (simp add: u flush_cqe_def)
    note arm = arm_wake_ring [OF laws ut]
    from arm(1) obtain es where es: "u_cqes L (i_ring u) = u_cqes L (i_ring t) @ es" by auto
    from arm(2) obtain r where r: "u = ?t\<lparr>i_ring := r\<rparr>" by blast
    have both: "iou_inv V u" "iou_inv (add_mset (UOp (i_wake t)) V) u" using i z unfolding r by (simp_all add: iou_inv_def)
    from arm(3) consider "out (i_ring u) = V + add_mset (cqe_data e) D"
      | "out (i_ring u) = add_mset (UOp (i_wake t)) V + add_mset (cqe_data e) D" using o by fastforce
    then show ?thesis
    proof cases
      case 1
      with both(1) es show ?thesis by (intro exI [of _ V] exI [of _ es]) simp
    next
      case 2
      with both(2) es show ?thesis by (intro exI [of _ "add_mset (UOp (i_wake t)) V"] exI [of _ es]) simp
    qed
  next
    case False
    have p: "count (add_mset (cqe_data e) V) (UOp a) > 0" using UOp by simp
    from inv_uses_op [OF inv p False] obtain op c where op: "i_ops t a = Some op" "op_cr op = Some c" by blast
    have "u = wake_op a (cqe_res e) op c t" using flush_cqe_op [OF UOp op] by (simp add: u)
    with wake_op_inv [OF inv [unfolded UOp] False op] o show ?thesis
      by (intro exI [of _ V] exI [of _ "[]"]) (simp add: wake_op_def)
  qed
qed

text \<open>Completions that are not its own leave a parked operation and its coroutine alone.\<close>

lemma flush_cqe_other:
  assumes laws: "uring_laws L out" and inv: "iou_inv (add_mset (cqe_data e) V) t"
    and pend: "pending_io (crs (i_rt t) c) = Some a" and ne: "cqe_data e \<noteq> UOp a" and u: "u = snd (flush_cqe L e t)"
  shows "i_ops u a = i_ops t a \<and> crs (i_rt u) c = crs (i_rt t) c \<and> ready_count c (i_rt u) = ready_count c (i_rt t)"
proof (cases "cqe_data e")
  case UNull
  then show ?thesis by (simp add: u flush_cqe_def)
next
  case (UOp b)
  show ?thesis
  proof (cases "b = i_wake t")
    case True
    obtain op where op: "i_ops t (i_wake t) = Some op" "op_cr op = None" using iou_invD(2) [OF inv] by blast
    let ?t = "t\<lparr>i_rt := case s_worker (i_rt t) of None \<Rightarrow> i_rt t | Some w \<Rightarrow> s_wake_drain w (i_rt t)\<rparr>"
    obtain r where "u = ?t\<lparr>i_ring := r\<rparr>" using arm_wake_ring(2) [OF laws refl, of "s_worker (i_rt t)" ?t] op True UOp
      by (auto simp: u flush_cqe_def)
    then show ?thesis by (simp add: ready_count_def drain_same split: option.split)
  next
    case False
    have p: "count (add_mset (cqe_data e) V) (UOp b) > 0" using UOp by simp
    from inv_uses_op [OF inv p False] obtain op d
      where o: "i_ops t b = Some op" "op_cr op = Some d" "pending_io (crs (i_rt t) d) = Some b" by blast
    have "b \<noteq> a" "d \<noteq> c" using ne UOp o(3) pend by auto
    then show ?thesis using flush_cqe_op [OF UOp o(1,2)]
      by (simp add: u wake_op_def ready_count_enqueue) (simp add: suspenders_ready_enqueue_def upd_cr_def Let_def)
  qed
qed

definition undisturbed :: "cr_ref \<Rightarrow> nat \<Rightarrow> 'r iou \<Rightarrow> 'r iou \<Rightarrow> bool" where
  "undisturbed c a t u \<longleftrightarrow> i_ops u a = i_ops t a \<and> crs (i_rt u) c = crs (i_rt t) c \<and> ready_count c (i_rt u) = ready_count c (i_rt t)"

lemma flush_loop_inv:
  assumes laws: "uring_laws L out"
  shows "iou_inv (mset (map cqe_data es) + V) t \<Longrightarrow> out (i_ring t) = mset (map cqe_data es) + V + D \<Longrightarrow> u = snd (flush_loop L es t) \<Longrightarrow>
    \<exists>V' fs. iou_inv V' u \<and> V \<subseteq># V' \<and> out (i_ring u) = V' + (mset (map cqe_data es) + D) \<and>
      u_cqes L (i_ring u) = u_cqes L (i_ring t) @ fs \<and>
      (\<forall>c a. pending_io (crs (i_rt t) c) = Some a \<and> UOp a \<notin> set (map cqe_data es) \<longrightarrow> undisturbed c a t u)"
proof (induction es arbitrary: t V D)
  case Nil
  then show ?case by (intro exI [of _ V] exI [of _ "[]"]) (simp add: undisturbed_def)
next
  case (Cons e es)
  let ?t = "snd (flush_cqe L e t)"
  let ?es = "mset (map cqe_data es)"
  have i: "iou_inv (add_mset (cqe_data e) (?es + V)) t" "out (i_ring t) = add_mset (cqe_data e) (?es + V) + D"
    using Cons.prems(1,2) by simp_all
  from flush_cqe_inv [OF laws i refl] obtain V1 fs where 1: "iou_inv V1 ?t" "?es + V \<subseteq># V1"
    "out (i_ring ?t) = V1 + add_mset (cqe_data e) D" "u_cqes L (i_ring ?t) = u_cqes L (i_ring t) @ fs" by blast
  obtain W where W: "V1 = ?es + (V + W)" using 1(2) by (metis mset_subset_eq_exists_conv add.assoc)
  have u: "u = snd (flush_loop L es ?t)" using Cons.prems(3) by (simp add: split_beta)
  have "out (i_ring ?t) = ?es + (V + W) + add_mset (cqe_data e) D" using 1(3) W by simp
  from Cons.IH [OF 1(1) [unfolded W] this u] obtain V2 gs where 2: "iou_inv V2 u" "V + W \<subseteq># V2"
    "out (i_ring u) = V2 + (?es + add_mset (cqe_data e) D)" "u_cqes L (i_ring u) = u_cqes L (i_ring ?t) @ gs"
    "\<forall>c a. pending_io (crs (i_rt ?t) c) = Some a \<and> UOp a \<notin> set (map cqe_data es) \<longrightarrow> undisturbed c a ?t u" by blast
  have "undisturbed c a t u" if p: "pending_io (crs (i_rt t) c) = Some a" and n: "UOp a \<notin> set (map cqe_data (e # es))" for c a
  proof -
    have "cqe_data e \<noteq> UOp a" using n by auto
    note f = flush_cqe_other [OF laws i(1) p this refl]
    have "undisturbed c a ?t u" using 2(5) p n f by auto
    with f show ?thesis by (simp add: undisturbed_def)
  qed
  moreover have "V \<subseteq># V2" using 2(2) by (meson mset_subset_eq_add_left subset_mset.order_trans)
  ultimately show ?case using 1(4) 2 by (intro exI [of _ V2] exI [of _ "fs @ gs"]) simp
qed

lemma flush_unfold: "snd (s_iou_flush_cqes L t) =
    (snd (flush_loop L (u_cqes L (i_ring t)) t))\<lparr>i_ring := u_advance L (length (u_cqes L (i_ring t))) (i_ring (snd (flush_loop L (u_cqes L (i_ring t)) t)))\<rparr>"
  by (simp add: s_iou_flush_cqes_def Let_def split_beta)

lemma flush_ok:
  assumes laws: "uring_laws L out" and ok: "iou_ok out t" and u: "u = snd (s_iou_flush_cqes L t)"
  shows "iou_ok out u"
    and "pending_io (crs (i_rt t) c) = Some a \<Longrightarrow> UOp a \<notin> set (map cqe_data (u_cqes L (i_ring t))) \<Longrightarrow> undisturbed c a t u"
proof -
  let ?es = "u_cqes L (i_ring t)"
  let ?t = "snd (flush_loop L ?es t)"
  obtain V where V: "out (i_ring t) = mset (map cqe_data ?es) + V" using uring_lawsD(6) [OF laws] by (metis mset_subset_eq_exists_conv)
  have i: "iou_inv (mset (map cqe_data ?es) + V) t" "out (i_ring t) = mset (map cqe_data ?es) + V + {#}" using ok V by (simp_all add: iou_ok_def)
  from flush_loop_inv [OF laws i refl] obtain V' fs where f: "iou_inv V' ?t" "out (i_ring ?t) = V' + (mset (map cqe_data ?es) + {#})"
    "u_cqes L (i_ring ?t) = ?es @ fs"
    "\<forall>c a. pending_io (crs (i_rt t) c) = Some a \<and> UOp a \<notin> set (map cqe_data ?es) \<longrightarrow> undisturbed c a t ?t" by blast
  let ?r = "u_advance L (length ?es) (i_ring ?t)"
  have ut: "u = ?t\<lparr>i_ring := ?r\<rparr>" by (simp add: u flush_unfold)
  have "out (i_ring ?t) = out ?r + mset (map cqe_data (take (length ?es) (u_cqes L (i_ring ?t))))"
    using f(3) by (intro uring_lawsD(8) [OF laws]) simp
  then have "out ?r = V'" using f(2,3) by simp
  then show "iou_ok out u" using inv_ring [OF f(1), of V' ?r] by (simp add: ut iou_ok_def)
  show "undisturbed c a t u" if "pending_io (crs (i_rt t) c) = Some a" "UOp a \<notin> set (map cqe_data ?es)"
    using f(4) that by (simp add: ut undisturbed_def)
qed

lemma works_ok: "iou_ok out t \<Longrightarrow> kernel_works L out (i_ring t) r \<Longrightarrow> iou_ok out (t\<lparr>i_ring := r\<rparr>)"
  unfolding iou_ok_def by (auto intro: inv_ring simp: kernel_works_def)

lemma wait_ok:
  assumes laws: "uring_laws L out" and ok: "iou_ok out t"
  shows "iou_ok out (snd (s_iou_wait L timeout_ms t))"
proof -
  let ?t = "snd (s_iou_flush_cqes L (t\<lparr>i_ring := u_submit L (i_ring t)\<rparr>))"
  have f: "iou_ok out ?t" by (rule flush_ok(1) [OF laws works_ok [OF ok uring_lawsD(4) [OF laws]] refl])
  then have w: "iou_ok out (?t\<lparr>i_ring := snd (u_wait L ts (i_ring ?t))\<rparr>)" for ts by (rule works_ok [OF _ uring_lawsD(5) [OF laws]])
  with f flush_ok(1) [OF laws w refl] show ?thesis by (simp add: s_iou_wait_def split_beta Let_def)
qed

text \<open>The coroutine that runs parks itself; no other coroutine changes.\<close>

lemma suspend_effect:
  assumes "running s = Some c"
  shows "pending_io (crs (suspenders_suspend s) d) = pending_io (crs s d)"
    and "d \<noteq> c \<Longrightarrow> cr_state (crs (suspenders_suspend s) d) = cr_state (crs s d)"
  using assms by (auto simp: suspenders_suspend_def ctx_switch_main_def upd_cr_def)

lemma begin_ok:
  assumes laws: "uring_laws L out" and ok: "iou_ok out t" and run: "running (i_rt t) = Some c" and no: "pending_io (crs (i_rt t) c) = None"
    and fresh: "i_ops t a = None"
  shows "iou_ok out (snd (iou_op_begin L a code x c t))"
proof -
  obtain b r1 where g: "s_iou_get_sqe L (i_ring t) = (b, r1)" by fastforce
  note w = get_sqe_works [OF laws g]
  have o1: "out r1 = out (i_ring t)" using w(1) by (simp add: kernel_works_def)
  have inv: "iou_inv (out (i_ring t)) t" using ok by (simp add: iou_ok_def)
  have err: "iou_ok out (t\<lparr>i_ring := r, i_rt := set_errno e (i_rt t)\<rparr>)" if "\<And>a. count (out r) (UOp a) = count (out (i_ring t)) (UOp a)" for r e
    using inv_rely [OF inv_ring [OF inv that, of r], of "set_errno e (i_rt t)"] by (simp add: iou_ok_def)
  show ?thesis
  proof (cases "b \<and> iou_prep code x \<noteq> None")
    case False
    with g o1 uring_lawsD(1) [OF laws w(2)] err show ?thesis
      by (cases b) (auto simp: iou_op_begin_def)
  next
    case True
    then obtain p where p: "iou_prep code x = Some p" by blast
    let ?dl = "s_io_effective_deadline (Some c) (i_rt t)"
    let ?r2 = "u_put L \<lparr>sqe_prep = p, sqe_link = (?dl \<noteq> 0), sqe_data = UOp a\<rparr> r1"
    let ?r3 = "if ?dl \<noteq> 0 then iou_link_timeout L ?dl (now_ns (i_rt t)) ?r2 else ?r2"
    let ?s = "upd_cr c (\<lambda>r. r\<lparr>pending_io := Some a\<rparr>) (i_rt t)"
    let ?t = "t\<lparr>i_ring := u_submit L ?r3,
      i_ops := (i_ops t)(a := Some \<lparr>op_cr = Some c, op_result = 0, op_code = code, op_completed = False\<rparr>), i_rt := suspenders_suspend ?s\<rparr>"
    have t: "snd (iou_op_begin L a code x c t) = ?t" using g True p by (simp add: iou_op_begin_def Let_def)
    have u: "count (out (u_submit L ?r3)) (UOp b) = count (out (i_ring t)) (UOp b) + (if b = a then 1 else 0)" for b
      using uring_lawsD(4) [OF laws, of ?r3] uring_lawsD(1) [OF laws w(2)] True o1
      by (simp add: kernel_works_def link_timeout_out [OF laws])
    have nw: "a \<noteq> i_wake t" using inv fresh by (auto simp: iou_inv_def)
    have pend: "pending_io (crs (suspenders_suspend ?s) d) = (if d = c then Some a else pending_io (crs (i_rt t) d))" for d
      using suspend_effect(1) [of ?s c d] run by (simp add: upd_cr_def)
    have st: "cr_state (crs (suspenders_suspend ?s) d) = cr_state (crs (i_rt t) d)" if "d \<noteq> c" for d
      using suspend_effect(2) [of ?s c d] run that by (simp add: upd_cr_def)
    have na: "pending_io (crs (i_rt t) d) \<noteq> Some a" for d using iou_invD(6) [OF inv, of d a] fresh by auto
    have "iou_inv (out (i_ring ?t)) ?t"
    proof (rule iou_invI, goal_cases)
      case 1 show ?case using iou_invD(1) [OF inv] by simp
    next
      case 2 show ?case using iou_invD(2) [OF inv] nw by simp
    next
      case 3 show ?case using iou_invD(3) [OF inv] nw by (simp add: u)
    next
      case (4 b) then show ?case using iou_invD(4) [OF inv, of b] fresh by (simp add: u op_uses_def)
    next
      case (5 b op) then show ?case using iou_invD(5) [OF inv, of b op] no by (cases "b = a") (force simp: pend)+
    next
      case (6 d b) then show ?case using iou_invD(6) [OF inv, of d b] na [of d] by (auto simp: pend st split: if_splits)
    qed
    then show ?thesis by (simp add: t iou_ok_def)
  qed
qed

lemma outcome_same:
  "i_ops (snd (iou_outcome c res t)) = i_ops t" "i_ring (snd (iou_outcome c res t)) = i_ring t" "i_wake (snd (iou_outcome c res t)) = i_wake t"
  "i_stale (snd (iou_outcome c res t)) = i_stale t" "pending_io (crs (i_rt (snd (iou_outcome c res t))) d) = pending_io (crs (i_rt t) d)"
  "cr_state (crs (i_rt (snd (iou_outcome c res t))) d) = cr_state (crs (i_rt t) d)"
  by (simp_all add: iou_outcome_def Let_def set_errno_def upd_cr_def)

lemma resume_ok:
  assumes ok: "iou_ok out t" and run: "running (i_rt t) = Some c" and pend: "pending_io (crs (i_rt t) c) = Some a"
  shows "iou_ok out (snd (iou_op_resume a c t))"
proof -
  have inv: "iou_inv (out (i_ring t)) t" using ok by (simp add: iou_ok_def)
  from inv pend obtain op where op: "i_ops t a = Some op" "op_cr op = Some c" unfolding iou_inv_def by blast
  have own: "b = a" if "pending_io (crs (i_rt t) c) = Some b" for b using that pend by simp
  have nw: "a \<noteq> i_wake t" using inv op by (auto simp: iou_inv_def)
  show ?thesis
  proof (cases "op_completed op")
    case False
    have "iou_inv (out (i_ring t)) (t\<lparr>i_rt := suspenders_suspend (i_rt t)\<rparr>)"
    proof (rule iou_invI, goal_cases)
      case (6 d b)
      then have "pending_io (crs (i_rt t) d) = Some b" by (simp add: suspend_effect [OF run])
      with iou_invD(6) [OF inv, of d b] own op False show ?case by (cases "d = c") (auto simp: suspend_effect [OF run])
    qed (use iou_invD [OF inv] in \<open>simp_all add: suspend_effect [OF run]\<close>)
    with False op show ?thesis by (simp add: iou_op_resume_def iou_ok_def)
  next
    case True
    let ?t = "t\<lparr>i_rt := upd_cr c (\<lambda>r. r\<lparr>pending_io := None\<rparr>) (i_rt t)\<rparr>"
    let ?u = "snd (iou_outcome c (op_result op) ?t)"
    have z: "count (out (i_ring t)) (UOp a) = 0" using inv nw op True by (auto simp: iou_inv_def op_uses_def)
    have p: "pending_io (crs (i_rt ?u) d) = (if d = c then None else pending_io (crs (i_rt t) d))"
      "cr_state (crs (i_rt ?u) d) = cr_state (crs (i_rt t) d)" for d by (simp_all add: outcome_same upd_cr_def)
    have q: "pending_io (crs (i_rt t) d) = Some a \<longleftrightarrow> d = c" for d using iou_invD(6) [OF inv, of d a] op pend by auto
    have "iou_inv (out (i_ring t)) (?u\<lparr>i_ops := (i_ops t)(a := None)\<rparr>)"
    proof (rule iou_invI, goal_cases)
      case (4 b)
      then show ?case using iou_invD(4) [OF inv, of b] z op True by (cases "b = a") (simp_all add: outcome_same op_uses_def)
    next
      case (5 b op')
      then have "i_ops t b = Some op'" "b \<noteq> i_wake t" "b \<noteq> a" by (auto simp: outcome_same split: if_splits)
      with iou_invD(5) [OF inv, of b op'] own show ?case by (force simp: p)
    next
      case (6 d b)
      then have "d \<noteq> c" "pending_io (crs (i_rt t) d) = Some b" by (auto simp: p split: if_splits)
      with iou_invD(6) [OF inv, of d b] q show ?case by (auto simp: p)
    qed (use iou_invD(1-3) [OF inv] nw in \<open>simp_all add: outcome_same\<close>)
    with True op show ?thesis by (simp add: iou_op_resume_def iou_ok_def split_beta outcome_same)
  qed
qed

section \<open>All interleavings\<close>

text \<open>Coroutines start and continue operations, the worker waits and handles completions, operations are cancelled,
  the wake descriptor is armed, the kernel works, and the rest of the runtime runs.\<close>

inductive iou_step :: "'r uring \<Rightarrow> ('r \<Rightarrow> user_data multiset) \<Rightarrow> 'r iou \<Rightarrow> 'r iou \<Rightarrow> bool" for L out where
  start: "s_io_is_cr (i_rt t) \<Longrightarrow> running (i_rt t) = Some c \<Longrightarrow> pending_io (crs (i_rt t) c) = None \<Longrightarrow> i_ops t a = None \<Longrightarrow>
    iou_step L out t (snd (iou_op_begin L a code x c t))"
| continue: "running (i_rt t) = Some c \<Longrightarrow> pending_io (crs (i_rt t) c) = Some a \<Longrightarrow> iou_step L out t (snd (iou_op_resume a c t))"
| waits: "iou_step L out t (snd (s_iou_wait L timeout_ms t))"
| cancel: "iou_step L out t (t\<lparr>i_ring := iou_cancel L a (i_ring t)\<rparr>)"
| arm: "count (out (i_ring t)) (UOp (i_wake t)) = 0 \<Longrightarrow> iou_step L out t (s_iou_arm_wake L wo t)"
| kernel: "kernel_works L out (i_ring t) r \<Longrightarrow> iou_step L out t (t\<lparr>i_ring := r\<rparr>)"
| runtime: "rt_rely (i_rt t) s \<Longrightarrow> iou_step L out t (t\<lparr>i_rt := s\<rparr>)"

definition iou_fresh :: "('r \<Rightarrow> user_data multiset) \<Rightarrow> 'r iou \<Rightarrow> bool" where
  "iou_fresh out t \<longleftrightarrow> out (i_ring t) = {#} \<and> \<not> i_stale t \<and> (\<forall>c. pending_io (crs (i_rt t) c) = None) \<and>
     i_ops t = [i_wake t \<mapsto> \<lparr>op_cr = None, op_result = 0, op_code = 0, op_completed = False\<rparr>]"

lemma arm_wake_ok:
  assumes laws: "uring_laws L out" and ok: "iou_ok out t" and z: "count (out (i_ring t)) (UOp (i_wake t)) = 0"
  shows "iou_ok out (s_iou_arm_wake L wo t)"
proof -
  note arm = arm_wake_ring [OF laws refl, of wo t]
  from arm(2) obtain r where r: "s_iou_arm_wake L wo t = t\<lparr>i_ring := r\<rparr>" by blast
  with arm(3) have "out r = out (i_ring t) \<or> out r = add_mset (UOp (i_wake t)) (out (i_ring t))" by simp
  then show ?thesis using ok z unfolding r by (auto simp: iou_ok_def iou_inv_def)
qed

lemma step_ok:
  assumes "iou_step L out t u" and laws: "uring_laws L out" and "iou_ok out t"
  shows "iou_ok out u"
  using assms(1,3)
proof (induction rule: iou_step.induct)
  case (cancel t a)
  then show ?case unfolding iou_ok_def by (auto intro: inv_ring simp: cancel_out [OF laws])
next
  case (runtime t s)
  then show ?case unfolding iou_ok_def by (auto intro: inv_rely)
qed (simp_all add: begin_ok [OF laws] resume_ok wait_ok [OF laws] arm_wake_ok [OF laws] works_ok)

lemma fresh_ok: "iou_fresh out t \<Longrightarrow> iou_ok out t"
  by (auto simp: iou_fresh_def iou_ok_def iou_inv_def op_uses_def)

lemma reach_ok:
  assumes "(iou_step L out)\<^sup>*\<^sup>* t u" and "uring_laws L out" and "iou_fresh out t"
  shows "iou_ok out u"
  using assms by (induction rule: rtranclp_induct) (auto intro: step_ok fresh_ok)

section \<open>The runtime around the operations\<close>

text \<open>What the scheduler, cancellation and the timers do to coroutines is within \<open>rt_rely\<close>; a cancellation or an
  expired deadline of a coroutine in an operation only asks the ring to cancel it.\<close>

lemma rely_same: "crs s' = crs s \<Longrightarrow> rt_rely s s'"
  by (simp add: rt_rely_def)

lemma rely_upd:
  assumes "\<And>r. pending_io (f r) = pending_io r" "\<And>r. cr_state (f r) = SUSPENDED \<Longrightarrow> cr_state r = SUSPENDED"
  shows "rt_rely s (upd_cr c f s)"
  using assms by (simp add: rt_rely_def upd_cr_def)

lemma signal_crs [simp]: "crs (s_worker_signal w s) = crs s"
  by (simp add: s_worker_signal_def split: option.split)

lemma switch_crs [simp]: "crs (ctx_switch_main s) = crs s"
  by (simp add: ctx_switch_main_def)

lemma inbox_wake_rely: "rt_rely s (s_inbox_wake c s)"
  by (simp add: rt_rely_def s_inbox_wake_def upd_cr_def split: option.split)

lemma resume_rely: "rt_rely s (suspenders_resume c s)"
proof -
  have "rt_rely s (ctx_switch_main (suspenders_ready_enqueue r (suspenders_ready_enqueue c s)))" for r
    by (rule rely_trans [OF enqueue_rely rely_trans [OF enqueue_rely rely_same]]) simp
  then show ?thesis by (auto simp: suspenders_resume_def inbox_wake_rely Let_def split: option.split)
qed

lemma yield_rely: "rt_rely s (suspenders_yield s)"
proof -
  have "rt_rely s (ctx_switch_main (suspenders_ready_enqueue r s))" for r by (rule rely_trans [OF enqueue_rely rely_same]) simp
  then show ?thesis by (simp add: suspenders_yield_def split: option.split)
qed

lemma dequeue_rely: "rt_rely s (snd (suspenders_ready_dequeue s))"
  by (rule rely_same) (simp add: suspenders_ready_dequeue_def split_beta)

lemma no_preempt_rely: "rt_rely s (s_wake_no_preempt c s)"
  by (simp add: s_wake_no_preempt_def inbox_wake_rely)

lemma finish_wake_rely: "rt_rely s (s_wait_finish_wake n s)"
proof -
  let ?c = "node_cr (nodes s n)"
  let ?d = "s_wait_decide_end n (s_wake_no_preempt ?c s)"
  have d: "rt_rely s ?d"
    by (rule rely_trans [OF no_preempt_rely [of s ?c] rely_same]) (simp add: s_wait_decide_end_def upd_node_def)
  have e: "rt_rely s (ctx_switch_main (suspenders_ready_enqueue r ?d))" for r
    by (rule rely_trans [OF d rely_trans [OF enqueue_rely rely_same]]) simp
  show ?thesis unfolding s_wait_finish_wake_def Let_def using d e by (auto split: option.split)
qed

lemma waiter_wake_rely:
  assumes "s_waiter_wake c st s = (won, t)"
  shows "rt_rely s t"
proof -
  have u: "rt_rely s (upd_node n f (case o1 of None \<Rightarrow> s | Some l \<Rightarrow> upd_list l g s))" for n f o1 g
    by (rule rely_same) (simp add: upd_node_def upd_list_def split: option.split)
  from assms rely_trans [OF u finish_wake_rely] show ?thesis
    by (auto simp: s_waiter_wake_def Let_def split: if_splits)
qed

lemma cancel_rely:
  shows "rt_rely s (snd (suspenders_cancel cro s))"
proof (cases cro)
  case (Some c)
  let ?u = "upd_cr c (\<lambda>r. r\<lparr>cancel_requested := True\<rparr>) s"
  have u: "rt_rely s ?u" by (rule rely_upd) simp_all
  obtain won t where w: "s_waiter_wake c SUSPENDERS_CANCELED ?u = (won, t)" by fastforce
  have t: "rt_rely s t" by (rule rely_trans [OF u waiter_wake_rely [OF w]])
  have i: "rt_rely s (suspenders_resume c (upd_cr c (\<lambda>r. r\<lparr>io_result := -1\<rparr>) t))"
    by (rule rely_trans [OF t rely_trans [OF rely_upd resume_rely]]) simp_all
  have o: "rt_rely s (s_iou_cancel op t)" for op by (rule rely_trans [OF t rely_same]) (simp add: s_iou_cancel_def)
  from w t i o rely_trans [OF u inbox_wake_rely] Some show ?thesis
    by (cases won) (auto simp: suspenders_cancel_def Let_def simp del: SUSPENDERS_CANCELED_def split: option.split)
qed (simp add: suspenders_cancel_def)

lemma deadline_cb_rely: "rt_rely s (s_deadline_cb c s)"
proof -
  obtain won t where w: "s_waiter_wake c SUSPENDERS_TIMEDOUT s = (won, t)" by fastforce
  note t = waiter_wake_rely [OF w]
  have i: "rt_rely s (suspenders_resume c (upd_cr c (\<lambda>r. r\<lparr>io_result := -2\<rparr>) t))"
    by (rule rely_trans [OF t rely_trans [OF rely_upd resume_rely]]) simp_all
  have o: "rt_rely s (s_iou_cancel op s)" for op by (rule rely_same) (simp add: s_iou_cancel_def)
  from w t i o show ?thesis
    by (cases won) (auto simp: s_deadline_cb_def simp del: SUSPENDERS_TIMEDOUT_def split: option.split)
qed

section \<open>One completion, one wake-up\<close>

lemma flush_loop_append: "snd (flush_loop L (es @ fs) t) = snd (flush_loop L fs (snd (flush_loop L es t)))"
  by (induction es arbitrary: t) (simp_all add: split_beta)

lemma flush_own:
  assumes laws: "uring_laws L out" and ok: "iou_ok out t" and pend: "pending_io (crs (i_rt t) c) = Some a"
    and e: "e \<in> set (u_cqes L (i_ring t))" "cqe_data e = UOp a" and u: "u = snd (s_iou_flush_cqes L t)"
  shows "\<exists>op. i_ops u a = Some op \<and> op_cr op = Some c \<and> op_completed op \<and> op_result op = cqe_res e"
    and "cr_state (crs (i_rt u) c) = (if cr_state (crs (i_rt t) c) = SUSPENDED then READY else cr_state (crs (i_rt t) c))"
    and "ready_count c (i_rt u) = ready_count c (i_rt t) + (if cr_state (crs (i_rt t) c) = SUSPENDED then 1 else 0)"
proof -
  have inv: "iou_inv (out (i_ring t)) t" using ok by (simp add: iou_ok_def)
  obtain op where op: "i_ops t a = Some op" "op_cr op = Some c" using iou_invD(6) [OF inv pend] by blast
  have nw: "a \<noteq> i_wake t" using op iou_invD(2) [OF inv] by auto
  obtain es fs where split: "u_cqes L (i_ring t) = es @ e # fs" using e(1) by (auto simp: in_set_conv_decomp)
  let ?E = "mset (map cqe_data es)"
  let ?F = "mset (map cqe_data fs)"
  obtain V where "out (i_ring t) = mset (map cqe_data (u_cqes L (i_ring t))) + V"
    using uring_lawsD(6) [OF laws] by (metis mset_subset_eq_exists_conv)
  then have V: "out (i_ring t) = ?E + add_mset (UOp a) (?F + V) + {#}" using e(2) by (simp add: split add.assoc)
  have "count (out (i_ring t)) (UOp a) \<le> 1" using iou_invD(4) [OF inv nw] op by (simp add: op_uses_def split: if_splits)
  then have "count ?E (UOp a) = 0" "count ?F (UOp a) = 0" using V by simp_all
  then have ne: "UOp a \<notin> set (map cqe_data es)" "UOp a \<notin> set (map cqe_data fs)" by (metis count_eq_zero_iff set_mset_mset)+
  define t1 where "t1 = snd (flush_loop L es t)"
  have i0: "iou_inv (?E + add_mset (UOp a) (?F + V)) t" using inv V by simp
  from flush_loop_inv [OF laws i0 V t1_def] pend ne(1) obtain V1 where 1: "iou_inv V1 t1" "add_mset (UOp a) (?F + V) \<subseteq># V1"
    "out (i_ring t1) = V1 + (?E + {#})" "undisturbed c a t t1" by blast
  obtain W where W: "V1 = add_mset (UOp a) (?F + (V + W))" using 1(2) by (metis mset_subset_eq_exists_conv add.assoc add_mset_add_mset_same_iff union_mset_add_mset_left)
  have p1: "pending_io (crs (i_rt t1) c) = Some a" "i_ops t1 a = Some op" "a \<noteq> i_wake t1"
    using 1(1,4) pend op iou_invD(2) [OF 1(1)] by (auto simp: undisturbed_def)
  define t2 where "t2 = wake_op a (cqe_res e) op c t1"
  have i2: "iou_inv (?F + (V + W)) t2" "out (i_ring t2) = ?F + (V + W) + add_mset (UOp a) ?E"
    using wake_op_inv [OF 1(1) [unfolded W] p1(3,2) op(2)] 1(3) W by (simp_all add: t2_def wake_op_def)
  have p2: "pending_io (crs (i_rt t2) c) = Some a" using p1 by (simp add: t2_def wake_op_def)
  define t3 where "t3 = snd (flush_loop L fs t2)"
  from flush_loop_inv [OF laws i2 t3_def] p2 ne(2) have 3: "undisturbed c a t2 t3" by blast
  have "snd (flush_loop L (u_cqes L (i_ring t)) t) = t3"
    by (simp add: split flush_loop_append t1_def [symmetric] t3_def t2_def flush_cqe_op [OF e(2) p1(2) op(2)] split_beta)
  then obtain r where r: "u = t3\<lparr>i_ring := r\<rparr>" by (simp add: u flush_unfold)
  show "\<exists>op. i_ops u a = Some op \<and> op_cr op = Some c \<and> op_completed op \<and> op_result op = cqe_res e"
    using 3 op by (simp add: r undisturbed_def) (simp add: t2_def wake_op_def)
  show "cr_state (crs (i_rt u) c) = (if cr_state (crs (i_rt t) c) = SUSPENDED then READY else cr_state (crs (i_rt t) c))"
    "ready_count c (i_rt u) = ready_count c (i_rt t) + (if cr_state (crs (i_rt t) c) = SUSPENDED then 1 else 0)"
    using 3 1(4) by (simp_all add: r undisturbed_def t2_def wake_op_def state_enqueue ready_count_enqueue)
qed

text \<open>C9. The kernel never reports to a frame that is gone: in every interleaving of operations, completions,
  cancellations and whatever the rest of the runtime does, every entry in the queues or in the kernel that carries
  an operation carries one whose frame exists, a coroutine in an operation that is not complete has exactly one
  such entry, and one whose operation is complete is not parked. The library is any that keeps \<open>uring_laws\<close>: however
  many entries a submission takes and whatever results are posted when.\<close>

theorem io_uring_frames_live:
  assumes "uring_laws L out" and "iou_fresh out t0" and "(iou_step L out)\<^sup>*\<^sup>* t0 t"
  shows "\<not> i_stale t \<and>
    (\<forall>a. UOp a \<in># out (i_ring t) \<longrightarrow> i_ops t a \<noteq> None) \<and>
    (\<forall>c a. pending_io (crs (i_rt t) c) = Some a \<longrightarrow>
       (\<exists>op. i_ops t a = Some op \<and> op_cr op = Some c \<and>
          (if op_completed op then UOp a \<notin># out (i_ring t) \<and> cr_state (crs (i_rt t) c) \<noteq> SUSPENDED
           else count (out (i_ring t)) (UOp a) = 1)))"
proof (intro conjI allI impI)
  have inv: "iou_inv (out (i_ring t)) t" using reach_ok [OF assms(3,1,2)] by (simp add: iou_ok_def)
  show "\<not> i_stale t" by (rule iou_invD(1) [OF inv])
  show "i_ops t a \<noteq> None" if "UOp a \<in># out (i_ring t)" for a
  proof (cases "a = i_wake t")
    case False
    then have "op_uses (i_ops t a) > 0" using that iou_invD(4) [OF inv False] by (metis count_greater_zero_iff)
    then show ?thesis by (cases "i_ops t a") (simp_all add: op_uses_def)
  qed (use iou_invD(2) [OF inv] in auto)
  fix c a assume p: "pending_io (crs (i_rt t) c) = Some a"
  from iou_invD(6) [OF inv p] obtain op where op: "i_ops t a = Some op" "op_cr op = Some c"
    "op_completed op \<longrightarrow> cr_state (crs (i_rt t) c) \<noteq> SUSPENDED" by blast
  moreover have "a \<noteq> i_wake t" using op iou_invD(2) [OF inv] by auto
  ultimately show "\<exists>op. i_ops t a = Some op \<and> op_cr op = Some c \<and>
      (if op_completed op then UOp a \<notin># out (i_ring t) \<and> cr_state (crs (i_rt t) c) \<noteq> SUSPENDED
       else count (out (i_ring t)) (UOp a) = 1)"
    using iou_invD(4) [OF inv, of a] by (simp add: op_uses_def not_in_iff)
qed

text \<open>C10. A parked operation is woken by its own completion and returns its result: handling the completions makes
  the coroutine ready exactly once; when it runs again, whatever the rest of the runtime did in between, the call returns the result
  of that completion, or -1 with the error of the system, \<open>SUSPENDERS_CANCELED\<close> when a cancellation was requested
  (which it consumes) and \<open>SUSPENDERS_TIMEDOUT\<close> otherwise. Completions of other operations leave it parked.\<close>

theorem io_uring_op_returns_its_completion:
  assumes "uring_laws L out" and "iou_fresh out t0" and "(iou_step L out)\<^sup>*\<^sup>* t0 t" and "pending_io (crs (i_rt t) c) = Some a" and "cr_state (crs (i_rt t) c) = SUSPENDED"
    and "u = snd (s_iou_flush_cqes L t)" and "rt_rely (i_rt u) s" and "v = iou_op_resume a c (u\<lparr>i_rt := s\<rparr>)"
  shows "(\<forall>e \<in> set (u_cqes L (i_ring t)). cqe_data e = UOp a \<longrightarrow>
      cr_state (crs (i_rt u) c) = READY \<and> ready_count c (i_rt u) = ready_count c (i_rt t) + 1 \<and>
      fst v = Some (if cqe_res e < 0 then -1 else cqe_res e) \<and>
      errno (i_rt (snd v)) =
        (if cqe_res e \<ge> 0 then errno s
         else if cqe_res e = - ECANCELED then if cancel_requested (crs s c) then SUSPENDERS_CANCELED else SUSPENDERS_TIMEDOUT
         else SUSPENDERS_ERROR) \<and>
      cancel_requested (crs (i_rt (snd v)) c) = (cancel_requested (crs s c) \<and> cqe_res e \<noteq> - ECANCELED) \<and>
      i_ops (snd v) a = None \<and> pending_io (crs (i_rt (snd v)) c) = None) \<and>
    (UOp a \<notin> set (map cqe_data (u_cqes L (i_ring t))) \<longrightarrow>
      crs (i_rt u) c = crs (i_rt t) c \<and> ready_count c (i_rt u) = ready_count c (i_rt t) \<and> fst v = None)"
proof (rule conjI; (rule ballI impI)+)
  have ok: "iou_ok out t" by (rule reach_ok [OF assms(3,1,2)])
  show "cr_state (crs (i_rt u) c) = READY \<and> ready_count c (i_rt u) = ready_count c (i_rt t) + 1 \<and>
      fst v = Some (if cqe_res e < 0 then -1 else cqe_res e) \<and>
      errno (i_rt (snd v)) =
        (if cqe_res e \<ge> 0 then errno s
         else if cqe_res e = - ECANCELED then if cancel_requested (crs s c) then SUSPENDERS_CANCELED else SUSPENDERS_TIMEDOUT
         else SUSPENDERS_ERROR) \<and>
      cancel_requested (crs (i_rt (snd v)) c) = (cancel_requested (crs s c) \<and> cqe_res e \<noteq> - ECANCELED) \<and>
      i_ops (snd v) a = None \<and> pending_io (crs (i_rt (snd v)) c) = None"
    if e: "e \<in> set (u_cqes L (i_ring t))" "cqe_data e = UOp a" for e
  proof -
    note f = flush_own [OF assms(1) ok assms(4) e assms(6)]
    from f(1) obtain op where op: "i_ops u a = Some op" "op_completed op" "op_result op = cqe_res e" by blast
    have "v = (let (ret, t1) = iou_outcome c (cqe_res e) (u\<lparr>i_rt := upd_cr c (\<lambda>r. r\<lparr>pending_io := None\<rparr>) s\<rparr>)
               in (Some ret, t1\<lparr>i_ops := (i_ops t1)(a := None)\<rparr>))"
      using op by (simp add: assms(8) iou_op_resume_def)
    with f(2,3) assms(5) show ?thesis by (simp add: iou_outcome_def Let_def upd_cr_def set_errno_def)
  qed
  show "crs (i_rt u) c = crs (i_rt t) c \<and> ready_count c (i_rt u) = ready_count c (i_rt t) \<and> fst v = None"
    if n: "UOp a \<notin> set (map cqe_data (u_cqes L (i_ring t)))"
  proof -
    note f = flush_ok(2) [OF assms(1) ok assms(6,4) n]
    from iou_invD(6) [OF ok [unfolded iou_ok_def] assms(4)] assms(5) obtain op where "i_ops t a = Some op" "\<not> op_completed op" by auto
    with f show ?thesis by (simp add: assms(8) iou_op_resume_def undisturbed_def)
  qed
qed

section \<open>Deadlines\<close>

text \<open>A timeout limits the operation before it when both are taken in one submission. What the code relies on here:
  a submission takes all entries written since the last one, and there is room for \<open>cap\<close> of them.\<close>

definition batch_laws :: "'r uring \<Rightarrow> nat \<Rightarrow> ('r \<Rightarrow> sqe list) \<Rightarrow> ('r \<Rightarrow> sqe list list) \<Rightarrow> bool" where
  "batch_laws L cap written batches \<longleftrightarrow>
     (\<forall>r. u_room L r \<longleftrightarrow> length (written r) < cap) \<and>
     (\<forall>e r. u_room L r \<longrightarrow> written (u_put L e r) = written r @ [e] \<and> batches (u_put L e r) = batches r) \<and>
     (\<forall>r. written (u_submit L r) = [] \<and> batches (u_submit L r) = (if written r = [] then batches r else batches r @ [written r]))"

text \<open>C38. The deadline of an operation: an operation with a deadline goes to the kernel at once, linked to a timeout of
  exactly the time left until the deadline, in the same submission, provided the submission queue has room for
  two entries. In a queue of one entry the timeout is submitted apart from the operation, which then has none: a
  runtime initialised with a queue hint of 1 loses the deadlines of its I/O.\<close>

theorem io_uring_deadline_linked:
  assumes "batch_laws L cap written batches" and "cap \<ge> 1" and "written (i_ring t) = []"
    and "iou_prep code x = Some p" and "s_io_effective_deadline (Some c) (i_rt t) = dl" and "dl \<noteq> 0"
    and "u = i_ring (snd (iou_op_begin L a code x c t))" and "left = unat dl - unat (now_ns (i_rt t))"
  shows "written u = [] \<and>
    (\<exists>sec nsec. unat sec * 1000000000 + unat nsec = left \<and> unat nsec < 1000000000 \<and>
       (let op = \<lparr>sqe_prep = p, sqe_link = True, sqe_data = UOp a\<rparr>;
            timeout = \<lparr>sqe_prep = PrepLinkTimeout sec nsec, sqe_link = False, sqe_data = UNull\<rparr>
        in batches u = batches (i_ring t) @ (if cap \<ge> 2 then [[op, timeout]] else [[op], [timeout]])))"
proof -
  let ?now = "now_ns (i_rt t)"
  define delta where "delta = (if dl > ?now then dl - ?now else 0)"
  have l: "unat delta = left"
    using assms(8) by (auto simp: delta_def unat_sub word_less_nat_alt word_le_nat_alt not_less)
  have n: "unat (delta mod 1000000000) < 1000000000" "unat (delta div 1000000000) * 1000000000 + unat (delta mod 1000000000) = left"
    by (simp_all add: unat_div unat_mod l)
  have room: "u_room L r \<longleftrightarrow> length (written r) < cap"
    and put: "u_room L r \<Longrightarrow> written (u_put L e r) = written r @ [e]" "u_room L r \<Longrightarrow> batches (u_put L e r) = batches r"
    and sub: "written (u_submit L r) = []" "batches (u_submit L r) = (if written r = [] then batches r else batches r @ [written r])" for e r
    using assms(1) unfolding batch_laws_def by blast+
  have g: "s_iou_get_sqe L (i_ring t) = (True, i_ring t)" using assms(2,3) by (simp add: s_iou_get_sqe_def room)
  let ?op = "\<lparr>sqe_prep = p, sqe_link = True, sqe_data = UOp a\<rparr>"
  let ?ts = "\<lparr>sqe_prep = PrepLinkTimeout (delta div 1000000000) (delta mod 1000000000), sqe_link = False, sqe_data = UNull\<rparr>"
  have "written u = [] \<and> batches u = batches (i_ring t) @ (if cap \<ge> 2 then [[?op, ?ts]] else [[?op], [?ts]])"
    unfolding assms(7) iou_op_begin_def g using assms(2-6)
    by (simp add: iou_link_timeout_def s_iou_get_sqe_def room put sub delta_def [symmetric] Let_def)
  with n show ?thesis unfolding Let_def by blast
qed

section \<open>The blocking calls\<close>

text \<open>The blocking calls of a coroutine on this backend, up to the first suspension: the entry check, then the
  operation. \<open>NULL\<close> and zero arguments are 0; the message header of the datagram calls is an address.\<close>

definition iou_io :: "'r uring \<Rightarrow> nat \<Rightarrow> int \<Rightarrow> iou_args \<Rightarrow> 'r iou \<Rightarrow> int option \<times> 'r iou" where
  "iou_io L a code x t =
     (case s_io_pre (i_rt t) of
        (False, s1) \<Rightarrow> (Some (-1), t\<lparr>i_rt := s1\<rparr>)
      | (True, s1) \<Rightarrow> iou_op_begin L a code x (the (running s1)) (t\<lparr>i_rt := s1\<rparr>))"

definition no_args :: iou_args where
  "no_args = \<lparr>a_fd = 0, a_buf = 0, a_len = 0, a_iov = 0, a_iovcnt = 0, a_addr = 0, a_addrlen = 0, a_msg = 0\<rparr>"

definition iou_recv :: "'r uring \<Rightarrow> nat \<Rightarrow> int \<Rightarrow> ptr \<Rightarrow> nat \<Rightarrow> 'r iou \<Rightarrow> int option \<times> 'r iou" where
  "iou_recv L a fd buf len = iou_io L a S_IOU_RECV (no_args\<lparr>a_fd := fd, a_buf := buf, a_len := len\<rparr>)"

definition iou_send :: "'r uring \<Rightarrow> nat \<Rightarrow> int \<Rightarrow> ptr \<Rightarrow> nat \<Rightarrow> 'r iou \<Rightarrow> int option \<times> 'r iou" where
  "iou_send L a fd buf len = iou_io L a S_IOU_SEND (no_args\<lparr>a_fd := fd, a_buf := buf, a_len := len\<rparr>)"

definition iou_readv :: "'r uring \<Rightarrow> nat \<Rightarrow> int \<Rightarrow> ptr \<Rightarrow> nat \<Rightarrow> 'r iou \<Rightarrow> int option \<times> 'r iou" where
  "iou_readv L a fd iov iovcnt = iou_io L a S_IOU_READV (no_args\<lparr>a_fd := fd, a_iov := iov, a_iovcnt := iovcnt\<rparr>)"

definition iou_writev :: "'r uring \<Rightarrow> nat \<Rightarrow> int \<Rightarrow> ptr \<Rightarrow> nat \<Rightarrow> 'r iou \<Rightarrow> int option \<times> 'r iou" where
  "iou_writev L a fd iov iovcnt = iou_io L a S_IOU_WRITEV (no_args\<lparr>a_fd := fd, a_iov := iov, a_iovcnt := iovcnt\<rparr>)"

definition iou_accept :: "'r uring \<Rightarrow> nat \<Rightarrow> int \<Rightarrow> 'r iou \<Rightarrow> int option \<times> 'r iou" where
  "iou_accept L a fd = iou_io L a S_IOU_ACCEPT (no_args\<lparr>a_fd := fd\<rparr>)"

definition iou_connect :: "'r uring \<Rightarrow> nat \<Rightarrow> int \<Rightarrow> ptr \<Rightarrow> nat \<Rightarrow> 'r iou \<Rightarrow> int option \<times> 'r iou" where
  "iou_connect L a fd addr addrlen = iou_io L a S_IOU_CONNECT (no_args\<lparr>a_fd := fd, a_addr := addr, a_addrlen := addrlen\<rparr>)"

definition iou_recvfrom :: "'r uring \<Rightarrow> nat \<Rightarrow> int \<Rightarrow> ptr \<Rightarrow> 'r iou \<Rightarrow> int option \<times> 'r iou" where
  "iou_recvfrom L a fd msg = iou_io L a S_IOU_RECVMSG (no_args\<lparr>a_fd := fd, a_msg := msg\<rparr>)"

definition iou_sendto :: "'r uring \<Rightarrow> nat \<Rightarrow> int \<Rightarrow> ptr \<Rightarrow> 'r iou \<Rightarrow> int option \<times> 'r iou" where
  "iou_sendto L a fd msg = iou_io L a S_IOU_SENDMSG (no_args\<lparr>a_fd := fd, a_msg := msg\<rparr>)"

text \<open>What \<open>s_io_connect\<close> makes of the result of its operation.\<close>

definition iou_connect_result :: "int \<Rightarrow> int" where
  "iou_connect_result r = (if r < 0 then -1 else 0)"

lemma pre_rely:
  assumes "s_io_pre s = (b, s1)"
  shows "rt_rely s s1" "running s1 = running s" "main_cr s1 = main_cr s"
proof -
  have c: "rt_rely s (set_errno e (upd_cr c (\<lambda>r. r\<lparr>cancel_requested := False\<rparr>) s))"
    "rt_rely s (upd_cr c (\<lambda>r. r\<lparr>cancel_requested := False\<rparr>) s)" for e c
    by (rule rely_trans [OF rely_upd errno_rely] rely_upd; simp)+
  then show "rt_rely s s1" using assms by (auto simp: s_io_pre_def Let_def split: if_splits option.splits)
  show "running s1 = running s" "main_cr s1 = main_cr s"
    using assms by (auto simp: s_io_pre_def Let_def set_errno_def upd_cr_def split: if_splits option.splits)
qed

text \<open>A blocking call of a coroutine that is in no operation is a run of the machine.\<close>

lemma iou_io_steps:
  assumes "s_io_is_cr (i_rt t)" and "running (i_rt t) = Some c" and "pending_io (crs (i_rt t) c) = None" and "i_ops t a = None"
  shows "(iou_step L out)\<^sup>*\<^sup>* t (snd (iou_io L a code x t))"
proof -
  obtain b s1 where p: "s_io_pre (i_rt t) = (b, s1)" by fastforce
  note r = pre_rely [OF p]
  have one: "iou_step L out t (t\<lparr>i_rt := s1\<rparr>)" by (rule iou_step.runtime [OF r(1)])
  have "iou_step L out (t\<lparr>i_rt := s1\<rparr>) (snd (iou_op_begin L a code x c (t\<lparr>i_rt := s1\<rparr>)))"
    using assms r by (intro iou_step.start) (auto simp: s_io_is_cr_def rt_rely_def)
  with one p r(2) assms(2) show ?thesis by (cases b) (auto simp: iou_io_def intro: converse_rtranclp_into_rtranclp)
qed

text \<open>A call that is cancelled or whose deadline has passed does not reach the ring.\<close>

lemma iou_io_refused:
  assumes "running (i_rt t) = Some c" and "s_io_is_cr (i_rt t)"
    and "cancel_requested (crs (i_rt t) c) \<or>
      s_io_effective_deadline (Some c) (i_rt t) \<noteq> 0 \<and> now_ns (i_rt t) \<ge> s_io_effective_deadline (Some c) (i_rt t)"
  shows "fst (iou_io L a code x t) = Some (-1)" and "i_ring (snd (iou_io L a code x t)) = i_ring t"
    and "errno (i_rt (snd (iou_io L a code x t))) =
      (if cancel_requested (crs (i_rt t) c) then SUSPENDERS_CANCELED else SUSPENDERS_TIMEDOUT)"
proof -
  have d: "s_io_effective_deadline (Some c) (upd_cr c (\<lambda>r. r\<lparr>cancel_requested := False\<rparr>) (i_rt t)) = s_io_effective_deadline (Some c) (i_rt t)"
    by (auto simp: s_io_effective_deadline_def upd_cr_def Let_def)
  from assms d have "s_io_pre (i_rt t) = (False, set_errno (if cancel_requested (crs (i_rt t) c) then SUSPENDERS_CANCELED else SUSPENDERS_TIMEDOUT)
      (upd_cr c (\<lambda>r. r\<lparr>cancel_requested := False\<rparr>) (i_rt t)))"
    by (auto simp: s_io_pre_def Let_def simp del: SUSPENDERS_CANCELED_def SUSPENDERS_TIMEDOUT_def) (auto simp: upd_cr_def)
  then show "fst (iou_io L a code x t) = Some (-1)" "i_ring (snd (iou_io L a code x t)) = i_ring t"
    "errno (i_rt (snd (iou_io L a code x t))) =
      (if cancel_requested (crs (i_rt t) c) then SUSPENDERS_CANCELED else SUSPENDERS_TIMEDOUT)"
    by (simp_all add: iou_io_def set_errno_def)
qed

section \<open>A run\<close>

text \<open>A library that keeps the laws: two queues, and a kernel that finishes one request with the result 12 whenever the
  worker waits.\<close>

record plain_ring =
  sq :: "sqe list"
  taken :: "sqe list list"
  working :: "user_data list"
  cq :: "cqe list"

definition plain_uring :: "nat \<Rightarrow> plain_ring uring" where
  "plain_uring n =
     \<lparr>u_room = (\<lambda>r. length (sq r) < n), u_put = (\<lambda>e r. r\<lparr>sq := sq r @ [e]\<rparr>),
      u_unlink = (\<lambda>r. r\<lparr>sq := butlast (sq r) @ map (\<lambda>e. e\<lparr>sqe_link := False\<rparr>) (drop (length (sq r) - 1) (sq r))\<rparr>),
      u_submit = (\<lambda>r. r\<lparr>sq := [], taken := taken r @ (if sq r = [] then [] else [sq r]), working := working r @ map sqe_data (sq r)\<rparr>),
      u_cqes = cq, u_advance = (\<lambda>n r. r\<lparr>cq := drop n (cq r)\<rparr>),
      u_wait = (\<lambda>ts r. case working r of [] \<Rightarrow> (-62, r) | x # xs \<Rightarrow> (0, r\<lparr>working := xs, cq := cq r @ [\<lparr>cqe_data = x, cqe_res = 12\<rparr>]\<rparr>))\<rparr>"

definition plain_out :: "plain_ring \<Rightarrow> user_data multiset" where
  "plain_out r = mset (map sqe_data (sq r)) + mset (working r) + mset (map cqe_data (cq r))"

definition empty_ring :: plain_ring where
  "empty_ring = \<lparr>sq = [], taken = [], working = [], cq = []\<rparr>"

lemma unlink_data: "map sqe_data (butlast es @ map (\<lambda>e. e\<lparr>sqe_link := False\<rparr>) (drop (length es - 1) es)) = map sqe_data es"
  by (induction es rule: rev_induct) auto

lemma plain_laws: "uring_laws (plain_uring n) plain_out"
proof -
  have u: "kernel_works (plain_uring n) plain_out r (u_unlink (plain_uring n) r)" for r
    using unlink_data [of "sq r"] unfolding kernel_works_def plain_out_def by (simp add: plain_uring_def flip: mset_map)
  have w: "kernel_works (plain_uring n) plain_out r (snd (u_wait (plain_uring n) ts r))" for ts r
    by (cases "working r") (simp_all add: kernel_works_def plain_out_def plain_uring_def)
  have a: "plain_out r = plain_out (u_advance (plain_uring n) k r) + mset (map cqe_data (take k (cq r)))" for k r
  proof -
    have "mset (map cqe_data (cq r)) = mset (map cqe_data (take k (cq r))) + mset (map cqe_data (drop k (cq r)))"
      by (simp only: mset_append [symmetric] map_append [symmetric] append_take_drop_id)
    then show ?thesis by (simp add: plain_out_def plain_uring_def)
  qed
  have p: "plain_out (u_put (plain_uring n) e r) = add_mset (sqe_data e) (plain_out r)"
    "kernel_works (plain_uring n) plain_out r (u_submit (plain_uring n) r)" "u_cqes (plain_uring n) = cq"
    "mset (map cqe_data (cq r)) \<subseteq># plain_out r" "cq (u_put (plain_uring n) e r) = cq r"
    "cq (u_advance (plain_uring n) k r) = drop k (cq r)" for e r k
    by (simp_all add: plain_out_def plain_uring_def kernel_works_def)
  show ?thesis unfolding uring_laws_def p(3) using u w a p by simp
qed

lemma plain_batches: "batch_laws (plain_uring n) n sq taken"
  by (simp add: batch_laws_def plain_uring_def)

text \<open>Coroutine 2 receives on descriptor 5, with a deadline three seconds from now; the sentinel of the worker is at
  address 0, the operation at 9.\<close>

definition ring_start :: "plain_ring iou" where
  "ring_start = \<lparr>i_rt = (run_on 2 blank_rt)\<lparr>iouring := True, io_deadline_ns := 3000001000\<rparr>, i_ring = empty_ring,
     i_ops = [0 \<mapsto> \<lparr>op_cr = None, op_result = 0, op_code = 0, op_completed = False\<rparr>], i_wake = 0, i_stale = False, i_errno = 0\<rparr>"

definition ring_parked :: "plain_ring iou" where
  "ring_parked = snd (iou_recv (plain_uring 8) 9 5 77 16 ring_start)"

definition ring_posted :: "plain_ring iou" where
  "ring_posted = ring_parked\<lparr>i_ring := snd (u_wait (plain_uring 8) None (i_ring ring_parked))\<rparr>"

lemma ring_start_fresh: "iou_fresh plain_out ring_start"
  by (simp add: iou_fresh_def ring_start_def plain_out_def empty_ring_def run_on_def upd_cr_def blank_rt_def zero_coroutine_def)

lemma ring_posted_reached: "(iou_step (plain_uring 8) plain_out)\<^sup>*\<^sup>* ring_start ring_posted"
proof -
  have "(iou_step (plain_uring 8) plain_out)\<^sup>*\<^sup>* ring_start ring_parked"
    unfolding ring_parked_def iou_recv_def
    by (rule iou_io_steps [of _ 2]) (simp_all add: ring_start_def run_on_def upd_cr_def blank_rt_def zero_coroutine_def s_io_is_cr_def)
  then show ?thesis unfolding ring_posted_def
    by (rule rtranclp.rtrancl_into_rtrancl) (intro iou_step.kernel uring_lawsD(5) [OF plain_laws])
qed

lemmas ring_run_defs = ring_posted_def ring_parked_def ring_start_def iou_recv_def no_args_def iou_io_def s_io_pre_def iou_op_begin_def
  s_iou_get_sqe_def iou_prep_def iou_codes s_io_effective_deadline_def s_io_is_cr_def iou_link_timeout_def plain_uring_def empty_ring_def
  suspenders_suspend_def ctx_switch_main_def run_on_def upd_cr_def blank_rt_def zero_coroutine_def Let_def

lemma ring_posted_state:
  "pending_io (crs (i_rt ring_posted) 2) = Some 9" "cr_state (crs (i_rt ring_posted) 2) = SUSPENDED"
  "u_cqes (plain_uring 8) (i_ring ring_posted) = [\<lparr>cqe_data = UOp 9, cqe_res = 12\<rparr>]" "count (plain_out (i_ring ring_posted)) (UOp 9) = 1"
  by (simp_all add: ring_run_defs plain_out_def)

theorem io_uring_frames_live_witness:
  "\<not> i_stale ring_posted \<and> i_ops ring_posted 9 \<noteq> None \<and> UOp 9 \<in># plain_out (i_ring ring_posted)"
proof -
  have "UOp 9 \<in># plain_out (i_ring ring_posted)" using ring_posted_state(4) by (metis count_greater_zero_iff zero_less_one)
  with io_uring_frames_live [OF plain_laws ring_start_fresh ring_posted_reached] show ?thesis by blast
qed

theorem io_uring_op_returns_its_completion_witness:
  "fst (iou_op_resume 9 2 (snd (s_iou_flush_cqes (plain_uring 8) ring_posted))) = Some 12 \<and>
   ready_count 2 (i_rt (snd (s_iou_flush_cqes (plain_uring 8) ring_posted))) = ready_count 2 (i_rt ring_posted) + 1"
proof -
  have "\<lparr>cqe_data = UOp 9, cqe_res = 12\<rparr> \<in> set (u_cqes (plain_uring 8) (i_ring ring_posted))" by (simp add: ring_posted_state)
  with io_uring_op_returns_its_completion [OF plain_laws ring_start_fresh ring_posted_reached ring_posted_state(1,2) refl rely_refl refl]
  show ?thesis by (simp add: ring_posted_state)
qed

theorem io_uring_deadline_linked_witness:
  "\<exists>sec nsec. unat sec * 1000000000 + unat nsec = (3000000000 :: nat) \<and>
     map (map sqe_prep) (taken (i_ring (snd (iou_op_begin (plain_uring 2) 9 S_IOU_ACCEPT no_args 2 ring_start)))) =
       [[PrepAccept 0, PrepLinkTimeout sec nsec]]"
proof -
  have p: "iou_prep S_IOU_ACCEPT no_args = Some (PrepAccept 0)" by (simp add: iou_prep_def no_args_def iou_codes)
  have d: "s_io_effective_deadline (Some 2) (i_rt ring_start) = 3000001000" and n: "now_ns (i_rt ring_start) = 1000"
    by (simp_all add: s_io_effective_deadline_def ring_start_def run_on_def upd_cr_def blank_rt_def zero_coroutine_def Let_def)
  have "sq (i_ring ring_start) = []" "taken (i_ring ring_start) = []" by (simp_all add: ring_start_def empty_ring_def)
  with io_uring_deadline_linked [OF plain_batches _ _ p d _ refl refl, of 2 9] n show ?thesis by (auto simp: Let_def)
qed

end
