(* ===== verification/Backend.thy ===== *)
theory Backend
  imports Io_Uring
begin

text \<open>
  The kqueue backend and the dispatch over the backends: creation, registration, waiting, and the wake descriptor
  by which other threads reach a worker that is blocked in its backend.

  The system call \<open>kevent\<close> is a parameter, on queues of any type; \<open>kq_laws\<close> is what the code relies on.
\<close>

section \<open>The kqueue backend\<close>

datatype kfilter = EVFILT_READ | EVFILT_WRITE

text \<open>\<open>kevent\<close> with a list of one-shot entries to add, and with a list to fill for a timeout. An entry has a
  descriptor, a filter and its user data: a coroutine, or \<open>None\<close> for the wake descriptor. What is reported is the user
  data of the entries that fired, or an error.\<close>

record 'q kevent =
  k_change :: "(int \<times> kfilter \<times> cr_ref option) list \<Rightarrow> 'q \<Rightarrow> int \<times> 'q"
  k_events :: "(int \<times> int) option \<Rightarrow> 'q \<Rightarrow> cr_ref option list option \<times> 'q"

text \<open>There is one entry per descriptor and filter; adding it again replaces its user data; an entry goes when it is reported.\<close>

definition kq_laws :: "'q kevent \<Rightarrow> ('q \<Rightarrow> int \<times> kfilter \<Rightarrow> cr_ref option option) \<Rightarrow> bool" where
  "kq_laws K entry \<longleftrightarrow>
     (\<forall>evs q q'. k_change K evs q = (0, q') \<longrightarrow> entry q' = fold (\<lambda>(fd, f, co) m. m((fd, f) := Some co)) evs (entry q)) \<and>
     (\<forall>evs q rc q' fd f. k_change K evs q = (rc, q') \<and> (fd, f) \<notin> (\<lambda>(fd, f, _). (fd, f)) ` set evs \<longrightarrow> entry q' (fd, f) = entry q (fd, f)) \<and>
     (\<forall>ts q q'. k_events K ts q = (None, q') \<longrightarrow> entry q' = entry q) \<and>
     (\<forall>ts q us q'. k_events K ts q = (Some us, q') \<longrightarrow>
        (\<exists>ks. map Some us = map (entry q) ks \<and> entry q' = (\<lambda>k. if k \<in> set ks then None else entry q k)))"

text \<open>\<open>kq\<close> is the queue \<open>kqueue\<close> returned, \<open>None\<close> when it failed.\<close>

definition s_kq_create :: "bool \<Rightarrow> 'q option \<Rightarrow> bool \<Rightarrow> 'q option" where
  "s_kq_create mem_be kq mem_events =
     (if \<not> mem_be then None
      else (case kq of None \<Rightarrow> None | Some q \<Rightarrow> if \<not> mem_events then None else Some q))"

definition s_kq_register :: "'q kevent \<Rightarrow> int \<Rightarrow> bool \<Rightarrow> bool \<Rightarrow> cr_ref option \<Rightarrow> 'q \<Rightarrow> int \<times> 'q" where
  "s_kq_register K fd ev_in ev_out co q =
     (let ev = (if ev_in then [(fd, EVFILT_READ, co)] else []) @ (if ev_out then [(fd, EVFILT_WRITE, co)] else []) in
      if ev = [] then (0, q) else k_change K ev q)"

definition s_kq_unregister :: "int \<Rightarrow> 'q \<Rightarrow> 'q" where
  "s_kq_unregister fd q = q"

fun kq_loop :: "'q kevent \<Rightarrow> (nat \<Rightarrow> int) \<Rightarrow> cr_ref option list \<Rightarrow> 'q \<Rightarrow> rt \<Rightarrow> 'q \<times> rt" where
  "kq_loop K wake_rd [] q s = (q, s)"
| "kq_loop K wake_rd (Some c # us) q s =
     kq_loop K wake_rd us q (if cr_state (crs s c) = SUSPENDED then suspenders_ready_enqueue c s else s)"
| "kq_loop K wake_rd (None # us) q s =
     (case s_worker s of
        Some w \<Rightarrow> kq_loop K wake_rd us (snd (s_kq_register K (wake_rd w) True False None q)) (s_wake_drain w s)
      | None \<Rightarrow> kq_loop K wake_rd us q s)"

definition s_kq_wait :: "'q kevent \<Rightarrow> (nat \<Rightarrow> int) \<Rightarrow> int \<Rightarrow> 'q \<Rightarrow> rt \<Rightarrow> int \<times> 'q \<times> rt" where
  "s_kq_wait K wake_rd timeout_ms q s =
     (case k_events K (if timeout_ms \<ge> 0 then Some (timeout_ms div 1000, (timeout_ms mod 1000) * 1000000) else None) q of
        (None, q1) \<Rightarrow> (-1, q1, s)
      | (Some us, q1) \<Rightarrow> (int (length us), kq_loop K wake_rd us q1 s))"

section \<open>Dispatch\<close>

datatype ('r, 'q) backend = BE_IOURING 'r | BE_KQUEUE 'q | BE_WSAPOLL poll_backend | BE_POLL poll_backend

text \<open>Which backends are compiled in.\<close>

record build =
  has_iouring :: bool
  has_kqueue :: bool
  has_poll :: bool
  has_wsapoll :: bool

text \<open>What the system answers while a backend is created.\<close>

record ('r, 'q) creation =
  release :: "string option"
  mem_be :: bool
  queue_init :: "nat \<Rightarrow> nat \<Rightarrow> 'r option"
  setup_flags :: nat
  kq_new :: "'q option"
  mem_events :: bool
  mem_fds :: bool
  mem_crs :: bool

definition s_backend_create :: "build \<Rightarrow> ('r, 'q) creation \<Rightarrow> nat \<Rightarrow> ('r, 'q) backend option" where
  "s_backend_create b x hint =
     (let iou = (if has_iouring b \<and> s_kernel_iouring_reliable (release x)
                 then s_iou_create (mem_be x) (queue_init x) (setup_flags x) hint else None)
      in case iou of
           Some r \<Rightarrow> Some (BE_IOURING r)
         | None \<Rightarrow>
             if has_kqueue b then map_option BE_KQUEUE (s_kq_create (mem_be x) (kq_new x) (mem_events x))
             else if has_wsapoll b then map_option BE_WSAPOLL (s_poll_create (mem_be x) (mem_fds x) (mem_crs x))
             else if has_poll b then map_option BE_POLL (s_poll_create (mem_be x) (mem_fds x) (mem_crs x))
             else None)"

text \<open>What the system and the allocator answer later on.\<close>

record ('r, 'q) answers =
  k_uring :: "'r uring"
  k_kevent :: "'q kevent"
  k_poll :: "poll_backend \<Rightarrow> int \<times> bool list"
  k_grow_fds :: bool
  k_grow_crs :: bool

definition s_backend_register :: "('r, 'q) answers \<Rightarrow> int \<Rightarrow> bool \<Rightarrow> bool \<Rightarrow> cr_ref option \<Rightarrow> ('r, 'q) backend option \<Rightarrow> int \<times> ('r, 'q) backend option" where
  "s_backend_register k fd ev_in ev_out co be =
     (case be of
        None \<Rightarrow> (-1, None)
      | Some (BE_KQUEUE q) \<Rightarrow> map_prod id (Some \<circ> BE_KQUEUE) (s_kq_register (k_kevent k) fd ev_in ev_out co q)
      | Some (BE_POLL p) \<Rightarrow> map_prod id (Some \<circ> BE_POLL) (s_poll_register (k_grow_fds k) (k_grow_crs k) fd ev_in ev_out co p)
      | Some (BE_WSAPOLL p) \<Rightarrow> map_prod id (Some \<circ> BE_WSAPOLL) (s_poll_register (k_grow_fds k) (k_grow_crs k) fd ev_in ev_out co p)
      | Some (BE_IOURING r) \<Rightarrow> (-1, be))"

definition s_backend_unregister :: "int \<Rightarrow> ('r, 'q) backend option \<Rightarrow> ('r, 'q) backend option" where
  "s_backend_unregister fd be =
     (case be of
        None \<Rightarrow> None
      | Some (BE_KQUEUE q) \<Rightarrow> Some (BE_KQUEUE (s_kq_unregister fd q))
      | Some (BE_POLL p) \<Rightarrow> Some (BE_POLL (s_poll_unregister fd p))
      | Some (BE_WSAPOLL p) \<Rightarrow> Some (BE_WSAPOLL (s_poll_unregister fd p))
      | Some (BE_IOURING r) \<Rightarrow> be)"

text \<open>A worker with its backend; the ring of an \<open>io_uring\<close> backend is used through the record \<open>iou\<close>.\<close>

record ('r, 'q) world =
  w_rt :: rt
  w_be :: "('r, 'q) backend option"
  w_ops :: "nat \<Rightarrow> io_op option"
  w_wake :: nat
  w_stale :: bool
  w_errno :: int

definition to_iou :: "'r \<Rightarrow> ('r, 'q) world \<Rightarrow> 'r iou" where
  "to_iou r w = \<lparr>i_rt = w_rt w, i_ring = r, i_ops = w_ops w, i_wake = w_wake w, i_stale = w_stale w, i_errno = w_errno w\<rparr>"

definition of_iou :: "'r iou \<Rightarrow> ('r, 'q) world" where
  "of_iou t = \<lparr>w_rt = i_rt t, w_be = Some (BE_IOURING (i_ring t)), w_ops = i_ops t, w_wake = i_wake t, w_stale = i_stale t,
     w_errno = i_errno t\<rparr>"

definition poll_wait_on :: "('r, 'q) answers \<Rightarrow> poll_backend \<Rightarrow> (poll_backend \<Rightarrow> ('r, 'q) backend) \<Rightarrow> ('r, 'q) world \<Rightarrow> int \<times> ('r, 'q) world" where
  "poll_wait_on k p mk w =
     (let (n, p1, s1) = s_poll_wait (fst (k_poll k p)) (snd (k_poll k p)) p (w_rt w) in (n, w\<lparr>w_rt := s1, w_be := Some (mk p1)\<rparr>))"

definition s_backend_wait :: "('r, 'q) answers \<Rightarrow> (nat \<Rightarrow> int) \<Rightarrow> int \<Rightarrow> ('r, 'q) world \<Rightarrow> int \<times> ('r, 'q) world" where
  "s_backend_wait k wake_rd timeout_ms w =
     (case w_be w of
        None \<Rightarrow> (0, w)
      | Some (BE_IOURING r) \<Rightarrow> map_prod int of_iou (s_iou_wait (k_uring k) timeout_ms (to_iou r w))
      | Some (BE_KQUEUE q) \<Rightarrow>
          (let (n, q1, s1) = s_kq_wait (k_kevent k) wake_rd timeout_ms q (w_rt w) in (n, w\<lparr>w_rt := s1, w_be := Some (BE_KQUEUE q1)\<rparr>))
      | Some (BE_POLL p) \<Rightarrow> poll_wait_on k p BE_POLL w
      | Some (BE_WSAPOLL p) \<Rightarrow> poll_wait_on k p BE_WSAPOLL w)"

definition s_worker_register_wake :: "('r, 'q) answers \<Rightarrow> (nat \<Rightarrow> int) \<Rightarrow> nat \<Rightarrow> ('r, 'q) world \<Rightarrow> ('r, 'q) world" where
  "s_worker_register_wake k wake_rd wk w =
     (case w_be w of
        Some (BE_IOURING r) \<Rightarrow> of_iou (s_iou_arm_wake (k_uring k) (Some wk) (to_iou r w))
      | _ \<Rightarrow> w\<lparr>w_be := snd (s_backend_register k (wake_rd wk) True False None (w_be w))\<rparr>)"

section \<open>The kqueue pass\<close>

definition fired_for :: "cr_ref \<Rightarrow> cr_ref option list \<Rightarrow> rt \<Rightarrow> bool" where
  "fired_for c us s \<longleftrightarrow> cr_state (crs s c) = SUSPENDED \<and> Some c \<in> set us"

lemma kq_loop_wakes:
  assumes "kq_loop K wake_rd us q s = (q', s')"
  shows "ready_count c s' = ready_count c s + (if fired_for c us s then 1 else 0) \<and>
    cr_state (crs s' c) = (if fired_for c us s then READY else cr_state (crs s c))"
  using assms
proof (induction K wake_rd us q s rule: kq_loop.induct)
  case (2 K wake_rd d us q s)
  let ?s = "if cr_state (crs s d) = SUSPENDED then suspenders_ready_enqueue d s else s"
  have ih: "ready_count c s' = ready_count c ?s + (if fired_for c us ?s then 1 else 0)"
    "cr_state (crs s' c) = (if fired_for c us ?s then READY else cr_state (crs ?s c))" using 2 by simp_all
  show ?case
  proof (cases "cr_state (crs s d) = SUSPENDED")
    case True
    with ih show ?thesis by (simp add: fired_for_def state_enqueue ready_count_enqueue)
  next
    case False
    with ih show ?thesis by (auto simp: fired_for_def)
  qed
next
  case (3 K wake_rd us q s)
  have "ready_count c (s_wake_drain w s) = ready_count c s" for w by (simp add: ready_count_def drain_same)
  with 3 show ?case by (cases "s_worker s") (simp_all add: fired_for_def drain_same)
qed (simp add: fired_for_def)

text \<open>A coroutine that waits for a descriptor and for which some entry fires is made ready exactly once, also when
  both filters fire; the others keep their state.\<close>

lemma kq_wait_wakes_once:
  assumes "k_events K (if timeout_ms \<ge> 0 then Some (timeout_ms div 1000, (timeout_ms mod 1000) * 1000000) else None) q = (Some us, q1)"
    and "s_kq_wait K wake_rd timeout_ms q s = (n, q', s')"
  shows "ready_count c s' = ready_count c s + (if cr_state (crs s c) = SUSPENDED \<and> Some c \<in> set us then 1 else 0)"
    and "cr_state (crs s' c) = (if cr_state (crs s c) = SUSPENDED \<and> Some c \<in> set us then READY else cr_state (crs s c))"
proof -
  have "kq_loop K wake_rd us q1 s = (q', s')" using assms by (auto simp: s_kq_wait_def)
  from kq_loop_wakes [OF this, of c] show "ready_count c s' = ready_count c s + (if cr_state (crs s c) = SUSPENDED \<and> Some c \<in> set us then 1 else 0)"
    "cr_state (crs s' c) = (if cr_state (crs s c) = SUSPENDED \<and> Some c \<in> set us then READY else cr_state (crs s c))"
    by (simp_all add: fired_for_def)
qed

lemma kq_register_entry:
  assumes "kq_laws K entry" and "s_kq_register K fd True False co q = (0, q')"
  shows "entry q' (fd, EVFILT_READ) = Some co"
proof -
  have "k_change K [(fd, EVFILT_READ, co)] q = (0, q')" using assms(2) by (simp add: s_kq_register_def)
  with assms(1) have "entry q' = fold (\<lambda>(fd, f, co) m. m((fd, f) := Some co)) [(fd, EVFILT_READ, co)] (entry q)" unfolding kq_laws_def by blast
  then show ?thesis by simp
qed

text \<open>A second wait for the same descriptor and direction takes over the entry of the first, whose coroutine no
  event wakes any more; and an entry outlives a wait that ends by timeout or cancellation, so that it can still
  name a coroutine that has exited.\<close>

lemma kq_register_takes_over:
  assumes "kq_laws K entry" and "s_kq_register K fd True False (Some c) q = (0, q1)" and "s_kq_register K fd True False (Some d) q1 = (0, q2)"
  shows "entry q2 (fd, EVFILT_READ) = Some (Some d)"
  by (rule kq_register_entry [OF assms(1,3)])

lemma kq_entry_outlives_wait:
  assumes "kq_laws K entry" and "s_kq_register K fd True False (Some c) q = (0, q1)"
  shows "entry (s_kq_unregister fd q1) (fd, EVFILT_READ) = Some (Some c)"
  using kq_register_entry [OF assms] by (simp add: s_kq_unregister_def)

section \<open>The wake descriptor\<close>

text \<open>What a worker needs of its backend: once its wake descriptor is watched, every wait leaves it watched. Then it is
  watched after any number of waits.\<close>

locale wake_source =
  fixes armed :: "'w \<Rightarrow> bool" and wait :: "'k \<Rightarrow> 'w \<Rightarrow> 'w" and sound :: "'k \<Rightarrow> bool"
  assumes wait_keeps: "sound k \<Longrightarrow> armed w \<Longrightarrow> armed (wait k w)"
begin

lemma stays_armed: "list_all sound ks \<Longrightarrow> armed w \<Longrightarrow> armed (fold wait ks w)"
  by (induction ks arbitrary: w) (auto intro: wait_keeps)

end

definition poll_armed :: "(nat \<Rightarrow> int) \<Rightarrow> poll_backend \<times> rt \<Rightarrow> bool" where
  "poll_armed wake_rd p \<longleftrightarrow>
     (\<exists>w. s_worker (snd p) = Some w \<and> (\<exists>e \<in> set (poll_tab (fst p)). pe_cr e = None \<and> pe_in e \<and> pe_fd e = wake_rd w))"

definition poll_sound :: "(poll_backend \<Rightarrow> int \<times> bool list) \<Rightarrow> bool" where
  "poll_sound k \<longleftrightarrow> (\<forall>p. length (snd (k p)) = length (poll_tab p))"

definition poll_waits :: "(poll_backend \<Rightarrow> int \<times> bool list) \<Rightarrow> poll_backend \<times> rt \<Rightarrow> poll_backend \<times> rt" where
  "poll_waits k p = snd (s_poll_wait (fst (k (fst p))) (snd (k (fst p))) (fst p) (snd p))"

lemma drain_worker [simp]: "s_worker (s_wake_drain w s) = s_worker s"
  by (simp add: s_wake_drain_def split: option.split)

lemma enqueue_worker [simp]: "s_worker (suspenders_ready_enqueue c s) = s_worker s" "wake_fd (suspenders_ready_enqueue c s) = wake_fd s"
  by (simp_all add: suspenders_ready_enqueue_def upd_cr_def Let_def)

lemma poll_sweep_keeps: "poll_sweep es s = (tab, found, s') \<Longrightarrow> (e, hit) \<in> set es \<Longrightarrow> pe_cr e = None \<Longrightarrow> e \<in> set tab"
  by (induction es s arbitrary: tab found s' rule: poll_sweep.induct)
     (auto split: if_splits option.splits prod.splits simp: Let_def)

lemma poll_sweep_worker: "s_worker (snd (snd (poll_sweep es s))) = s_worker s"
  by (induction es s rule: poll_sweep.induct) (simp_all add: split_beta Let_def split: option.split)

interpretation poll_wake: wake_source "poll_armed wake_rd" poll_waits poll_sound for wake_rd
proof
  fix k p assume k: "poll_sound k" and a: "poll_armed wake_rd p"
  from a obtain e w where e: "e \<in> set (poll_tab (fst p))" "pe_cr e = None" "pe_in e" "pe_fd e = wake_rd w" "s_worker (snd p) = Some w"
    by (auto simp: poll_armed_def)
  let ?z = "zip (poll_tab (fst p)) (snd (k (fst p)))"
  obtain tab found s' where w: "poll_sweep ?z (snd p) = (tab, found, s')" by (metis surj_pair)
  from k e(1) obtain hit where "(e, hit) \<in> set ?z"
    by (metis (no_types, lifting) in_set_conv_nth in_set_zip fst_conv snd_conv poll_sound_def)
  from poll_sweep_keeps [OF w this e(2)] poll_sweep_worker [of ?z "snd p"] e show "poll_armed wake_rd (poll_waits k p)"
    by (auto simp: poll_armed_def poll_waits_def s_poll_wait_def w Let_def)
qed

definition kq_armed :: "('q \<Rightarrow> int \<times> kfilter \<Rightarrow> cr_ref option option) \<Rightarrow> (nat \<Rightarrow> int) \<Rightarrow> 'q \<times> rt \<Rightarrow> bool" where
  "kq_armed entry wake_rd p \<longleftrightarrow> (\<exists>w. s_worker (snd p) = Some w \<and> entry (fst p) (wake_rd w, EVFILT_READ) = Some None)"

definition kq_sound :: "('q \<Rightarrow> int \<times> kfilter \<Rightarrow> cr_ref option option) \<Rightarrow> 'q kevent \<times> int \<Rightarrow> bool" where
  "kq_sound entry k \<longleftrightarrow> kq_laws (fst k) entry \<and> (\<forall>evs q. fst (k_change (fst k) evs q) = 0)"

definition kq_waits :: "(nat \<Rightarrow> int) \<Rightarrow> 'q kevent \<times> int \<Rightarrow> 'q \<times> rt \<Rightarrow> 'q \<times> rt" where
  "kq_waits wake_rd k p = snd (s_kq_wait (fst k) wake_rd (snd k) (fst p) (snd p))"

lemma register_accepted:
  assumes "kq_sound entry (K, n)"
  shows "entry (snd (s_kq_register K fd True False co q)) (fd, EVFILT_READ) = Some co"
proof -
  obtain rc q' where r: "s_kq_register K fd True False co q = (rc, q')" by fastforce
  have "fst (k_change K [(fd, EVFILT_READ, co)] q) = 0" using assms by (simp add: kq_sound_def)
  with r have "rc = 0" by (simp add: s_kq_register_def)
  with r kq_register_entry [of K entry fd co q q'] assms show ?thesis by (simp add: kq_sound_def)
qed

lemma kq_loop_armed:
  assumes "kq_loop K wake_rd us q s = (q', s')" and "s_worker s = Some w" and "kq_sound entry (K, n)"
    and "entry q (wake_rd w, EVFILT_READ) = Some None \<or> None \<in> set us"
  shows "kq_armed entry wake_rd (q', s')"
  using assms
proof (induction K wake_rd us q s rule: kq_loop.induct)
  case (2 K wake_rd c us q s)
  then show ?case by (auto split: if_splits)
next
  case (3 K wake_rd us q s)
  have "entry (snd (s_kq_register K (wake_rd w) True False None q)) (wake_rd w, EVFILT_READ) = Some None"
    by (rule register_accepted [OF 3(5)])
  moreover have "kq_loop K wake_rd us (snd (s_kq_register K (wake_rd w) True False None q)) (s_wake_drain w s) = (q', s')"
    using 3(3,4) by (simp only: kq_loop.simps option.case)
  moreover have "s_worker (s_wake_drain w s) = Some w" using 3(4) by simp
  ultimately show ?case by (intro 3(2) [OF 3(4) _ _ 3(5)]) simp_all
qed (auto simp: kq_armed_def)

interpretation kq_wake: wake_source "kq_armed entry wake_rd" "kq_waits wake_rd" "kq_sound entry" for entry wake_rd
proof
  fix k p assume k: "kq_sound entry k" and a: "kq_armed entry wake_rd p"
  from a obtain w where w: "s_worker (snd p) = Some w" "entry (fst p) (wake_rd w, EVFILT_READ) = Some None" by (auto simp: kq_armed_def)
  let ?ts = "if snd k \<ge> 0 then Some (snd k div 1000, (snd k mod 1000) * 1000000) else None"
  obtain r q1 where e: "k_events (fst k) ?ts (fst p) = (r, q1)" by fastforce
  show "kq_armed entry wake_rd (kq_waits wake_rd k p)"
  proof (cases r)
    case None
    with e k have "entry q1 = entry (fst p)" by (auto simp: kq_sound_def kq_laws_def)
    with None e a show ?thesis by (simp add: kq_waits_def s_kq_wait_def kq_armed_def)
  next
    case (Some us)
    with e k obtain ks where ks: "map Some us = map (entry (fst p)) ks" "entry q1 = (\<lambda>x. if x \<in> set ks then None else entry (fst p) x)"
      unfolding kq_sound_def kq_laws_def by blast
    obtain q2 s1 where l: "kq_loop (fst k) wake_rd us q1 (snd p) = (q2, s1)" by fastforce
    have "entry q1 (wake_rd w, EVFILT_READ) = Some None \<or> None \<in> set us"
    proof (cases "(wake_rd w, EVFILT_READ) \<in> set ks")
      case True
      then have "Some None \<in> set (map Some us)" unfolding ks(1) using w(2) by force
      then show ?thesis by auto
    qed (use ks w in simp)
    moreover have "kq_sound entry (fst k, snd k)" using k by simp
    ultimately have "kq_armed entry wake_rd (q2, s1)" by (intro kq_loop_armed [OF l w(1)])
    with Some e l show ?thesis by (simp add: kq_waits_def s_kq_wait_def)
  qed
qed

text \<open>With \<open>io_uring\<close> the poll on the descriptor is in the ring: in the submission queue, in the kernel, or reported
  and about to be armed again.\<close>

definition wake_ready :: "'r iou \<Rightarrow> bool" where
  "wake_ready t \<longleftrightarrow> (\<exists>op. i_ops t (i_wake t) = Some op \<and> op_cr op = None) \<and> (\<exists>w. s_worker (i_rt t) = Some w \<and> wake_fd (i_rt t) w \<noteq> None)"

definition iou_armed :: "('r \<Rightarrow> user_data multiset) \<Rightarrow> 'r iou \<Rightarrow> bool" where
  "iou_armed out t \<longleftrightarrow> wake_ready t \<and> UOp (i_wake t) \<in># out (i_ring t)"

text \<open>A submission makes room.\<close>

definition iou_sound :: "('r \<Rightarrow> user_data multiset) \<Rightarrow> 'r uring \<times> int \<Rightarrow> bool" where
  "iou_sound out k \<longleftrightarrow> uring_laws (fst k) out \<and> (\<forall>r. u_room (fst k) (u_submit (fst k) r))"

definition iou_waits :: "'r uring \<times> int \<Rightarrow> 'r iou \<Rightarrow> 'r iou" where
  "iou_waits k t = snd (s_iou_wait (fst k) (snd k) t)"

lemma wake_ready_rt: "wake_ready t \<Longrightarrow> s_worker s = s_worker (i_rt t) \<Longrightarrow> (\<And>w. wake_fd (i_rt t) w \<noteq> None \<Longrightarrow> wake_fd s w \<noteq> None) \<Longrightarrow>
    wake_ready (t\<lparr>i_rt := s\<rparr>)"
  by (auto simp: wake_ready_def)

lemma wake_ready_ring [simp]: "wake_ready (t\<lparr>i_ring := r\<rparr>) = wake_ready t"
  by (simp add: wake_ready_def)

lemma drain_fd: "wake_fd s v \<noteq> None \<Longrightarrow> wake_fd (s_wake_drain w s) v \<noteq> None"
  by (auto simp: s_wake_drain_def split: option.split)

lemma arm_wake_arms:
  assumes "wake_ready t" and "iou_sound out (L, n)" and "u = s_iou_arm_wake L (s_worker (i_rt t)) t"
  shows "wake_ready u" and "i_wake u = i_wake t" and "out (i_ring u) = add_mset (UOp (i_wake t)) (out (i_ring t))"
    and "\<exists>es. u_cqes L (i_ring u) = u_cqes L (i_ring t) @ es"
proof -
  have laws: "uring_laws L out" using assms(2) by (simp add: iou_sound_def)
  from assms(1) obtain w y where w: "s_worker (i_rt t) = Some w" "wake_fd (i_rt t) w = Some y" by (auto simp: wake_ready_def)
  obtain b r where g: "s_iou_get_sqe L (i_ring t) = (b, r)" by fastforce
  have b using g assms(2) by (auto simp: s_iou_get_sqe_def iou_sound_def Let_def split: if_splits)
  have p: "out (i_ring u) = add_mset (UOp (i_wake t)) (out r)"
    using g w \<open>b\<close> put_works(1) [OF laws get_sqe_works(2) [OF laws g \<open>b\<close>]] by (simp add: assms(3) s_iou_arm_wake_def)
  show "out (i_ring u) = add_mset (UOp (i_wake t)) (out (i_ring t))"
    using p get_sqe_works(1) [OF laws g] by (simp add: kernel_works_def)
  show "\<exists>es. u_cqes L (i_ring u) = u_cqes L (i_ring t) @ es" by (rule arm_wake_ring(1) [OF laws assms(3)])
  show "wake_ready u" "i_wake u = i_wake t" using arm_wake_ring(2) [OF laws assms(3)] assms(1) by auto
qed

lemma flush_cqe_armed:
  assumes "wake_ready t" and sound: "iou_sound out (L, n)" and u: "u = snd (flush_cqe L e t)"
  shows "wake_ready u \<and> i_wake u = i_wake t \<and> (\<exists>es. u_cqes L (i_ring u) = u_cqes L (i_ring t) @ es) \<and>
    count (out (i_ring u)) (UOp (i_wake t)) \<ge> count (out (i_ring t)) (UOp (i_wake t)) + count {#cqe_data e#} (UOp (i_wake t))"
proof (cases "cqe_data e")
  case UNull
  with assms show ?thesis by (simp add: flush_cqe_def)
next
  case (UOp a)
  from assms(1) obtain sentinel where s: "i_ops t (i_wake t) = Some sentinel" "op_cr sentinel = None" by (auto simp: wake_ready_def)
  consider "i_ops t a = None" | op where "i_ops t a = Some op" "op_cr op = None" | op c where "i_ops t a = Some op" "op_cr op = Some c"
    by (cases "i_ops t a") auto
  then show ?thesis
  proof cases
    case 1
    with UOp assms s show ?thesis by (auto simp: flush_cqe_def wake_ready_def)
  next
    case 2
    let ?t = "t\<lparr>i_rt := case s_worker (i_rt t) of None \<Rightarrow> i_rt t | Some w \<Rightarrow> s_wake_drain w (i_rt t)\<rparr>"
    have r: "wake_ready ?t" by (rule wake_ready_rt [OF assms(1)]) (use drain_fd in \<open>force split: option.split\<close>)+
    have "u = s_iou_arm_wake L (s_worker (i_rt ?t)) ?t" using 2 UOp by (simp add: u flush_cqe_def split: option.split)
    from arm_wake_arms [OF r sound this] UOp show ?thesis by simp
  next
    case 3
    have "a \<noteq> i_wake t" using 3 s by auto
    with assms(1) s show ?thesis by (auto simp: u flush_cqe_op [OF UOp 3] wake_op_def wake_ready_def UOp)
  qed
qed

lemma flush_loop_armed:
  assumes sound: "iou_sound out (L, n)"
  shows "wake_ready t \<Longrightarrow> u = snd (flush_loop L es t) \<Longrightarrow> wake_ready u \<and> i_wake u = i_wake t \<and>
    (\<exists>fs. u_cqes L (i_ring u) = u_cqes L (i_ring t) @ fs) \<and>
    count (out (i_ring u)) (UOp (i_wake t)) \<ge> count (out (i_ring t)) (UOp (i_wake t)) + count (mset (map cqe_data es)) (UOp (i_wake t))"
proof (induction es arbitrary: t)
  case (Cons e es)
  let ?t = "snd (flush_cqe L e t)"
  note f = flush_cqe_armed [OF Cons.prems(1) sound, of ?t e]
  have u: "u = snd (flush_loop L es ?t)" using Cons.prems(2) by (simp add: split_beta)
  have "wake_ready ?t" "i_wake ?t = i_wake t" using f by blast+
  from Cons.IH [OF this(1) u, unfolded this(2)] f show ?case by auto
qed simp

lemma flush_armed:
  assumes sound: "iou_sound out (L, n)" and a: "iou_armed out t"
  shows "iou_armed out (snd (s_iou_flush_cqes L t))"
proof -
  let ?es = "u_cqes L (i_ring t)"
  let ?t = "snd (flush_loop L ?es t)"
  let ?r = "u_advance L (length ?es) (i_ring ?t)"
  have laws: "uring_laws L out" using sound by (simp add: iou_sound_def)
  have "wake_ready t" using a by (simp add: iou_armed_def)
  note f = flush_loop_armed [OF sound this refl, of ?es]
  then obtain fs where fs: "u_cqes L (i_ring ?t) = ?es @ fs" by blast
  have "out (i_ring ?t) = out ?r + mset (map cqe_data (take (length ?es) (u_cqes L (i_ring ?t))))"
    using fs by (intro uring_lawsD(8) [OF laws]) simp
  then have o: "out (i_ring ?t) = out ?r + mset (map cqe_data ?es)" by (simp add: fs)
  have "count (out (i_ring t)) (UOp (i_wake t)) > 0" using a by (simp add: iou_armed_def)
  moreover have "count (out (i_ring ?t)) (UOp (i_wake t)) \<ge> count (out (i_ring t)) (UOp (i_wake t)) + count (mset (map cqe_data ?es)) (UOp (i_wake t))"
    using f by blast
  ultimately have "UOp (i_wake t) \<in># out ?r" unfolding o by (simp flip: count_greater_zero_iff)
  with f show ?thesis by (simp add: flush_unfold iou_armed_def)
qed

interpretation iou_wake: wake_source "iou_armed out" iou_waits "iou_sound out" for out
proof
  fix k t assume k: "iou_sound out k" and a: "iou_armed out t"
  have laws: "uring_laws (fst k) out" using k by (simp add: iou_sound_def)
  have works: "iou_armed out (t\<lparr>i_ring := r\<rparr>)" if "iou_armed out t" "kernel_works (fst k) out (i_ring t) r" for t r
    using that by (simp add: iou_armed_def kernel_works_def)
  have flush: "iou_armed out t \<Longrightarrow> iou_armed out (snd (s_iou_flush_cqes (fst k) t))" for t
    using flush_armed [of out "fst k" "snd k"] k by simp
  let ?t = "snd (s_iou_flush_cqes (fst k) (t\<lparr>i_ring := u_submit (fst k) (i_ring t)\<rparr>))"
  have u: "iou_armed out ?t" by (intro flush works [OF a] uring_lawsD(4) [OF laws])
  have "iou_armed out (?t\<lparr>i_ring := snd (u_wait (fst k) ts (i_ring ?t))\<rparr>)" for ts by (rule works [OF u uring_lawsD(5) [OF laws]])
  with u flush show "iou_armed out (iou_waits k t)" by (simp add: iou_waits_def s_iou_wait_def split_beta Let_def)
qed

text \<open>The dispatch: the calls a worker makes on its backend, whatever it is.\<close>

datatype ('r, 'q) be_call =
    CallWait "('r, 'q) answers" int
  | CallRegister "('r, 'q) answers" int bool bool cr_ref
  | CallUnregister int

definition be_apply :: "(nat \<Rightarrow> int) \<Rightarrow> ('r, 'q) be_call \<Rightarrow> ('r, 'q) world \<Rightarrow> ('r, 'q) world" where
  "be_apply wake_rd call w =
     (case call of
        CallWait k timeout_ms \<Rightarrow> snd (s_backend_wait k wake_rd timeout_ms w)
      | CallRegister k fd ev_in ev_out c \<Rightarrow> w\<lparr>w_be := snd (s_backend_register k fd ev_in ev_out (Some c) (w_be w))\<rparr>
      | CallUnregister fd \<Rightarrow> w\<lparr>w_be := s_backend_unregister fd (w_be w)\<rparr>)"

definition worker_armed ::
    "('r \<Rightarrow> user_data multiset) \<Rightarrow> ('q \<Rightarrow> int \<times> kfilter \<Rightarrow> cr_ref option option) \<Rightarrow> (nat \<Rightarrow> int) \<Rightarrow> ('r, 'q) world \<Rightarrow> bool" where
  "worker_armed out entry wake_rd w =
     (case w_be w of
        None \<Rightarrow> False
      | Some (BE_IOURING r) \<Rightarrow> iou_armed out (to_iou r w)
      | Some (BE_KQUEUE q) \<Rightarrow> kq_armed entry wake_rd (q, w_rt w)
      | Some (BE_POLL p) \<Rightarrow> poll_armed wake_rd (p, w_rt w)
      | Some (BE_WSAPOLL p) \<Rightarrow> poll_armed wake_rd (p, w_rt w))"

text \<open>The system keeps its laws, accepts what is submitted and added, and \<open>poll\<close> answers for each descriptor it was given;
  coroutines do not wait on wake descriptors.\<close>

definition answers_sound ::
    "('r \<Rightarrow> user_data multiset) \<Rightarrow> ('q \<Rightarrow> int \<times> kfilter \<Rightarrow> cr_ref option option) \<Rightarrow> ('r, 'q) answers \<Rightarrow> bool" where
  "answers_sound out entry k \<longleftrightarrow> iou_sound out (k_uring k, 0) \<and> kq_sound entry (k_kevent k, 0) \<and> poll_sound (k_poll k)"

definition call_sound ::
    "('r \<Rightarrow> user_data multiset) \<Rightarrow> ('q \<Rightarrow> int \<times> kfilter \<Rightarrow> cr_ref option option) \<Rightarrow> (nat \<Rightarrow> int) \<Rightarrow> ('r, 'q) be_call \<Rightarrow> bool" where
  "call_sound out entry wake_rd call =
     (case call of
        CallWait k _ \<Rightarrow> answers_sound out entry k
      | CallRegister k fd _ _ _ \<Rightarrow> answers_sound out entry k \<and> fd \<notin> range wake_rd
      | CallUnregister fd \<Rightarrow> fd \<notin> range wake_rd)"

lemma to_of_iou [simp]: "to_iou (i_ring t) (of_iou t) = t" "w_be (of_iou t) = Some (BE_IOURING (i_ring t))"
  by (simp_all add: to_iou_def of_iou_def)

lemma wait_armed:
  assumes "answers_sound out entry k" and a: "worker_armed out entry wake_rd w"
  shows "worker_armed out entry wake_rd (snd (s_backend_wait k wake_rd timeout_ms w))"
proof -
  have iou: "iou_sound out (k_uring k, timeout_ms)" and kq: "kq_sound entry (k_kevent k, timeout_ms)"
    and pl: "poll_sound (k_poll k)" using assms(1) by (simp_all add: answers_sound_def iou_sound_def kq_sound_def)
  from a obtain be where be: "w_be w = Some be" by (cases "w_be w") (auto simp: worker_armed_def)
  show ?thesis
  proof (cases be)
    case (BE_IOURING r)
    with iou_wake.wait_keeps [OF iou, of "to_iou r w"] a be show ?thesis
      by (simp add: worker_armed_def s_backend_wait_def iou_waits_def map_prod_def split_beta)
  next
    case (BE_KQUEUE q)
    with kq_wake.wait_keeps [OF kq, of wake_rd "(q, w_rt w)"] a be show ?thesis
      by (simp add: worker_armed_def s_backend_wait_def kq_waits_def split_beta Let_def)
  next
    case (BE_WSAPOLL p)
    with poll_wake.wait_keeps [OF pl, of wake_rd "(p, w_rt w)"] a be show ?thesis
      by (simp add: worker_armed_def s_backend_wait_def poll_wait_on_def poll_waits_def split_beta Let_def)
  next
    case (BE_POLL p)
    with poll_wake.wait_keeps [OF pl, of wake_rd "(p, w_rt w)"] a be show ?thesis
      by (simp add: worker_armed_def s_backend_wait_def poll_wait_on_def poll_waits_def split_beta Let_def)
  qed
qed

lemma poll_register_armed:
  "poll_armed wake_rd (p, s) \<Longrightarrow> poll_armed wake_rd (snd (s_poll_register gf gc fd ev_in ev_out co p), s)"
  by (auto simp: poll_armed_def s_poll_register_def Let_def)

lemma poll_unregister_armed: "poll_armed wake_rd (p, s) \<Longrightarrow> fd \<notin> range wake_rd \<Longrightarrow> poll_armed wake_rd (s_poll_unregister fd p, s)"
  by (auto simp: poll_armed_def s_poll_unregister_def)

lemma kq_register_armed:
  assumes "kq_armed entry wake_rd (q, s)" and "fd \<notin> range wake_rd" and "kq_laws K entry"
  shows "kq_armed entry wake_rd (snd (s_kq_register K fd ev_in ev_out co q), s)"
proof -
  have "entry (snd (k_change K evs q)) (wake_rd w, EVFILT_READ) = entry q (wake_rd w, EVFILT_READ)"
    if "set evs \<subseteq> {(fd, EVFILT_READ, co), (fd, EVFILT_WRITE, co)}" for w evs
  proof -
    obtain rc q' where c: "k_change K evs q = (rc, q')" by fastforce
    have "(wake_rd w, EVFILT_READ) \<notin> (\<lambda>(fd, f, _). (fd, f)) ` set evs" using that assms(2) by fastforce
    with c assms(3) have "entry q' (wake_rd w, EVFILT_READ) = entry q (wake_rd w, EVFILT_READ)" unfolding kq_laws_def by blast
    with c show ?thesis by simp
  qed
  with assms(1) show ?thesis by (auto simp: kq_armed_def s_kq_register_def Let_def)
qed

lemma to_iou_be [simp]: "to_iou r (w\<lparr>w_be := x\<rparr>) = to_iou r w"
  by (simp add: to_iou_def)

interpretation worker_wake: wake_source "worker_armed out entry wake_rd" "be_apply wake_rd" "call_sound out entry wake_rd"
  for out entry wake_rd
proof
  fix call w assume k: "call_sound out entry wake_rd call" and a: "worker_armed out entry wake_rd w"
  from a obtain be where be: "w_be w = Some be" by (cases "w_be w") (auto simp: worker_armed_def)
  show "worker_armed out entry wake_rd (be_apply wake_rd call w)"
  proof (cases call)
    case (CallWait x timeout_ms)
    with k a show ?thesis by (simp add: be_apply_def call_sound_def wait_armed)
  next
    case (CallRegister x fd ev_in ev_out c)
    with k a be show ?thesis by (cases be)
        (simp_all add: be_apply_def call_sound_def worker_armed_def s_backend_register_def poll_register_armed kq_register_armed
          answers_sound_def kq_sound_def)
  next
    case (CallUnregister fd)
    with k a be show ?thesis by (cases be)
        (simp_all add: be_apply_def call_sound_def worker_armed_def s_backend_unregister_def poll_unregister_armed s_kq_unregister_def)
  qed
qed

section \<open>Reaching a worker\<close>

lemma register_wake_arms:
  assumes "s_backend_create b x hint = Some be" and "w_be w = Some be" and "answers_sound out entry k"
    and "s_worker (w_rt w) = Some wk" and "wake_fd (w_rt w) wk \<noteq> None" and "w_ops w (w_wake w) = Some op" and "op_cr op = None"
  shows "worker_armed out entry wake_rd (s_worker_register_wake k wake_rd wk w)"
proof (cases be)
  case (BE_IOURING r)
  have "wake_ready (to_iou r w)" "s_worker (i_rt (to_iou r w)) = Some wk" using assms by (simp_all add: wake_ready_def to_iou_def)
  with arm_wake_arms [of "to_iou r w" out "k_uring k" 0 "s_iou_arm_wake (k_uring k) (Some wk) (to_iou r w)"] assms(3)
  have "iou_armed out (s_iou_arm_wake (k_uring k) (Some wk) (to_iou r w))" by (simp add: answers_sound_def iou_armed_def)
  with BE_IOURING assms(2) show ?thesis by (simp add: worker_armed_def s_worker_register_wake_def)
next
  case (BE_KQUEUE q)
  with register_accepted [of entry "k_kevent k" 0 "wake_rd wk" None q] assms show ?thesis
    by (auto simp: worker_armed_def s_worker_register_wake_def s_backend_register_def kq_armed_def answers_sound_def)
qed (use assms(1,2,4) in \<open>auto simp: worker_armed_def s_worker_register_wake_def s_backend_register_def s_backend_create_def
      s_poll_create_def poll_armed_def s_poll_register_def Let_def split: option.splits if_splits\<close>)


text \<open>A kernel that keeps the laws of \<open>kevent\<close> and reports every readable wake descriptor at each wait; a worker on each
  backend, one wait in which the wake descriptor is reported, and one registration.\<close>

definition plain_kevent :: "(int \<times> kfilter \<Rightarrow> cr_ref option option) kevent" where
  "plain_kevent =
     \<lparr>k_change = (\<lambda>evs q. (0, fold (\<lambda>(fd, f, co) m. m((fd, f) := Some co)) evs q)),
      k_events = (\<lambda>ts q. case q (3, EVFILT_READ) of None \<Rightarrow> (None, q) | Some u \<Rightarrow> (Some [u], q((3, EVFILT_READ) := None)))\<rparr>"

lemma fold_other: "k \<notin> (\<lambda>(fd, f, _). (fd, f)) ` set evs \<Longrightarrow> fold (\<lambda>(fd, f, co) m. m((fd, f) := Some co)) evs q k = q k"
  by (induction evs arbitrary: q) auto

lemma plain_kq_laws: "kq_laws plain_kevent (\<lambda>q. q)"
  unfolding kq_laws_def plain_kevent_def
  by (auto simp: fold_other split: option.splits intro!: exI [of _ "[(3, EVFILT_READ)]"])

definition calm :: "(plain_ring, int \<times> kfilter \<Rightarrow> cr_ref option option) answers" where
  "calm = \<lparr>k_uring = plain_uring 8, k_kevent = plain_kevent, k_poll = (\<lambda>p. (1, map (\<lambda>_. True) (poll_tab p))),
     k_grow_fds = True, k_grow_crs = True\<rparr>"

definition all_there :: "(plain_ring, int \<times> kfilter \<Rightarrow> cr_ref option option) creation" where
  "all_there = \<lparr>release = Some ''6.1.0-13'', mem_be = True, queue_init = (\<lambda>n _. Some empty_ring), setup_flags = 0, kq_new = Some (\<lambda>_. None),
     mem_events = True, mem_fds = True, mem_crs = True\<rparr>"

definition world_on ::
    "(plain_ring, int \<times> kfilter \<Rightarrow> cr_ref option option) backend \<Rightarrow> (plain_ring, int \<times> kfilter \<Rightarrow> cr_ref option option) world" where
  "world_on be = \<lparr>w_rt = run_on 2 blank_rt, w_be = Some be,
     w_ops = [0 \<mapsto> \<lparr>op_cr = None, op_result = 0, op_code = 0, op_completed = False\<rparr>], w_wake = 0, w_stale = False, w_errno = 0\<rparr>"

lemma created:
  "s_backend_create \<lparr>has_iouring = True, has_kqueue = False, has_poll = True, has_wsapoll = False\<rparr> all_there 8 = Some (BE_IOURING empty_ring)"
  "s_backend_create \<lparr>has_iouring = False, has_kqueue = True, has_poll = True, has_wsapoll = False\<rparr> all_there 8 = Some (BE_KQUEUE (\<lambda>_. None))"
  "s_backend_create \<lparr>has_iouring = False, has_kqueue = False, has_poll = True, has_wsapoll = False\<rparr> all_there 8 =
     Some (BE_POLL \<lparr>poll_cap = 256, poll_tab = [], dangling = False\<rparr>)"
  by (simp_all add: s_backend_create_def all_there_def s_iou_create_def s_kq_create_def s_poll_create_def s_kernel_iouring_reliable_def
      scan_release_def scan_int_def is_space_def is_digit_def digits_value_def)


end
