(* ===== verification/Park.thy ===== *)
theory Park
  imports Prelude
begin

text \<open>
  The park protocol of the workers, at the granularity of its atomic accesses: a worker that finds no work
  sets \<open>parked\<close>, looks at every wake source again and only then waits in its backend; whoever gives a worker
  something to do stores it first, then loads \<open>parked\<close> and writes the worker's wake descriptor if it is set.
  All these accesses are sequentially consistent, so their interleavings are the behaviours.

  The state is what the protocol shares: the inboxes, the \<open>parked\<close> flags and wake descriptors of the workers, the
  counters of the injector, of active coroutines and of pending queue work, and the stop flag. An actor is any
  thread in the middle of a wake-up; a worker that runs a coroutine acts as one while it is in its loop.
\<close>

section \<open>State\<close>

text \<open>Where a worker stands in \<open>s_worker_loop\<close>: running the loop's body; after storing \<open>parked\<close>, before the load of
  its inbox, of the injector's counter, of the stop flag; for the caller of \<open>suspenders_run\<close> before the loads of
  \<open>s_run_complete\<close>; waiting in the backend; before clearing \<open>parked\<close>; gone.\<close>

datatype worker_pc = Loop | ChkInbox | ChkInj | ChkStop | RcInbox | RcInj | RcActive | RcWork | Waiting | Unpark | Exited

text \<open>Where an actor stands: nothing pending; a spawn that has counted its coroutine and not yet published it; at the
  \<open>parked\<close> load or at the write of \<open>s_worker_signal\<close>; at worker \<open>k\<close> of the scan in \<open>s_spawn_impl\<close>; at worker \<open>k\<close> of
  the kicks in \<open>suspenders_shutdown\<close>.\<close>

datatype actor_pc = Idle | Publish | Wake nat | Write nat | Scan nat | Kick nat

record park =
  nw :: nat
  w_inbox :: "nat \<Rightarrow> nat list"
  w_parked :: "nat \<Rightarrow> bool"
  w_fd :: "nat \<Rightarrow> nat"
  w_timers :: "nat \<Rightarrow> bool"
  w_pc :: "nat \<Rightarrow> worker_pc"
  inj_count :: nat
  active_crs :: nat
  work :: nat
  stop_flag :: bool
  actor :: "nat \<Rightarrow> actor_pc"

definition set_actor :: "nat \<Rightarrow> actor_pc \<Rightarrow> park \<Rightarrow> park" where
  [simp]: "set_actor i a p = p\<lparr>actor := (actor p)(i := a)\<rparr>"

definition set_pc :: "nat \<Rightarrow> worker_pc \<Rightarrow> park \<Rightarrow> park" where
  [simp]: "set_pc w c p = p\<lparr>w_pc := (w_pc p)(w := c)\<rparr>"

section \<open>Steps of the actors\<close>

text \<open>The one access an actor makes next in the middle of a wake-up.\<close>

definition actor_next :: "nat \<Rightarrow> park \<Rightarrow> park option" where
  "actor_next i p =
     (case actor p i of
        Idle \<Rightarrow> None
      | Publish \<Rightarrow> Some (set_actor i (Scan 0) (p\<lparr>inj_count := inj_count p + 1\<rparr>))
      | Wake w \<Rightarrow> Some (set_actor i (if w_parked p w then Write w else Idle) p)
      | Write w \<Rightarrow> Some (set_actor i Idle (p\<lparr>w_fd := (w_fd p)(w := w_fd p w + 1)\<rparr>))
      | Scan k \<Rightarrow> Some (set_actor i (if k < nw p then (if w_parked p k then Wake k else Scan (k + 1)) else Idle) p)
      | Kick k \<Rightarrow> Some (if k < nw p then set_actor i (Kick (k + 1)) (p\<lparr>w_fd := (w_fd p)(k := w_fd p k + 1)\<rparr>)
                        else set_actor i Idle p))"

text \<open>What an idle actor may begin: a push on an inbox (\<open>s_inbox_wake\<close>), a spawn, the end of a coroutine
  (\<open>suspenders_cr_exit\<close>) or of a task (\<open>s_queue_work_end\<close>) outside worker 0, the submission of a task, and
  \<open>suspenders_shutdown\<close>. The last coroutine or task signals worker 0.\<close>

definition begin_wake :: "nat \<Rightarrow> nat \<Rightarrow> nat \<Rightarrow> park \<Rightarrow> park" where
  "begin_wake i w c p = set_actor i (Wake w) (p\<lparr>w_inbox := (w_inbox p)(w := c # w_inbox p w)\<rparr>)"

definition begin_spawn :: "nat \<Rightarrow> bool \<Rightarrow> park \<Rightarrow> park" where
  "begin_spawn i is_daemon p =
     (if is_daemon then set_actor i (Scan 0) (p\<lparr>inj_count := inj_count p + 1\<rparr>)
      else set_actor i Publish (p\<lparr>active_crs := active_crs p + 1\<rparr>))"

definition end_cr :: "nat \<Rightarrow> park \<Rightarrow> park" where
  "end_cr i p = set_actor i (if active_crs p = 1 then Wake 0 else Idle) (p\<lparr>active_crs := active_crs p - 1\<rparr>)"

definition end_task :: "nat \<Rightarrow> park \<Rightarrow> park" where
  "end_task i p = set_actor i (if work p = 1 then Wake 0 else Idle) (p\<lparr>work := work p - 1\<rparr>)"

inductive actor_step :: "park \<Rightarrow> park \<Rightarrow> bool" where
  goes_on: "actor_next i p = Some p' \<Longrightarrow> actor_step p p'"
| wakes: "actor p i = Idle \<Longrightarrow> w < nw p \<Longrightarrow> actor_step p (begin_wake i w c p)"
| spawns: "actor p i = Idle \<Longrightarrow> actor_step p (begin_spawn i is_daemon p)"
| ends_cr: "actor p i = Idle \<Longrightarrow> active_crs p > 0 \<Longrightarrow> actor_step p (end_cr i p)"
| submits: "actor_step p (p\<lparr>work := work p + 1\<rparr>)"
| ends_task: "actor p i = Idle \<Longrightarrow> work p > 0 \<Longrightarrow> actor_step p (end_task i p)"
| shuts_down: "actor p i = Idle \<Longrightarrow> actor_step p (set_actor i (Kick 1) (p\<lparr>stop_flag := True\<rparr>))"

section \<open>Steps of the workers\<close>

text \<open>The loads after \<open>parked\<close> has been stored, and the store that clears it.\<close>

definition worker_next :: "nat \<Rightarrow> park \<Rightarrow> park option" where
  "worker_next w p =
     (case w_pc p w of
        ChkInbox \<Rightarrow> Some (set_pc w (if w_inbox p w = [] then ChkInj else Unpark) p)
      | ChkInj \<Rightarrow> Some (set_pc w (if inj_count p = 0 then ChkStop else Unpark) p)
      | ChkStop \<Rightarrow> Some (set_pc w (if stop_flag p then Unpark else if w = 0 then RcInbox else Waiting) p)
      | RcInbox \<Rightarrow> Some (set_pc w (if w_inbox p w = [] then RcInj else Waiting) p)
      | RcInj \<Rightarrow> Some (set_pc w (if inj_count p = 0 then RcActive else Waiting) p)
      | RcActive \<Rightarrow> Some (set_pc w (if active_crs p = 0 then RcWork else Waiting) p)
      | RcWork \<Rightarrow> Some (set_pc w (if work p = 0 \<and> \<not> w_timers p w then Unpark else Waiting) p)
      | Waiting \<Rightarrow> if w_fd p w > 0 then Some (set_pc w Unpark (p\<lparr>w_fd := (w_fd p)(w := 0)\<rparr>)) else None
      | Unpark \<Rightarrow> Some (set_pc w Loop (p\<lparr>w_parked := (w_parked p)(w := False)\<rparr>))
      | _ \<Rightarrow> None)"

text \<open>In the body of the loop a worker drains its inbox, takes from the injector, ends coroutines and tasks of its
  own without signalling itself, arms and fires timers, leaves when it is told to stop (worker 0 also when the run
  is complete), and parks. The wait also ends by a timeout or by I/O.\<close>

definition park_begin :: "nat \<Rightarrow> park \<Rightarrow> park" where
  "park_begin w p = set_pc w ChkInbox (p\<lparr>w_parked := (w_parked p)(w := True)\<rparr>)"

inductive worker_step :: "park \<Rightarrow> park \<Rightarrow> bool" where
  proceeds: "w < nw p \<Longrightarrow> worker_next w p = Some p' \<Longrightarrow> worker_step p p'"
| drains: "w < nw p \<Longrightarrow> w_pc p w = Loop \<Longrightarrow> worker_step p (p\<lparr>w_inbox := (w_inbox p)(w := [])\<rparr>)"
| takes: "w < nw p \<Longrightarrow> w_pc p w = Loop \<Longrightarrow> inj_count p > 0 \<Longrightarrow> worker_step p (p\<lparr>inj_count := inj_count p - 1\<rparr>)"
| own_cr: "0 < nw p \<Longrightarrow> w_pc p 0 = Loop \<Longrightarrow> worker_step p (p\<lparr>active_crs := active_crs p - 1\<rparr>)"
| own_task: "0 < nw p \<Longrightarrow> w_pc p 0 = Loop \<Longrightarrow> worker_step p (p\<lparr>work := work p - 1\<rparr>)"
| timers: "w < nw p \<Longrightarrow> w_pc p w = Loop \<Longrightarrow> worker_step p (p\<lparr>w_timers := (w_timers p)(w := b)\<rparr>)"
| leaves: "w < nw p \<Longrightarrow> w_pc p w = Loop \<Longrightarrow> stop_flag p \<or> w = 0 \<Longrightarrow> worker_step p (set_pc w Exited p)"
| parks: "w < nw p \<Longrightarrow> w_pc p w = Loop \<Longrightarrow> worker_step p (park_begin w p)"
| returns: "w < nw p \<Longrightarrow> w_pc p w = Waiting \<Longrightarrow> worker_step p (set_pc w Unpark p)"

definition park_step :: "park \<Rightarrow> park \<Rightarrow> bool" where
  "park_step p p' \<longleftrightarrow> actor_step p p' \<or> worker_step p p'"

definition park_init :: "park \<Rightarrow> bool" where
  "park_init p \<longleftrightarrow> nw p > 0 \<and> (\<forall>w. w_pc p w = Loop \<and> \<not> w_parked p w \<and> w_fd p w = 0 \<and> w_inbox p w = []) \<and>
     inj_count p = 0 \<and> active_crs p = 0 \<and> work p = 0 \<and> \<not> stop_flag p \<and> (\<forall>i. actor p i = Idle)"

section \<open>The invariant\<close>

text \<open>Some actor stands at a place that satisfies \<open>P\<close>.\<close>

definition pending :: "(actor_pc \<Rightarrow> bool) \<Rightarrow> (nat \<Rightarrow> actor_pc) \<Rightarrow> bool" where
  "pending P act \<longleftrightarrow> (\<exists>i. P (act i))"

lemma pending_new [intro]: "P a \<Longrightarrow> pending P (act(i := a))"
  by (auto simp: pending_def)

lemma pending_upd: "pending P act \<Longrightarrow> (P (act i) \<Longrightarrow> P a) \<Longrightarrow> pending P (act(i := a))"
  by (metis fun_upd_apply pending_def)

lemma pending_keep [intro]: "pending P act \<Longrightarrow> \<not> P (act i) \<Longrightarrow> pending P (act(i := a))"
  by (rule pending_upd) auto

lemma pending_mono: "pending P act \<Longrightarrow> (\<And>a. P a \<Longrightarrow> Q a) \<Longrightarrow> pending Q act"
  by (auto simp: pending_def)

text \<open>After which loads a worker is.\<close>

definition past_inbox :: "worker_pc \<Rightarrow> bool" where
  "past_inbox c \<longleftrightarrow> c \<in> {ChkInj, ChkStop, RcInbox, RcInj, RcActive, RcWork, Waiting}"

definition past_inj :: "worker_pc \<Rightarrow> bool" where
  "past_inj c \<longleftrightarrow> c \<in> {ChkStop, RcInbox, RcInj, RcActive, RcWork, Waiting}"

definition past_stop :: "worker_pc \<Rightarrow> bool" where
  "past_stop c \<longleftrightarrow> c \<in> {RcInbox, RcInj, RcActive, RcWork, Waiting}"

definition signals :: "nat \<Rightarrow> actor_pc \<Rightarrow> bool" where
  "signals w a \<longleftrightarrow> a = Wake w \<or> a = Write w"

definition flags_ok :: "park \<Rightarrow> bool" where
  "flags_ok p \<longleftrightarrow> nw p > 0 \<and> (\<forall>w. w_parked p w \<longleftrightarrow> w_pc p w \<notin> {Loop, Exited}) \<and>
     (\<forall>i w. signals w (actor p i) \<longrightarrow> w < nw p)"

definition inbox_ok :: "park \<Rightarrow> bool" where
  "inbox_ok p \<longleftrightarrow> (\<forall>w. w_inbox p w \<noteq> [] \<and> past_inbox (w_pc p w) \<and> w_fd p w = 0 \<longrightarrow> pending (signals w) (actor p))"

definition asleep :: "park \<Rightarrow> nat \<Rightarrow> bool" where
  "asleep p w \<longleftrightarrow> past_inj (w_pc p w) \<and> w_fd p w = 0"

definition scans :: "park \<Rightarrow> actor_pc \<Rightarrow> bool" where
  "scans p a \<longleftrightarrow> (\<exists>w. signals w a) \<or> (\<exists>k. a = Scan k \<and> (\<forall>j < k. \<not> asleep p j))"

definition injector_ok :: "park \<Rightarrow> bool" where
  "injector_ok p \<longleftrightarrow> (inj_count p > 0 \<and> (\<forall>w < nw p. asleep p w) \<longrightarrow> pending (scans p) (actor p))"

definition scans0 :: "actor_pc \<Rightarrow> bool" where
  "scans0 a \<longleftrightarrow> signals 0 a \<or> a = Scan 0"

definition first_ok :: "park \<Rightarrow> bool" where
  "first_ok p \<longleftrightarrow> (inj_count p > 0 \<and> asleep p 0 \<longrightarrow> pending scans0 (actor p))"

definition kicks :: "nat \<Rightarrow> actor_pc \<Rightarrow> bool" where
  "kicks w a \<longleftrightarrow> (\<exists>k \<le> w. a = Kick k)"

definition stop_ok :: "park \<Rightarrow> bool" where
  "stop_ok p \<longleftrightarrow> (\<forall>w. stop_flag p \<and> 0 < w \<and> w < nw p \<and> past_stop (w_pc p w) \<and> w_fd p w = 0 \<longrightarrow> pending (kicks w) (actor p))"

definition complete_ok :: "park \<Rightarrow> bool" where
  "complete_ok p \<longleftrightarrow> (w_pc p 0 = Waiting \<and> w_fd p 0 = 0 \<and> \<not> w_timers p 0 \<and> active_crs p = 0 \<and> work p = 0 \<longrightarrow>
     pending scans0 (actor p))"

definition park_inv :: "park \<Rightarrow> bool" where
  "park_inv p \<longleftrightarrow> flags_ok p \<and> inbox_ok p \<and> injector_ok p \<and> first_ok p \<and> stop_ok p \<and> complete_ok p"

lemmas park_defs = set_actor_def set_pc_def begin_wake_def begin_spawn_def end_cr_def end_task_def park_begin_def

lemma actor_next_upd: "actor_next i p = Some p' \<Longrightarrow> actor p' = (actor p)(i := actor p' i)"
  by (auto simp: actor_next_def split: actor_pc.splits if_splits)

lemma actor_next_frame:
  "actor_next i p = Some p' \<Longrightarrow> w_pc p' = w_pc p \<and> w_inbox p' = w_inbox p \<and> w_parked p' = w_parked p \<and> w_timers p' = w_timers p \<and>
     nw p' = nw p \<and> active_crs p' = active_crs p \<and> work p' = work p \<and> stop_flag p' = stop_flag p \<and>
     (\<forall>w. w_fd p' w = 0 \<longrightarrow> w_fd p w = 0)"
  by (auto simp: actor_next_def split: actor_pc.splits if_splits)

text \<open>A pending signal for a parked worker stays pending until the descriptor has been written.\<close>

lemma signal_persists:
  assumes "actor_next i p = Some p'" and "w_parked p w" and "w_fd p' w = 0" and "signals w (actor p i)"
  shows "signals w (actor p' i)"
  using assms by (auto simp: actor_next_def signals_def split: if_splits)

lemma flags_step:
  assumes "flags_ok p" and "park_step p p'"
  shows "flags_ok p'"
  using assms(2) unfolding park_step_def
proof
  assume "actor_step p p'"
  then show ?thesis using assms(1)
    by cases (auto simp: flags_ok_def signals_def actor_next_def park_defs split: actor_pc.splits if_splits)
next
  assume "worker_step p p'"
  then show ?thesis using assms(1)
    by cases (auto simp: flags_ok_def signals_def worker_next_def park_defs split: worker_pc.splits if_splits)
qed

lemma asleep_parked: "flags_ok p \<Longrightarrow> past_inbox (w_pc p w) \<or> past_inj (w_pc p w) \<or> past_stop (w_pc p w) \<Longrightarrow> w_parked p w"
  by (auto simp: flags_ok_def past_inbox_def past_inj_def past_stop_def)

lemma inbox_step:
  assumes "flags_ok p" and "inbox_ok p" and "park_step p p'"
  shows "inbox_ok p'"
  using assms(3) unfolding park_step_def
proof
  assume "actor_step p p'"
  then show ?thesis
  proof cases
    case (goes_on i)
    note f = actor_next_frame [OF goes_on]
    show ?thesis unfolding inbox_ok_def
    proof (intro allI impI)
      fix w assume w: "w_inbox p' w \<noteq> [] \<and> past_inbox (w_pc p' w) \<and> w_fd p' w = 0"
      with assms(1,2) f have "pending (signals w) (actor p)" "w_parked p w"
        by (auto simp: inbox_ok_def asleep_parked)
      then show "pending (signals w) (actor p')"
        using signal_persists [OF goes_on] w by (subst actor_next_upd [OF goes_on]) (blast intro: pending_upd)
    qed
  qed (use assms(2) in \<open>auto simp: inbox_ok_def signals_def park_defs\<close>)
next
  assume "worker_step p p'"
  then show ?thesis using assms(2)
    by cases (auto simp: inbox_ok_def worker_next_def park_defs past_inbox_def split: worker_pc.splits if_splits)
qed

lemma first_step:
  assumes "flags_ok p" and "first_ok p" and "park_step p p'"
  shows "first_ok p'"
  using assms(3) unfolding park_step_def
proof
  assume "actor_step p p'"
  then show ?thesis
  proof cases
    case (goes_on i)
    note f = actor_next_frame [OF goes_on]
    show ?thesis unfolding first_ok_def
    proof
      assume h: "0 < inj_count p' \<and> asleep p' 0"
      then have a: "asleep p 0" "w_parked p 0" using f assms(1) by (auto simp: asleep_def asleep_parked)
      show "pending scans0 (actor p')"
      proof (cases "actor p i = Publish")
        case True
        then have "actor p' i = Scan 0" using goes_on by (auto simp: actor_next_def)
        then show ?thesis by (subst actor_next_upd [OF goes_on]) (auto simp: scans0_def)
      next
        case False
        then have "inj_count p' = inj_count p" using goes_on by (auto simp: actor_next_def split: actor_pc.splits if_splits)
        with h a assms(2) have "pending scans0 (actor p)" by (simp add: first_ok_def)
        moreover have "scans0 (actor p' i)" if "scans0 (actor p i)"
          using that signal_persists [OF goes_on a(2)] h goes_on a(2) assms(1)
          by (auto simp: scans0_def asleep_def actor_next_def signals_def flags_ok_def split: if_splits)
        ultimately show ?thesis by (subst actor_next_upd [OF goes_on]) (blast intro: pending_upd)
      qed
    qed
  qed (use assms(2) in \<open>auto simp: first_ok_def asleep_def scans0_def signals_def park_defs split: if_splits\<close>)
next
  assume "worker_step p p'"
  then show ?thesis using assms(2)
    by cases (auto simp: first_ok_def asleep_def worker_next_def park_defs past_inj_def split: worker_pc.splits if_splits)
qed

text \<open>A worker falls asleep past the injector only after it has seen the injector empty.\<close>

lemma asleep_worker_step:
  assumes "worker_step p p'" and "asleep p' w" and "inj_count p' > 0"
  shows "asleep p w"
  using assms by cases (auto simp: asleep_def worker_next_def park_defs past_inj_def split: worker_pc.splits if_splits)

lemma asleep_actor_step:
  assumes "actor_step p p'" and "asleep p' w"
  shows "asleep p w"
  using assms by cases (auto simp: asleep_def park_defs dest!: actor_next_frame split: if_splits)

lemma scans_mono:
  assumes "\<And>w. asleep p' w \<Longrightarrow> asleep p w"
  shows "scans p a \<Longrightarrow> scans p' a"
  unfolding scans_def using assms by blast

lemma worker_step_frame: "worker_step p p' \<Longrightarrow> actor p' = actor p \<and> nw p' = nw p \<and> inj_count p' \<le> inj_count p"
  by (cases rule: worker_step.cases, assumption) (auto simp: worker_next_def park_defs split: worker_pc.splits if_splits)

lemma scan_persists:
  assumes "flags_ok p" and "actor_next i p = Some p'" and "\<forall>w < nw p. asleep p' w" and "scans p (actor p i)"
  shows "scans p' (actor p' i)"
proof -
  note f = actor_next_frame [OF assms(2)]
  have all: "w_parked p w" "w_fd p' w = 0" "asleep p w" if "w < nw p" for w
    using that assms(1,3) f by (auto simp: asleep_def asleep_parked)
  from assms(4) consider w where "signals w (actor p i)" | k where "actor p i = Scan k" "\<forall>j < k. \<not> asleep p j"
    by (auto simp: scans_def)
  then show ?thesis
  proof cases
    case 1
    then have "w < nw p" using assms(1) by (auto simp: flags_ok_def)
    with 1 signal_persists [OF assms(2) all(1,2)] show ?thesis by (auto simp: scans_def)
  next
    case 2
    have "0 < nw p" using assms(1) by (simp add: flags_ok_def)
    then have "k = 0" using 2(2) all(3) by blast
    then have "actor p' i = Wake 0" using assms(2) 2(1) all(1) \<open>0 < nw p\<close> by (auto simp: actor_next_def)
    then show ?thesis by (auto simp: scans_def signals_def)
  qed
qed

lemma injector_step:
  assumes "flags_ok p" and "injector_ok p" and "park_step p p'"
  shows "injector_ok p'"
  unfolding injector_ok_def
proof
  assume h: "0 < inj_count p' \<and> (\<forall>w < nw p'. asleep p' w)"
  from assms(3) show "pending (scans p') (actor p')" unfolding park_step_def
  proof
    assume w: "worker_step p p'"
    note f = worker_step_frame [OF w]
    have "pending (scans p) (actor p)" using assms(2) h f asleep_worker_step [OF w] by (auto simp: injector_ok_def)
    then have "pending (scans p') (actor p)" using asleep_worker_step [OF w] h by (blast intro: pending_mono scans_mono)
    then show ?thesis using f by simp
  next
    assume a: "actor_step p p'"
    have mono: "scans p x \<Longrightarrow> scans p' x" for x using asleep_actor_step [OF a] by (rule scans_mono)
    have old: "pending (scans p') (actor p)" if "inj_count p' = inj_count p" "nw p' = nw p"
      using assms(2) h that asleep_actor_step [OF a] by (auto simp: injector_ok_def intro: pending_mono [OF _ mono])
    from a show ?thesis
    proof cases
      case (goes_on i)
      note f = actor_next_frame [OF goes_on]
      show ?thesis
      proof (cases "actor p i = Publish")
        case True
        then have "actor p' i = Scan 0" using goes_on by (auto simp: actor_next_def)
        then show ?thesis by (subst actor_next_upd [OF goes_on]) (auto simp: scans_def)
      next
        case False
        then have "inj_count p' = inj_count p" using goes_on by (auto simp: actor_next_def split: actor_pc.splits if_splits)
        then have "pending (scans p) (actor p)"
          using assms(2) h f asleep_actor_step [OF a] by (auto simp: injector_ok_def)
        then obtain j where j: "scans p (actor p j)" by (auto simp: pending_def)
        then show ?thesis
        proof (cases "j = i")
          case True
          with scan_persists [OF assms(1) goes_on] j h f show ?thesis by (auto simp: pending_def)
        next
          case False
          then have "actor p' j = actor p j" by (subst actor_next_upd [OF goes_on]) simp
          with mono [OF j] show ?thesis unfolding pending_def by metis
        qed
      qed
    next
      case (wakes i w c)
      then show ?thesis by (auto simp: park_defs scans_def signals_def)
    next
      case (spawns i d)
      show ?thesis
      proof (cases d)
        case True
        with spawns show ?thesis by (auto simp: park_defs scans_def)
      next
        case False
        with spawns old have "pending (scans p') (actor p)" by (simp add: park_defs)
        with spawns False show ?thesis by (auto simp: park_defs scans_def signals_def intro!: pending_keep)
      qed
    next
      case (ends_cr i)
      with old have "pending (scans p') (actor p)" by (simp add: park_defs)
      with ends_cr show ?thesis by (auto simp: park_defs scans_def signals_def intro!: pending_keep)
    next
      case submits
      with old show ?thesis by simp
    next
      case (ends_task i)
      with old have "pending (scans p') (actor p)" by (simp add: park_defs)
      with ends_task show ?thesis by (auto simp: park_defs scans_def signals_def intro!: pending_keep)
    next
      case (shuts_down i)
      with old have "pending (scans p') (actor p)" by (simp add: park_defs)
      with shuts_down show ?thesis by (auto simp: park_defs scans_def signals_def intro!: pending_keep)
    qed
  qed
qed

lemma stop_step:
  assumes "stop_ok p" and "park_step p p'"
  shows "stop_ok p'"
  using assms(2) unfolding park_step_def
proof
  assume "actor_step p p'"
  then show ?thesis
  proof cases
    case (goes_on i)
    note f = actor_next_frame [OF goes_on]
    show ?thesis unfolding stop_ok_def
    proof (intro allI impI)
      fix w assume w: "stop_flag p' \<and> 0 < w \<and> w < nw p' \<and> past_stop (w_pc p' w) \<and> w_fd p' w = 0"
      with assms(1) f have "pending (kicks w) (actor p)" by (auto simp: stop_ok_def)
      moreover have "kicks w (actor p' i)" if now: "kicks w (actor p i)"
      proof -
        obtain k where k: "k \<le> w" "actor p i = Kick k" using now by (auto simp: kicks_def)
        have "k < nw p" using k(1) w f by simp
        with goes_on k(2) have e: "p' = set_actor i (Kick (k + 1)) (p\<lparr>w_fd := (w_fd p)(k := w_fd p k + 1)\<rparr>)"
          by (simp add: actor_next_def)
        have "k \<noteq> w" using w by (auto simp: e)
        moreover have "actor p' i = Kick (k + 1)" by (simp add: e)
        ultimately show ?thesis using k(1) by (simp add: kicks_def)
      qed
      ultimately show "pending (kicks w) (actor p')" by (subst actor_next_upd [OF goes_on]) (rule pending_upd)
    qed
  next
    case (shuts_down i)
    then show ?thesis by (auto simp: stop_ok_def kicks_def intro!: pending_new)
  qed (use assms(1) in \<open>auto simp: stop_ok_def kicks_def park_defs intro!: pending_keep split: if_splits\<close>)
next
  assume "worker_step p p'"
  then show ?thesis using assms(1)
    by cases (auto simp: stop_ok_def worker_next_def park_defs past_stop_def split: worker_pc.splits if_splits)
qed

lemma complete_step:
  assumes "flags_ok p" and "inbox_ok p" and "first_ok p" and "complete_ok p" and "park_step p p'"
  shows "complete_ok p'"
  using assms(5) unfolding park_step_def
proof
  assume "actor_step p p'"
  then show ?thesis
  proof cases
    case (goes_on i)
    note f = actor_next_frame [OF goes_on]
    show ?thesis unfolding complete_ok_def
    proof
      assume h: "w_pc p' 0 = Waiting \<and> w_fd p' 0 = 0 \<and> \<not> w_timers p' 0 \<and> active_crs p' = 0 \<and> work p' = 0"
      with f assms(1,4) have a: "pending scans0 (actor p)" "w_parked p 0" "0 < nw p" by (auto simp: complete_ok_def flags_ok_def)
      have "scans0 (actor p' i)" if "scans0 (actor p i)"
        using that signal_persists [OF goes_on a(2)] h goes_on a(2,3)
        by (auto simp: scans0_def actor_next_def signals_def)
      with a(1) show "pending scans0 (actor p')" by (subst actor_next_upd [OF goes_on]) (rule pending_upd)
    qed
  qed (use assms(4) in \<open>auto simp: complete_ok_def scans0_def signals_def park_defs split: if_splits\<close>)
next
  assume w: "worker_step p p'"
  have i: "pending scans0 (actor p)" if "w_pc p 0 = RcInbox" "w_inbox p 0 \<noteq> []" "w_fd p 0 = 0"
    using assms(2) that by (auto simp: inbox_ok_def past_inbox_def scans0_def elim!: pending_mono)
  have j: "pending scans0 (actor p)" if "w_pc p 0 = RcInj" "0 < inj_count p" "w_fd p 0 = 0"
    using assms(3) that by (auto simp: first_ok_def asleep_def past_inj_def)
  from w show ?thesis
  proof cases
    case (proceeds w)
    then show ?thesis
    proof (cases "w = 0")
      case True
      with proceeds assms(4) i j show ?thesis
        by (auto simp: complete_ok_def worker_next_def park_defs split: worker_pc.splits if_splits)
    next
      case False
      with proceeds assms(4) show ?thesis by (auto simp: complete_ok_def worker_next_def park_defs split: worker_pc.splits if_splits)
    qed
  qed (use assms(4) in \<open>auto simp: complete_ok_def park_defs\<close>)
qed

interpretation parkm: machine park_init park_step park_inv
proof
  fix p assume "park_init p"
  then show "park_inv p"
    by (auto simp: park_inv_def park_init_def flags_ok_def inbox_ok_def injector_ok_def first_ok_def stop_ok_def complete_ok_def
        signals_def asleep_def past_inbox_def past_inj_def past_stop_def)
next
  fix p p' assume "park_inv p" "park_step p p'"
  then show "park_inv p'"
    unfolding park_inv_def by (blast intro: flags_step inbox_step injector_step first_step stop_step complete_step)
qed


section \<open>No wake-up is lost\<close>

text \<open>A worker that nothing but a wake-up still to come, I/O or a timer gets out of its wait.\<close>

definition blocked :: "park \<Rightarrow> nat \<Rightarrow> bool" where
  "blocked p w \<longleftrightarrow> w_pc p w = Waiting \<and> w_fd p w = 0"

lemma blocked_past: "blocked p w \<Longrightarrow> past_inbox (w_pc p w) \<and> past_stop (w_pc p w) \<and> asleep p w \<and> w_fd p w = 0"
  by (simp add: blocked_def past_inbox_def past_stop_def asleep_def past_inj_def)

text \<open>C5. The park protocol loses no wake-up. For any number of workers and threads and in every interleaving of their
  atomic accesses, once no thread is in the middle of a wake-up: a worker that blocks in its backend has an empty
  inbox; if all workers block, no spawned coroutine is left in the injector; after \<open>suspenders_shutdown\<close> has set the
  stop flag no helper blocks; and worker 0 does not block while the run is complete.\<close>

theorem park_loses_no_wakeup:
  assumes "reach park_init park_step p" and "\<forall>i. actor p i = Idle"
  shows "(\<forall>w. blocked p w \<longrightarrow> w_inbox p w = []) \<and>
    ((\<forall>w < nw p. blocked p w) \<longrightarrow> inj_count p = 0) \<and>
    (stop_flag p \<longrightarrow> (\<forall>w. 0 < w \<and> w < nw p \<longrightarrow> \<not> blocked p w)) \<and>
    (blocked p 0 \<longrightarrow> active_crs p > 0 \<or> work p > 0 \<or> w_timers p 0)"
proof -
  note inv = parkm.reach_inv [OF assms(1), unfolded park_inv_def]
  have none: "\<not> pending (signals w) (actor p)" "\<not> pending (scans p) (actor p)" "\<not> pending scans0 (actor p)"
    "\<not> pending (kicks w) (actor p)" for w
    using assms(2) by (simp_all add: pending_def signals_def scans_def scans0_def kicks_def)
  have "\<forall>w. blocked p w \<longrightarrow> w_inbox p w = []" using inv none(1) blocked_past [of p] unfolding inbox_ok_def by blast
  moreover have "(\<forall>w < nw p. blocked p w) \<longrightarrow> inj_count p = 0" using inv none(2) blocked_past by (auto simp: injector_ok_def)
  moreover have "stop_flag p \<longrightarrow> (\<forall>w. 0 < w \<and> w < nw p \<longrightarrow> \<not> blocked p w)"
    using inv none(4) blocked_past [of p] unfolding stop_ok_def by blast
  moreover have "blocked p 0 \<longrightarrow> active_crs p > 0 \<or> work p > 0 \<or> w_timers p 0"
    using inv none(3) by (auto simp: complete_ok_def blocked_def)
  ultimately show ?thesis by blast
qed

text \<open>A run of two workers: both park, and a coroutine for worker 1 is pushed while it is between its load of the
  inbox and its wait. The wake descriptor brings it back.\<close>

definition two_workers :: park where
  "two_workers = \<lparr>nw = 2, w_inbox = (\<lambda>_. []), w_parked = (\<lambda>_. False), w_fd = (\<lambda>_. 0), w_timers = (\<lambda>_. False), w_pc = (\<lambda>_. Loop),
     inj_count = 0, active_crs = 0, work = 0, stop_flag = False, actor = (\<lambda>_. Idle)\<rparr>"

definition worker_go :: "nat \<Rightarrow> park \<Rightarrow> park" where
  "worker_go w p = the (worker_next w p)"

definition actor_go :: "nat \<Rightarrow> park \<Rightarrow> park" where
  "actor_go i p = the (actor_next i p)"

definition race_end :: park where
  "race_end = actor_go 7 (worker_go 1 (actor_go 7 (worker_go 1 (begin_wake 7 1 42 (worker_go 1 (park_begin 1 two_workers))))))"

lemma race_pushed: "reach park_init park_step (begin_wake 7 1 42 (worker_go 1 (park_begin 1 two_workers)))"
proof -
  have "reach park_init park_step two_workers" by (rule reach_init) (simp add: park_init_def two_workers_def)
  moreover have "park_step two_workers (park_begin 1 two_workers)"
    unfolding park_step_def by (intro disjI2 worker_step.parks) (simp_all add: two_workers_def)
  moreover have "park_step (park_begin 1 two_workers) (worker_go 1 (park_begin 1 two_workers))"
    unfolding park_step_def worker_go_def
    by (intro disjI2 worker_step.proceeds [of 1]) (simp_all add: two_workers_def park_begin_def worker_next_def)
  moreover have "park_step (worker_go 1 (park_begin 1 two_workers)) (begin_wake 7 1 42 (worker_go 1 (park_begin 1 two_workers)))"
    unfolding park_step_def worker_go_def
    by (intro disjI1 actor_step.wakes) (simp_all add: two_workers_def park_begin_def worker_next_def)
  ultimately show ?thesis by (blast intro: reach_step)
qed

lemma go_reach:
  "reach park_init park_step p \<Longrightarrow> w < nw p \<Longrightarrow> worker_next w p \<noteq> None \<Longrightarrow> reach park_init park_step (worker_go w p)"
  "reach park_init park_step p \<Longrightarrow> actor_next i p \<noteq> None \<Longrightarrow> reach park_init park_step (actor_go i p)"
  unfolding worker_go_def actor_go_def
  by (erule reach_step, auto simp: park_step_def intro: worker_step.proceeds actor_step.goes_on)+

lemmas race_defs = race_end_def worker_go_def actor_go_def worker_next_def actor_next_def begin_wake_def park_begin_def two_workers_def

theorem park_loses_no_wakeup_witness:
  "\<not> blocked race_end 1 \<and> w_inbox race_end 1 = [42]"
proof -
  have "reach park_init park_step race_end"
    unfolding race_end_def by (intro go_reach race_pushed) (simp_all add: race_defs)
  moreover have "\<forall>i. actor race_end i = Idle" by (simp add: race_defs)
  ultimately have "blocked race_end 1 \<longrightarrow> w_inbox race_end 1 = []" using park_loses_no_wakeup by blast
  moreover have "w_inbox race_end 1 = [42]" by (simp add: race_defs)
  ultimately show ?thesis by simp
qed

end
