(* ===== verification/Facade_Handles.thy ===== *)
theory Facade_Handles
  imports Buf Hose Ticket_Lock
begin

text \<open>
  The owning handles of the C++ facade (\<open>suspenders.hpp\<close>): \<open>Timer\<close>, \<open>TicketLock::Guard\<close>, \<open>Channel\<close>, \<open>Hose\<close>, \<open>Buffer\<close>,
  \<open>Queue\<close> and \<open>Pool\<close>, each with its move constructor, its move assignment and its destructor, and the methods
  that let go of the object early (\<open>Timer::cancel\<close>, \<open>Hose::close\<close>).

  A program is a sequence of steps on variables that hold handles. The locale \<open>raii\<close> states what the special
  members of a class promise, and shows from it that every native object is owned by one handle and released
  exactly once; it is interpreted on the handles of the facade.
\<close>

section \<open>Native objects and handles\<close>

text \<open>What a handle can own: the object a C function made, a callable in the free store, a ticket lock that is
  held, an open descriptor, a block of memory.\<close>

datatype native = NTimer nat | NFunction nat | NLocked nat | NChan nat | NDescriptor int | NBlock nat | NQueue nat | NPool nat

record cxx_Timer =
  tm_t :: "nat option"
  tm_arg :: "nat option"

record cxx_Guard =
  gd_lock :: "nat option"

record cxx_Channel =
  cn_ch :: "nat option"

record cxx_Hose =
  hs_hose :: hose
  hs_valid :: bool

text \<open>The block \<open>buf_.data\<close> points to, and the buffer.\<close>

record cxx_Buffer =
  bf_block :: "nat option"
  bf_buf :: buf

record cxx_Queue =
  qu_q :: "nat option"
  qu_owned :: bool

record cxx_Pool =
  pl_pool :: "nat option"

text \<open>The releases a call of a C function or of \<open>delete\<close> amounts to.\<close>

abbreviation if_some :: "('a \<Rightarrow> native) \<Rightarrow> 'a option \<Rightarrow> native list" where
  "if_some f x \<equiv> (case x of None \<Rightarrow> [] | Some a \<Rightarrow> [f a])"

section \<open>Special members, class by class\<close>

text \<open>A move constructor gives the new object and what it leaves of the old one; an assignment gives the
  releases, the target and the source afterwards. Its flag tells that both are the same object.\<close>

subsection \<open>Timer\<close>

definition Timer_cancel :: "cxx_Timer \<Rightarrow> native list \<times> cxx_Timer" where
  "Timer_cancel h = (if_some NTimer (tm_t h) @ if_some NFunction (tm_arg h), h\<lparr>tm_t := None, tm_arg := None\<rparr>)"

definition Timer_move :: "cxx_Timer \<Rightarrow> cxx_Timer \<times> cxx_Timer" where
  "Timer_move other = (\<lparr>tm_t = tm_t other, tm_arg = tm_arg other\<rparr>, other\<lparr>tm_t := None, tm_arg := None\<rparr>)"

definition Timer_assign :: "bool \<Rightarrow> cxx_Timer \<Rightarrow> cxx_Timer \<Rightarrow> native list \<times> cxx_Timer \<times> cxx_Timer" where
  "Timer_assign same this other =
     (if \<not> same then
        (let (ns, this1) = Timer_cancel this
         in (ns, this1\<lparr>tm_t := tm_t other, tm_arg := tm_arg other\<rparr>, other\<lparr>tm_t := None, tm_arg := None\<rparr>))
      else ([], this, other))"

definition Timer_dtor :: "cxx_Timer \<Rightarrow> native list" where
  "Timer_dtor h = fst (Timer_cancel h)"

subsection \<open>TicketLock::Guard\<close>

text \<open>\<open>TicketLock::lock\<close> and \<open>unlock\<close> are the steps of \<open>Ticket_Lock\<close>; the constructor of a guard returns once the lock
  is held.\<close>

definition TicketLock_ctor :: ticket_lock where
  "TicketLock_ctor = suspenders_ticket_init"

definition Guard_ctor :: "nat \<Rightarrow> cxx_Guard" where
  "Guard_ctor l = \<lparr>gd_lock = Some l\<rparr>"

definition Guard_move :: "cxx_Guard \<Rightarrow> cxx_Guard \<times> cxx_Guard" where
  "Guard_move other = (\<lparr>gd_lock = gd_lock other\<rparr>, other\<lparr>gd_lock := None\<rparr>)"

definition Guard_dtor :: "cxx_Guard \<Rightarrow> native list" where
  "Guard_dtor h = if_some NLocked (gd_lock h)"

definition Guard_assign :: "bool \<Rightarrow> cxx_Guard \<Rightarrow> cxx_Guard \<Rightarrow> native list \<times> cxx_Guard \<times> cxx_Guard" where
  "Guard_assign same this other =
     (if \<not> same then (if_some NLocked (gd_lock this), this\<lparr>gd_lock := gd_lock other\<rparr>, other\<lparr>gd_lock := None\<rparr>)
      else ([], this, other))"

subsection \<open>Channel\<close>

definition Channel_dtor :: "cxx_Channel \<Rightarrow> native list" where
  "Channel_dtor h = if_some NChan (cn_ch h)"

definition Channel_move :: "cxx_Channel \<Rightarrow> cxx_Channel \<times> cxx_Channel" where
  "Channel_move other = (\<lparr>cn_ch = cn_ch other\<rparr>, other\<lparr>cn_ch := None\<rparr>)"

definition Channel_assign :: "bool \<Rightarrow> cxx_Channel \<Rightarrow> cxx_Channel \<Rightarrow> native list \<times> cxx_Channel \<times> cxx_Channel" where
  "Channel_assign same this other =
     (if \<not> same then (if_some NChan (cn_ch this), this\<lparr>cn_ch := cn_ch other\<rparr>, other\<lparr>cn_ch := None\<rparr>)
      else ([], this, other))"

subsection \<open>Hose\<close>

text \<open>What \<open>suspenders_hose_close\<close> closes, and the hose afterwards: the standard streams of the terminal transport (at
  address 3 of the table of transports) are borrowed.\<close>

definition close_native :: "hose \<Rightarrow> native list \<times> hose" where
  "close_native d =
     (if h_fd d \<noteq> -1 \<and> h_transport d \<noteq> Some 3 then [NDescriptor (h_fd d)] else [], d\<lparr>h_fd := -1, roles := 0\<rparr>)"

definition Hose_ctor :: "nat option \<Rightarrow> cxx_Hose" where
  "Hose_ctor b = \<lparr>hs_hose = (suspenders_hose_init None)\<lparr>h_buffer := b\<rparr>, hs_valid = True\<rparr>"

definition Hose_dtor :: "cxx_Hose \<Rightarrow> native list" where
  "Hose_dtor h = (if hs_valid h then fst (close_native (hs_hose h)) else [])"

definition Hose_move :: "cxx_Hose \<Rightarrow> cxx_Hose \<times> cxx_Hose" where
  "Hose_move other =
     (\<lparr>hs_hose = hs_hose other, hs_valid = hs_valid other\<rparr>, other\<lparr>hs_valid := False, hs_hose := (hs_hose other)\<lparr>h_fd := -1\<rparr>\<rparr>)"

definition Hose_assign :: "bool \<Rightarrow> cxx_Hose \<Rightarrow> cxx_Hose \<Rightarrow> native list \<times> cxx_Hose \<times> cxx_Hose" where
  "Hose_assign same this other =
     (if \<not> same then
        (if hs_valid this then fst (close_native (hs_hose this)) else [],
         this\<lparr>hs_hose := hs_hose other, hs_valid := hs_valid other\<rparr>,
         other\<lparr>hs_valid := False, hs_hose := (hs_hose other)\<lparr>h_fd := -1\<rparr>\<rparr>)
      else ([], this, other))"

definition Hose_close :: "cxx_Hose \<Rightarrow> native list \<times> cxx_Hose" where
  "Hose_close h =
     (if hs_valid h then (fst (close_native (hs_hose h)), h\<lparr>hs_hose := snd (close_native (hs_hose h)), hs_valid := False\<rparr>)
      else ([], h))"

subsection \<open>Buffer\<close>

definition Buffer_dtor :: "cxx_Buffer \<Rightarrow> native list" where
  "Buffer_dtor h = if_some NBlock (bf_block h)"

definition Buffer_move :: "cxx_Buffer \<Rightarrow> cxx_Buffer \<times> cxx_Buffer" where
  "Buffer_move other =
     (\<lparr>bf_block = bf_block other, bf_buf = bf_buf other\<rparr>,
      other\<lparr>bf_block := None, bf_buf := (bf_buf other)\<lparr>b_data := None, b_len := 0, b_cap := 0\<rparr>\<rparr>)"

definition Buffer_assign :: "bool \<Rightarrow> cxx_Buffer \<Rightarrow> cxx_Buffer \<Rightarrow> native list \<times> cxx_Buffer \<times> cxx_Buffer" where
  "Buffer_assign same this other =
     (if \<not> same then
        (if_some NBlock (bf_block this), this\<lparr>bf_block := bf_block other, bf_buf := bf_buf other\<rparr>,
         other\<lparr>bf_block := None, bf_buf := (bf_buf other)\<lparr>b_data := None, b_len := 0, b_cap := 0\<rparr>\<rparr>)
      else ([], this, other))"

subsection \<open>Queue and Pool\<close>

text \<open>A handle of a global queue does not own it.\<close>

definition Queue_dtor :: "cxx_Queue \<Rightarrow> native list" where
  "Queue_dtor h = (if qu_owned h then if_some NQueue (qu_q h) else [])"

definition Queue_move :: "cxx_Queue \<Rightarrow> cxx_Queue \<times> cxx_Queue" where
  "Queue_move other = (\<lparr>qu_q = qu_q other, qu_owned = qu_owned other\<rparr>, other\<lparr>qu_q := None, qu_owned := False\<rparr>)"

definition Queue_assign :: "bool \<Rightarrow> cxx_Queue \<Rightarrow> cxx_Queue \<Rightarrow> native list \<times> cxx_Queue \<times> cxx_Queue" where
  "Queue_assign same this other =
     (if \<not> same then
        (if qu_owned this then if_some NQueue (qu_q this) else [],
         this\<lparr>qu_q := qu_q other, qu_owned := qu_owned other\<rparr>, other\<lparr>qu_q := None, qu_owned := False\<rparr>)
      else ([], this, other))"

definition Pool_dtor :: "cxx_Pool \<Rightarrow> native list" where
  "Pool_dtor h = if_some NPool (pl_pool h)"

definition Pool_move :: "cxx_Pool \<Rightarrow> cxx_Pool \<times> cxx_Pool" where
  "Pool_move other = (\<lparr>pl_pool = pl_pool other\<rparr>, other\<lparr>pl_pool := None\<rparr>)"

definition Pool_assign :: "bool \<Rightarrow> cxx_Pool \<Rightarrow> cxx_Pool \<Rightarrow> native list \<times> cxx_Pool \<times> cxx_Pool" where
  "Pool_assign same this other =
     (if \<not> same then (if_some NPool (pl_pool this), this\<lparr>pl_pool := pl_pool other\<rparr>, other\<lparr>pl_pool := None\<rparr>)
      else ([], this, other))"

section \<open>Programs over handles\<close>

record ('h, 'n) handle_ops =
  op_own :: "'h \<Rightarrow> 'n list"
  op_move :: "'h \<Rightarrow> 'h \<times> 'h"
  op_assign :: "bool \<Rightarrow> 'h \<Rightarrow> 'h \<Rightarrow> 'n list \<times> 'h \<times> 'h"
  op_dtor :: "'h \<Rightarrow> 'n list"
  op_reset :: "'h \<Rightarrow> ('n list \<times> 'h) option"
  op_class :: "'h \<Rightarrow> nat"

text \<open>The variables of a program (\<open>None\<close> when their scope has ended), the objects acquired and the objects
  released, in order.\<close>

record ('h, 'n) scope =
  sc_vars :: "'h option list"
  sc_acquired :: "'n list"
  sc_released :: "'n list"

text \<open>A handle is constructed with objects that are new; it is moved into a new variable, assigned to a variable
  of its class (possibly itself), destroyed at the end of its scope, reset by the method its class may have, and
  a method replaces what a handle owns, if anything, by new objects: \<open>accept\<close> into a hose, \<open>dial\<close> and \<open>listen\<close> of a
  hose without a descriptor, growth of a buffer.\<close>

inductive scope_step :: "('h, 'n) handle_ops \<Rightarrow> ('h, 'n) scope \<Rightarrow> ('h, 'n) scope \<Rightarrow> bool" for ops :: "('h, 'n) handle_ops" where
  sc_construct: "distinct (op_own ops h) \<Longrightarrow> set (op_own ops h) \<inter> set (sc_acquired s) = {} \<Longrightarrow>
     scope_step ops s (s\<lparr>sc_vars := sc_vars s @ [Some h], sc_acquired := sc_acquired s @ op_own ops h\<rparr>)"
| sc_move: "v < length (sc_vars s) \<Longrightarrow> sc_vars s ! v = Some h \<Longrightarrow> op_move ops h = (new, old) \<Longrightarrow>
     scope_step ops s (s\<lparr>sc_vars := (sc_vars s)[v := Some old] @ [Some new]\<rparr>)"
| sc_assign: "v < length (sc_vars s) \<Longrightarrow> w < length (sc_vars s) \<Longrightarrow> sc_vars s ! v = Some x \<Longrightarrow> sc_vars s ! w = Some y \<Longrightarrow>
     op_class ops x = op_class ops y \<Longrightarrow> op_assign ops (v = w) x y = (ns, x', y') \<Longrightarrow>
     scope_step ops s (s\<lparr>sc_vars := (sc_vars s)[w := Some y', v := Some x'], sc_released := sc_released s @ ns\<rparr>)"
| sc_destroy: "v < length (sc_vars s) \<Longrightarrow> sc_vars s ! v = Some h \<Longrightarrow>
     scope_step ops s (s\<lparr>sc_vars := (sc_vars s)[v := None], sc_released := sc_released s @ op_dtor ops h\<rparr>)"
| sc_reset: "v < length (sc_vars s) \<Longrightarrow> sc_vars s ! v = Some h \<Longrightarrow> op_reset ops h = Some (ns, h') \<Longrightarrow>
     scope_step ops s (s\<lparr>sc_vars := (sc_vars s)[v := Some h'], sc_released := sc_released s @ ns\<rparr>)"
| sc_renew: "v < length (sc_vars s) \<Longrightarrow> sc_vars s ! v = Some h \<Longrightarrow> op_class ops h' = op_class ops h \<Longrightarrow>
     distinct (op_own ops h') \<Longrightarrow> set (op_own ops h') \<inter> set (sc_acquired s) = {} \<Longrightarrow>
     scope_step ops s (s\<lparr>sc_vars := (sc_vars s)[v := Some h'], sc_acquired := sc_acquired s @ op_own ops h',
       sc_released := sc_released s @ op_own ops h\<rparr>)"

definition sc_init :: "('h, 'n) scope \<Rightarrow> bool" where
  "sc_init s \<longleftrightarrow> sc_vars s = [] \<and> sc_acquired s = [] \<and> sc_released s = []"

definition var_owns :: "('h, 'n) handle_ops \<Rightarrow> 'h option \<Rightarrow> 'n multiset" where
  "var_owns ops x = (case x of None \<Rightarrow> {#} | Some h \<Rightarrow> mset (op_own ops h))"

text \<open>What has been acquired is owned by a variable or has been released.\<close>

definition sc_inv :: "('h, 'n) handle_ops \<Rightarrow> ('h, 'n) scope \<Rightarrow> bool" where
  "sc_inv ops s \<longleftrightarrow> distinct (sc_acquired s) \<and> sum_list (map (var_owns ops) (sc_vars s)) + mset (sc_released s) = mset (sc_acquired s)"

lemma count_mset_le_one_distinct: "(\<And>n. count (mset xs) n \<le> Suc 0) \<Longrightarrow> distinct xs"
proof (induction xs)
  case (Cons x xs)
  have "count (mset xs) n \<le> Suc 0" for n
    using Cons.prems [of n] by (metis count_add_mset Suc_leD mset.simps(2) nat_le_linear le_trans)
  moreover have "x \<notin> set xs" using Cons.prems [of x] by (simp add: count_eq_zero_iff)
  ultimately show ?case using Cons.IH by simp
qed simp

text \<open>What the special members promise: a move and an assignment hand everything over and leave nothing behind, the
  assignment and the destructor release what the target owned, an assignment to itself changes nothing.\<close>

locale raii =
  fixes ops :: "('h, 'n) handle_ops"
  assumes move_law: "op_move ops h = (new, old) \<Longrightarrow> op_own ops new = op_own ops h \<and> op_own ops old = []"
    and assign_law: "op_class ops x = op_class ops y \<Longrightarrow> op_assign ops False x y = (ns, x', y') \<Longrightarrow>
      ns = op_own ops x \<and> op_own ops x' = op_own ops y \<and> op_own ops y' = []"
    and assign_self: "op_assign ops True x x = ([], x, x)"
    and dtor_law: "op_dtor ops h = op_own ops h"
    and reset_law: "op_reset ops h = Some (ns, h') \<Longrightarrow> ns = op_own ops h \<and> op_own ops h' = []"
begin

lemma set_var:
  "v < length xs \<Longrightarrow> sum_list (map (var_owns ops) (xs[v := x])) + var_owns ops (xs ! v) =
     sum_list (map (var_owns ops) xs) + var_owns ops x"
  by (rule sum_update)

lemma assign_sum:
  assumes "v < length xs" "w < length xs" "xs ! v = Some x" "xs ! w = Some y"
    and "op_class ops x = op_class ops y" "op_assign ops (v = w) x y = (ns, x', y')"
  shows "sum_list (map (var_owns ops) (xs[w := Some y', v := Some x'])) + mset ns = sum_list (map (var_owns ops) xs)"
proof (cases "v = w")
  case True
  with assms assign_self have "ns = []" "x' = x" "y' = x" by auto
  with True assms show ?thesis by (metis add_0_right list_update_id list_update_overwrite mset.simps(1))
next
  case False
  with assms(6) have e: "op_assign ops False x y = (ns, x', y')" by simp
  note l = assign_law [OF assms(5) e]
  have "sum_list (map (var_owns ops) (xs[w := Some y'])) + mset (op_own ops y) = sum_list (map (var_owns ops) xs)"
    using set_var [OF assms(2), of "Some y'"] assms(4) l by (simp add: var_owns_def)
  moreover have "sum_list (map (var_owns ops) (xs[w := Some y', v := Some x'])) + mset ns =
      sum_list (map (var_owns ops) (xs[w := Some y'])) + mset (op_own ops y)"
    using set_var [of v "xs[w := Some y']" "Some x'"] False assms(1,3) l by (simp add: var_owns_def)
  ultimately show ?thesis by simp
qed

lemma step_inv: "scope_step ops s t \<Longrightarrow> sc_inv ops s \<Longrightarrow> sc_inv ops t"
proof (induction rule: scope_step.induct)
  case (sc_construct h s)
  then show ?case by (auto simp: sc_inv_def var_owns_def ac_simps)
next
  case (sc_move v s h new old)
  then show ?case using set_var [of v "sc_vars s" "Some old"] move_law [of h new old]
    by (simp add: sc_inv_def var_owns_def ac_simps)
next
  case (sc_assign v s w x y ns x' y')
  from assign_sum [OF this(1-6)] this(7) show ?case by (simp add: sc_inv_def) (metis add.assoc add.commute)
next
  case (sc_destroy v s h)
  then show ?case using set_var [of v "sc_vars s" None] by (simp add: sc_inv_def var_owns_def dtor_law ac_simps)
next
  case (sc_reset v s h ns h')
  then show ?case using set_var [of v "sc_vars s" "Some h'"] reset_law [of h ns h'] by (simp add: sc_inv_def var_owns_def ac_simps)
next
  case (sc_renew v s h h')
  then show ?case using set_var [of v "sc_vars s" "Some h'"] by (simp add: sc_inv_def var_owns_def ac_simps)
qed

lemma reach_sc_inv: "reach sc_init (scope_step ops) s \<Longrightarrow> sc_inv ops s"
proof (induction rule: reach.induct)
  case (reach_init s)
  then show ?case by (simp add: sc_init_def sc_inv_def)
qed (rule step_inv)

lemma owned_once:
  assumes "reach sc_init (scope_step ops) s" and v: "v < length (sc_vars s)" "sc_vars s ! v = Some h" and n: "n \<in> set (op_own ops h)"
  shows "n \<notin> set (sc_released s)" and "w < length (sc_vars s) \<Longrightarrow> sc_vars s ! w = Some k \<Longrightarrow> n \<in> set (op_own ops k) \<Longrightarrow> w = v"
proof -
  let ?M = "sum_list (map (var_owns ops) (sc_vars s))" let ?N = "sum_list (map (var_owns ops) ((sc_vars s)[v := None]))"
  have e: "?M + mset (sc_released s) = mset (sc_acquired s)" and d: "distinct (sc_acquired s)"
    using reach_sc_inv [OF assms(1)] by (simp_all add: sc_inv_def)
  have M: "?N + mset (op_own ops h) = ?M" using set_var [OF v(1), of None] v(2) by (simp add: var_owns_def)
  have "count (mset (sc_acquired s)) n \<le> 1" using d by (simp add: distinct_count_atmost_1)
  then have c: "count ?N n + count (mset (op_own ops h)) n + count (mset (sc_released s)) n \<le> 1"
    by (metis M e count_union)
  moreover have "0 < count (mset (op_own ops h)) n" using n by simp
  ultimately have "count (mset (sc_released s)) n = 0" and N: "count ?N n = 0" by linarith+
  then show "n \<notin> set (sc_released s)" by (simp add: count_eq_zero_iff)
  show "w = v" if w: "w < length (sc_vars s)" "sc_vars s ! w = Some k" "n \<in> set (op_own ops k)"
  proof (rule ccontr)
    assume "w \<noteq> v"
    then have "(sc_vars s)[v := None] ! w = Some k" using w by simp
    then have "sum_list (map (var_owns ops) ((sc_vars s)[v := None, w := None])) + mset (op_own ops k) = ?N"
      using set_var [of w "(sc_vars s)[v := None]" None] w(1) by (simp add: var_owns_def)
    then have "n \<in># ?N" using w(3) by (metis union_iff set_mset_mset)
    with N show False by (simp add: count_eq_zero_iff)
  qed
qed

lemma released_once:
  assumes "reach sc_init (scope_step ops) s"
  shows "distinct (sc_released s)" and "\<forall>x \<in> set (sc_vars s). x = None \<Longrightarrow> mset (sc_released s) = mset (sc_acquired s)"
proof -
  have e: "sum_list (map (var_owns ops) (sc_vars s)) + mset (sc_released s) = mset (sc_acquired s)" and d: "distinct (sc_acquired s)"
    using reach_sc_inv [OF assms] by (simp_all add: sc_inv_def)
  have "count (mset (sc_acquired s)) n \<le> 1" for n using d by (simp add: distinct_count_atmost_1)
  then have "count (mset (sc_released s)) n \<le> 1" for n by (metis e count_union le_add2 le_trans)
  then show "distinct (sc_released s)" by (metis One_nat_def count_mset_le_one_distinct)
  have "sum_list (map (var_owns ops) xs) = {#}" if "\<forall>x \<in> set xs. x = None" for xs
    using that by (induction xs) (simp_all add: var_owns_def)
  with e show "\<forall>x \<in> set (sc_vars s). x = None \<Longrightarrow> mset (sc_released s) = mset (sc_acquired s)" by simp
qed

end

section \<open>The handles of the facade\<close>

datatype handle =
  HTimer cxx_Timer | HGuard cxx_Guard | HChannel cxx_Channel | HHose cxx_Hose | HBuffer cxx_Buffer | HQueue cxx_Queue | HPool cxx_Pool

fun handle_class :: "handle \<Rightarrow> nat" where
  "handle_class (HTimer _) = 0" | "handle_class (HGuard _) = 1" | "handle_class (HChannel _) = 2" | "handle_class (HHose _) = 3"
| "handle_class (HBuffer _) = 4" | "handle_class (HQueue _) = 5" | "handle_class (HPool _) = 6"

text \<open>What a handle owns, read off its fields.\<close>

fun handle_own :: "handle \<Rightarrow> native list" where
  "handle_own (HTimer h) = if_some NTimer (tm_t h) @ if_some NFunction (tm_arg h)"
| "handle_own (HGuard h) = if_some NLocked (gd_lock h)"
| "handle_own (HChannel h) = if_some NChan (cn_ch h)"
| "handle_own (HHose h) =
     (if hs_valid h \<and> h_fd (hs_hose h) \<noteq> -1 \<and> h_transport (hs_hose h) \<noteq> Some 3 then [NDescriptor (h_fd (hs_hose h))] else [])"
| "handle_own (HBuffer h) = if_some NBlock (bf_block h)"
| "handle_own (HQueue h) = (if qu_owned h then if_some NQueue (qu_q h) else [])"
| "handle_own (HPool h) = if_some NPool (pl_pool h)"

fun handle_move :: "handle \<Rightarrow> handle \<times> handle" where
  "handle_move (HTimer h) = map_prod HTimer HTimer (Timer_move h)"
| "handle_move (HGuard h) = map_prod HGuard HGuard (Guard_move h)"
| "handle_move (HChannel h) = map_prod HChannel HChannel (Channel_move h)"
| "handle_move (HHose h) = map_prod HHose HHose (Hose_move h)"
| "handle_move (HBuffer h) = map_prod HBuffer HBuffer (Buffer_move h)"
| "handle_move (HQueue h) = map_prod HQueue HQueue (Queue_move h)"
| "handle_move (HPool h) = map_prod HPool HPool (Pool_move h)"

text \<open>Assignments exist within a class only.\<close>

fun handle_assign :: "bool \<Rightarrow> handle \<Rightarrow> handle \<Rightarrow> native list \<times> handle \<times> handle" where
  "handle_assign e (HTimer x) (HTimer y) = map_prod id (map_prod HTimer HTimer) (Timer_assign e x y)"
| "handle_assign e (HGuard x) (HGuard y) = map_prod id (map_prod HGuard HGuard) (Guard_assign e x y)"
| "handle_assign e (HChannel x) (HChannel y) = map_prod id (map_prod HChannel HChannel) (Channel_assign e x y)"
| "handle_assign e (HHose x) (HHose y) = map_prod id (map_prod HHose HHose) (Hose_assign e x y)"
| "handle_assign e (HBuffer x) (HBuffer y) = map_prod id (map_prod HBuffer HBuffer) (Buffer_assign e x y)"
| "handle_assign e (HQueue x) (HQueue y) = map_prod id (map_prod HQueue HQueue) (Queue_assign e x y)"
| "handle_assign e (HPool x) (HPool y) = map_prod id (map_prod HPool HPool) (Pool_assign e x y)"
| "handle_assign e x y = ([], x, y)"

fun handle_dtor :: "handle \<Rightarrow> native list" where
  "handle_dtor (HTimer h) = Timer_dtor h" | "handle_dtor (HGuard h) = Guard_dtor h" | "handle_dtor (HChannel h) = Channel_dtor h"
| "handle_dtor (HHose h) = Hose_dtor h" | "handle_dtor (HBuffer h) = Buffer_dtor h" | "handle_dtor (HQueue h) = Queue_dtor h"
| "handle_dtor (HPool h) = Pool_dtor h"

fun handle_reset :: "handle \<Rightarrow> (native list \<times> handle) option" where
  "handle_reset (HTimer h) = Some (map_prod id HTimer (Timer_cancel h))"
| "handle_reset (HHose h) = Some (map_prod id HHose (Hose_close h))"
| "handle_reset _ = None"

definition facade_ops :: "(handle, native) handle_ops" where
  "facade_ops = \<lparr>op_own = handle_own, op_move = handle_move, op_assign = handle_assign, op_dtor = handle_dtor,
     op_reset = handle_reset, op_class = handle_class\<rparr>"

lemmas member_defs =
  Timer_cancel_def Timer_move_def Timer_assign_def Timer_dtor_def Guard_move_def Guard_assign_def Guard_dtor_def
  Channel_move_def Channel_assign_def Channel_dtor_def close_native_def Hose_move_def Hose_assign_def Hose_dtor_def Hose_close_def
  Buffer_move_def Buffer_assign_def Buffer_dtor_def Queue_move_def Queue_assign_def Queue_dtor_def Pool_move_def Pool_assign_def Pool_dtor_def

lemma close_native_correct:
  assumes "h_transport d \<in> {None, Some 0, Some 1, Some 2, Some 3}" and "suspenders_hose_close (std_ops user) d n = (d', n')"
  shows "d' = snd (close_native d) \<and> fds n' = fds n - {fd. NDescriptor fd \<in> set (fst (close_native d))}"
  using std_close [OF assms] by (auto simp: close_native_def suspenders_close_socket_def)

lemma class_cases:
  assumes "handle_class x = handle_class y"
  obtains a b where "x = HTimer a" "y = HTimer b" | a b where "x = HGuard a" "y = HGuard b" | a b where "x = HChannel a" "y = HChannel b"
    | a b where "x = HHose a" "y = HHose b" | a b where "x = HBuffer a" "y = HBuffer b" | a b where "x = HQueue a" "y = HQueue b"
    | a b where "x = HPool a" "y = HPool b"
  using assms by (cases x; cases y) auto

interpretation facade: raii facade_ops
proof (unfold_locales, goal_cases)
  case (1 h new old)
  then show ?case by (cases h) (auto simp: facade_ops_def member_defs)
next
  case (2 x y ns x' y')
  then have "handle_class x = handle_class y" "handle_assign False x y = (ns, x', y')" by (simp_all add: facade_ops_def)
  then show ?case by (elim class_cases) (auto simp: facade_ops_def member_defs split: if_splits)
next
  case (3 x)
  then show ?case by (cases x) (simp_all add: facade_ops_def member_defs)
next
  case (4 h)
  then show ?case by (cases h) (simp_all add: facade_ops_def member_defs)
next
  case (5 h ns h')
  then show ?case by (cases h) (auto simp: facade_ops_def member_defs split: if_splits)
qed

section \<open>Handles own uniquely\<close>

text \<open>C35. In every program that constructs, moves, assigns (also to themselves), resets and destroys handles of the
  facade, each native object is released at most once and only after its owner has let go of it, no two
  handles own the same object, and when all handles are out of scope everything acquired has been released
  exactly once.\<close>

theorem handles_own_uniquely:
  assumes "reach sc_init (scope_step facade_ops) s"
  shows "distinct (sc_released s) \<and>
    (\<forall>v w h k n. v < length (sc_vars s) \<and> w < length (sc_vars s) \<and> sc_vars s ! v = Some h \<and> sc_vars s ! w = Some k \<and>
       n \<in> set (handle_own h) \<longrightarrow> n \<notin> set (sc_released s) \<and> (n \<in> set (handle_own k) \<longrightarrow> w = v)) \<and>
    ((\<forall>x \<in> set (sc_vars s). x = None) \<longrightarrow> mset (sc_released s) = mset (sc_acquired s))"
proof (intro conjI allI impI)
  have own: "op_own facade_ops = handle_own" by (simp add: facade_ops_def)
  show "distinct (sc_released s)" by (rule facade.released_once(1) [OF assms])
  show "mset (sc_released s) = mset (sc_acquired s)" if "\<forall>x \<in> set (sc_vars s). x = None" by (rule facade.released_once(2) [OF assms that])
  fix v w h k n
  assume a: "v < length (sc_vars s) \<and> w < length (sc_vars s) \<and> sc_vars s ! v = Some h \<and> sc_vars s ! w = Some k \<and> n \<in> set (handle_own h)"
  then show "n \<notin> set (sc_released s)" using facade.owned_once(1) [OF assms, unfolded own] by blast
  show "w = v" if "n \<in> set (handle_own k)" using facade.owned_once(2) [OF assms, unfolded own] a that by blast
qed

text \<open>Two channel handles: one is moved, its new place assigned from the other, and all go out of scope.\<close>

definition hd_state :: "nat option option list \<Rightarrow> native list \<Rightarrow> native list \<Rightarrow> (handle, native) scope" where
  "hd_state vs acq rel = \<lparr>sc_vars = map (map_option (\<lambda>c. HChannel \<lparr>cn_ch = c\<rparr>)) vs, sc_acquired = acq, sc_released = rel\<rparr>"

lemma hd_run: "reach sc_init (scope_step facade_ops) (hd_state [None, None, None] [NChan 7, NChan 8] [NChan 7, NChan 8])"
proof -
  let ?R = "reach sc_init (scope_step facade_ops)"
  have 0: "?R (hd_state [] [] [])" by (rule reach_init) (simp add: sc_init_def hd_state_def)
  have 1: "?R (hd_state [Some (Some 7)] [NChan 7] [])"
    using reach_step [OF 0 sc_construct, of "HChannel \<lparr>cn_ch = Some 7\<rparr>"] by (simp add: hd_state_def facade_ops_def)
  have 2: "?R (hd_state [Some None, Some (Some 7)] [NChan 7] [])"
    using reach_step [OF 1 sc_move, of 0] by (simp add: hd_state_def facade_ops_def Channel_move_def)
  have 3: "?R (hd_state [Some None, Some (Some 7), Some (Some 8)] [NChan 7, NChan 8] [])"
    using reach_step [OF 2 sc_construct, of "HChannel \<lparr>cn_ch = Some 8\<rparr>"] by (simp add: hd_state_def facade_ops_def)
  have 4: "?R (hd_state [Some None, Some (Some 8), Some None] [NChan 7, NChan 8] [NChan 7])"
    using reach_step [OF 3 sc_assign, of 1 2] by (simp add: hd_state_def facade_ops_def Channel_assign_def)
  have 5: "?R (hd_state [None, Some (Some 8), Some None] [NChan 7, NChan 8] [NChan 7])"
    using reach_step [OF 4 sc_destroy, of 0] by (simp add: hd_state_def facade_ops_def Channel_dtor_def)
  have 6: "?R (hd_state [None, None, Some None] [NChan 7, NChan 8] [NChan 7, NChan 8])"
    using reach_step [OF 5 sc_destroy, of 1] by (simp add: hd_state_def facade_ops_def Channel_dtor_def)
  show ?thesis using reach_step [OF 6 sc_destroy, of 2] by (simp add: hd_state_def facade_ops_def Channel_dtor_def)
qed

theorem handles_own_uniquely_witness:
  "mset (sc_released (hd_state [None, None, None] [NChan 7, NChan 8] [NChan 7, NChan 8])) = {#NChan 7, NChan 8#}"
  using handles_own_uniquely [OF hd_run] by (simp add: hd_state_def)

end
