(* ===== verification/Facade.thy ===== *)
theory Facade
  imports Facade_Handles Select Sync
begin

text \<open>
  The methods of the C++ facade (\<open>suspenders.hpp\<close>) over channels, synchronization primitives, hoses and buffers: each
  checks that its handle is valid and calls the C function. Shown: a value sent through a typed channel comes out
  as it was, a handle that has been moved from is inert, accepting into a hose closes what it held, and appending
  ranges to a buffer.
\<close>

section \<open>Channel\<close>

text \<open>\<open>sizeof(T)\<close> is \<open>es\<close>; the constructor throws (\<open>None\<close>) when no channel can be made.\<close>

definition Channel_ctor ::
    "(u64 \<Rightarrow> (nat \<times> bytes) option) \<Rightarrow> u64 \<Rightarrow> u64 \<Rightarrow> u64 \<Rightarrow> rt \<Rightarrow> cxx_Channel option \<times> rt" where
  "Channel_ctor heap_alloc hdr es bs s =
     (case suspenders_chan_create heap_alloc hdr es bs s of
        (None, s1) \<Rightarrow> (None, s1)
      | (Some c, s1) \<Rightarrow> (Some \<lparr>cn_ch = Some c\<rparr>, s1))"

text \<open>The methods that return a status: \<open>SUSPENDERS_INVAL\<close> for an empty handle. (The result is \<open>None\<close> while the
  caller is parked.)\<close>

definition on_chan :: "(nat option \<Rightarrow> rt \<Rightarrow> int option \<times> rt) \<Rightarrow> cxx_Channel \<Rightarrow> rt \<Rightarrow> int option \<times> rt" where
  "on_chan f h s = (case cn_ch h of None \<Rightarrow> (Some SUSPENDERS_INVAL, s) | Some c \<Rightarrow> f (Some c) s)"

definition Channel_send_status :: "cxx_Channel \<Rightarrow> ptr \<Rightarrow> rt \<Rightarrow> int option \<times> rt" where
  "Channel_send_status h v = on_chan (\<lambda>c. suspenders_chan_send c v) h"
definition Channel_recv_status :: "cxx_Channel \<Rightarrow> ptr \<Rightarrow> rt \<Rightarrow> int option \<times> rt" where
  "Channel_recv_status h v = on_chan (\<lambda>c. suspenders_chan_recv c v) h"
definition Channel_try_send :: "cxx_Channel \<Rightarrow> ptr \<Rightarrow> rt \<Rightarrow> int option \<times> rt" where
  "Channel_try_send h v = on_chan (\<lambda>c. suspenders_chan_try_send c v) h"
definition Channel_try_recv :: "cxx_Channel \<Rightarrow> ptr \<Rightarrow> rt \<Rightarrow> int option \<times> rt" where
  "Channel_try_recv h v = on_chan (\<lambda>c. suspenders_chan_try_recv c v) h"
definition Channel_send_dl :: "cxx_Channel \<Rightarrow> ptr \<Rightarrow> u64 \<Rightarrow> rt \<Rightarrow> int option \<times> rt" where
  "Channel_send_dl h v dl = on_chan (\<lambda>c. suspenders_chan_send_dl c v dl) h"
definition Channel_recv_dl :: "cxx_Channel \<Rightarrow> ptr \<Rightarrow> u64 \<Rightarrow> rt \<Rightarrow> int option \<times> rt" where
  "Channel_recv_dl h v dl = on_chan (\<lambda>c. suspenders_chan_recv_dl c v dl) h"
definition Channel_close :: "cxx_Channel \<Rightarrow> rt \<Rightarrow> int option \<times> rt" where
  "Channel_close h = on_chan suspenders_chan_close h"

text \<open>The methods that return \<open>bool\<close>.\<close>

definition Channel_send :: "cxx_Channel \<Rightarrow> ptr \<Rightarrow> rt \<Rightarrow> bool option \<times> rt" where
  "Channel_send h v s =
     (case cn_ch h of
        None \<Rightarrow> (Some False, s)
      | Some c \<Rightarrow> (let (r, s1) = suspenders_chan_send (Some c) v s in (map_option (\<lambda>st. st = SUSPENDERS_OK) r, s1)))"

definition Channel_recv :: "cxx_Channel \<Rightarrow> ptr \<Rightarrow> rt \<Rightarrow> bool option \<times> rt" where
  "Channel_recv h v s =
     (case cn_ch h of
        None \<Rightarrow> (Some False, s)
      | Some c \<Rightarrow> (let (r, s1) = suspenders_chan_recv (Some c) v s in (map_option (\<lambda>st. st = SUSPENDERS_OK) r, s1)))"

text \<open>\<open>recv()\<close> receives into a zeroed local variable at \<open>v\<close> of \<open>es\<close> bytes and returns its value or \<open>nullopt\<close>.\<close>

definition Channel_recv_optional :: "nat \<Rightarrow> cxx_Channel \<Rightarrow> ptr \<Rightarrow> rt \<Rightarrow> bytes option option \<times> rt" where
  "Channel_recv_optional es h v s =
     (let (r, s1) = Channel_recv h v (s\<lparr>mem := (mem s)(v := replicate es 0)\<rparr>)
      in (map_option (\<lambda>ok. if ok then Some (mem s1 v) else None) r, s1))"

definition Channel_op :: "bool \<Rightarrow> cxx_Channel \<Rightarrow> ptr \<Rightarrow> chan_op option" where
  "Channel_op snd_op h v = map_option (\<lambda>c. \<lparr>op_ch = c, op_val = v, is_send = snd_op\<rparr>) (cn_ch h)"

lemma take_waiter_none: "wlists s l = [] \<Longrightarrow> s_chan_take_waiter l s = (None, s)"
  by (simp add: s_chan_take_waiter_def)

text \<open>Outside a coroutine, or inside one that has neither been cancelled nor overrun its deadline, a blocking call
  goes on to the channel with its runtime as it was.\<close>

definition undisturbed :: "rt \<Rightarrow> bool" where
  "undisturbed s \<longleftrightarrow> (s_io_is_cr s \<longrightarrow> \<not> cancel_requested (crs s (the (running s))) \<and> \<not> deadline_armed (crs s (the (running s))))"

lemma undisturbed_pre_block:
  assumes "undisturbed s" and "s_io_is_cr s"
  shows "s_pre_block (the (running s)) s = (0, s)"
proof -
  let ?c = "the (running s)"
  have "\<not> cancel_requested (crs s ?c)" "\<not> deadline_armed (crs s ?c)" using assms by (simp_all add: undisturbed_def)
  moreover from this have e: "(crs s ?c)\<lparr>cancel_requested := False\<rparr> = crs s ?c" by simp
  have "upd_cr ?c (\<lambda>r. r\<lparr>cancel_requested := False\<rparr>) s = s" unfolding upd_cr_def e by simp
  ultimately show ?thesis by (simp add: s_pre_block_def)
qed

text \<open>A value comes out of a typed channel as it went in: sent on an open, empty buffered channel and received
  through the same handle or one it has been moved to, the receive yields exactly the bytes of the value, and
  the channel is empty again.\<close>

theorem typed_channel_roundtrip:
  assumes "cn_ch h = Some c" and "chan_wf (chans s c)" and "chan_contents (chans s c) = []" and "0 < buf_sz (chans s c)"
    and "\<not> closed (chans s c)" and "wlists s (LReceivers c) = []" and "wlists s (LSenders c) = []" and "undisturbed s"
    and "length (mem s v) = elem_sz (chans s c)" and "v \<noteq> 0" and "w \<noteq> 0" and "Channel_move h = (h', h0)"
  shows "\<exists>s1 s2. Channel_send h v s = (Some True, s1) \<and>
    Channel_recv_optional (elem_sz (chans s c)) h' w s1 = (Some (Some (mem s v)), s2) \<and>
    chan_contents (chans s2 c) = [] \<and> Channel_send h0 v s2 = (Some False, s2)"
proof -
  let ?ch = "chans s c" let ?x = "mem s v" let ?es = "elem_sz (chans s c)"
  have h: "cn_ch h' = Some c" "cn_ch h0 = None" using assms(1,12) by (auto simp: Channel_move_def)
  have room: "chan_room ?ch ?x" using assms(3,4,9) by (simp add: chan_room_def chan_contents_def)
  note push = chan_push_effect [OF assms(2) room]
  define s1 where "s1 = upd_chan c (\<lambda>k. s_chan_buf_push k ?x) s"
  have send: "Channel_send h v s = (Some True, s1)"
  proof -
    have "chan_send_locked c v 0 False b s = (Some SUSPENDERS_OK, s1)" for b
      using assms(4,5,6,9) room
      by (simp add: chan_send_locked_def take_waiter_none chan_room_def elem_at_def load_elem_def s1_def)
    then show ?thesis using assms(1,8,10) undisturbed_pre_block
      by (simp add: Channel_send_def suspenders_chan_send_def s_chan_send_impl_def Let_def)
  qed
  have one: "chan_contents (chans s1 c) = [?x]" and wf: "chan_wf (chans s1 c)" using push assms(3) by (simp_all add: s1_def upd_chan_def)
  from chan_pop_effect [OF wf one] obtain ch' where pop: "chan_take (chans s1 c) = (Some ?x, ch')" "chan_contents ch' = []" by blast
  define t where "t = s1\<lparr>mem := (mem s1)(w := replicate ?es 0)\<rparr>"
  define s2 where "s2 = upd_chan c (\<lambda>_. ch') (store_elem w ?x t)"
  have n: "0 < ch_count (chans t c)" "s_chan_buf_pop (chans t c) = (?x, ch')"
    using pop by (auto simp: chan_take_def t_def Let_def split: if_splits prod.splits)
  have b: "buf_sz (chans t c) \<noteq> 0" using assms(4) by (simp add: t_def s1_def upd_chan_def s_chan_buf_push_def Let_def)
  have wl: "wlists (upd_chan c (\<lambda>_. ch') (store_elem w ?x t)) (LSenders c) = []"
    using assms(7) by (simp add: t_def s1_def upd_chan_def store_elem_def)
  have "chan_recv_locked c w 0 False k t = (Some SUSPENDERS_OK, s2)" for k
    using n b take_waiter_none [OF wl] by (simp add: chan_recv_locked_def s2_def)
  moreover have "undisturbed t" using assms(8) by (simp add: undisturbed_def t_def s1_def upd_chan_def s_io_is_cr_def)
  ultimately have "Channel_recv h' w t = (Some True, s2)" using h(1) assms(11) undisturbed_pre_block [of t]
    by (simp add: Channel_recv_def suspenders_chan_recv_def s_chan_recv_impl_def Let_def)
  moreover have "mem s2 w = ?x" using assms(9) by (simp add: s2_def upd_chan_def store_elem_def t_def memcpy_at_def)
  ultimately have "Channel_recv_optional ?es h' w s1 = (Some (Some ?x), s2)"
    by (simp add: Channel_recv_optional_def t_def)
  moreover have "chan_contents (chans s2 c) = []" using pop(2) by (simp add: s2_def upd_chan_def)
  ultimately show ?thesis using send h(2) by (auto simp: Channel_send_def)
qed

definition chan_demo :: rt where
  "chan_demo = blank_rt\<lparr>chans := (chans blank_rt)(7 := \<lparr>elem_sz = 2, buf_sz = 3, ch_count = 0, ch_head = 2, ch_buf = replicate 6 0, closed = False\<rparr>),
     mem := (mem blank_rt)(1 := [10, 20])\<rparr>"

theorem typed_channel_roundtrip_witness:
  "\<exists>s1 s2. Channel_send \<lparr>cn_ch = Some 7\<rparr> 1 chan_demo = (Some True, s1) \<and>
     Channel_recv_optional 2 \<lparr>cn_ch = Some 7\<rparr> 2 s1 = (Some (Some [10, 20]), s2)"
proof -
  have m: "Channel_move \<lparr>cn_ch = Some 7\<rparr> = (\<lparr>cn_ch = Some 7\<rparr>, \<lparr>cn_ch = None\<rparr>)" by (simp add: Channel_move_def)
  from typed_channel_roundtrip [of "\<lparr>cn_ch = Some 7\<rparr>" 7 chan_demo 1 2, OF _ _ _ _ _ _ _ _ _ _ _ m] show ?thesis
    by (auto simp: chan_demo_def blank_rt_def chan_wf_def chan_contents_def undisturbed_def s_io_is_cr_def)
qed

section \<open>select\<close>

text \<open>The cases are copied into an array of fixed size; what does not fit is dropped.\<close>

definition cxx_select :: "nat \<Rightarrow> chan_op list \<Rightarrow> u64 \<Rightarrow> rt \<Rightarrow> (sel_at \<times> rt) option" where
  "cxx_select rec cases dl s = suspenders_select_dl rec (Some (take SUSPENDERS_SELECT_MAX cases)) dl s"

text \<open>With too many cases the C function reports an error; the facade waits for the first 64 of them.\<close>

lemma select_drops_cases:
  assumes "SUSPENDERS_SELECT_MAX < length cases"
  shows "suspenders_select_dl rec (Some cases) dl s = Some (SelReturned SUSPENDERS_INVAL, set_errno SUSPENDERS_INVAL s)"
    and "cxx_select rec cases dl s = cxx_select rec (take SUSPENDERS_SELECT_MAX cases) dl s"
  using assms by (simp_all add: suspenders_select_dl_def cxx_select_def)

section \<open>RWLock, Cond and WaitGroup\<close>

definition RWLock_ctor :: "nat \<Rightarrow> rt \<Rightarrow> rt" where "RWLock_ctor rw s = snd (suspenders_rwlock_init (Some rw) s)"
definition RWLock_rdlock :: "nat \<Rightarrow> rt \<Rightarrow> int option \<times> rt" where "RWLock_rdlock rw s = suspenders_rwlock_rdlock (Some rw) s"
definition RWLock_rdlock_dl :: "nat \<Rightarrow> u64 \<Rightarrow> rt \<Rightarrow> int option \<times> rt" where "RWLock_rdlock_dl rw dl s = suspenders_rwlock_rdlock_dl (Some rw) dl s"
definition RWLock_try_rdlock :: "nat \<Rightarrow> rt \<Rightarrow> int option \<times> rt" where "RWLock_try_rdlock rw s = suspenders_rwlock_tryrdlock (Some rw) s"
definition RWLock_wrlock :: "nat \<Rightarrow> rt \<Rightarrow> int option \<times> rt" where "RWLock_wrlock rw s = suspenders_rwlock_wrlock (Some rw) s"
definition RWLock_wrlock_dl :: "nat \<Rightarrow> u64 \<Rightarrow> rt \<Rightarrow> int option \<times> rt" where "RWLock_wrlock_dl rw dl s = suspenders_rwlock_wrlock_dl (Some rw) dl s"
definition RWLock_try_wrlock :: "nat \<Rightarrow> rt \<Rightarrow> int option \<times> rt" where "RWLock_try_wrlock rw s = suspenders_rwlock_trywrlock (Some rw) s"
definition RWLock_unlock :: "nat \<Rightarrow> rt \<Rightarrow> int option \<times> rt" where "RWLock_unlock rw s = suspenders_rwlock_unlock (Some rw) s"

definition Cond_ctor :: "nat \<Rightarrow> rt \<Rightarrow> rt" where "Cond_ctor c s = snd (suspenders_cond_init (Some c) s)"

text \<open>\<open>wait\<close> and \<open>wait_dl\<close> up to the point where the caller is parked.\<close>

definition Cond_wait :: "nat \<Rightarrow> nat \<Rightarrow> rt \<Rightarrow> int option \<times> rt" where "Cond_wait c m s = cond_wait_begin (Some c) (Some m) s"
definition Cond_signal :: "nat \<Rightarrow> rt \<Rightarrow> int option \<times> rt" where "Cond_signal c s = suspenders_cond_signal (Some c) s"
definition Cond_broadcast :: "nat \<Rightarrow> rt \<Rightarrow> int option \<times> rt" where "Cond_broadcast c s = suspenders_cond_broadcast (Some c) s"

definition WaitGroup_ctor :: "nat \<Rightarrow> rt \<Rightarrow> rt" where "WaitGroup_ctor w s = snd (suspenders_waitgroup_init (Some w) s)"
definition WaitGroup_add :: "nat \<Rightarrow> int \<Rightarrow> rt \<Rightarrow> int option \<times> rt" where "WaitGroup_add w d s = suspenders_waitgroup_add (Some w) d s"
definition WaitGroup_done :: "nat \<Rightarrow> rt \<Rightarrow> int option \<times> rt" where "WaitGroup_done w s = suspenders_waitgroup_done (Some w) s"
definition WaitGroup_wait :: "nat \<Rightarrow> rt \<Rightarrow> int option \<times> rt" where "WaitGroup_wait w s = suspenders_waitgroup_wait (Some w) s"
definition WaitGroup_wait_dl :: "nat \<Rightarrow> u64 \<Rightarrow> rt \<Rightarrow> int option \<times> rt" where "WaitGroup_wait_dl w dl s = suspenders_waitgroup_wait_dl (Some w) dl s"

section \<open>Hose\<close>

text \<open>A method of an invalid hose gives \<open>bad\<close> and does nothing. \<open>c_str\<close> ends a URI at its first NUL.\<close>

definition on_hose :: "'r \<Rightarrow> (hose \<Rightarrow> net \<Rightarrow> 'r \<times> net) \<Rightarrow> cxx_Hose \<Rightarrow> net \<Rightarrow> 'r \<times> net" where
  "on_hose bad f h n = (if hs_valid h then f (hs_hose h) n else (bad, n))"

definition c_str :: "string \<Rightarrow> string" where
  "c_str uri = takeWhile (\<lambda>c. c \<noteq> CHR 0x00) uri"

definition Hose_dial :: "ops_mem \<Rightarrow> nat list \<Rightarrow> os \<Rightarrow> string \<Rightarrow> cxx_Hose \<Rightarrow> net \<Rightarrow> bool \<times> cxx_Hose \<times> net" where
  "Hose_dial tab reg sys uri h n =
     (if \<not> hs_valid h then (False, h, n)
      else (let (ok, d, n1) = suspenders_hose_dial tab reg sys (c_str uri) (hs_hose h) n in (ok, h\<lparr>hs_hose := d\<rparr>, n1)))"

definition Hose_listen :: "ops_mem \<Rightarrow> nat list \<Rightarrow> os \<Rightarrow> string \<Rightarrow> cxx_Hose \<Rightarrow> net \<Rightarrow> bool \<times> cxx_Hose \<times> net" where
  "Hose_listen tab reg sys uri h n =
     (if \<not> hs_valid h then (False, h, n)
      else (let (ok, d, n1) = suspenders_hose_listen tab reg sys (c_str uri) (hs_hose h) n in (ok, h\<lparr>hs_hose := d\<rparr>, n1)))"

definition Hose_shut :: "ops_mem \<Rightarrow> cxx_Hose \<Rightarrow> net \<Rightarrow> cxx_Hose \<times> net" where
  "Hose_shut tab h n =
     (if hs_valid h then (let (d, n1) = suspenders_hose_close tab (hs_hose h) n in (h\<lparr>hs_hose := d, hs_valid := False\<rparr>, n1))
      else (h, n))"

text \<open>What \<open>accept\<close> and \<open>accept_dl\<close> do with the outcome of the C function: the client lets go of what it held and takes
  over the accepted hose.\<close>

definition take_over :: "ops_mem \<Rightarrow> cxx_Hose \<Rightarrow> bool option \<times> hose \<times> net \<Rightarrow> bool option \<times> cxx_Hose \<times> net" where
  "take_over tab client r =
     (case r of
        (Some True, d, n1) \<Rightarrow> (let (c1, n2) = Hose_shut tab client n1 in (Some True, c1\<lparr>hs_hose := d, hs_valid := True\<rparr>, n2))
      | (ok, d, n1) \<Rightarrow> (ok, client, n1))"

text \<open>\<open>garbage\<close> is the uninitialized local variable the C function fills in.\<close>

definition Hose_accept :: "ops_mem \<Rightarrow> passes \<Rightarrow> bool \<Rightarrow> hose \<Rightarrow> cxx_Hose \<Rightarrow> cxx_Hose \<Rightarrow> net \<Rightarrow> bool option \<times> cxx_Hose \<times> net" where
  "Hose_accept tab ps nb garbage h client n =
     (if \<not> hs_valid h then (Some False, client, n) else take_over tab client (suspenders_hose_accept tab ps nb (hs_hose h) garbage n))"

definition Hose_accept_dl :: "u64 \<Rightarrow> ops_mem \<Rightarrow> passes \<Rightarrow> bool \<Rightarrow> hose \<Rightarrow> cxx_Hose \<Rightarrow> cxx_Hose \<Rightarrow> net \<Rightarrow> bool option \<times> cxx_Hose \<times> net" where
  "Hose_accept_dl dl tab ps nb garbage h client n =
     (if \<not> hs_valid h then (Some False, client, n) else take_over tab client (suspenders_hose_accept_dl dl tab ps nb (hs_hose h) garbage n))"

definition Hose_read :: "ops_mem \<Rightarrow> passes \<Rightarrow> cxx_Hose \<Rightarrow> net \<Rightarrow> int option \<times> net" where
  "Hose_read tab ps = on_hose (Some (-1)) (suspenders_hose_read tab ps)"
definition Hose_read_dl :: "u64 \<Rightarrow> ops_mem \<Rightarrow> passes \<Rightarrow> cxx_Hose \<Rightarrow> net \<Rightarrow> int option \<times> net" where
  "Hose_read_dl dl tab ps = on_hose (Some (-1)) (suspenders_hose_read_dl dl tab ps)"
definition Hose_readv :: "ops_mem \<Rightarrow> passes \<Rightarrow> cxx_Hose \<Rightarrow> net \<Rightarrow> int option \<times> net" where
  "Hose_readv tab ps = on_hose (Some (-1)) (suspenders_hose_readv tab ps)"
definition Hose_writev :: "ops_mem \<Rightarrow> passes \<Rightarrow> cxx_Hose \<Rightarrow> net \<Rightarrow> int option \<times> net" where
  "Hose_writev tab ps = on_hose (Some (-1)) (suspenders_hose_writev tab ps)"
definition Hose_recvfrom :: "ops_mem \<Rightarrow> passes \<Rightarrow> cxx_Hose \<Rightarrow> net \<Rightarrow> int option \<times> net" where
  "Hose_recvfrom tab ps = on_hose (Some (-1)) (suspenders_hose_recvfrom tab ps)"
definition Hose_sendto :: "ops_mem \<Rightarrow> passes \<Rightarrow> cxx_Hose \<Rightarrow> net \<Rightarrow> int option \<times> net" where
  "Hose_sendto tab ps = on_hose (Some (-1)) (suspenders_hose_sendto tab ps)"

text \<open>The result of a write and the bytes sent. The overloads for objects and string views pass their bytes.\<close>

definition Hose_write :: "ops_mem \<Rightarrow> passes list \<Rightarrow> bytes \<Rightarrow> cxx_Hose \<Rightarrow> net \<Rightarrow> int option \<times> bytes \<times> net" where
  "Hose_write tab pss src h n = (if hs_valid h then suspenders_hose_write tab pss src (hs_hose h) n else (Some (-1), [], n))"
definition Hose_write_dl :: "u64 \<Rightarrow> ops_mem \<Rightarrow> passes list \<Rightarrow> bytes \<Rightarrow> cxx_Hose \<Rightarrow> net \<Rightarrow> int option \<times> bytes \<times> net" where
  "Hose_write_dl dl tab pss src h n = (if hs_valid h then suspenders_hose_write_dl dl tab pss src (hs_hose h) n else (Some (-1), [], n))"

definition Hose_shutdown :: "bool \<Rightarrow> cxx_Hose \<Rightarrow> net \<Rightarrow> int \<times> net" where
  "Hose_shutdown ok = on_hose SUSPENDERS_INVAL (suspenders_hose_shutdown ok)"
definition Hose_set_option :: "bool \<Rightarrow> cxx_Hose \<Rightarrow> net \<Rightarrow> int \<times> net" where
  "Hose_set_option ok = on_hose SUSPENDERS_INVAL (suspenders_hose_set_option ok)"
definition Hose_peername :: "bool \<Rightarrow> cxx_Hose \<Rightarrow> net \<Rightarrow> int \<times> net" where
  "Hose_peername ok = on_hose SUSPENDERS_INVAL (suspenders_hose_peername ok)"
definition Hose_sockname :: "bool \<Rightarrow> cxx_Hose \<Rightarrow> net \<Rightarrow> int \<times> net" where
  "Hose_sockname ok = on_hose SUSPENDERS_INVAL (suspenders_hose_sockname ok)"

definition Hose_is_valid :: "cxx_Hose \<Rightarrow> bool" where
  "Hose_is_valid h \<longleftrightarrow> hs_valid h \<and> h_fd (hs_hose h) \<noteq> -1"

lemmas hose_method_defs = on_hose_def Hose_dial_def Hose_listen_def Hose_accept_def Hose_read_def Hose_readv_def Hose_writev_def
  Hose_recvfrom_def Hose_sendto_def Hose_write_def Hose_shutdown_def Hose_set_option_def Hose_peername_def Hose_sockname_def Hose_shut_def

text \<open>A hose that has been closed or moved from does nothing, not even dial again.\<close>

lemma invalid_hose_is_inert:
  assumes "\<not> hs_valid h"
  shows "Hose_dial tab reg sys uri h n = (False, h, n)" "Hose_listen tab reg sys uri h n = (False, h, n)"
    "Hose_accept tab ps nb g h client n = (Some False, client, n)" "Hose_read tab ps h n = (Some (-1), n)"
    "Hose_write tab pss src h n = (Some (-1), [], n)" "Hose_shutdown ok h n = (SUSPENDERS_INVAL, n)" "Hose_shut tab h n = (h, n)"
  using assms by (simp_all add: hose_method_defs)

text \<open>The descriptors a hose answers for.\<close>

definition hose_fds :: "cxx_Hose \<Rightarrow> int set" where
  "hose_fds h = {fd. NDescriptor fd \<in> set (handle_own (HHose h))}"

lemma shut_fds:
  assumes "h_transport (hs_hose h) \<in> {None, Some 0, Some 1, Some 2, Some 3}" and "Hose_shut (std_ops user) h n = (h', n')"
  shows "fds n' = fds n - hose_fds h" "\<not> hs_valid h'"
proof -
  obtain d n1 where c: "suspenders_hose_close (std_ops user) (hs_hose h) n = (d, n1)" by force
  have "fds n1 = fds n - {fd. NDescriptor fd \<in> set (fst (close_native (hs_hose h)))}" using close_native_correct [OF assms(1) c] by simp
  then show "fds n' = fds n - hose_fds h" "\<not> hs_valid h'"
    using assms(2) c by (auto simp: Hose_shut_def hose_fds_def close_native_def split: if_splits)
qed

lemma on_core_fds: "on_core f n = (r, n') \<Longrightarrow> fds n' = fds n"
  by (auto simp: on_core_def Let_def split: prod.splits)

text \<open>Accepting into a hose replaces what it held: when a listener of the stream transports accepts, the client
  answers for exactly the new descriptor and the one it answered for before has been closed; in every other
  case the client is as it was and the open descriptors are the same, also when the new descriptor could not be
  made nonblocking. (The system returns a descriptor that is not in use.)\<close>

theorem hose_accept_replaces:
  assumes "h_transport (hs_hose l) \<in> {Some 0, Some 2}" and "h_transport (hs_hose client) \<in> {None, Some 0, Some 1, Some 2, Some 3}"
    and "\<forall>fd m. on_core (s_io_accept ps) n = (IoOk fd, m) \<longrightarrow> int fd \<notin> fds n" and "hose_fds client \<subseteq> fds n"
    and "Hose_accept (std_ops user) ps nb garbage l client n = (r, client', n')"
  shows "if r = Some True
    then \<exists>fd. fd \<notin> fds n \<and> hose_fds client' = {fd} \<and> Hose_is_valid client' \<and> fds n' = insert fd (fds n - hose_fds client)
    else client' = client \<and> fds n' = fds n"
proof (cases "hs_valid l")
  case False
  with assms(5) show ?thesis by (auto simp: Hose_accept_def)
next
  case True
  obtain ok d n1 where a: "s_stream_accept ps nb (hs_hose l) garbage n = (ok, d, n1)" by (metis prod_cases3)
  have e: "take_over (std_ops user) client (ok, d, n1) = (r, client', n')"
    using assms(1,5) True a by (auto simp: Hose_accept_def suspenders_hose_accept_def hose_fn_def transport_ops_defs)
  show ?thesis
  proof (cases "ok = Some True")
    case True
    with a obtain fd n0 where fd: "on_core (s_io_accept ps) n = (IoOk fd, n0)" and n1: "n1 = n0\<lparr>fds := insert (int fd) (fds n0)\<rparr>"
      and d: "d = (suspenders_hose_init None)\<lparr>h_fd := int fd, protocol := protocol (hs_hose l), h_transport := h_transport (hs_hose l),
        roles := ROLE_READER OR ROLE_WRITER\<rparr>"
      by (auto simp: s_stream_accept_def Let_def split: if_splits prod.splits io_outcome.splits)
    obtain c1 n2 where s: "Hose_shut (std_ops user) client n1 = (c1, n2)" by force
    have r: "r = Some True" "client' = c1\<lparr>hs_hose := d, hs_valid := True\<rparr>" "n' = n2" using e True s by (auto simp: take_over_def)
    have new: "int fd \<notin> fds n" using assms(3) fd by blast
    have "fds n' = insert (int fd) (fds n) - hose_fds client" using shut_fds [OF assms(2) s] r on_core_fds [OF fd] by (simp add: n1)
    with new assms(4) have "fds n' = insert (int fd) (fds n - hose_fds client)" by auto
    moreover have "hose_fds client' = {int fd}" "Hose_is_valid client'" using assms(1) by (auto simp: r d hose_fds_def Hose_is_valid_def)
    ultimately show ?thesis using new r by auto
  next
    case False
    then have "r = ok" "client' = client" "n' = n1" using e by (auto simp: take_over_def split: option.splits bool.splits)
    moreover have "fds n1 = fds n" using a False assms(3) on_core_fds
      by (fastforce simp: s_stream_accept_def suspenders_close_socket_def Let_def split: if_splits prod.splits io_outcome.splits)
    ultimately show ?thesis using False by simp
  qed
qed

definition listening :: cxx_Hose where
  "listening = \<lparr>hs_hose = (suspenders_hose_init None)\<lparr>h_fd := 1, roles := ROLE_LISTENER, h_transport := Some 0\<rparr>, hs_valid = True\<rparr>"

definition connected :: cxx_Hose where
  "connected = \<lparr>hs_hose = (suspenders_hose_init None)\<lparr>h_fd := 2, roles := 3, h_transport := Some 0\<rparr>, hs_valid = True\<rparr>"

theorem hose_accept_replaces_witness:
  "fds (snd (snd (Hose_accept (std_ops (\<lambda>_. tty_transport_ops)) [(SysOk 9, Ready)] True (suspenders_hose_init None) listening connected std_net))) = {0, 1, 9}"
proof -
  let ?r = "Hose_accept (std_ops (\<lambda>_. tty_transport_ops)) [(SysOk 9, Ready)] True (suspenders_hose_init None) listening connected std_net"
  have io: "on_core (s_io_accept [(SysOk 9, Ready)]) std_net = (IoOk 9, std_net)"
    by (simp add: on_core_def s_io_accept_def io_call_def std_net_def blank_rt_def s_io_pre_def s_io_is_cr_def s_io_effective_deadline_def Let_def)
  have h: "h_transport (hs_hose listening) \<in> {Some 0, Some 2}" "h_transport (hs_hose connected) \<in> {None, Some 0, Some 1, Some 2, Some 3}"
    "hose_fds connected \<subseteq> fds std_net" "hose_fds connected = {2}"
    by (auto simp: listening_def connected_def hose_fds_def std_net_def)
  have e: "?r = (fst ?r, fst (snd ?r), snd (snd ?r))" by simp
  have f: "\<forall>fd m. on_core (s_io_accept [(SysOk 9, Ready)]) std_net = (IoOk fd, m) \<longrightarrow> int fd \<notin> fds std_net"
    using io by (simp add: std_net_def)
  have "fst ?r = Some True" "h_fd (hs_hose (fst (snd ?r))) = 9" "hs_valid (fst (snd ?r))" "h_transport (hs_hose (fst (snd ?r))) = Some 0"
    using io by (simp_all add: Hose_accept_def suspenders_hose_accept_def hose_fn_def transport_ops_defs s_stream_accept_def listening_def
        ROLE_LISTENER_def take_over_def split: prod.split)
  moreover from this have "hose_fds (fst (snd ?r)) = {9}" by (auto simp: hose_fds_def)
  ultimately show ?thesis using hose_accept_replaces [OF h(1,2) f h(3) e] h(4) by (auto simp: std_net_def)
qed

text \<open>Dialing a hose that is connected already overwrites its descriptor, which stays open and has no owner.\<close>

lemma redial_leaks:
  assumes "os_socket sys \<notin> fds n" and "h_fd h \<in> fds n" and "tcp_dial sys host port h n = (True, h', n')"
  shows "h_fd h \<in> fds n' \<and> h_fd h' \<noteq> h_fd h"
  using transports_sound [OF assms(1), of tcp_dial host port h] assms by (auto simp: opens_or_gives_up_def)

section \<open>Buffer\<close>

definition Buffer_append :: "(u64 \<Rightarrow> bytes option) \<Rightarrow> bytes \<Rightarrow> buf \<Rightarrow> (bool \<times> buf) option" where
  "Buffer_append malloc sv b = buf_append malloc b sv (int (length sv))"

definition Buffer_push_back :: "(u64 \<Rightarrow> bytes option) \<Rightarrow> u8 \<Rightarrow> buf \<Rightarrow> (bool \<times> buf) option" where
  "Buffer_push_back malloc c b = buf_append_byte malloc b c"

text \<open>The template for iterators whose elements are not \<open>char\<close>; each element has been cast to a byte.\<close>

fun Buffer_append_range :: "(u64 \<Rightarrow> bytes option) \<Rightarrow> bytes \<Rightarrow> buf \<Rightarrow> (bool \<times> buf) option" where
  "Buffer_append_range malloc [] b = Some (True, b)"
| "Buffer_append_range malloc (c # cs) b =
     (case Buffer_push_back malloc c b of
        None \<Rightarrow> None
      | Some (ok, b1) \<Rightarrow> if \<not> ok then Some (False, b1) else Buffer_append_range malloc cs b1)"

text \<open>The constructors append to an empty buffer and ignore a failure.\<close>

definition Buffer_ctor :: "(u64 \<Rightarrow> bytes option) \<Rightarrow> bytes \<Rightarrow> buf option" where
  "Buffer_ctor malloc sv = map_option snd (Buffer_append malloc sv buf_clear)"

definition Buffer_clear :: "buf \<Rightarrow> buf" where
  "Buffer_clear b = b\<lparr>b_len := 0, b_data := map_option (\<lambda>d. d[0 := 0]) (b_data b)\<rparr>"

definition Buffer_size :: "buf \<Rightarrow> nat" where "Buffer_size b = unat (b_len b)"
definition Buffer_empty :: "buf \<Rightarrow> bool" where "Buffer_empty b \<longleftrightarrow> b_len b = 0"
definition Buffer_view :: "buf \<Rightarrow> bytes" where "Buffer_view b = (case b_data b of None \<Rightarrow> [] | Some d \<Rightarrow> take (unat (b_len b)) d)"

lemma Buffer_clear_ok: "buf_ok b \<Longrightarrow> buf_ok (Buffer_clear b) \<and> Buffer_view (Buffer_clear b) = [] \<and> b_cap (Buffer_clear b) = b_cap b"
  by (auto simp: Buffer_clear_def Buffer_view_def buf_ok_def split: option.splits)

lemma Buffer_view_contents: "Buffer_view b = buf_contents b"
  by (simp add: Buffer_view_def buf_contents_def)

lemma buf_size_contents: "buf_ok b \<Longrightarrow> length (buf_contents b) = unat (b_len b)"
  by (auto simp: buf_ok_def buf_contents_def word_le_nat_alt split: option.splits)

lemma append_range_effect:
  assumes "malloc_ok malloc" and "buf_ok b" and "unat (b_len b) + length cs < 2 ^ 63"
  shows "\<exists>ok b'. Buffer_append_range malloc cs b = Some (ok, b') \<and> buf_ok b' \<and>
    (if ok then buf_contents b' = buf_contents b @ cs
     else (\<exists>k < length cs. buf_contents b' = buf_contents b @ take k cs) \<and> (\<exists>n. malloc n = None))"
  using assms(2,3)
proof (induction cs arbitrary: b)
  case (Cons c cs)
  have "unat (b_len b) + 1 < 2 ^ 63" using Cons.prems(2) by simp
  from buf_append_byte_correct [OF assms(1) Cons.prems(1) this, of c]
  consider b1 where "buf_append_byte malloc b c = Some (True, b1)" "buf_ok b1" "buf_contents b1 = buf_contents b @ [c]"
    | "buf_append_byte malloc b c = Some (False, b)" "\<exists>n. malloc n = None" by (auto simp: buf_appended_def)
  then show ?case
  proof cases
    case 1
    have "unat (b_len b1) + length cs < 2 ^ 63"
      using buf_size_contents [OF 1(2)] buf_size_contents [OF Cons.prems(1)] 1(3) Cons.prems(2) by simp
    from Cons.IH [OF 1(2) this] obtain ok b' where IH: "Buffer_append_range malloc cs b1 = Some (ok, b')" "buf_ok b'"
      "if ok then buf_contents b' = buf_contents b1 @ cs
       else (\<exists>k < length cs. buf_contents b' = buf_contents b1 @ take k cs) \<and> (\<exists>n. malloc n = None)" by blast
    have "\<exists>k < length (c # cs). buf_contents b' = buf_contents b @ take k (c # cs)" if "\<not> ok"
      using IH(3) that 1(3) by (metis append.assoc append_Cons append_Nil length_Cons Suc_less_eq take_Suc_Cons)
    with IH 1 show ?thesis by (auto simp: Buffer_push_back_def split: if_splits)
  next
    case 2
    with Cons.prems(1) show ?thesis by (auto simp: Buffer_push_back_def intro: exI [of _ 0])
  qed
qed auto

text \<open>Appending a range element by element does what appending it at once does: it always returns, and on
  success the buffer holds its old content and then the range; after a refused allocation it holds a proper
  initial part of the range, still well formed, and reports the failure.\<close>

theorem buffer_append_range_correct:
  assumes "malloc_ok malloc" and "buf_ok b" and "unat (b_len b) + length cs < 2 ^ 63"
  shows "\<exists>ok b'. Buffer_append_range malloc cs b = Some (ok, b') \<and> buf_ok b' \<and>
    (if ok then Buffer_view b' = Buffer_view b @ cs
     else (\<exists>k < length cs. Buffer_view b' = Buffer_view b @ take k cs) \<and> (\<exists>n. malloc n = None)) \<and>
    (\<forall>b2. Buffer_append malloc cs b = Some (True, b2) \<and> ok \<longrightarrow> Buffer_view b2 = Buffer_view b')"
proof -
  note append_range_effect [OF assms]
  moreover have "buf_contents b2 = buf_contents b @ cs" if "Buffer_append malloc cs b = Some (True, b2)" for b2
    using buf_append_meets [OF assms(1,2), of cs "int (length cs)"] assms(3) that
    by (auto simp: Buffer_append_def append_len_def buf_appended_def)
  ultimately show ?thesis unfolding Buffer_view_contents by (metis (no_types, lifting))
qed

theorem buffer_append_range_correct_witness:
  "\<exists>ok b'. Buffer_append_range (\<lambda>n. Some (replicate (unat n) 0)) [1, 2, 3] buf_clear = Some (ok, b') \<and> buf_ok b' \<and> Buffer_view b' = [1, 2, 3]"
proof -
  have "unat (b_len buf_clear) + length [1, 2, 3 :: u8] < 2 ^ 63" by (simp add: buf_clear_def)
  from buffer_append_range_correct [of "\<lambda>n. Some (replicate (unat n) 0)" buf_clear "[1, 2, 3]", OF _ _ this] show ?thesis
    using buf_clear_ok by (auto simp: malloc_ok_def Buffer_view_contents split: if_splits)
qed

end
