(* ===== verification/Task_Queue.thy ===== *)
theory Task_Queue
  imports Errors Ready_Queue "HOL-Library.Multiset"
begin

text \<open>
  Task queues: a buffered channel of tasks drained by a fixed number of daemon coroutines, with barrier
  tasks that are to run alone, and the pool built on a queue.

  The channel is the sequence of its buffered tasks together with the submitters parked on it (the
  \<open>Channel\<close> theory shows that a channel is such a sequence), and every section between an acquisition of
  the queue's mutex and its release or the condition wait inside it is one step. A drainer is where its
  coroutine stands in \<open>s_queue_drainer\<close>; a coroutine asleep in \<open>suspenders_cond_wait\<close> goes on after a broadcast
  or a stray cancellation only.
\<close>

section \<open>Tasks, drainers and queues\<close>

record task =
  t_fn :: nat
  t_arg :: nat
  t_barrier :: bool
  t_sync :: "nat option"

text \<open>Receiving; a task in hand before the lock; waiting for a barrier to end, asleep or woken; a barrier
  waiting for the executing tasks, asleep or woken; executing; the task has returned; gone.\<close>

datatype drainer = DRecv | DGot task | DBlocked task bool | DQuiesce task bool | DRun task | DDone task | DExit

record task_queue =
  q_label :: string
  q_qos :: nat
  concurrency :: nat
  buffered :: "task list"
  parked :: "task list"
  chan_closed :: bool
  active :: nat
  barrier_pending :: bool
  drainers :: "drainer list"
  q_work :: nat

definition SUSPENDERS_QUEUE_CAP :: nat where "SUSPENDERS_QUEUE_CAP = 256"

text \<open>\<open>suspenders_queue_create\<close>: \<open>spawns\<close> says for each drainer whether its coroutine could be spawned. A queue
  with fewer drainers works with those.\<close>

definition suspenders_queue_create ::
    "bool \<Rightarrow> bool \<Rightarrow> bool \<Rightarrow> bool list \<Rightarrow> string option \<Rightarrow> int \<Rightarrow> nat \<Rightarrow> int + task_queue" where
  "suspenders_queue_create up mem chan_ok spawns lbl qos conc =
     (let n = (if conc = 0 then 1 else conc);
          spawned = length (filter id (take n spawns))
      in if \<not> up then Inl SUSPENDERS_NOTINIT
         else if \<not> mem then Inl SUSPENDERS_NOMEM
         else if \<not> chan_ok then Inl SUSPENDERS_NOMEM
         else if spawned = 0 then Inl SUSPENDERS_NOMEM
         else Inr \<lparr>q_label = take 63 (case lbl of None \<Rightarrow> [] | Some l \<Rightarrow> l), q_qos = suspenders_clamp_qos qos,
                   concurrency = spawned, buffered = [], parked = [], chan_closed = False, active = 0,
                   barrier_pending = False, drainers = replicate spawned DRecv, q_work = 0\<rparr>)"

definition suspenders_queue_label :: "task_queue option \<Rightarrow> string option" where
  "suspenders_queue_label qo = map_option q_label qo"

section \<open>Submitting\<close>

text \<open>\<open>s_queue_submit\<close>: a coroutine waits on a full queue (\<open>None\<close>), others get \<open>SUSPENDERS_FULL\<close>. The work counter
  covers the task from before it is sent; a failed send takes it back.\<close>

definition s_queue_submit :: "bool \<Rightarrow> task \<Rightarrow> task_queue \<Rightarrow> int option \<times> task_queue" where
  "s_queue_submit in_cr t q =
     (let q1 = q\<lparr>q_work := q_work q + 1\<rparr>;
          refuse = (\<lambda>st. (Some st, q1\<lparr>q_work := q_work q1 - 1\<rparr>))
      in if chan_closed q then refuse SUSPENDERS_CLOSED
         else if length (buffered q) < SUSPENDERS_QUEUE_CAP then (Some SUSPENDERS_OK, q1\<lparr>buffered := buffered q @ [t]\<rparr>)
         else if in_cr then (None, q1\<lparr>parked := parked q @ [t]\<rparr>)
         else refuse SUSPENDERS_FULL)"

definition suspenders_queue_async :: "bool \<Rightarrow> nat \<Rightarrow> nat \<Rightarrow> task_queue \<Rightarrow> int option \<times> task_queue" where
  "suspenders_queue_async in_cr fn arg q =
     (if fn = 0 then (Some SUSPENDERS_INVAL, q)
      else s_queue_submit in_cr \<lparr>t_fn = fn, t_arg = arg, t_barrier = False, t_sync = None\<rparr> q)"

definition suspenders_queue_barrier_async :: "bool \<Rightarrow> nat \<Rightarrow> nat \<Rightarrow> task_queue \<Rightarrow> int option \<times> task_queue" where
  "suspenders_queue_barrier_async in_cr fn arg q =
     (if fn = 0 then (Some SUSPENDERS_INVAL, q)
      else s_queue_submit in_cr \<lparr>t_fn = fn, t_arg = arg, t_barrier = concurrency q > 1, t_sync = None\<rparr> q)"

text \<open>The submission of \<open>suspenders_queue_sync\<close>; after it the caller waits for the wait group \<open>wg\<close>, whose count
  the task's end takes to zero.\<close>

definition suspenders_queue_sync :: "bool \<Rightarrow> nat \<Rightarrow> nat \<Rightarrow> nat \<Rightarrow> task_queue \<Rightarrow> int option \<times> task_queue" where
  "suspenders_queue_sync in_cr wg fn arg q =
     (if fn = 0 then (Some SUSPENDERS_INVAL, q)
      else if \<not> in_cr then (Some SUSPENDERS_PERM, q)
      else s_queue_submit True \<lparr>t_fn = fn, t_arg = arg, t_barrier = False, t_sync = Some wg\<rparr> q)"

text \<open>\<open>suspenders_queue_after\<close> spawns a coroutine that sleeps and then submits; the coroutine's body after the
  sleep is \<open>s_queue_after_cr\<close>.\<close>

definition suspenders_queue_after :: "bool \<Rightarrow> (int option) \<Rightarrow> nat \<Rightarrow> int" where
  "suspenders_queue_after mem spawn_err fn =
     (if fn = 0 then SUSPENDERS_INVAL
      else if \<not> mem then SUSPENDERS_NOMEM
      else (case spawn_err of Some e \<Rightarrow> e | None \<Rightarrow> SUSPENDERS_OK))"

definition s_queue_after_cr :: "nat \<Rightarrow> nat \<Rightarrow> task_queue \<Rightarrow> int option \<times> task_queue" where
  "s_queue_after_cr fn arg q = suspenders_queue_async True fn arg q"

text \<open>The first thing \<open>suspenders_queue_destroy\<close> does: the channel is closed and parked submitters fail.\<close>

definition queue_close :: "task_queue \<Rightarrow> task_queue" where
  "queue_close q = q\<lparr>chan_closed := True, parked := [], q_work := q_work q - length (parked q)\<rparr>"

text \<open>A coroutine that destroys a queue may free it when the drainers are gone.\<close>

definition drained :: "task_queue \<Rightarrow> bool" where
  "drained q \<longleftrightarrow> (\<forall>d \<in> set (drainers q). d = DExit)"

text \<open>A parked submitter is cancelled: its send fails and the work counter is taken back.\<close>

definition cancel_submit :: "nat \<Rightarrow> task_queue \<Rightarrow> task_queue" where
  "cancel_submit i q = q\<lparr>parked := take i (parked q) @ drop (Suc i) (parked q), q_work := q_work q - 1\<rparr>"

section \<open>Draining\<close>

definition wake :: "drainer \<Rightarrow> drainer" where
  "wake d = (case d of DBlocked t _ \<Rightarrow> DBlocked t False | DQuiesce t _ \<Rightarrow> DQuiesce t False | _ \<Rightarrow> d)"

definition set_drainer :: "nat \<Rightarrow> drainer \<Rightarrow> task_queue \<Rightarrow> task_queue" where
  "set_drainer i d q = q\<lparr>drainers := (drainers q)[i := d]\<rparr>"

definition broadcast :: "task_queue \<Rightarrow> task_queue" where
  "broadcast q = q\<lparr>drainers := map wake (drainers q)\<rparr>"

datatype tq_event = Accept task | Start task | Finish task

text \<open>The receive: the oldest task, and the longest-parked submitter's task takes its place; a drainer leaves
  when the channel is closed and empty, and waits when it is open and empty.\<close>

definition drainer_recv :: "nat \<Rightarrow> task_queue \<Rightarrow> (tq_event list \<times> task_queue) option" where
  "drainer_recv i q =
     (case buffered q of
        t # ts \<Rightarrow>
          (case parked q of
             [] \<Rightarrow> Some ([], set_drainer i (DGot t) (q\<lparr>buffered := ts\<rparr>))
           | p # ps \<Rightarrow> Some ([Accept p], set_drainer i (DGot t) (q\<lparr>buffered := ts @ [p], parked := ps\<rparr>)))
      | [] \<Rightarrow> if chan_closed q then Some ([], set_drainer i DExit q) else None)"

text \<open>The section behind the lock, also after waking up in its first loop.\<close>

definition drainer_enter :: "nat \<Rightarrow> task \<Rightarrow> task_queue \<Rightarrow> tq_event list \<times> task_queue" where
  "drainer_enter i t q =
     (if concurrency q \<le> 1 then ([Start t], set_drainer i (DRun t) q)
      else if barrier_pending q then ([], set_drainer i (DBlocked t True) q)
      else if t_barrier t then
        (if active q > 0 then ([], set_drainer i (DQuiesce t True) (q\<lparr>barrier_pending := True\<rparr>))
         else ([Start t], set_drainer i (DRun t) (q\<lparr>barrier_pending := True\<rparr>)))
      else ([Start t], set_drainer i (DRun t) (q\<lparr>active := active q + 1\<rparr>)))"

definition drainer_quiesce :: "nat \<Rightarrow> task \<Rightarrow> task_queue \<Rightarrow> tq_event list \<times> task_queue" where
  "drainer_quiesce i t q =
     (if active q > 0 then ([], set_drainer i (DQuiesce t True) q) else ([Start t], set_drainer i (DRun t) q))"

text \<open>After the task: the section behind the lock, the completion of a synchronous submission and the work
  counter.\<close>

definition drainer_leave :: "nat \<Rightarrow> task \<Rightarrow> task_queue \<Rightarrow> task_queue" where
  "drainer_leave i t q =
     (let q1 = (if concurrency q \<le> 1 then q
                else if t_barrier t then broadcast (q\<lparr>barrier_pending := False\<rparr>)
                else if active q - 1 = 0 then broadcast (q\<lparr>active := active q - 1\<rparr>)
                else q\<lparr>active := active q - 1\<rparr>)
      in set_drainer i DRecv (q1\<lparr>q_work := q_work q1 - 1\<rparr>))"

text \<open>What drainer \<open>i\<close> does next, \<open>None\<close> while it waits.\<close>

definition s_queue_drainer :: "nat \<Rightarrow> task_queue \<Rightarrow> (tq_event list \<times> task_queue) option" where
  "s_queue_drainer i q =
     (case drainers q ! i of
        DRecv \<Rightarrow> drainer_recv i q
      | DGot t \<Rightarrow> Some (drainer_enter i t q)
      | DBlocked t asleep \<Rightarrow> if asleep then None else Some (drainer_enter i t q)
      | DQuiesce t asleep \<Rightarrow> if asleep then None else Some (drainer_quiesce i t q)
      | DRun t \<Rightarrow> Some ([Finish t], set_drainer i (DDone t) q)
      | DDone t \<Rightarrow> Some ([], drainer_leave i t q)
      | DExit \<Rightarrow> None)"

text \<open>The steps of a queue: submissions of tasks from coroutines and elsewhere, cancelled submitters, a
  drainer, a stray cancellation of a waiting drainer, and the close.\<close>

inductive tq_step :: "task_queue \<Rightarrow> tq_event list \<Rightarrow> task_queue \<Rightarrow> bool" where
  submit: "s_queue_submit in_cr t q = (r, q') \<Longrightarrow> tq_step q (if r = Some SUSPENDERS_OK then [Accept t] else []) q'"
| cancel: "i < length (parked q) \<Longrightarrow> tq_step q [] (cancel_submit i q)"
| drain: "i < length (drainers q) \<Longrightarrow> s_queue_drainer i q = Some (ev, q') \<Longrightarrow> tq_step q ev q'"
| stray: "i < length (drainers q) \<Longrightarrow> tq_step q [] (set_drainer i (wake (drainers q ! i)) q)"
| close: "tq_step q [] (queue_close q)"

inductive_cases tq_step_elim: "tq_step q ev q'"

inductive tq_run :: "task_queue \<Rightarrow> tq_event list \<Rightarrow> task_queue \<Rightarrow> bool" for q0 :: task_queue where
  run_nil: "tq_run q0 [] q0"
| run_step: "tq_run q0 evs q \<Longrightarrow> tq_step q ev q' \<Longrightarrow> tq_run q0 (evs @ ev) q'"

definition tq_fresh :: "task_queue \<Rightarrow> bool" where
  "tq_fresh q \<longleftrightarrow> (\<exists>up mem chan_ok spawns lbl qos conc. suspenders_queue_create up mem chan_ok spawns lbl qos conc = Inr q)"

section \<open>The table of queues and pools\<close>

text \<open>The queues that exist, the global ones by QoS, and those released outside a coroutine, which wait for
  \<open>suspenders_shutdown\<close>.\<close>

record queue_table =
  queues :: "nat \<Rightarrow> task_queue option"
  global_queues :: "nat \<Rightarrow> nat option"
  orphan_queues :: "nat list"
  next_queue :: nat

definition add_queue :: "task_queue \<Rightarrow> queue_table \<Rightarrow> nat \<times> queue_table" where
  "add_queue q h = (next_queue h, h\<lparr>queues := (queues h)(next_queue h := Some q), next_queue := Suc (next_queue h)\<rparr>)"

definition global_name :: "nat \<Rightarrow> string" where
  "global_name i = (if i = 0 then ''global.realtime'' else if i = 1 then ''global.high''
     else if i = 2 then ''global.normal'' else ''global.low'')"

definition suspenders_get_global_queue ::
    "bool \<Rightarrow> bool \<Rightarrow> bool \<Rightarrow> bool list \<Rightarrow> nat \<Rightarrow> int \<Rightarrow> queue_table \<Rightarrow> (int + nat) \<times> queue_table" where
  "suspenders_get_global_queue up mem chan_ok spawns num_workers qos h =
     (if \<not> up then (Inl SUSPENDERS_NOTINIT, h)
      else
        (let i = suspenders_clamp_qos qos in
         case global_queues h i of
           Some k \<Rightarrow> (Inr k, h)
         | None \<Rightarrow>
             (case suspenders_queue_create up mem chan_ok spawns (Some (global_name i)) (int i)
                     (if num_workers = 0 then 1 else num_workers) of
                Inl e \<Rightarrow> (Inl e, h)
              | Inr q \<Rightarrow> (let (k, h1) = add_queue q h in (Inr k, h1\<lparr>global_queues := (global_queues h1)(i := Some k)\<rparr>)))))"

text \<open>\<open>suspenders_queue_destroy\<close>: the close, and either the wait for the drainers, whose end frees the queue, or
  the list of orphans.\<close>

definition suspenders_queue_destroy :: "bool \<Rightarrow> nat \<Rightarrow> queue_table \<Rightarrow> queue_table" where
  "suspenders_queue_destroy in_cr k h =
     (case queues h k of
        None \<Rightarrow> h
      | Some q \<Rightarrow>
          (let h1 = h\<lparr>queues := (queues h)(k := Some (queue_close q))\<rparr> in
           if in_cr then h1 else h1\<lparr>orphan_queues := k # orphan_queues h1\<rparr>))"

definition queue_destroy_end :: "nat \<Rightarrow> queue_table \<Rightarrow> queue_table option" where
  "queue_destroy_end k h =
     (case queues h k of
        None \<Rightarrow> None
      | Some q \<Rightarrow> if drained q then Some (h\<lparr>queues := (queues h)(k := None)\<rparr>) else None)"

definition s_queue_shutdown_reap :: "queue_table \<Rightarrow> queue_table" where
  "s_queue_shutdown_reap h =
     h\<lparr>queues := (\<lambda>k. if (\<exists>i \<in> {0..<4}. global_queues h i = Some k) \<or> k \<in> set (orphan_queues h) then None else queues h k),
       global_queues := (\<lambda>i. if i < 4 then None else global_queues h i), orphan_queues := []\<rparr>"

definition suspenders_pool_create ::
    "bool \<Rightarrow> bool \<Rightarrow> bool \<Rightarrow> bool \<Rightarrow> bool list \<Rightarrow> int \<Rightarrow> nat \<Rightarrow> queue_table \<Rightarrow> (int + nat) \<times> queue_table" where
  "suspenders_pool_create pool_mem up mem chan_ok spawns qos nworkers h =
     (if \<not> pool_mem then (Inl SUSPENDERS_NOMEM, h)
      else
        (case suspenders_queue_create up mem chan_ok spawns (Some ''pool'') qos (if nworkers = 0 then 1 else nworkers) of
           Inl e \<Rightarrow> (Inl e, h)
         | Inr q \<Rightarrow> (let (k, h1) = add_queue q h in (Inr k, h1))))"

definition suspenders_pool_submit :: "bool \<Rightarrow> nat \<Rightarrow> nat \<Rightarrow> nat \<Rightarrow> queue_table \<Rightarrow> queue_table" where
  "suspenders_pool_submit in_cr k fn arg h =
     (case queues h k of
        None \<Rightarrow> h
      | Some q \<Rightarrow> h\<lparr>queues := (queues h)(k := Some (snd (suspenders_queue_async in_cr fn arg q)))\<rparr>)"

definition suspenders_pool_destroy :: "bool \<Rightarrow> nat \<Rightarrow> queue_table \<Rightarrow> queue_table" where
  "suspenders_pool_destroy in_cr k h = suspenders_queue_destroy in_cr k h"

section \<open>Counting drainers\<close>

definition tally :: "(drainer \<Rightarrow> bool) \<Rightarrow> task_queue \<Rightarrow> nat" where
  "tally P q = length (filter P (drainers q))"

lemma filter_update:
  "i < length xs \<Longrightarrow> length (filter P (xs[i := x])) + (if P (xs ! i) then 1 else 0) = length (filter P xs) + (if P x then 1 else 0)"
proof (induction xs arbitrary: i)
  case (Cons y ys)
  then show ?case by (cases i) auto
qed simp

lemma tally_set:
  "i < length (drainers q) \<Longrightarrow>
     tally P (set_drainer i d q) + (if P (drainers q ! i) then 1 else 0) = tally P q + (if P d then 1 else 0)"
  by (simp add: tally_def set_drainer_def filter_update)

lemma tally_other [simp]:
  "tally P (q\<lparr>buffered := b\<rparr>) = tally P q" "tally P (q\<lparr>parked := pk\<rparr>) = tally P q" "tally P (q\<lparr>active := a\<rparr>) = tally P q"
  "tally P (q\<lparr>barrier_pending := bp\<rparr>) = tally P q" "tally P (q\<lparr>q_work := w\<rparr>) = tally P q"
  "tally P (q\<lparr>chan_closed := cl\<rparr>) = tally P q"
  by (simp_all add: tally_def)

lemma tally_pos: "d \<in> set (drainers q) \<Longrightarrow> P d \<Longrightarrow> 0 < tally P q"
  by (auto simp: tally_def filter_empty_conv)

lemma tally_zero: "tally P q = 0 \<longleftrightarrow> (\<forall>d \<in> set (drainers q). \<not> P d)"
  by (simp add: tally_def filter_empty_conv)

lemma tally_le_one:
  assumes "tally P q \<le> 1" "i < length (drainers q)" "j < length (drainers q)" "P (drainers q ! i)" "P (drainers q ! j)"
    and "\<not> P DRecv"
  shows "i = j"
proof (rule ccontr)
  assume "i \<noteq> j"
  let ?q = "set_drainer i DRecv q"
  have "P (drainers ?q ! j)" "j < length (drainers ?q)" using assms \<open>i \<noteq> j\<close> by (simp_all add: set_drainer_def)
  then have "0 < tally P ?q" by (intro tally_pos [OF nth_mem])
  with tally_set [OF assms(2), of P DRecv] assms show False by simp
qed

section \<open>Invariant\<close>

definition held :: "drainer \<Rightarrow> task list" where
  "held d = (case d of DGot t \<Rightarrow> [t] | DBlocked t _ \<Rightarrow> [t] | DQuiesce t _ \<Rightarrow> [t] | DRun t \<Rightarrow> [t] | DDone t \<Rightarrow> [t] | _ \<Rightarrow> [])"

definition executing :: "drainer \<Rightarrow> bool" where
  "executing d = (case d of DRun t \<Rightarrow> \<not> t_barrier t | DDone t \<Rightarrow> \<not> t_barrier t | _ \<Rightarrow> False)"

definition in_barrier :: "drainer \<Rightarrow> bool" where
  "in_barrier d = (case d of DRun t \<Rightarrow> t_barrier t | DDone t \<Rightarrow> t_barrier t | _ \<Rightarrow> False)"

definition barrier_owner :: "drainer \<Rightarrow> bool" where
  "barrier_owner d = (case d of DQuiesce _ _ \<Rightarrow> True | _ \<Rightarrow> in_barrier d)"

definition asleep_blocked :: "drainer \<Rightarrow> bool" where
  "asleep_blocked d = (case d of DBlocked _ a \<Rightarrow> a | _ \<Rightarrow> False)"

definition asleep_quiesce :: "drainer \<Rightarrow> bool" where
  "asleep_quiesce d = (case d of DQuiesce _ a \<Rightarrow> a | _ \<Rightarrow> False)"

definition waiting :: "drainer \<Rightarrow> bool" where
  "waiting d = (case d of DBlocked _ _ \<Rightarrow> True | DQuiesce _ _ \<Rightarrow> True | _ \<Rightarrow> False)"

definition plain_quiesce :: "drainer \<Rightarrow> bool" where
  "plain_quiesce d = (case d of DQuiesce t _ \<Rightarrow> \<not> t_barrier t | _ \<Rightarrow> False)"

lemmas drainer_kinds = plain_quiesce_def held_def executing_def in_barrier_def barrier_owner_def asleep_blocked_def asleep_quiesce_def waiting_def

text \<open>The barrier protocol: \<open>active\<close> counts the executing tasks that are no barriers, \<open>barrier_pending\<close> tells that
  one drainer has claimed the queue for a barrier, a barrier executes only when nothing is active, and nobody
  sleeps whose condition holds; only a barrier waits for the others.\<close>

definition sync_inv :: "task_queue \<Rightarrow> bool" where
  "sync_inv q \<longleftrightarrow>
     (if concurrency q \<le> 1 then tally waiting q = 0
      else active q = tally executing q \<and> tally barrier_owner q = (if barrier_pending q then 1 else 0) \<and>
        (tally in_barrier q = 0 \<or> active q = 0) \<and> (barrier_pending q \<or> tally asleep_blocked q = 0) \<and>
        (active q > 0 \<or> tally asleep_quiesce q = 0) \<and> tally plain_quiesce q = 0)"

text \<open>The accounting: every task that has been submitted and not finished is counted as work, submitters are
  parked only on a full open queue, and a drainer leaves only a closed, empty queue.\<close>

definition work_inv :: "task_queue \<Rightarrow> bool" where
  "work_inv q \<longleftrightarrow>
     length (drainers q) = concurrency q \<and> 0 < concurrency q \<and>
     q_work q = length (buffered q) + length (parked q) + tally (\<lambda>d. held d \<noteq> []) q \<and>
     length (buffered q) \<le> SUSPENDERS_QUEUE_CAP \<and>
     (parked q \<noteq> [] \<longrightarrow> length (buffered q) = SUSPENDERS_QUEUE_CAP \<and> \<not> chan_closed q) \<and>
     (DExit \<in> set (drainers q) \<longrightarrow> chan_closed q \<and> buffered q = [])"

definition tq_inv :: "task_queue \<Rightarrow> bool" where
  "tq_inv q \<longleftrightarrow> sync_inv q \<and> work_inv q"

lemma wake_kinds [simp]:
  "executing (wake d) = executing d" "in_barrier (wake d) = in_barrier d" "barrier_owner (wake d) = barrier_owner d"
  "waiting (wake d) = waiting d" "plain_quiesce (wake d) = plain_quiesce d" "held (wake d) = held d" "\<not> asleep_blocked (wake d)" "\<not> asleep_quiesce (wake d)"
  by (simp_all add: wake_def drainer_kinds split: drainer.splits)

lemma tally_wake:
  "(\<And>d. P (wake d) = P d) \<Longrightarrow> tally P (broadcast q) = tally P q"
  by (simp add: tally_def broadcast_def filter_map comp_def)

lemma tally_wake_asleep [simp]: "tally asleep_blocked (broadcast q) = 0" "tally asleep_quiesce (broadcast q) = 0"
  by (simp_all add: tally_zero broadcast_def)

lemma broadcast_sel [simp]:
  "active (broadcast q) = active q" "barrier_pending (broadcast q) = barrier_pending q" "concurrency (broadcast q) = concurrency q"
  "length (drainers (broadcast q)) = length (drainers q)" "buffered (broadcast q) = buffered q" "parked (broadcast q) = parked q"
  "chan_closed (broadcast q) = chan_closed q" "q_work (broadcast q) = q_work q"
  by (simp_all add: broadcast_def)

lemma set_drainer_sel [simp]:
  "active (set_drainer i d q) = active q" "barrier_pending (set_drainer i d q) = barrier_pending q"
  "concurrency (set_drainer i d q) = concurrency q" "length (drainers (set_drainer i d q)) = length (drainers q)"
  "buffered (set_drainer i d q) = buffered q" "parked (set_drainer i d q) = parked q"
  "chan_closed (set_drainer i d q) = chan_closed q" "q_work (set_drainer i d q) = q_work q"
  "drainers (set_drainer i d q) = (drainers q)[i := d]"
  by (simp_all add: set_drainer_def)

text \<open>Replacing one drainer shifts each count by what it gains and loses.\<close>

lemma tallies_set:
  assumes "i < length (drainers q)" and "drainers q ! i = d0"
  shows "tally executing (set_drainer i d q) + of_bool (executing d0) = tally executing q + of_bool (executing d)"
    and "tally in_barrier (set_drainer i d q) + of_bool (in_barrier d0) = tally in_barrier q + of_bool (in_barrier d)"
    and "tally barrier_owner (set_drainer i d q) + of_bool (barrier_owner d0) = tally barrier_owner q + of_bool (barrier_owner d)"
    and "tally asleep_blocked (set_drainer i d q) + of_bool (asleep_blocked d0) = tally asleep_blocked q + of_bool (asleep_blocked d)"
    and "tally asleep_quiesce (set_drainer i d q) + of_bool (asleep_quiesce d0) = tally asleep_quiesce q + of_bool (asleep_quiesce d)"
    and "tally waiting (set_drainer i d q) + of_bool (waiting d0) = tally waiting q + of_bool (waiting d)"
    and "tally (\<lambda>d. held d \<noteq> []) (set_drainer i d q) + of_bool (held d0 \<noteq> []) = tally (\<lambda>d. held d \<noteq> []) q + of_bool (held d \<noteq> [])"
    and "tally plain_quiesce (set_drainer i d q) + of_bool (plain_quiesce d0) = tally plain_quiesce q + of_bool (plain_quiesce d)"
  using tally_set [OF assms(1), of _ d] assms(2) by (simp_all only: of_bool_def)

lemma in_barrier_le_owner: "tally in_barrier q \<le> tally barrier_owner q"
proof -
  have "length (filter in_barrier xs) \<le> length (filter barrier_owner xs)" for xs
    by (induction xs) (auto simp: drainer_kinds split: drainer.splits)
  then show ?thesis by (simp add: tally_def)
qed

subsection \<open>Preservation\<close>

lemma sync_inv_set:
  assumes "i < length (drainers q)" "drainers q ! i = d0" "executing d0 = executing d" "in_barrier d0 = in_barrier d"
    "barrier_owner d0 = barrier_owner d" "asleep_blocked d \<longrightarrow> asleep_blocked d0" "asleep_quiesce d \<longrightarrow> asleep_quiesce d0"
    "waiting d \<longrightarrow> waiting d0" "plain_quiesce d \<longrightarrow> plain_quiesce d0" "sync_inv q"
  shows "sync_inv (set_drainer i d q)"
  using tallies_set [OF assms(1,2), of d] assms(3-10) by (auto simp: sync_inv_def of_bool_def split: if_splits)

lemma sync_inv_other [simp]:
  "sync_inv (q\<lparr>buffered := b\<rparr>) = sync_inv q" "sync_inv (q\<lparr>parked := pk\<rparr>) = sync_inv q" "sync_inv (q\<lparr>q_work := w\<rparr>) = sync_inv q"
  "sync_inv (q\<lparr>chan_closed := cl\<rparr>) = sync_inv q"
  by (simp_all add: sync_inv_def)

lemma tally_upd [simp]:
  "tally P (set_drainer i d (q\<lparr>active := a\<rparr>)) = tally P (set_drainer i d q)"
  "tally P (set_drainer i d (q\<lparr>barrier_pending := b\<rparr>)) = tally P (set_drainer i d q)"
  "tally P (set_drainer i d (q\<lparr>q_work := w\<rparr>)) = tally P (set_drainer i d q)"
  by (simp_all add: tally_def set_drainer_def)

lemma kinds_eval [simp]:
  "executing DRecv = False" "executing (DGot t) = False" "executing (DBlocked t a) = False" "executing (DQuiesce t a) = False"
  "executing (DRun t) = (\<not> t_barrier t)" "executing (DDone t) = (\<not> t_barrier t)" "executing DExit = False"
  "in_barrier DRecv = False" "in_barrier (DGot t) = False" "in_barrier (DBlocked t a) = False" "in_barrier (DQuiesce t a) = False"
  "in_barrier (DRun t) = t_barrier t" "in_barrier (DDone t) = t_barrier t" "in_barrier DExit = False"
  "barrier_owner DRecv = False" "barrier_owner (DGot t) = False" "barrier_owner (DBlocked t a) = False" "barrier_owner (DQuiesce t a) = True"
  "barrier_owner (DRun t) = t_barrier t" "barrier_owner (DDone t) = t_barrier t" "barrier_owner DExit = False"
  "asleep_blocked DRecv = False" "asleep_blocked (DGot t) = False" "asleep_blocked (DBlocked t a) = a" "asleep_blocked (DQuiesce t a) = False"
  "asleep_blocked (DRun t) = False" "asleep_blocked (DDone t) = False" "asleep_blocked DExit = False"
  "asleep_quiesce DRecv = False" "asleep_quiesce (DGot t) = False" "asleep_quiesce (DBlocked t a) = False" "asleep_quiesce (DQuiesce t a) = a"
  "asleep_quiesce (DRun t) = False" "asleep_quiesce (DDone t) = False" "asleep_quiesce DExit = False"
  "waiting DRecv = False" "waiting (DGot t) = False" "waiting (DBlocked t a) = True" "waiting (DQuiesce t a) = True"
  "waiting (DRun t) = False" "waiting (DDone t) = False" "waiting DExit = False"
  "plain_quiesce DRecv = False" "plain_quiesce (DGot t) = False" "plain_quiesce (DBlocked t a) = False"
  "plain_quiesce (DQuiesce t a) = (\<not> t_barrier t)" "plain_quiesce (DRun t) = False" "plain_quiesce (DDone t) = False" "plain_quiesce DExit = False"
  "held DRecv = []" "held (DGot t) = [t]" "held (DBlocked t a) = [t]" "held (DQuiesce t a) = [t]" "held (DRun t) = [t]"
  "held (DDone t) = [t]" "held DExit = []"
  by (simp_all add: drainer_kinds)

lemma sync_enter:
  assumes i: "i < length (drainers q)" and d: "drainers q ! i = DGot t \<or> drainers q ! i = DBlocked t False" and inv: "sync_inv q"
  shows "sync_inv (snd (drainer_enter i t q))"
proof -
  obtain d0 where d0: "drainers q ! i = d0" "\<not> executing d0" "\<not> in_barrier d0" "\<not> barrier_owner d0" "\<not> asleep_blocked d0" "\<not> asleep_quiesce d0" "\<not> plain_quiesce d0"
    using d by auto
  have le: "tally in_barrier q \<le> tally barrier_owner q" by (rule in_barrier_le_owner)
  note c = tallies_set [OF i d0(1)]
  consider (serial) "concurrency q \<le> 1" | (blocked) "concurrency q > 1" "barrier_pending q"
    | (quiesce) "concurrency q > 1" "\<not> barrier_pending q" "t_barrier t" "active q > 0"
    | (bar) "concurrency q > 1" "\<not> barrier_pending q" "t_barrier t" "active q = 0"
    | (plain) "concurrency q > 1" "\<not> barrier_pending q" "\<not> t_barrier t" by linarith
  then show ?thesis
  proof cases
    case serial
    then show ?thesis using inv c(6) [of "DRun t"] by (simp add: drainer_enter_def sync_inv_def)
  next
    case blocked
    then show ?thesis using inv c(1-5,8) [of "DBlocked t True"] d0 by (auto simp: drainer_enter_def sync_inv_def)
  next
    case quiesce
    then show ?thesis using inv c(1-5,8) [of "DQuiesce t True"] d0 by (auto simp: drainer_enter_def sync_inv_def)
  next
    case bar
    then show ?thesis using inv c(1-5,8) [of "DRun t"] d0 by (auto simp: drainer_enter_def sync_inv_def)
  next
    case plain
    then show ?thesis using inv c(1-5,8) [of "DRun t"] d0 le by (auto simp: drainer_enter_def sync_inv_def)
  qed
qed

lemma sync_quiesce:
  assumes i: "i < length (drainers q)" and d: "drainers q ! i = DQuiesce t False" and inv: "sync_inv q"
  shows "sync_inv (snd (drainer_quiesce i t q)) \<and> concurrency q > 1"
proof -
  have "0 < tally waiting q" by (rule tally_pos [OF nth_mem [OF i]]) (simp add: d)
  then have conc: "concurrency q > 1" using inv by (simp add: sync_inv_def split: if_splits)
  have "\<not> plain_quiesce (drainers q ! i)" using inv conc nth_mem [OF i] by (auto simp: sync_inv_def tally_zero)
  then have bar: "t_barrier t" by (simp add: d)
  note c = tallies_set [OF i d]
  show ?thesis
  proof (cases "active q > 0")
    case True
    then show ?thesis using inv conc c(1-5,8) [of "DQuiesce t True"] by (auto simp: drainer_quiesce_def sync_inv_def)
  next
    case False
    then show ?thesis
      using inv conc c(1-5,8) [of "DRun t"] bar by (auto simp: drainer_quiesce_def sync_inv_def)
  qed
qed

lemma sync_leave:
  assumes i: "i < length (drainers q)" and d: "drainers q ! i = DDone t" and inv: "sync_inv q"
  shows "sync_inv (drainer_leave i t q)"
proof -
  have wd: "drainers (broadcast q') ! i = DDone t" "i < length (drainers (broadcast q'))" if "drainers q' = drainers q" for q'
    using d i that by (simp_all add: broadcast_def wake_def)
  note cw = tally_wake [of executing] tally_wake [of in_barrier] tally_wake [of barrier_owner] tally_wake [of plain_quiesce]
  consider (serial) "concurrency q \<le> 1" | (bar) "concurrency q > 1" "t_barrier t"
    | (last) "concurrency q > 1" "\<not> t_barrier t" "active q - 1 = 0" | (more) "concurrency q > 1" "\<not> t_barrier t" "active q - 1 \<noteq> 0"
    by linarith
  then show ?thesis
  proof cases
    case serial
    then show ?thesis using inv tallies_set(6) [OF i d, of DRecv] by (simp add: drainer_leave_def sync_inv_def)
  next
    case bar
    let ?q = "q\<lparr>barrier_pending := False\<rparr>"
    have le: "tally in_barrier (set_drainer i DRecv (broadcast ?q)) \<le> tally barrier_owner (set_drainer i DRecv (broadcast ?q))"
      by (rule in_barrier_le_owner)
    show ?thesis using bar inv le tallies_set [OF wd(2,1), of ?q DRecv] by (auto simp: drainer_leave_def sync_inv_def cw split: if_splits)
  next
    case last
    let ?q = "q\<lparr>active := active q - 1\<rparr>"
    show ?thesis using last inv tallies_set [OF wd(2,1), of ?q DRecv] by (auto simp: drainer_leave_def sync_inv_def cw)
  next
    case more
    show ?thesis using more inv tallies_set [OF i d, of DRecv] by (auto simp: drainer_leave_def sync_inv_def)
  qed
qed

lemma sync_drain:
  assumes "i < length (drainers q)" "s_queue_drainer i q = Some (ev, q')" "sync_inv q"
  shows "sync_inv q'"
proof (cases "drainers q ! i")
  case DRecv
  with assms show ?thesis
    by (auto simp: s_queue_drainer_def drainer_recv_def intro!: sync_inv_set [where ?d0.0 = DRecv] split: list.splits if_splits)
next
  case (DGot t)
  with assms sync_enter [OF assms(1), of t] show ?thesis by (auto simp: s_queue_drainer_def)
next
  case (DBlocked t a)
  with assms sync_enter [OF assms(1), of t] show ?thesis by (auto simp: s_queue_drainer_def split: if_splits)
next
  case (DQuiesce t a)
  with assms sync_quiesce [OF assms(1), of t] show ?thesis by (auto simp: s_queue_drainer_def split: if_splits)
next
  case (DRun t)
  with assms show ?thesis by (auto simp: s_queue_drainer_def intro!: sync_inv_set [where ?d0.0 = "DRun t"])
next
  case (DDone t)
  with assms sync_leave [OF assms(1), of t] show ?thesis by (auto simp: s_queue_drainer_def)
next
  case DExit
  with assms show ?thesis by (simp add: s_queue_drainer_def)
qed

lemma work_inv_set:
  assumes "i < length (drainers q)" "held (drainers q ! i) = [] \<longleftrightarrow> held d = []" "d \<noteq> DExit" "work_inv q"
  shows "work_inv (set_drainer i d q)"
proof -
  have "tally (\<lambda>d. held d \<noteq> []) (set_drainer i d q) = tally (\<lambda>d. held d \<noteq> []) q"
    using tallies_set(7) [OF assms(1) refl, of d] assms(2) by simp
  moreover have "DExit \<in> set ((drainers q)[i := d]) \<Longrightarrow> DExit \<in> set (drainers q)"
    using assms(3) set_update_subset_insert [of "drainers q" i d] by auto
  ultimately show ?thesis using assms(4) by (auto simp: work_inv_def)
qed

lemma work_inv_other [simp]:
  "work_inv (q\<lparr>active := a\<rparr>) = work_inv q" "work_inv (q\<lparr>barrier_pending := b\<rparr>) = work_inv q" "work_inv (broadcast q) = work_inv q"
proof -
  have "DExit = wake d \<longleftrightarrow> d = DExit" for d by (auto simp: wake_def split: drainer.splits)
  then have "DExit \<in> set (drainers (broadcast q)) \<longleftrightarrow> DExit \<in> set (drainers q)" by (auto simp: broadcast_def image_iff)
  then show "work_inv (broadcast q) = work_inv q" by (simp add: work_inv_def tally_wake [of "\<lambda>d. held d \<noteq> []"])
qed (simp_all add: work_inv_def)

lemma work_enter:
  assumes "i < length (drainers q)" "held (drainers q ! i) = [t]" "work_inv q"
  shows "work_inv (snd (drainer_enter i t q))" "work_inv (snd (drainer_quiesce i t q))"
  using assms by (auto simp: drainer_enter_def drainer_quiesce_def intro!: work_inv_set)

lemma work_recv:
  assumes i: "i < length (drainers q)" and d: "drainers q ! i = DRecv" and r: "drainer_recv i q = Some (ev, q')" and inv: "work_inv q"
  shows "work_inv q'"
proof -
  let ?H = "\<lambda>d. held d \<noteq> []"
  have dx: "DExit \<notin> set ((drainers q)[i := DGot t])" if "buffered q \<noteq> []" for t
    using set_update_subset_insert [of "drainers q" i "DGot t"] inv that by (auto simp: work_inv_def)
  have c: "tally ?H (set_drainer i (DGot t) (q\<lparr>buffered := b\<rparr>)) = Suc (tally ?H q)"
    "tally ?H (set_drainer i (DGot t) (q\<lparr>buffered := b, parked := p\<rparr>)) = Suc (tally ?H q)" "tally ?H (set_drainer i DExit q) = tally ?H q" for t b p
    using tallies_set(7) [of i "q\<lparr>buffered := b\<rparr>" DRecv "DGot t"] tallies_set(7) [of i "q\<lparr>buffered := b, parked := p\<rparr>" DRecv "DGot t"]
      tallies_set(7) [OF i d, of DExit] i d by simp_all
  show ?thesis
  proof (cases "buffered q")
    case Nil
    with r inv c show ?thesis by (auto simp: drainer_recv_def work_inv_def split: if_splits)
  next
    case (Cons t ts)
    with r inv c dx show ?thesis by (cases "parked q") (auto simp: drainer_recv_def work_inv_def)
  qed
qed

lemma work_leave:
  assumes i: "i < length (drainers q)" and d: "drainers q ! i = DDone t" and inv: "work_inv q"
  shows "work_inv (drainer_leave i t q)"
proof -
  define q1 where "q1 = (if concurrency q \<le> 1 then q
                else if t_barrier t then broadcast (q\<lparr>barrier_pending := False\<rparr>)
                else if active q - 1 = 0 then broadcast (q\<lparr>active := active q - 1\<rparr>)
                else q\<lparr>active := active q - 1\<rparr>)"
  have 1: "work_inv q1" "drainers q1 ! i = DDone t" "i < length (drainers q1)"
    using inv by (simp add: q1_def) (use i d in \<open>auto simp: q1_def broadcast_def wake_def\<close>)
  have "tally (\<lambda>d. held d \<noteq> []) (set_drainer i DRecv q1) + 1 = tally (\<lambda>d. held d \<noteq> []) q1"
    using tallies_set(7) [OF 1(3,2), of DRecv] by simp
  moreover have "DExit \<in> set ((drainers q1)[i := DRecv]) \<Longrightarrow> DExit \<in> set (drainers q1)"
    using set_update_subset_insert [of "drainers q1" i DRecv] by auto
  moreover have "drainer_leave i t q = set_drainer i DRecv (q1\<lparr>q_work := q_work q1 - 1\<rparr>)"
    unfolding drainer_leave_def Let_def q1_def ..
  ultimately show ?thesis using 1(1) by (auto simp: work_inv_def)
qed

lemma work_drain:
  assumes "i < length (drainers q)" "s_queue_drainer i q = Some (ev, q')" "work_inv q"
  shows "work_inv q'"
proof (cases "drainers q ! i")
  case DRecv
  with assms work_recv [OF assms(1) DRecv] show ?thesis by (simp add: s_queue_drainer_def)
next
  case (DRun t)
  with assms show ?thesis by (auto simp: s_queue_drainer_def intro!: work_inv_set)
next
  case (DDone t)
  with assms work_leave [OF assms(1) DDone] show ?thesis by (simp add: s_queue_drainer_def)
qed (use assms work_enter [OF assms(1)] in \<open>auto simp: s_queue_drainer_def split: if_splits\<close>)

lemma submit_inv:
  assumes "s_queue_submit in_cr t q = (r, q')" "tq_inv q"
  shows "tq_inv q'"
proof -
  have "q' = q \<or> (\<not> chan_closed q \<and> length (buffered q) < SUSPENDERS_QUEUE_CAP \<and> q' = q\<lparr>q_work := q_work q + 1, buffered := buffered q @ [t]\<rparr>) \<or>
      (\<not> chan_closed q \<and> \<not> length (buffered q) < SUSPENDERS_QUEUE_CAP \<and> q' = q\<lparr>q_work := q_work q + 1, parked := parked q @ [t]\<rparr>)"
    using assms(1) by (auto simp: s_queue_submit_def Let_def split: if_splits)
  then show ?thesis
  proof (elim disjE conjE)
    assume "length (buffered q) < SUSPENDERS_QUEUE_CAP" "\<not> chan_closed q" "q' = q\<lparr>q_work := q_work q + 1, buffered := buffered q @ [t]\<rparr>"
    with assms(2) show ?thesis by (auto simp: tq_inv_def work_inv_def)
  next
    assume "\<not> length (buffered q) < SUSPENDERS_QUEUE_CAP" "\<not> chan_closed q" "q' = q\<lparr>q_work := q_work q + 1, parked := parked q @ [t]\<rparr>"
    with assms(2) show ?thesis by (auto simp: tq_inv_def work_inv_def)
  qed (simp add: assms(2))
qed

lemma tq_step_inv:
  assumes "tq_step q ev q'" "tq_inv q"
  shows "tq_inv q'"
  using assms
proof (cases rule: tq_step.cases)
  case (submit in_cr t r)
  then show ?thesis using submit_inv assms(2) by blast
next
  case (cancel i)
  with assms(2) show ?thesis by (auto simp: tq_inv_def work_inv_def cancel_submit_def)
next
  case (drain i)
  with assms(2) show ?thesis using sync_drain work_drain by (auto simp: tq_inv_def)
next
  case (stray i)
  show ?thesis
  proof (cases "drainers q ! i = DExit")
    case True
    have "set_drainer i (drainers q ! i) q = q" by (simp add: set_drainer_def)
    with True stray assms(2) show ?thesis by (simp add: wake_def)
  next
    case False
    then have "wake (drainers q ! i) \<noteq> DExit" by (cases "drainers q ! i") (simp_all add: wake_def)
    with stray assms(2) show ?thesis by (auto simp: tq_inv_def intro!: sync_inv_set work_inv_set)
  qed
next
  case close
  with assms(2) show ?thesis by (auto simp: tq_inv_def work_inv_def queue_close_def)
qed

lemma fresh_inv: "tq_fresh q \<Longrightarrow> tq_inv q"
  by (auto simp: tq_fresh_def suspenders_queue_create_def Let_def tq_inv_def sync_inv_def work_inv_def tally_def split: if_splits)

definition tq_any :: "task_queue \<Rightarrow> task_queue \<Rightarrow> bool" where
  "tq_any q q' \<longleftrightarrow> (\<exists>ev. tq_step q ev q')"

interpretation tqm: machine tq_fresh tq_any tq_inv
  by unfold_locales (auto simp: tq_any_def fresh_inv tq_step_inv)

lemma run_reach: "tq_run q0 evs q \<Longrightarrow> tq_fresh q0 \<Longrightarrow> reach tq_fresh tq_any q"
proof (induction rule: tq_run.induct)
  case (run_step evs q ev q')
  then have "tq_any q q'" by (auto simp: tq_any_def)
  with run_step show ?case by (blast intro: reach_step)
qed (rule reach_init)

section \<open>Barriers run alone and work gets done\<close>

text \<open>C31. While a barrier task executes on a concurrent queue no other task of the queue executes, whatever
  submissions, cancellations, closes and steps of the drainers came before.\<close>

theorem barrier_runs_alone:
  assumes "reach tq_fresh tq_any q" and "concurrency q > 1" and "i < length (drainers q)" and "j < length (drainers q)"
    and "drainers q ! i = DRun b" and "t_barrier b" and "drainers q ! j = DRun t"
  shows "j = i"
proof (cases "t_barrier t")
  case True
  have "tally barrier_owner q \<le> 1" using tqm.reach_inv [OF assms(1)] assms(2) by (simp add: tq_inv_def sync_inv_def)
  from tally_le_one [OF this assms(4,3)] assms(5-7) True show ?thesis by simp
next
  case False
  have "0 < tally in_barrier q" using assms by (intro tally_pos [OF nth_mem [OF assms(3)]]) simp
  moreover have "0 < tally executing q" using assms False by (intro tally_pos [OF nth_mem [OF assms(4)]]) simp
  ultimately show ?thesis using tqm.reach_inv [OF assms(1)] assms(2) by (simp add: tq_inv_def sync_inv_def)
qed

lemma asleep_kinds:
  "asleep_blocked d \<Longrightarrow> \<not> executing d \<and> \<not> in_barrier d \<and> \<not> barrier_owner d \<and> waiting d"
  "asleep_quiesce d \<Longrightarrow> \<not> executing d \<and> \<not> in_barrier d \<and> waiting d"
  by (cases d; simp)+

text \<open>C32. No deadlock and no lost wake-up: as long as a queue has work (a task that is buffered, in hand or
  executing, or a submitter waiting for room), at least one of its drainers is not waiting.\<close>

theorem queue_makes_progress:
  assumes "reach tq_fresh tq_any q" and "q_work q > 0"
  shows "\<exists>i < length (drainers q). s_queue_drainer i q \<noteq> None"
proof (rule ccontr)
  assume "\<not> ?thesis"
  then have none: "s_queue_drainer i q = None" if "i < length (drainers q)" for i using that by blast
  have kinds: "d = DExit \<or> (d = DRecv \<and> buffered q = [] \<and> \<not> chan_closed q) \<or> asleep_blocked d \<or> asleep_quiesce d"
    if "d \<in> set (drainers q)" for d
  proof -
    from that obtain i where i: "i < length (drainers q)" "drainers q ! i = d" by (auto simp: in_set_conv_nth)
    with none [OF i(1)] show ?thesis
      by (cases d) (auto simp: s_queue_drainer_def drainer_recv_def split: list.splits if_splits)
  qed
  have inv: "sync_inv q" "work_inv q" using tqm.reach_inv [OF assms(1)] by (simp_all add: tq_inv_def)
  have idle: "\<not> executing d \<and> \<not> in_barrier d \<and> (asleep_quiesce d \<or> \<not> barrier_owner d)" if "d \<in> set (drainers q)" for d
    using kinds [OF that] by (auto dest: asleep_kinds)
  have 1: "tally executing q = 0" "tally in_barrier q = 0" using idle by (auto simp: tally_zero)
  have 2: "tally asleep_quiesce q = 0" if "concurrency q > 1" using inv(1) 1 that by (auto simp: sync_inv_def)
  then have 3: "tally barrier_owner q = 0" if "concurrency q > 1"
    using that idle by (auto simp: tally_zero)
  have 4: "\<not> asleep_blocked d \<and> \<not> asleep_quiesce d" if "d \<in> set (drainers q)" for d
  proof (cases "concurrency q > 1")
    case True
    with 2 3 inv(1) have "tally asleep_blocked q = 0" "tally asleep_quiesce q = 0" by (simp_all add: sync_inv_def split: if_splits)
    with that show ?thesis by (auto simp: tally_zero)
  next
    case False
    with inv(1) have "tally waiting q = 0" by (simp add: sync_inv_def)
    with that show ?thesis by (auto simp: tally_zero dest: asleep_kinds)
  qed
  with kinds have d: "d = DExit \<or> d = DRecv \<and> buffered q = [] \<and> \<not> chan_closed q" if "d \<in> set (drainers q)" for d using that by blast
  have "drainers q \<noteq> []" using inv(2) by (auto simp: work_inv_def)
  then obtain d0 where d0: "d0 \<in> set (drainers q)" by (cases "drainers q") auto
  have "buffered q = []" using d [OF d0] d0 inv(2) by (auto simp: work_inv_def)
  moreover have "held d = []" if "d \<in> set (drainers q)" for d using d [OF that] by auto
  then have "tally (\<lambda>d. held d \<noteq> []) q = 0" by (simp add: tally_zero)
  ultimately show False using inv(2) assms(2) by (auto simp: work_inv_def SUSPENDERS_QUEUE_CAP_def)
qed

section \<open>Traces\<close>

definition accepted :: "tq_event list \<Rightarrow> task list" where
  "accepted evs = concat (map (\<lambda>e. case e of Accept t \<Rightarrow> [t] | _ \<Rightarrow> []) evs)"

definition started :: "tq_event list \<Rightarrow> task list" where
  "started evs = concat (map (\<lambda>e. case e of Start t \<Rightarrow> [t] | _ \<Rightarrow> []) evs)"

definition finished :: "tq_event list \<Rightarrow> task list" where
  "finished evs = concat (map (\<lambda>e. case e of Finish t \<Rightarrow> [t] | _ \<Rightarrow> []) evs)"

lemma trace_simps [simp]:
  "accepted [] = []" "started [] = []" "finished [] = []"
  "accepted (xs @ ys) = accepted xs @ accepted ys" "started (xs @ ys) = started xs @ started ys"
  "finished (xs @ ys) = finished xs @ finished ys"
  "accepted [Accept t] = [t]" "accepted [Start t] = []" "accepted [Finish t] = []"
  "started [Accept t] = []" "started [Start t] = [t]" "started [Finish t] = []"
  "finished [Accept t] = []" "finished [Start t] = []" "finished [Finish t] = [t]"
  by (simp_all add: accepted_def started_def finished_def)

text \<open>The tasks drainers have in hand and have not finished, as a multiset.\<close>

definition unfinished :: "drainer \<Rightarrow> task multiset" where
  "unfinished d = (case d of DGot t \<Rightarrow> {#t#} | DBlocked t _ \<Rightarrow> {#t#} | DQuiesce t _ \<Rightarrow> {#t#} | DRun t \<Rightarrow> {#t#} | _ \<Rightarrow> {#})"

definition in_hand :: "task_queue \<Rightarrow> task multiset" where
  "in_hand q = sum_list (map unfinished (drainers q))"

lemma in_hand_zero: "\<forall>d \<in> set (drainers q). unfinished d = {#} \<Longrightarrow> in_hand q = {#}"
proof -
  have "\<forall>d \<in> set ds. unfinished d = {#} \<Longrightarrow> sum_list (map unfinished ds) = {#}" for ds by (induction ds) auto
  then show "\<forall>d \<in> set (drainers q). unfinished d = {#} \<Longrightarrow> in_hand q = {#}" by (simp add: in_hand_def)
qed

lemma in_hand_set:
  "i < length (drainers q) \<Longrightarrow> in_hand (set_drainer i d q) + unfinished (drainers q ! i) = in_hand q + unfinished d"
  by (simp add: in_hand_def sum_update)

lemma in_hand_other [simp]:
  "in_hand (q\<lparr>buffered := b\<rparr>) = in_hand q" "in_hand (q\<lparr>parked := p\<rparr>) = in_hand q" "in_hand (q\<lparr>active := a\<rparr>) = in_hand q"
  "in_hand (q\<lparr>barrier_pending := bp\<rparr>) = in_hand q" "in_hand (q\<lparr>q_work := w\<rparr>) = in_hand q"
  "in_hand (q\<lparr>chan_closed := cl\<rparr>) = in_hand q" "in_hand (broadcast q) = in_hand q"
proof -
  have "unfinished (wake d) = unfinished d" for d by (simp add: unfinished_def wake_def split: drainer.splits)
  then show "in_hand (broadcast q) = in_hand q" by (simp add: in_hand_def broadcast_def comp_def)
qed (simp_all add: in_hand_def)

lemma in_hand_same:
  assumes "i < length (drainers q)" "unfinished (drainers q ! i) = unfinished d"
  shows "in_hand (set_drainer i d q) = in_hand q"
  using in_hand_set [OF assms(1), of d] assms(2) by simp

lemma account_enter:
  assumes i: "i < length (drainers q)" and d: "unfinished (drainers q ! i) = {#t#}"
  shows "in_hand (snd (drainer_enter i t q)) = in_hand q" "in_hand (snd (drainer_quiesce i t q)) = in_hand q"
    "buffered (snd (drainer_enter i t q)) = buffered q" "buffered (snd (drainer_quiesce i t q)) = buffered q"
    "accepted (fst (drainer_enter i t q)) = []" "accepted (fst (drainer_quiesce i t q)) = []"
    "finished (fst (drainer_enter i t q)) = []" "finished (fst (drainer_quiesce i t q)) = []"
  using i d by (simp_all add: drainer_enter_def drainer_quiesce_def in_hand_same unfinished_def)

text \<open>Every step keeps the account: what has been accepted is finished, buffered or in hand.\<close>

lemma account_drain:
  assumes i: "i < length (drainers q)" and s: "s_queue_drainer i q = Some (ev, q')"
  shows "mset (finished ev) + mset (buffered q') + in_hand q' = mset (accepted ev) + mset (buffered q) + in_hand q"
proof (cases "drainers q ! i")
  case DRecv
  have h: "in_hand (set_drainer i (DGot t) (q\<lparr>buffered := b\<rparr>)) = in_hand q + {#t#}"
    "in_hand (set_drainer i (DGot t) (q\<lparr>buffered := b, parked := p\<rparr>)) = in_hand q + {#t#}" "in_hand (set_drainer i DExit q) = in_hand q" for t b p
    using in_hand_set [of i "q\<lparr>buffered := b\<rparr>" "DGot t"] in_hand_set [of i "q\<lparr>buffered := b, parked := p\<rparr>" "DGot t"]
      in_hand_set [OF i, of DExit] i DRecv by (simp_all add: unfinished_def)
  with s DRecv show ?thesis by (auto simp: s_queue_drainer_def drainer_recv_def split: list.splits if_splits)
next
  case (DRun t)
  then have "in_hand (set_drainer i (DDone t) q) + {#t#} = in_hand q" using in_hand_set [OF i, of "DDone t"] by (simp add: unfinished_def)
  with s DRun show ?thesis by (auto simp: s_queue_drainer_def)
next
  case (DDone t)
  have w: "unfinished (drainers (broadcast q1) ! i) = {#}" "i < length (drainers (broadcast q1))" if "drainers q1 = drainers q" for q1
    using DDone i that by (simp_all add: broadcast_def wake_def unfinished_def)
  have "in_hand (drainer_leave i t q) = in_hand q" "buffered (drainer_leave i t q) = buffered q"
    using w DDone i by (auto simp: drainer_leave_def Let_def in_hand_same unfinished_def)
  with s DDone show ?thesis by (auto simp: s_queue_drainer_def)
qed (use s account_enter [OF i] in \<open>auto simp: s_queue_drainer_def unfinished_def split: if_splits\<close>)

lemma account_run:
  "tq_run q0 evs q \<Longrightarrow> tq_fresh q0 \<Longrightarrow> mset (accepted evs) = mset (finished evs) + mset (buffered q) + in_hand q"
proof (induction rule: tq_run.induct)
  case run_nil
  have "in_hand (q0 :: task_queue) = {#}" if "drainers q0 = replicate n DRecv" for n
    using that by (intro in_hand_zero) (simp add: unfinished_def)
  with run_nil show ?case by (auto simp: tq_fresh_def suspenders_queue_create_def Let_def split: if_splits)
next
  case (run_step evs q ev q')
  from \<open>tq_step q ev q'\<close> have "mset (finished ev) + mset (buffered q') + in_hand q' = mset (accepted ev) + mset (buffered q) + in_hand q"
  proof (cases rule: tq_step.cases)
    case (submit in_cr t r)
    then show ?thesis by (auto simp: s_queue_submit_def Let_def split: if_splits)
  next
    case (cancel i)
    then show ?thesis by (simp add: cancel_submit_def)
  next
    case (drain i)
    then show ?thesis by (simp add: account_drain)
  next
    case (stray i)
    have "unfinished (wake d) = unfinished d" for d by (simp add: unfinished_def wake_def split: drainer.splits)
    with stray show ?thesis by (simp add: in_hand_same)
  next
    case close
    then show ?thesis by (simp add: queue_close_def)
  qed
  with run_step show ?case by (auto simp: ac_simps)
qed


text \<open>The order of a serial queue.\<close>

definition serial_view :: "tq_event list \<Rightarrow> task_queue \<Rightarrow> bool" where
  "serial_view evs q \<longleftrightarrow>
     (\<exists>d. drainers q = [d] \<and> concurrency q = 1 \<and> \<not> waiting d \<and>
        accepted evs = started evs @ (case d of DGot t \<Rightarrow> [t] | _ \<Rightarrow> []) @ buffered q \<and>
        started evs = finished evs @ (case d of DRun t \<Rightarrow> [t] | _ \<Rightarrow> []))"

lemma serial_drain:
  assumes v: "serial_view evs q" and i: "i < length (drainers q)" and s: "s_queue_drainer i q = Some (ev, q')"
  shows "serial_view (evs @ ev) q'"
proof -
  from v obtain d where d: "drainers q = [d]" "concurrency q = 1" "\<not> waiting d"
    "accepted evs = started evs @ (case d of DGot t \<Rightarrow> [t] | _ \<Rightarrow> []) @ buffered q"
    "started evs = finished evs @ (case d of DRun t \<Rightarrow> [t] | _ \<Rightarrow> [])" by (auto simp: serial_view_def)
  with i have i0: "i = 0" by simp
  show ?thesis
  proof (cases d)
    case DRecv
    with s d i0 show ?thesis
      by (auto simp: s_queue_drainer_def drainer_recv_def serial_view_def split: list.splits if_splits)
  next
    case (DDone t)
    with s d i0 show ?thesis by (auto simp: s_queue_drainer_def drainer_leave_def serial_view_def)
  qed (use s d i0 in \<open>auto simp: s_queue_drainer_def drainer_enter_def serial_view_def\<close>)
qed

lemma serial_run:
  "tq_run q0 evs q \<Longrightarrow> tq_fresh q0 \<Longrightarrow> concurrency q0 = 1 \<Longrightarrow> serial_view evs q"
proof (induction rule: tq_run.induct)
  case run_nil
  then show ?case by (auto simp: tq_fresh_def suspenders_queue_create_def Let_def serial_view_def split: if_splits)
next
  case (run_step evs q ev q')
  then have v: "serial_view evs q" by simp
  from \<open>tq_step q ev q'\<close> show ?case
  proof (cases rule: tq_step.cases)
    case (submit in_cr t r)
    with v show ?thesis by (auto simp: s_queue_submit_def Let_def serial_view_def split: if_splits)
  next
    case (drain i)
    with v show ?thesis using serial_drain by blast
  next
    case (stray i)
    have "wake d = d" if "\<not> waiting d" for d using that by (cases d) (simp_all add: wake_def)
    with stray v show ?thesis by (auto simp: serial_view_def)
  qed (use v in \<open>auto simp: serial_view_def cancel_submit_def queue_close_def\<close>)
qed

text \<open>A serial queue executes its tasks one at a time in the order in which they were accepted: in every
  run the started tasks are an initial part of the accepted ones, and all of them but possibly the last have
  finished.\<close>

theorem serial_queue_in_order:
  assumes "tq_fresh q0" and "concurrency q0 = 1" and "tq_run q0 evs q"
  shows "(\<exists>rest. accepted evs = started evs @ rest) \<and> (started evs = finished evs \<or> (\<exists>t. started evs = finished evs @ [t]))"
proof -
  obtain d where "accepted evs = started evs @ (case d of DGot t \<Rightarrow> [t] | _ \<Rightarrow> []) @ buffered q"
    "started evs = finished evs @ (case d of DRun t \<Rightarrow> [t] | _ \<Rightarrow> [])"
    using serial_run [OF assms(3,1,2)] by (auto simp: serial_view_def)
  then show ?thesis by (cases d) auto
qed

section \<open>What a barrier does not order\<close>

text \<open>A task that has been taken from the channel is not yet counted as active. With two drainers a barrier
  may therefore overtake an earlier task, and a later task may overtake a barrier.\<close>

definition plain_task :: "nat \<Rightarrow> task" where
  "plain_task n = \<lparr>t_fn = n, t_arg = 0, t_barrier = False, t_sync = None\<rparr>"

definition barrier_task :: "nat \<Rightarrow> task" where
  "barrier_task n = \<lparr>t_fn = n, t_arg = 0, t_barrier = True, t_sync = None\<rparr>"

definition two_drainers :: task_queue where
  "two_drainers = \<lparr>q_label = [], q_qos = 2, concurrency = 2, buffered = [], parked = [], chan_closed = False, active = 0,
     barrier_pending = False, drainers = [DRecv, DRecv], q_work = 0\<rparr>"

lemma two_drainers_fresh: "tq_fresh two_drainers"
proof -
  have "suspenders_queue_create True True True [True, True] None 2 2 = Inr two_drainers"
    by (simp add: suspenders_queue_create_def two_drainers_def suspenders_clamp_qos_def)
  then show ?thesis unfolding tq_fresh_def by blast
qed

text \<open>Moves of drainers and submissions as an executable run.\<close>

datatype move = Sub task | Go nat | Shut

fun play :: "move list \<Rightarrow> task_queue \<Rightarrow> (tq_event list \<times> task_queue) option" where
  "play [] q = Some ([], q)"
| "play (Sub t # ms) q =
     (case s_queue_submit True t q of
        (r, q1) \<Rightarrow> map_option (\<lambda>(evs, q2). ((if r = Some SUSPENDERS_OK then [Accept t] else []) @ evs, q2)) (play ms q1))"
| "play (Shut # ms) q = play ms (queue_close q)"
| "play (Go i # ms) q =
     (if i < length (drainers q) then
        (case s_queue_drainer i q of
           None \<Rightarrow> None
         | Some (ev, q1) \<Rightarrow> map_option (\<lambda>(evs, q2). (ev @ evs, q2)) (play ms q1))
      else None)"

lemma play_run: "tq_run q0 pre q \<Longrightarrow> play ms q = Some (evs, q') \<Longrightarrow> tq_run q0 (pre @ evs) q'"
proof (induction ms arbitrary: pre q evs)
  case (Cons m ms)
  show ?case
  proof (cases m)
    case (Sub t)
    obtain r q1 where s: "s_queue_submit True t q = (r, q1)" by force
    with Cons.prems Sub obtain evs1 where p: "play ms q1 = Some (evs1, q')"
      "evs = (if r = Some SUSPENDERS_OK then [Accept t] else []) @ evs1" by (auto simp del: SUSPENDERS_OK_def)
    from Cons.IH [OF run_step [OF Cons.prems(1) submit [OF s]] p(1)] p(2) show ?thesis by (simp del: SUSPENDERS_OK_def)
  next
    case Shut
    with Cons.IH [OF run_step [OF Cons.prems(1) close], of evs] Cons.prems show ?thesis by simp
  next
    case (Go i)
    with Cons.prems obtain ev q1 evs1 where s: "i < length (drainers q)" "s_queue_drainer i q = Some (ev, q1)"
      "play ms q1 = Some (evs1, q')" "evs = ev @ evs1" by (auto split: if_splits option.splits)
    from Cons.IH [OF run_step [OF Cons.prems(1) drain [OF s(1,2)]] s(3)] s(4) show ?thesis by simp
  qed
qed simp

definition overtake :: "task list \<Rightarrow> nat list \<Rightarrow> (tq_event list \<times> task_queue) option" where
  "overtake ts gs = play (map Sub ts @ map Go gs) two_drainers"

text \<open>The order around a barrier is not kept: on a queue with two drainers there are runs in which a barrier
  starts, and even finishes, before a task that was accepted earlier has started, and runs in which a task
  accepted after a barrier starts before it.\<close>

theorem barrier_order_violated:
  "(\<exists>evs q. tq_fresh two_drainers \<and> tq_run two_drainers evs q \<and>
      accepted evs = [plain_task 1, barrier_task 2] \<and> started evs = [barrier_task 2, plain_task 1] \<and> finished evs = [barrier_task 2]) \<and>
   (\<exists>evs q. tq_run two_drainers evs q \<and>
      accepted evs = [barrier_task 1, plain_task 2] \<and> started evs = [plain_task 2])"
proof -
  have 1: "\<exists>evs q. overtake [plain_task 1, barrier_task 2] [0, 1, 1, 1, 1, 0] = Some (evs, q) \<and>
      accepted evs = [plain_task 1, barrier_task 2] \<and> started evs = [barrier_task 2, plain_task 1] \<and> finished evs = [barrier_task 2]"
    by (simp add: overtake_def two_drainers_def plain_task_def barrier_task_def s_queue_submit_def SUSPENDERS_QUEUE_CAP_def
        s_queue_drainer_def drainer_recv_def drainer_enter_def drainer_leave_def set_drainer_def broadcast_def wake_def
        accepted_def started_def finished_def)
  have 2: "\<exists>evs q. overtake [barrier_task 1, plain_task 2] [0, 1, 1] = Some (evs, q) \<and>
      accepted evs = [barrier_task 1, plain_task 2] \<and> started evs = [plain_task 2]"
    by (simp add: overtake_def two_drainers_def plain_task_def barrier_task_def s_queue_submit_def SUSPENDERS_QUEUE_CAP_def
        s_queue_drainer_def drainer_recv_def drainer_enter_def set_drainer_def accepted_def started_def)
  have r: "tq_run two_drainers evs q" if "overtake ts gs = Some (evs, q)" for ts gs evs q
    using play_run [OF run_nil, of "map Sub ts @ map Go gs" two_drainers evs q] that by (simp add: overtake_def)
  from 1 2 show ?thesis using r two_drainers_fresh by blast
qed

section \<open>Examples\<close>

lemmas play_defs = two_drainers_def plain_task_def barrier_task_def s_queue_submit_def SUSPENDERS_QUEUE_CAP_def
  s_queue_drainer_def drainer_recv_def drainer_enter_def drainer_leave_def set_drainer_def broadcast_def wake_def queue_close_def

definition barrier_state :: task_queue where
  "barrier_state = two_drainers\<lparr>barrier_pending := True, drainers := [DRun (barrier_task 1), DGot (plain_task 2)], q_work := 2\<rparr>"

lemma barrier_state_reach: "reach tq_fresh tq_any barrier_state"
proof -
  have "\<exists>evs. play [Sub (barrier_task 1), Sub (plain_task 2), Go 0, Go 0, Go 1] two_drainers = Some (evs, barrier_state)"
    by (simp add: play_defs barrier_state_def)
  then show ?thesis using play_run [OF run_nil] run_reach two_drainers_fresh by (metis append_Nil)
qed

theorem barrier_runs_alone_witness:
  "drainers barrier_state ! 0 = DRun (barrier_task 1) \<and> drainers barrier_state ! 1 \<notin> range DRun"
proof -
  have "drainers barrier_state ! 1 \<noteq> DRun t" for t
    using barrier_runs_alone [OF barrier_state_reach, of 0 1 "barrier_task 1" t]
    by (auto simp: barrier_state_def two_drainers_def barrier_task_def)
  then show ?thesis by (auto simp: barrier_state_def)
qed

theorem queue_makes_progress_witness:
  "q_work barrier_state = 2 \<and> (\<exists>i < 2. s_queue_drainer i barrier_state \<noteq> None)"
proof -
  have "length (drainers barrier_state) = 2" "q_work barrier_state = 2" by (simp_all add: barrier_state_def)
  then show ?thesis using queue_makes_progress [OF barrier_state_reach] by simp
qed

definition one_drainer :: task_queue where
  "one_drainer = two_drainers\<lparr>concurrency := 1, drainers := [DRecv]\<rparr>"

lemma one_drainer_fresh: "tq_fresh one_drainer"
proof -
  have "suspenders_queue_create True True True [True] None 2 1 = Inr one_drainer"
    by (simp add: suspenders_queue_create_def one_drainer_def two_drainers_def suspenders_clamp_qos_def)
  then show ?thesis unfolding tq_fresh_def by blast
qed

definition one_evs :: "tq_event list" where
  "one_evs = [Accept (plain_task 1), Accept (plain_task 2), Start (plain_task 1), Finish (plain_task 1),
     Start (plain_task 2), Finish (plain_task 2)]"

lemma one_run:
  "tq_run one_drainer one_evs (one_drainer\<lparr>chan_closed := True, drainers := [DExit]\<rparr>)"
proof -
  have "play [Sub (plain_task 1), Sub (plain_task 2), Go 0, Go 0, Go 0, Go 0, Go 0, Shut, Go 0, Go 0, Go 0, Go 0] one_drainer =
      Some (one_evs, one_drainer\<lparr>chan_closed := True, drainers := [DExit]\<rparr>)"
    by (simp add: play_defs one_drainer_def one_evs_def)
  from play_run [OF run_nil this] show ?thesis by simp
qed


theorem serial_queue_in_order_witness:
  "\<exists>rest. accepted one_evs = started one_evs @ rest"
  using serial_queue_in_order [OF one_drainer_fresh _ one_run] by (simp add: one_drainer_def)

end
