(* ===== verification/Lifecycle.thy ===== *)
theory Lifecycle
  imports Task_Queue Timers
begin

text \<open>
  The life of coroutines and of the runtime: spawning, running on a worker, exit with its cleanup handlers, the
  injector and the inboxes, the passes of the worker loop, and initialization and shutdown.

  A coroutine is its record in \<open>crs\<close> together with its arena; the memory allocator is what the arguments say it
  answers. The body of a coroutine is arbitrary code that calls the other operations; cleanup handlers are
  recorded in \<open>calls\<close> in the order in which they are invoked.
\<close>

section \<open>The live list and exit\<close>

definition s_live_link :: "cr_ref \<Rightarrow> rt \<Rightarrow> rt" where
  "s_live_link c s = s\<lparr>live_crs := c # live_crs s\<rparr>"

definition s_live_unlink :: "cr_ref \<Rightarrow> rt \<Rightarrow> rt" where
  "s_live_unlink c s = s\<lparr>live_crs := remove1 c (live_crs s)\<rparr>"

definition suspenders_zombie_enqueue :: "cr_ref \<Rightarrow> rt \<Rightarrow> rt" where
  "suspenders_zombie_enqueue c s = (let s1 = s_live_unlink c s in s1\<lparr>zombies := c # zombies s1\<rparr>)"

text \<open>A null handler is skipped.\<close>

definition call_handler :: "fn \<times> ptr \<Rightarrow> rt \<Rightarrow> rt" where
  "call_handler h s = (if fst h \<noteq> 0 then s\<lparr>calls := calls s @ [h]\<rparr> else s)"

fun cleanup_loop :: "(fn \<times> ptr) list \<Rightarrow> cr_ref \<Rightarrow> rt \<Rightarrow> rt" where
  "cleanup_loop [] c s = s"
| "cleanup_loop (h # hs) c s = cleanup_loop hs c (call_handler h (upd_cr c (\<lambda>r. r\<lparr>cleanup_head := hs\<rparr>) s))"

definition disarm_deadline :: "cr_ref \<Rightarrow> rt \<Rightarrow> rt" where
  "disarm_deadline c s =
     (if deadline_armed (crs s c) then upd_cr c (\<lambda>r. r\<lparr>deadline_armed := False\<rparr>) (s_timer_disarm (TDeadline c) s) else s)"

definition mark_done :: "cr_ref \<Rightarrow> rt \<Rightarrow> rt" where
  "mark_done c s =
     (if cr_state (crs s c) = DONE then s
      else
        (let s1 = upd_cr c (\<lambda>r. r\<lparr>cr_state := DONE\<rparr>) s in
         if daemon (crs s c) then s1
         else
           (let s2 = s1\<lparr>active_coroutines := active_coroutines s1 - 1\<rparr> in
            if active_coroutines s1 = 1 \<and> num_workers s \<noteq> 0 \<and> s_worker s \<noteq> Some 0 then s_worker_signal 0 s2 else s2)))"

text \<open>Exit ends with the switch to the scheduler. (Without a running coroutine the code is undefined.)\<close>

definition suspenders_cr_exit :: "rt \<Rightarrow> rt" where
  "suspenders_cr_exit s =
     (case running s of
        None \<Rightarrow> s
      | Some c \<Rightarrow>
          (let s1 = cleanup_loop (cleanup_head (crs s c)) c s;
               s2 = disarm_deadline c s1;
               s3 = mark_done c s2;
               s4 = suspenders_zombie_enqueue c s3
           in if main_cr s4 \<noteq> None then ctx_switch_main s4 else s4))"

section \<open>Identity and cleanup handlers\<close>

definition suspenders_getid :: "rt \<Rightarrow> u64" where
  "suspenders_getid s = (case suspenders_self s of None \<Rightarrow> 0 | Some c \<Rightarrow> cr_id (crs s c))"

text \<open>Names are C strings without their terminator; 31 characters are kept.\<close>

definition suspenders_setname :: "bytes option \<Rightarrow> rt \<Rightarrow> int \<times> rt" where
  "suspenders_setname nm s =
     (case (suspenders_self s, nm) of
        (Some c, Some n) \<Rightarrow> (SUSPENDERS_OK, upd_cr c (\<lambda>r. r\<lparr>cr_name := take 31 n\<rparr>) s)
      | _ \<Rightarrow> (SUSPENDERS_INVAL, set_errno SUSPENDERS_INVAL s))"

definition suspenders_getname :: "rt \<Rightarrow> bytes" where
  "suspenders_getname s = (case suspenders_self s of None \<Rightarrow> [] | Some c \<Rightarrow> cr_name (crs s c))"

definition suspenders_stack_size :: "rt \<Rightarrow> nat" where
  "suspenders_stack_size s = (case suspenders_self s of None \<Rightarrow> 0 | Some c \<Rightarrow> stack_size (crs s c))"

definition suspenders_cleanup_push :: "bool \<Rightarrow> fn \<Rightarrow> ptr \<Rightarrow> rt \<Rightarrow> rt" where
  "suspenders_cleanup_push node f a s =
     (case suspenders_self s of
        Some c \<Rightarrow> if node then upd_cr c (\<lambda>r. r\<lparr>cleanup_head := (f, a) # cleanup_head r\<rparr>) s else s
      | None \<Rightarrow> s)"

definition suspenders_cleanup_pop :: "bool \<Rightarrow> rt \<Rightarrow> rt" where
  "suspenders_cleanup_pop execute s =
     (case suspenders_self s of
        None \<Rightarrow> s
      | Some c \<Rightarrow>
          (case cleanup_head (crs s c) of
             [] \<Rightarrow> s
           | h # hs \<Rightarrow>
               (let s1 = upd_cr c (\<lambda>r. r\<lparr>cleanup_head := hs\<rparr>) s in if execute then call_handler h s1 else s1)))"

definition suspenders_exit :: "rt \<Rightarrow> rt" where
  "suspenders_exit s = (if suspenders_self s = None then s else suspenders_cr_exit s)"

section \<open>Spawning\<close>

definition SUSPENDERS_STACK_SIZE :: nat where "SUSPENDERS_STACK_SIZE = 1048576"

text \<open>The record of a fresh coroutine, zeroed but for these fields.\<close>

definition fresh_coroutine :: "u64 \<Rightarrow> int \<Rightarrow> bool \<Rightarrow> coroutine" where
  "fresh_coroutine i qos dmn =
     zero_coroutine\<lparr>cr_state := READY, base_qos := qos, effective_qos := qos, cr_id := i, stack_size := SUSPENDERS_STACK_SIZE, daemon := dmn\<rparr>"

text \<open>The first worker that is found parked is signalled.\<close>

fun signal_parked :: "nat list \<Rightarrow> rt \<Rightarrow> rt" where
  "signal_parked [] s = s"
| "signal_parked (i # ws) s = (if rt.parked s i then s_worker_signal i s else signal_parked ws s)"

definition injector_push :: "cr_ref \<Rightarrow> int \<Rightarrow> rt \<Rightarrow> rt" where
  "injector_push c qos s =
     s\<lparr>injector := ready_push (injector s) (suspenders_clamp_qos qos) c, injector_count := injector_count s + 1\<rparr>"

text \<open>\<open>arena\<close> and \<open>stack\<close> are the results of the two allocations and \<open>c\<close> is the address of the new record.\<close>

definition s_spawn_impl :: "bool \<Rightarrow> bool \<Rightarrow> cr_ref \<Rightarrow> fn \<Rightarrow> int \<Rightarrow> bool \<Rightarrow> rt \<Rightarrow> cr_ref option \<times> rt" where
  "s_spawn_impl arena stack c func qos dmn s =
     (if \<not> runtime_up s then (None, set_errno SUSPENDERS_NOTINIT s)
      else if func = 0 then (None, set_errno SUSPENDERS_INVAL s)
      else
        (let s1 = s_main_cr_get s in
         if \<not> arena \<or> \<not> stack then (None, set_errno SUSPENDERS_NOMEM s1)
         else
           (let s2 = upd_node (Emb c) (\<lambda>_. zero_node) (upd_cr c (\<lambda>_. fresh_coroutine (next_id s1) qos dmn) (s1\<lparr>next_id := next_id s1 + 1\<rparr>));
                s3 = (if dmn then s2 else s2\<lparr>active_coroutines := active_coroutines s2 + 1\<rparr>)
            in if num_workers s3 > 1 \<or> s_worker s3 = None
               then (Some c, signal_parked [0..<num_workers s3] (injector_push c qos s3))
               else (Some c, suspenders_ready_enqueue c (s_live_link c (upd_cr c (\<lambda>r. r\<lparr>cr_worker := s_worker s3\<rparr>) s3))))))"

definition suspenders_spawn :: "bool \<Rightarrow> bool \<Rightarrow> cr_ref \<Rightarrow> fn \<Rightarrow> int \<Rightarrow> rt \<Rightarrow> cr_ref option \<times> rt" where
  "suspenders_spawn arena stack c func qos s = s_spawn_impl arena stack c func qos False s"

definition suspenders_go :: "bool \<Rightarrow> bool \<Rightarrow> cr_ref \<Rightarrow> fn \<Rightarrow> rt \<Rightarrow> cr_ref option \<times> rt" where
  "suspenders_go arena stack c func s = s_spawn_impl arena stack c func SUSPENDERS_QOS_NORMAL False s"

section \<open>The injector and the inbox\<close>

definition s_injector_take :: "rt \<Rightarrow> cr_ref option \<times> rt" where
  "s_injector_take s =
     (if injector_count s = 0 then (None, s)
      else
        (case ready_take (injector s) of
           (None, _) \<Rightarrow> (None, s)
         | (Some c, qs) \<Rightarrow>
             (let s1 = s_live_link c (upd_cr c (\<lambda>r. r\<lparr>cr_worker := s_worker s\<rparr>)
                         (s\<lparr>injector := qs, injector_count := injector_count s - 1\<rparr>))
              in (Some c, if cancel_requested (crs s1 c) then upd_cr c (\<lambda>r. r\<lparr>pending_wake := True\<rparr>) s1 else s1))))"

text \<open>Delivering a wake-up on the worker of the coroutine: a pending cancellation is delivered here; a coroutine
  that is not suspended keeps the wake-up until it switches out.\<close>

definition deliver_wake :: "cr_ref \<Rightarrow> rt \<Rightarrow> rt" where
  "deliver_wake c s =
     (if cr_state (crs s c) = SUSPENDED then suspenders_ready_enqueue c s
      else if cr_state (crs s c) \<noteq> DONE then upd_cr c (\<lambda>r. r\<lparr>pending_wake := True\<rparr>) s else s)"

definition s_inbox_deliver :: "cr_ref \<Rightarrow> rt \<Rightarrow> rt" where
  "s_inbox_deliver c s =
     (if cancel_requested (crs s c) then
        (case s_waiter_wake c SUSPENDERS_CANCELED s of
           (True, s1) \<Rightarrow> s1
         | (False, s1) \<Rightarrow>
             (case (if iouring s1 then pending_io (crs s1 c) else None) of
                Some op \<Rightarrow> s_iou_cancel op s1
              | None \<Rightarrow>
                  deliver_wake c (if cr_state (crs s1 c) = SUSPENDED then upd_cr c (\<lambda>r. r\<lparr>io_result := -1\<rparr>) s1 else s1)))
      else deliver_wake c s)"

fun deliver_all :: "cr_ref list \<Rightarrow> rt \<Rightarrow> rt" where
  "deliver_all [] s = s"
| "deliver_all (c # cs) s = deliver_all cs (s_inbox_deliver c (upd_cr c (\<lambda>r. r\<lparr>wake_inflight := False\<rparr>) s))"

definition s_inbox_drain :: "nat \<Rightarrow> rt \<Rightarrow> rt" where
  "s_inbox_drain w s = deliver_all (rev (inbox s w)) (s\<lparr>inbox := (inbox s)(w := [])\<rparr>)"

section \<open>The worker loop\<close>

definition s_run_complete :: "nat \<Rightarrow> rt \<Rightarrow> bool" where
  "s_run_complete w s \<longleftrightarrow> suspenders_ready_queue_empty s \<and> inbox s w = [] \<and> injector_count s = 0 \<and>
     active_coroutines s = 0 \<and> queue_work s = 0 \<and> th_data (timer_heap s) = []"

text \<open>The next coroutine: the inbox is drained, the ready lists come before the injector.\<close>

definition worker_pick :: "nat \<Rightarrow> rt \<Rightarrow> cr_ref option \<times> rt" where
  "worker_pick w s =
     (let s1 = (if inbox s w \<noteq> [] then s_inbox_drain w s else s) in
      case suspenders_ready_dequeue s1 of
        (Some c, s2) \<Rightarrow> (Some c, s2)
      | (None, s2) \<Rightarrow> s_injector_take s2)"

definition worker_enter :: "cr_ref \<Rightarrow> rt \<Rightarrow> rt" where
  "worker_enter c s = upd_cr c (\<lambda>r. r\<lparr>cr_state := RUNNING\<rparr>) (s\<lparr>running := Some c\<rparr>)"

text \<open>After the coroutine has switched back.\<close>

definition worker_leave :: "cr_ref \<Rightarrow> rt \<Rightarrow> rt" where
  "worker_leave c s =
     (let s1 = s\<lparr>running := main_cr s\<rparr> in
      if pending_wake (crs s1 c) \<and> cr_state (crs s1 c) \<noteq> DONE
      then s_inbox_deliver c (upd_cr c (\<lambda>r. r\<lparr>pending_wake := False\<rparr>) s1) else s1)"

text \<open>The arenas the reap destroys, in order.\<close>

definition s_zombie_reap :: "rt \<Rightarrow> cr_ref list \<times> rt" where
  "s_zombie_reap s = (zombies s, s\<lparr>zombies := []\<rparr>)"

definition s_live_reap :: "rt \<Rightarrow> cr_ref list \<times> rt" where
  "s_live_reap s = (live_crs s, s\<lparr>live_crs := []\<rparr>)"

text \<open>The timeout of the idle wait in milliseconds; the conversion to \<open>int\<close> keeps 32 bits.\<close>

definition idle_timeout :: "rt \<Rightarrow> int" where
  "idle_timeout s =
     (case th_data (timer_heap s) of
        [] \<Rightarrow> -1
      | t # _ \<Rightarrow>
          (let nxt = deadline_ns (timers s t) in
           if nxt \<le> now_ns s then 0
           else max 1 (sint (ucast ((nxt - now_ns s) div 1000000) :: 32 word))))"

text \<open>One pass of the loop: leave it, switch to a coroutine, wait in the backend, or go round again. The second
  component holds the arenas destroyed in the pass.\<close>

datatype pass = LoopLeave rt | LoopSwitch cr_ref rt | LoopWait int rt | LoopAgain rt

definition set_parked :: "nat \<Rightarrow> bool \<Rightarrow> rt \<Rightarrow> rt" where
  "set_parked w b s = s\<lparr>rt.parked := (rt.parked s)(w := b)\<rparr>"

definition s_worker_loop :: "bool \<Rightarrow> nat \<Rightarrow> rt \<Rightarrow> pass \<times> cr_ref list" where
  "s_worker_loop is_run_caller w s =
     (if s_stop s then (LoopLeave s, [])
      else
        (case worker_pick w s of
           (Some c, s1) \<Rightarrow> (LoopSwitch c (worker_enter c s1), [])
         | (None, s1) \<Rightarrow>
             (let (freed, s2) = s_zombie_reap s1 in
              if is_run_caller \<and> s_run_complete w s2 then (LoopLeave s2, freed)
              else
                (let s3 = set_parked w True s2 in
                 if inbox s3 w = [] \<and> injector_count s3 = 0 \<and> \<not> s_stop s3 \<and> \<not> (is_run_caller \<and> s_run_complete w s3)
                 then (LoopWait (idle_timeout s2) s3, freed) else (LoopAgain s3, freed)))))"

text \<open>After the wait: \<open>parked\<close> is cleared and the expired timers fire.\<close>

definition worker_unpark :: "nat \<Rightarrow> rt \<Rightarrow> rt option" where
  "worker_unpark w s = suspenders_timer_fire_expired (set_parked w False s)"

section \<open>Initialization and shutdown\<close>

text \<open>What belongs to the process beside the runtime state: whether this thread is initialized, whether its backend
  exists, the hint for it, the task queues, and the arenas of coroutines that are allocated. \<open>bad_free\<close> records that
  an arena was destroyed that was not allocated.\<close>

record process =
  pr_rt :: rt
  pr_init :: bool
  pr_backend :: bool
  pr_hint :: nat
  pr_queues :: queue_table
  pr_arenas :: "cr_ref set"
  bad_free :: bool

definition s_cr_arena_destroy :: "cr_ref \<Rightarrow> process \<Rightarrow> process" where
  "s_cr_arena_destroy c p = p\<lparr>pr_arenas := pr_arenas p - {c}, bad_free := (bad_free p \<or> c \<notin> pr_arenas p)\<rparr>"

fun destroy_all :: "cr_ref list \<Rightarrow> process \<Rightarrow> process" where
  "destroy_all [] p = p"
| "destroy_all (c # cs) p = destroy_all cs (s_cr_arena_destroy c p)"

definition on_rt :: "(rt \<Rightarrow> rt) \<Rightarrow> process \<Rightarrow> process" where
  "on_rt f p = p\<lparr>pr_rt := f (pr_rt p)\<rparr>"

text \<open>A worker slot after \<open>memset\<close>, with a fresh wake descriptor or none.\<close>

definition reset_workers :: "nat \<Rightarrow> rt \<Rightarrow> rt" where
  "reset_workers n s =
     s\<lparr>inbox := (\<lambda>i. if i < n then [] else inbox s i), rt.parked := (\<lambda>i. if i < n then False else rt.parked s i)\<rparr>"

definition create_wake_fds :: "nat \<Rightarrow> rt \<Rightarrow> rt" where
  "create_wake_fds n s = s\<lparr>wake_fd := (\<lambda>i. if i < n then Some 0 else wake_fd s i)\<rparr>"

definition destroy_wake_fds :: "nat \<Rightarrow> rt \<Rightarrow> rt" where
  "destroy_wake_fds n s = s\<lparr>wake_fd := (\<lambda>i. if i < n then None else wake_fd s i)\<rparr>"

text \<open>The failure exits of \<open>suspenders_init\<close> after the workers have been allocated.\<close>

definition init_rollback :: "nat \<Rightarrow> int \<Rightarrow> process \<Rightarrow> int \<times> process" where
  "init_rollback n e p =
     (e, (on_rt (\<lambda>s. set_errno e ((destroy_wake_fds n s)\<lparr>num_workers := 0\<rparr>)) p)\<lparr>pr_backend := False\<rparr>)"

text \<open>\<open>suspenders_init\<close>: \<open>heap\<close>, \<open>backend\<close> and \<open>wmem\<close> say whether the heap, the backend and the memory for the workers are
  there, \<open>fds\<close> which wake descriptors and \<open>threads\<close> which helper threads can be created. (The transports are
  registered in the \<open>Hose\<close> theory.)\<close>

definition suspenders_init ::
    "bool \<Rightarrow> bool \<Rightarrow> bool \<Rightarrow> (nat \<Rightarrow> bool) \<Rightarrow> (nat \<Rightarrow> bool) \<Rightarrow> nat \<Rightarrow> nat \<Rightarrow> process \<Rightarrow> int \<times> process" where
  "suspenders_init heap backend wmem fds threads nworkers hint p =
     (if \<not> heap then (SUSPENDERS_NOMEM, on_rt (set_errno SUSPENDERS_NOMEM) p)
      else
        (let p1 = p\<lparr>pr_hint := (if hint = 0 then 256 else hint), pr_backend := backend\<rparr>;
             n = (if nworkers = 0 then 1 else nworkers)
         in if \<not> backend then (SUSPENDERS_ERROR, on_rt (set_errno SUSPENDERS_ERROR) p1)
            else
              (let p2 = on_rt (\<lambda>s. s\<lparr>s_stop := False, injector := (\<lambda>q. if q < 4 then [] else injector s q), injector_count := 0\<rparr>) p1 in
               if \<not> wmem then (SUSPENDERS_NOMEM, (on_rt (set_errno SUSPENDERS_NOMEM) p2)\<lparr>pr_backend := False\<rparr>)
               else
                 (let p3 = on_rt (\<lambda>s. (reset_workers n s)\<lparr>num_workers := n\<rparr>) p2 in
                  if \<not> list_all fds [0..<n] then init_rollback n SUSPENDERS_ERROR p3
                  else
                    (let p4 = on_rt (\<lambda>s. (create_wake_fds n s)\<lparr>s_worker := Some 0\<rparr>) p3 in
                     if \<not> list_all threads [1..<n] then init_rollback n SUSPENDERS_ERROR (on_rt (\<lambda>s. s\<lparr>s_worker := None, s_stop := False\<rparr>) p4)
                     else (SUSPENDERS_OK, (on_rt (\<lambda>s. s\<lparr>runtime_up := True\<rparr>) p4)\<lparr>pr_init := True\<rparr>))))))"

text \<open>\<open>suspenders_run\<close> before and after the loop of worker 0.\<close>

definition run_begin :: "process \<Rightarrow> process option" where
  "run_begin p =
     (if \<not> pr_init p then None
      else Some (on_rt (\<lambda>s. (let s1 = s_main_cr_get s in
             upd_cr (the (main_cr s1)) (\<lambda>r. r\<lparr>cr_state := RUNNING\<rparr>) (s1\<lparr>running := main_cr s1\<rparr>))) p))"

definition run_end :: "process \<Rightarrow> process" where
  "run_end p = on_rt (\<lambda>s. upd_cr (the (main_cr s)) (\<lambda>r. r\<lparr>cr_state := READY\<rparr>) s) p"

text \<open>\<open>suspenders_shutdown\<close> once the helpers are joined: coroutines left in the injector, zombies and live coroutines
  lose their arenas, the queues are reclaimed, and everything is reset.\<close>

definition drop_injector :: "process \<Rightarrow> process" where
  "drop_injector p =
     on_rt (\<lambda>s. s\<lparr>injector := (\<lambda>q. if q < 4 then [] else injector s q), injector_count := 0\<rparr>)
       (destroy_all (ready_all (injector (pr_rt p))) p)"

definition reap :: "(rt \<Rightarrow> cr_ref list \<times> rt) \<Rightarrow> process \<Rightarrow> process" where
  "reap f p = (let (freed, s) = f (pr_rt p) in on_rt (\<lambda>_. s) (destroy_all freed p))"

definition suspenders_shutdown :: "process \<Rightarrow> process" where
  "suspenders_shutdown p =
     (if \<not> pr_init p then p
      else
        (let p1 = on_rt (\<lambda>s. s\<lparr>runtime_up := False, s_stop := True\<rparr>) p;
             p2 = reap s_live_reap (reap s_zombie_reap (drop_injector p1));
             p3 = on_rt (\<lambda>s. s\<lparr>ready := (\<lambda>q. if q < 4 then [] else ready s q), queue_work := 0, active_coroutines := 0\<rparr>) p2;
             p4 = p3\<lparr>pr_queues := s_queue_shutdown_reap (pr_queues p3), pr_backend := False, pr_init := False\<rparr>
         in on_rt (\<lambda>s. (destroy_wake_fds (num_workers s) s)\<lparr>timer_heap := timer_heap_empty, num_workers := 0, s_worker := None,
              s_stop := False, main_cr := None, running := None\<rparr>) p4))"

section \<open>Exit\<close>

lemma cleanup_loop_effect:
  "cleanup_loop hs c s =
     (if hs = [] then s
      else (upd_cr c (\<lambda>r. r\<lparr>cleanup_head := []\<rparr>) s)\<lparr>calls := calls s @ filter (\<lambda>h. fst h \<noteq> 0) hs\<rparr>)"
proof (induction hs arbitrary: s)
  case (Cons h hs)
  show ?case by (simp only: cleanup_loop.simps(2) Cons.IH) (simp add: call_handler_def upd_cr_def)
qed simp

lemma timer_disarm_crs [simp]:
  "crs (s_timer_disarm t s) = crs s" "calls (s_timer_disarm t s) = calls s" "live_crs (s_timer_disarm t s) = live_crs s"
  "zombies (s_timer_disarm t s) = zombies s" "active_coroutines (s_timer_disarm t s) = active_coroutines s"
  "main_cr (s_timer_disarm t s) = main_cr s" "injector (s_timer_disarm t s) = injector s" "ready (s_timer_disarm t s) = ready s"
  "s_worker (s_timer_disarm t s) = s_worker s" "num_workers (s_timer_disarm t s) = num_workers s" "nodes (s_timer_disarm t s) = nodes s"
  by (simp_all add: s_timer_disarm_def upd_timer_def Let_def)

lemma worker_signal_fields [simp]:
  "crs (s_worker_signal w s) = crs s" "calls (s_worker_signal w s) = calls s" "live_crs (s_worker_signal w s) = live_crs s"
  "zombies (s_worker_signal w s) = zombies s" "active_coroutines (s_worker_signal w s) = active_coroutines s"
  "main_cr (s_worker_signal w s) = main_cr s" "injector (s_worker_signal w s) = injector s" "ready (s_worker_signal w s) = ready s"
  "s_worker (s_worker_signal w s) = s_worker s" "num_workers (s_worker_signal w s) = num_workers s" "nodes (s_worker_signal w s) = nodes s"
  "injector_count (s_worker_signal w s) = injector_count s" "running (s_worker_signal w s) = running s" "inbox (s_worker_signal w s) = inbox s"
  by (simp_all add: s_worker_signal_def split: option.split)

lemma disarm_deadline_fields [simp]:
  "crs (disarm_deadline c s) = (crs s)(c := (crs s c)\<lparr>deadline_armed := False\<rparr>)"
  "calls (disarm_deadline c s) = calls s" "live_crs (disarm_deadline c s) = live_crs s" "zombies (disarm_deadline c s) = zombies s"
  "active_coroutines (disarm_deadline c s) = active_coroutines s" "main_cr (disarm_deadline c s) = main_cr s"
  "injector (disarm_deadline c s) = injector s" "ready (disarm_deadline c s) = ready s" "s_worker (disarm_deadline c s) = s_worker s"
  "num_workers (disarm_deadline c s) = num_workers s" "nodes (disarm_deadline c s) = nodes s"
  by (auto simp: disarm_deadline_def upd_cr_def fun_eq_iff)

lemma mark_done_fields [simp]:
  assumes "cr_state (crs s c) \<noteq> DONE"
  shows "crs (mark_done c s) = (crs s)(c := (crs s c)\<lparr>cr_state := DONE\<rparr>)"
    "calls (mark_done c s) = calls s" "live_crs (mark_done c s) = live_crs s" "zombies (mark_done c s) = zombies s"
    "active_coroutines (mark_done c s) = active_coroutines s - (if daemon (crs s c) then 0 else 1)" "main_cr (mark_done c s) = main_cr s"
    "injector (mark_done c s) = injector s" "ready (mark_done c s) = ready s" "s_worker (mark_done c s) = s_worker s"
    "num_workers (mark_done c s) = num_workers s" "nodes (mark_done c s) = nodes s"
  using assms by (simp_all add: mark_done_def upd_cr_def Let_def)

lemma zombie_enqueue_fields [simp]:
  "crs (suspenders_zombie_enqueue c s) = crs s" "calls (suspenders_zombie_enqueue c s) = calls s"
  "live_crs (suspenders_zombie_enqueue c s) = remove1 c (live_crs s)" "zombies (suspenders_zombie_enqueue c s) = c # zombies s"
  "active_coroutines (suspenders_zombie_enqueue c s) = active_coroutines s" "main_cr (suspenders_zombie_enqueue c s) = main_cr s"
  "injector (suspenders_zombie_enqueue c s) = injector s" "ready (suspenders_zombie_enqueue c s) = ready s"
  "s_worker (suspenders_zombie_enqueue c s) = s_worker s" "num_workers (suspenders_zombie_enqueue c s) = num_workers s"
  "nodes (suspenders_zombie_enqueue c s) = nodes s"
  by (simp_all add: suspenders_zombie_enqueue_def s_live_unlink_def Let_def)

lemma cleanup_loop_fields [simp]:
  "crs (cleanup_loop (cleanup_head (crs s c)) c s) = (crs s)(c := (crs s c)\<lparr>cleanup_head := []\<rparr>)"
  "calls (cleanup_loop hs c s) = calls s @ filter (\<lambda>h. fst h \<noteq> 0) hs" "live_crs (cleanup_loop hs c s) = live_crs s"
  "zombies (cleanup_loop hs c s) = zombies s" "active_coroutines (cleanup_loop hs c s) = active_coroutines s"
  "main_cr (cleanup_loop hs c s) = main_cr s" "injector (cleanup_loop hs c s) = injector s" "ready (cleanup_loop hs c s) = ready s"
  "s_worker (cleanup_loop hs c s) = s_worker s" "num_workers (cleanup_loop hs c s) = num_workers s" "nodes (cleanup_loop hs c s) = nodes s"
  by (auto simp: cleanup_loop_effect upd_cr_def fun_eq_iff)

lemma exit_stages:
  assumes "running s = Some c" and "main_cr s = Some m"
  shows "suspenders_cr_exit s =
    (suspenders_zombie_enqueue c (mark_done c (disarm_deadline c (cleanup_loop (cleanup_head (crs s c)) c s))))\<lparr>running := Some m\<rparr>"
proof -
  let ?u = "suspenders_zombie_enqueue c (mark_done c (disarm_deadline c (cleanup_loop (cleanup_head (crs s c)) c s)))"
  have "main_cr (mark_done c t) = main_cr t" for t by (simp add: mark_done_def upd_cr_def Let_def)
  then have "main_cr ?u = Some m" using assms(2) by simp
  then show ?thesis using assms(1) by (simp only: suspenders_cr_exit_def Let_def option.case ctx_switch_main_def) simp
qed

lemma exit_effect:
  assumes "running s = Some c" and "main_cr s = Some m" and "cr_state (crs s c) \<noteq> DONE"
  shows "calls (suspenders_cr_exit s) = calls s @ filter (\<lambda>h. fst h \<noteq> 0) (cleanup_head (crs s c))"
    and "crs (suspenders_cr_exit s) = (crs s)(c := (crs s c)\<lparr>cleanup_head := [], deadline_armed := False, cr_state := DONE\<rparr>)"
    and "zombies (suspenders_cr_exit s) = c # zombies s" and "live_crs (suspenders_cr_exit s) = remove1 c (live_crs s)"
    and "active_coroutines (suspenders_cr_exit s) = active_coroutines s - (if daemon (crs s c) then 0 else 1)"
    and "running (suspenders_cr_exit s) = Some m" and "main_cr (suspenders_cr_exit s) = Some m"
    and "injector (suspenders_cr_exit s) = injector s" and "ready (suspenders_cr_exit s) = ready s"
    and "s_worker (suspenders_cr_exit s) = s_worker s" and "num_workers (suspenders_cr_exit s) = num_workers s"
    and "nodes (suspenders_cr_exit s) = nodes s"
  using assms by (simp_all add: exit_stages)

definition push_handlers :: "(fn \<times> ptr) list \<Rightarrow> rt \<Rightarrow> rt" where
  "push_handlers hs s = foldl (\<lambda>s h. suspenders_cleanup_push True (fst h) (snd h) s) s hs"

lemma push_handlers_effect:
  "suspenders_self s = Some c \<Longrightarrow> push_handlers hs s = upd_cr c (\<lambda>r. r\<lparr>cleanup_head := rev hs @ cleanup_head r\<rparr>) s"
proof (induction hs arbitrary: s)
  case (Cons h hs)
  have "suspenders_self (suspenders_cleanup_push True (fst h) (snd h) s) = Some c"
    using Cons.prems by (simp add: suspenders_cleanup_push_def suspenders_self_def upd_cr_def split: if_splits)
  with Cons show ?case by (simp add: push_handlers_def suspenders_cleanup_push_def upd_cr_def)
qed (simp add: push_handlers_def upd_cr_def)

text \<open>A coroutine that exits runs its remaining cleanup handlers last in, first out, each once; it then has no handler and no armed deadline, is done, has left the live list for the
  zombies, is no longer counted as active unless it is a daemon, and the scheduler runs. Other coroutines are not
  touched.\<close>

theorem exit_cleans_up:
  assumes "suspenders_self s = Some c" and "main_cr s = Some m" and "cr_state (crs s c) \<noteq> DONE" and "cleanup_head (crs s c) = []"
    and "\<forall>h \<in> set hs. fst h \<noteq> 0"
  shows "let t = suspenders_exit (push_handlers hs s) in
    calls t = calls s @ rev hs \<and> cleanup_head (crs t c) = [] \<and> \<not> deadline_armed (crs t c) \<and> cr_state (crs t c) = DONE \<and>
    zombies t = c # zombies s \<and> live_crs t = remove1 c (live_crs s) \<and>
    active_coroutines t = active_coroutines s - (if daemon (crs s c) then 0 else 1) \<and>
    running t = Some m \<and> (\<forall>d. d \<noteq> c \<longrightarrow> crs t d = crs s d)"
proof -
  let ?u = "push_handlers hs s"
  have u: "?u = upd_cr c (\<lambda>r. r\<lparr>cleanup_head := rev hs\<rparr>) s" using push_handlers_effect [OF assms(1)] assms(4) by (simp add: upd_cr_def)
  have f: "filter (\<lambda>h. 0 < fst h) (rev hs) = rev hs" using assms(5) by simp
  have "running s = Some c" and n: "suspenders_self ?u \<noteq> None"
    using assms(1) by (auto simp: suspenders_self_def u upd_cr_def split: if_splits)
  then have h: "running ?u = Some c" "main_cr ?u = Some m" "cr_state (crs ?u c) \<noteq> DONE"
    using assms(2,3) by (simp_all add: u upd_cr_def)
  show ?thesis
    using exit_effect [OF h] n by (simp add: suspenders_exit_def u upd_cr_def f Let_def)
qed

theorem exit_cleans_up_witness:
  "let s = upd_cr 5 (\<lambda>r. r\<lparr>daemon := True\<rparr>) (run_on 5 blank_rt); t = suspenders_exit (push_handlers [(7, 1), (8, 2)] s) in
   calls t = [(8, 2), (7, 1)] \<and> cr_state (crs t 5) = DONE \<and> running t = Some 1"
proof -
  let ?s = "upd_cr 5 (\<lambda>r. r\<lparr>daemon := True\<rparr>) (run_on 5 blank_rt)"
  show ?thesis
    using exit_cleans_up [of ?s 5 1 "[(7, 1), (8, 2)]"]
    by (simp add: run_on_def blank_rt_def upd_cr_def suspenders_self_def zero_coroutine_def Let_def)
qed

section \<open>Inboxes\<close>

lemma ready_enqueue_fields [simp]:
  "live_crs (suspenders_ready_enqueue c s) = live_crs s" "zombies (suspenders_ready_enqueue c s) = zombies s"
  "injector (suspenders_ready_enqueue c s) = injector s" "inbox (suspenders_ready_enqueue c s) = inbox s"
  "active_coroutines (suspenders_ready_enqueue c s) = active_coroutines s" "running (suspenders_ready_enqueue c s) = running s"
  "main_cr (suspenders_ready_enqueue c s) = main_cr s" "s_worker (suspenders_ready_enqueue c s) = s_worker s"
  "num_workers (suspenders_ready_enqueue c s) = num_workers s" "nodes (suspenders_ready_enqueue c s) = nodes s"
  "crs (suspenders_ready_enqueue c s) = (crs s)(c := (crs s c)\<lparr>cr_state := READY\<rparr>)"
  "ready (suspenders_ready_enqueue c s) = ready_push (ready s) (suspenders_clamp_qos (effective_qos (crs s c))) c"
  by (simp_all add: suspenders_ready_enqueue_def upd_cr_def Let_def)

text \<open>What delivering a list of wake-ups without cancellations does to a coroutine.\<close>

definition delivered :: "coroutine \<Rightarrow> coroutine" where
  "delivered r = (let r1 = r\<lparr>wake_inflight := False\<rparr> in
     if cr_state r = SUSPENDED then r1\<lparr>cr_state := READY\<rparr>
     else if cr_state r = DONE then r1 else r1\<lparr>pending_wake := True\<rparr>)"

lemma deliver_one:
  assumes "\<not> cancel_requested (crs s c)"
  defines "t \<equiv> s_inbox_deliver c (upd_cr c (\<lambda>r. r\<lparr>wake_inflight := False\<rparr>) s)"
  shows "crs t = (crs s)(c := delivered (crs s c))"
    and "ready t = (if cr_state (crs s c) = SUSPENDED
           then ready_push (ready s) (suspenders_clamp_qos (effective_qos (crs s c))) c else ready s)"
    and "inbox t = inbox s"
  using assms by (simp_all add: s_inbox_deliver_def deliver_wake_def delivered_def upd_cr_def Let_def fun_eq_iff)

lemma deliver_all_effect:
  assumes "distinct cs" and "\<forall>c \<in> set cs. \<not> cancel_requested (crs s c)"
  shows "crs (deliver_all cs s) = (\<lambda>c. if c \<in> set cs then delivered (crs s c) else crs s c) \<and>
    (\<forall>q. ready (deliver_all cs s) q =
      ready s q @ filter (\<lambda>c. cr_state (crs s c) = SUSPENDED \<and> suspenders_clamp_qos (effective_qos (crs s c)) = q) cs) \<and>
    inbox (deliver_all cs s) = inbox s"
  using assms
proof (induction cs arbitrary: s)
  case (Cons c cs)
  let ?t = "s_inbox_deliver c (upd_cr c (\<lambda>r. r\<lparr>wake_inflight := False\<rparr>) s)"
  have c: "\<not> cancel_requested (crs s c)" "c \<notin> set cs" using Cons.prems by simp_all
  note t = deliver_one [OF c(1)]
  have same: "crs ?t d = crs s d" if "d \<in> set cs" for d using that c(2) t(1) by auto
  have IH: "crs (deliver_all cs ?t) = (\<lambda>d. if d \<in> set cs then delivered (crs ?t d) else crs ?t d)"
    "ready (deliver_all cs ?t) q =
      ready ?t q @ filter (\<lambda>d. cr_state (crs ?t d) = SUSPENDED \<and> suspenders_clamp_qos (effective_qos (crs ?t d)) = q) cs"
    "inbox (deliver_all cs ?t) = inbox ?t" for q
    using Cons.IH [of ?t] Cons.prems same by auto
  have "crs (deliver_all (c # cs) s) = (\<lambda>d. if d \<in> set (c # cs) then delivered (crs s d) else crs s d)"
    using IH(1) t(1) c(2) by (auto simp: fun_eq_iff)
  moreover have "ready (deliver_all (c # cs) s) q =
      ready s q @ filter (\<lambda>d. cr_state (crs s d) = SUSPENDED \<and> suspenders_clamp_qos (effective_qos (crs s d)) = q) (c # cs)" for q
    using IH(2) [of q] t(2) same by (auto simp: ready_push_def cong: filter_cong)
  ultimately show ?case using IH(3) t(3) by simp
qed simp


definition inbox_rt :: rt where
  "inbox_rt = blank_rt\<lparr>inbox := (\<lambda>_. [])(0 := [6, 5]), crs := (\<lambda>_. zero_coroutine\<lparr>cr_state := SUSPENDED, wake_inflight := True\<rparr>)\<rparr>"


section \<open>The life of coroutines in a runtime with one worker\<close>

text \<open>The well-formed states: pinned coroutines are live or zombies, their arenas are exactly the ones allocated,
  ready coroutines are live and queued once, and the counter of active coroutines is right.\<close>

definition places_ok :: "rt \<Rightarrow> cr_ref set \<Rightarrow> bool" where
  "places_ok s arenas \<longleftrightarrow>
     distinct (live_crs s @ zombies s) \<and> set (live_crs s @ zombies s) = arenas \<and>
     main_cr_storage s \<notin> arenas \<and> (main_cr s = None \<or> main_cr s = Some (main_cr_storage s))"

definition ready_ok :: "rt \<Rightarrow> bool" where
  "ready_ok s \<longleftrightarrow> distinct (ready_all (ready s)) \<and> set (ready_all (ready s)) \<subseteq> set (live_crs s) \<and>
     (\<forall>c \<in> set (ready_all (ready s)). cr_state (crs s c) = READY)"

definition states_ok :: "rt \<Rightarrow> bool" where
  "states_ok s \<longleftrightarrow> (\<forall>c \<in> set (live_crs s). cr_state (crs s c) \<noteq> DONE \<and> cr_worker (crs s c) = Some 0) \<and>
     (\<forall>c \<in> set (zombies s). cr_state (crs s c) = DONE) \<and>
     (\<forall>c. status (nodes s (Emb c)) = S_WQ_WAITING \<longrightarrow> node_cr (nodes s (Emb c)) = c)"

definition count_ok :: "rt \<Rightarrow> bool" where
  "count_ok s \<longleftrightarrow> active_coroutines s = int (length (filter (\<lambda>c. \<not> daemon (crs s c)) (live_crs s)))"

definition worker_ok :: "rt \<Rightarrow> bool" where
  "worker_ok s \<longleftrightarrow> s_worker s = Some 0 \<and> num_workers s = 1 \<and> inbox s 0 = [] \<and> ready_all (injector s) = [] \<and> injector_count s = 0"

definition running_ok :: "rt \<Rightarrow> bool" where
  "running_ok s \<longleftrightarrow> (\<forall>c. running s = Some c \<and> running s \<noteq> main_cr s \<longrightarrow>
     c \<in> set (live_crs s) \<and> cr_state (crs s c) = RUNNING \<and> main_cr s \<noteq> None)"

definition life_ok :: "rt \<Rightarrow> cr_ref set \<Rightarrow> bool" where
  "life_ok s arenas \<longleftrightarrow> worker_ok s \<and> places_ok s arenas \<and> ready_ok s \<and> states_ok s \<and> count_ok s"

lemmas life_defs = life_ok_def worker_ok_def places_ok_def ready_ok_def states_ok_def count_ok_def

text \<open>Changes that leave the lists alone and the relevant parts of the records.\<close>

definition same_life :: "rt \<Rightarrow> rt \<Rightarrow> bool" where
  "same_life s t \<longleftrightarrow> live_crs t = live_crs s \<and> zombies t = zombies s \<and> main_cr t = main_cr s \<and> main_cr_storage t = main_cr_storage s \<and>
     s_worker t = s_worker s \<and> num_workers t = num_workers s \<and> inbox t = inbox s \<and> injector t = injector s \<and>
     injector_count t = injector_count s \<and> active_coroutines t = active_coroutines s \<and> ready t = ready s \<and>
     (\<forall>c. cr_state (crs t c) = cr_state (crs s c) \<and> cr_worker (crs t c) = cr_worker (crs s c) \<and> daemon (crs t c) = daemon (crs s c)) \<and>
     (\<forall>c. status (nodes t (Emb c)) = S_WQ_WAITING \<longrightarrow> status (nodes s (Emb c)) = S_WQ_WAITING \<and> node_cr (nodes t (Emb c)) = node_cr (nodes s (Emb c)))"

lemma same_life_ok: "life_ok s A \<Longrightarrow> same_life s t \<Longrightarrow> life_ok t A"
  unfolding life_defs same_life_def by simp

lemma mset_ready_push: "q < 4 \<Longrightarrow> mset (ready_all (ready_push qs q c)) = add_mset c (mset (ready_all qs))"
  by (auto simp: ready_all_def upt4 ready_push_def less_Suc_eq numeral_eq_Suc)

lemma distinct_ready_push:
  assumes "q < 4"
  shows "distinct (ready_all (ready_push qs q c)) \<longleftrightarrow> distinct (ready_all qs) \<and> c \<notin> set (ready_all qs)"
proof -
  have "distinct (ready_all (ready_push qs q c)) \<longleftrightarrow> distinct (c # ready_all qs)"
    by (rule mset_eq_imp_distinct_iff) (simp add: mset_ready_push [OF assms])
  then show ?thesis by auto
qed

lemma not_queued: "life_ok s A \<Longrightarrow> cr_state (crs s c) \<noteq> READY \<Longrightarrow> c \<notin> set (ready_all (ready s))"
  by (auto simp: life_defs)

lemma enqueue_life:
  assumes "life_ok s A" and "c \<in> set (live_crs s)" and "c \<notin> set (ready_all (ready s))"
  shows "life_ok (suspenders_ready_enqueue c s) A"
proof -
  have "main_cr_storage (suspenders_ready_enqueue c s) = main_cr_storage s" "injector_count (suspenders_ready_enqueue c s) = injector_count s"
    by (simp_all add: suspenders_ready_enqueue_def upd_cr_def Let_def)
  moreover have "filter (\<lambda>d. \<not> daemon (((crs s)(c := (crs s c)\<lparr>cr_state := READY\<rparr>)) d)) (live_crs s) = filter (\<lambda>d. \<not> daemon (crs s d)) (live_crs s)"
    by (rule filter_cong) auto
  ultimately show ?thesis
    using assms by (auto simp: life_defs distinct_ready_push clamp_qos_range set_ready_push)
qed

lemma switch_life: "life_ok s A \<Longrightarrow> life_ok (ctx_switch_main s) A \<and> running_ok (ctx_switch_main s)"
  by (simp add: life_defs ctx_switch_main_def running_ok_def)

subsection \<open>Scheduling\<close>

lemma ready_take_mset:
  assumes "ready_take qs = (Some c, qs')"
  shows "mset (ready_all qs) = add_mset c (mset (ready_all qs'))"
proof -
  from ready_take_result [OF assms] obtain q cs where q: "q < 4" "qs q = c # cs" "qs' = qs(q := cs)" by auto
  then show ?thesis by (auto simp: ready_all_def upt4 less_Suc_eq numeral_eq_Suc)
qed

lemma yield_life:
  assumes "life_ok s A" and "running_ok s"
  shows "life_ok (suspenders_yield s) A \<and> running_ok (suspenders_yield s)"
proof (cases "running s = None \<or> running s = main_cr s")
  case True
  with assms show ?thesis by (auto simp: suspenders_yield_def split: option.splits)
next
  case False
  then obtain c where c: "running s = Some c" "running s \<noteq> main_cr s" by auto
  with assms(2) have "life_ok (suspenders_ready_enqueue c s) A" by (intro enqueue_life [OF assms(1)] not_queued [OF assms(1)]) (auto simp: running_ok_def)
  with c switch_life show ?thesis by (simp add: suspenders_yield_def)
qed

lemma set_state_life:
  assumes "life_ok s A" and "x \<noteq> DONE" and "c \<in> set (live_crs s)" and "c \<notin> set (ready_all (ready s))"
  shows "life_ok (upd_cr c (\<lambda>r. r\<lparr>cr_state := x\<rparr>) s) A"
proof -
  have "filter (\<lambda>d. \<not> daemon (((crs s)(c := (crs s c)\<lparr>cr_state := x\<rparr>)) d)) (live_crs s) = filter (\<lambda>d. \<not> daemon (crs s d)) (live_crs s)"
    by (rule filter_cong) auto
  with assms show ?thesis by (auto simp: life_defs upd_cr_def)
qed

lemma suspend_life:
  assumes "life_ok s A" and "running_ok s"
  shows "life_ok (suspenders_suspend s) A \<and> running_ok (suspenders_suspend s)"
proof (cases "running s = None \<or> running s = main_cr s")
  case True
  with assms show ?thesis by (auto simp: suspenders_suspend_def split: option.splits)
next
  case False
  then obtain c where c: "running s = Some c" "running s \<noteq> main_cr s" by auto
  with assms(2) have r: "c \<in> set (live_crs s)" "cr_state (crs s c) = RUNNING" by (auto simp: running_ok_def)
  then have "life_ok (upd_cr c (\<lambda>r. r\<lparr>cr_state := SUSPENDED\<rparr>) s) A"
    using not_queued [OF assms(1)] by (intro set_state_life [OF assms(1)]) simp_all
  with c r switch_life show ?thesis by (simp add: suspenders_suspend_def)
qed

lemma enqueue_running:
  assumes "running_ok s" and "running s \<noteq> Some c \<or> running s = main_cr s"
  shows "running_ok (suspenders_ready_enqueue c s)"
  using assms by (auto simp: running_ok_def)

lemma resume_life:
  assumes "life_ok s A" and "running_ok s" and "c \<in> set (live_crs s)"
  shows "life_ok (suspenders_resume c s) A \<and> running_ok (suspenders_resume c s)"
proof (cases "cr_state (crs s c) = SUSPENDED")
  case False
  then have "cr_state (crs s c) \<in> {RUNNING, READY, DONE}" by (cases "cr_state (crs s c)") auto
  moreover have "cr_worker (crs s c) = s_worker s" using assms(1,3) by (auto simp: life_defs)
  ultimately show ?thesis using assms(1,2) by (simp add: suspenders_resume_def)
next
  case True
  let ?e = "suspenders_ready_enqueue c s"
  have w: "cr_worker (crs s c) = s_worker s" using assms(1,3) by (auto simp: life_defs)
  have e: "life_ok ?e A" using True by (intro enqueue_life not_queued [OF assms(1)] assms(1,3)) simp
  have re: "running_ok ?e" using assms(2) True by (intro enqueue_running) (auto simp: running_ok_def)
  have "life_ok (suspenders_ready_enqueue r ?e) A" if "running ?e = Some r" "running ?e \<noteq> main_cr ?e" for r
    using that re by (intro enqueue_life [OF e] not_queued [OF e]) (auto simp: running_ok_def)
  then show ?thesis using w True e re switch_life by (auto simp: suspenders_resume_def Let_def split: option.split)
qed

lemma pick_life:
  assumes "life_ok s A" and "running s = main_cr s" and "main_cr s \<noteq> None" and "worker_pick 0 s = (Some c, t)"
  shows "life_ok (worker_enter c t) A \<and> running_ok (worker_enter c t)"
proof -
  have "inbox s 0 = []" "injector_count s = 0" using assms(1) by (simp_all add: life_defs)
  then obtain qs where q: "ready_take (ready s) = (Some c, qs)" "t = s\<lparr>ready := qs\<rparr>"
    using assms(4) by (auto simp: worker_pick_def suspenders_ready_dequeue_def s_injector_take_def split: prod.splits option.splits)
  note m = ready_take_mset [OF q(1)]
  have "distinct (c # ready_all qs)"
    using assms(1) m mset_eq_imp_distinct_iff [of "ready_all (ready s)" "c # ready_all qs"] by (simp add: life_defs)
  moreover have "set (ready_all (ready s)) = insert c (set (ready_all qs))"
    using arg_cong [OF m, of set_mset] by simp
  ultimately have "life_ok t A" "c \<in> set (live_crs t)" "c \<notin> set (ready_all (ready t))"
    using assms(1) by (auto simp: q(2) life_defs)
  then have "life_ok (upd_cr c (\<lambda>r. r\<lparr>cr_state := RUNNING\<rparr>) t) A" by (intro set_state_life) simp_all
  with \<open>c \<in> set (live_crs t)\<close> assms(3) q(2) show ?thesis
    by (auto simp: worker_enter_def life_defs running_ok_def upd_cr_def)
qed

subsection \<open>Spawning, exit and reaping\<close>

lemma main_cr_get_life:
  assumes "life_ok s A" and "running_ok s"
  shows "life_ok (s_main_cr_get s) A \<and> running_ok (s_main_cr_get s)"
proof (cases "main_cr s")
  case (Some m)
  with assms show ?thesis by (simp add: s_main_cr_get_def)
next
  case None
  let ?m = "main_cr_storage s"
  have m: "?m \<notin> set (live_crs s)" "?m \<notin> set (zombies s)" using assms(1) by (auto simp: life_defs)
  then have "filter (\<lambda>d. \<not> daemon (((crs s)(?m := main_coroutine)) d)) (live_crs s) = filter (\<lambda>d. \<not> daemon (crs s d)) (live_crs s)"
    by (intro filter_cong) auto
  with None m assms show ?thesis
    by (auto simp: s_main_cr_get_def life_defs running_ok_def upd_cr_def Let_def)
qed

lemma spawn_life:
  assumes "life_ok s A" and "running_ok s" and "c \<notin> A" and "c \<noteq> main_cr_storage s"
    and "s_spawn_impl arena stack c func qos dmn s = (r, t)"
  shows "running_ok t \<and> (case r of Some d \<Rightarrow> d = c \<and> life_ok t (insert c A) | None \<Rightarrow> life_ok t A)"
proof -
  note g = main_cr_get_life [OF assms(1,2)]
  have stor: "main_cr_storage (s_main_cr_get s) = main_cr_storage s" by (simp add: s_main_cr_get_def upd_cr_def Let_def split: option.split)
  have err: "life_ok (set_errno e u) A \<and> running_ok (set_errno e u)" if "life_ok u A" "running_ok u" for e u
    using that by (simp add: life_defs running_ok_def set_errno_def)
  show ?thesis
  proof (cases r)
    case None
    with assms(5) g assms(1,2) err show ?thesis by (auto simp: s_spawn_impl_def Let_def split: if_splits)
  next
    case (Some d)
    define u where "u = s_main_cr_get s"
    define v where "v = s_live_link c (upd_cr c (\<lambda>r. r\<lparr>cr_worker := Some 0\<rparr>)
      ((upd_node (Emb c) (\<lambda>_. zero_node) (upd_cr c (\<lambda>_. fresh_coroutine (next_id u) qos dmn) (u\<lparr>next_id := next_id u + 1\<rparr>)))
        \<lparr>active_coroutines := active_coroutines u + (if dmn then 0 else 1)\<rparr>))"
    have u: "life_ok u A" "running_ok u" "main_cr_storage u = main_cr_storage s" using g stor by (simp_all add: u_def)
    have wk: "s_worker u = Some 0" "num_workers u = 1" using u(1) by (simp_all add: life_ok_def worker_ok_def)
    have t: "d = c" "t = suspenders_ready_enqueue c v"
      using assms(5) Some wk unfolding s_spawn_impl_def u_def [symmetric] v_def
      by (auto simp: Let_def upd_cr_def upd_node_def split: if_splits)
    have c: "c \<notin> set (live_crs u)" "c \<notin> set (zombies u)" "c \<notin> set (ready_all (ready u))" using u(1) assms(3) by (auto simp: life_defs)
    have keep: "filter (\<lambda>d. \<not> daemon (crs v d)) (live_crs u) = filter (\<lambda>d. \<not> daemon (crs u d)) (live_crs u)"
      using c(1) by (intro filter_cong) (auto simp: v_def s_live_link_def upd_cr_def upd_node_def)
    have v: "crs v c = (fresh_coroutine (next_id u) qos dmn)\<lparr>cr_worker := Some 0\<rparr>" "live_crs v = c # live_crs u" "zombies v = zombies u"
      "ready v = ready u" "running v = running u" "main_cr v = main_cr u" "main_cr_storage v = main_cr_storage u"
      "active_coroutines v = active_coroutines u + (if dmn then 0 else 1)" "s_worker v = s_worker u" "num_workers v = num_workers u"
      "inbox v = inbox u" "injector v = injector u" "injector_count v = injector_count u" "nodes v = (nodes u)(Emb c := zero_node)"
      by (simp_all add: v_def s_live_link_def upd_cr_def upd_node_def)
    have cv: "crs v d = crs u d" if "d \<noteq> c" for d using that by (simp add: v_def s_live_link_def upd_cr_def upd_node_def)
    have f: "daemon (fresh_coroutine i q b) = b" "cr_state (fresh_coroutine i q b) = READY" for i q b
      by (simp_all add: fresh_coroutine_def zero_coroutine_def)
    have cvs: "\<forall>d \<in> set (live_crs u). crs v d = crs u d" "\<forall>d \<in> set (zombies u). crs v d = crs u d"
      "\<forall>d \<in> set (ready_all (ready u)). crs v d = crs u d"
      using c cv by metis+
    have "life_ok v (insert c A)"
      using u(1) c assms(3,4) keep cvs by (auto simp: life_defs v f u(3) zero_node_def)
    then have "life_ok t (insert c A)" unfolding t(2) using c(3) by (intro enqueue_life) (simp_all add: v)
    moreover have "running_ok t"
    proof -
      have "c \<noteq> r" if "running u = Some r" "running u \<noteq> main_cr u" for r using that u(2) c(1) by (auto simp: running_ok_def)
      then show ?thesis using u(2) cv by (auto simp: t(2) running_ok_def v)
    qed
    ultimately show ?thesis using Some t(1) by simp
  qed
qed

lemma exit_frame:
  assumes "running s = Some c" and "main_cr s = Some m"
  shows "main_cr_storage (suspenders_cr_exit s) = main_cr_storage s" "inbox (suspenders_cr_exit s) = inbox s"
    "injector_count (suspenders_cr_exit s) = injector_count s"
proof -
  have a: "main_cr_storage (cleanup_loop hs c s) = main_cr_storage s" "inbox (cleanup_loop hs c s) = inbox s"
    "injector_count (cleanup_loop hs c s) = injector_count s" for hs s by (simp_all add: cleanup_loop_effect upd_cr_def)
  have b: "main_cr_storage (disarm_deadline c s) = main_cr_storage s" "inbox (disarm_deadline c s) = inbox s"
    "injector_count (disarm_deadline c s) = injector_count s" for s
    by (simp_all add: disarm_deadline_def s_timer_disarm_def upd_timer_def upd_cr_def Let_def)
  have d: "main_cr_storage (mark_done c s) = main_cr_storage s" "inbox (mark_done c s) = inbox s"
    "injector_count (mark_done c s) = injector_count s" for s
    by (simp_all add: mark_done_def upd_cr_def Let_def s_worker_signal_def split: option.split)
  have e: "main_cr_storage (suspenders_zombie_enqueue c s) = main_cr_storage s" "inbox (suspenders_zombie_enqueue c s) = inbox s"
    "injector_count (suspenders_zombie_enqueue c s) = injector_count s" for s
    by (simp_all add: suspenders_zombie_enqueue_def s_live_unlink_def Let_def)
  show "main_cr_storage (suspenders_cr_exit s) = main_cr_storage s" "inbox (suspenders_cr_exit s) = inbox s"
    "injector_count (suspenders_cr_exit s) = injector_count s"
    by (simp_all add: exit_stages [OF assms] a b d e)
qed

lemma length_filter_remove1:
  "x \<in> set xs \<Longrightarrow> int (length (filter P (remove1 x xs))) = int (length (filter P xs)) - (if P x then 1 else 0)"
  by (induction xs) auto

lemma exit_life:
  assumes "life_ok s A" and "running_ok s" and "suspenders_self s = Some c"
  shows "life_ok (suspenders_exit s) A \<and> running_ok (suspenders_exit s)"
proof -
  have r: "running s = Some c" "running s \<noteq> main_cr s" using assms(3) by (auto simp: suspenders_self_def split: if_splits)
  with assms(2) obtain m where m: "main_cr s = Some m" and c: "c \<in> set (live_crs s)" "cr_state (crs s c) = RUNNING"
    by (auto simp: running_ok_def)
  have q: "c \<notin> set (ready_all (ready s))" using not_queued [OF assms(1)] c(2) by simp
  have e: "suspenders_exit s = suspenders_cr_exit s" using assms(3) by (simp add: suspenders_exit_def)
  have ND: "cr_state (crs s c) \<noteq> DONE" using c(2) by simp
  note x = exit_effect [OF r(1) m ND] exit_frame [OF r(1) m]
  have d: "distinct (live_crs s)" "c \<notin> set (zombies s)" using assms(1) c(1) by (auto simp: life_defs)
  have f: "filter (\<lambda>d. \<not> daemon (crs (suspenders_cr_exit s) d)) (remove1 c (live_crs s)) = filter (\<lambda>d. \<not> daemon (crs s d)) (remove1 c (live_crs s))"
    using d(1) by (intro filter_cong) (auto simp: x)
  have "count_ok (suspenders_cr_exit s)"
    using assms(1) length_filter_remove1 [OF c(1), of "\<lambda>d. \<not> daemon (crs s d)"] f by (simp add: count_ok_def x life_ok_def)
  moreover have "places_ok (suspenders_cr_exit s) A" using assms(1) c(1) d m by (auto simp: places_ok_def x life_ok_def)
  moreover have "ready_ok (suspenders_cr_exit s)" using assms(1) q d(1) by (auto simp: ready_ok_def x life_ok_def)
  moreover have "states_ok (suspenders_cr_exit s)" using assms(1) d by (auto simp: states_ok_def x life_ok_def)
  moreover have "worker_ok (suspenders_cr_exit s)" using assms(1) by (simp add: worker_ok_def x life_ok_def)
  ultimately show ?thesis by (simp add: e life_ok_def running_ok_def x)
qed

lemma deliver_wake_life:
  assumes "life_ok s A" and "running s = main_cr s" and "c \<in> set (live_crs s)"
  shows "life_ok (deliver_wake c s) A \<and> running (deliver_wake c s) = main_cr (deliver_wake c s)"
proof (cases "cr_state (crs s c) = SUSPENDED")
  case True
  then show ?thesis using assms not_queued [OF assms(1), of c] by (simp add: deliver_wake_def enqueue_life)
next
  case False
  have "life_ok (upd_cr c (\<lambda>r. r\<lparr>pending_wake := True\<rparr>) s) A"
    by (rule same_life_ok [OF assms(1)]) (simp add: same_life_def upd_cr_def)
  with False assms show ?thesis by (simp add: deliver_wake_def upd_cr_def)
qed

lemma waiter_wake_life:
  assumes "life_ok s A" and "running s = main_cr s" and "c \<in> set (live_crs s)" and "st \<noteq> S_WQ_WAITING"
    and "s_waiter_wake c st s = (True, t)"
  shows "life_ok t A \<and> running t = main_cr t"
proof -
  define u where "u = upd_node (Emb c) (\<lambda>x. x\<lparr>waker_busy := True, wait_list := None, status := st\<rparr>)
    (case wait_list (nodes s (Emb c)) of None \<Rightarrow> s | Some l \<Rightarrow> upd_list l (remove1 (Emb c)) s)"
  have w: "status (nodes s (Emb c)) = S_WQ_WAITING" "t = s_wait_finish_wake (Emb c) u"
    using assms(5) by (auto simp: s_waiter_wake_def u_def Let_def split: if_splits)
  have same: "same_life s u" using assms(4) by (auto simp: same_life_def u_def upd_node_def upd_list_def split: option.split)
  have u: "life_ok u A" "running u = main_cr u" "live_crs u = live_crs s" "crs u = crs s"
    using same_life_ok [OF assms(1) same] assms(2) by (auto simp: u_def upd_node_def upd_list_def split: option.split)
  have nc: "node_cr (nodes u (Emb c)) = c"
    using assms(1) w(1) by (auto simp: u_def upd_node_def upd_list_def life_defs split: option.split)
  have loc: "cr_worker (crs u c) = s_worker u" using u(1,3) assms(3) by (auto simp: life_defs)
  define v where "v = s_wake_no_preempt c u"
  have v: "life_ok v A \<and> running v = main_cr v"
  proof (cases "cr_state (crs u c) = SUSPENDED")
    case True
    then show ?thesis using u assms(3) loc not_queued [OF u(1), of c] by (simp add: v_def s_wake_no_preempt_def enqueue_life)
  next
    case False
    then have "cr_state (crs u c) \<in> {RUNNING, READY, DONE}" by (cases "cr_state (crs u c)") auto
    then show ?thesis using u loc by (simp add: v_def s_wake_no_preempt_def)
  qed
  let ?d = "s_wait_decide_end (Emb c) v"
  have d: "life_ok ?d A" 
    by (rule same_life_ok [OF conjunct1 [OF v]]) (auto simp: same_life_def s_wait_decide_end_def upd_node_def)
  have m: "running ?d = main_cr ?d" using v by (simp add: s_wait_decide_end_def upd_node_def)
  have "t = (case running ?d of None \<Rightarrow> ?d
      | Some r \<Rightarrow> if cr_worker (crs u c) = s_worker u \<and> running ?d \<noteq> main_cr ?d \<and> effective_qos (crs ?d r) > effective_qos (crs u c)
          then ctx_switch_main (suspenders_ready_enqueue r ?d) else ?d)"
    unfolding w(2) v_def by (simp only: s_wait_finish_wake_def Let_def nc)
  then have "t = ?d" unfolding m by (simp split: option.split)
  with d m show ?thesis by simp
qed

lemma deliver_life:
  assumes "life_ok s A" and "running s = main_cr s" and "c \<in> set (live_crs s)"
  shows "life_ok (s_inbox_deliver c s) A \<and> running (s_inbox_deliver c s) = main_cr (s_inbox_deliver c s)"
proof -
  obtain won t where w: "s_waiter_wake c SUSPENDERS_CANCELED s = (won, t)" by fastforce
  have won: "life_ok t A \<and> running t = main_cr t" if won using waiter_wake_life [OF assms, of SUSPENDERS_CANCELED t] w that by simp
  have lost: "t = s" if "\<not> won" using waiter_wake_cases [OF w] that by simp
  let ?i = "upd_cr c (\<lambda>r. r\<lparr>io_result := -1\<rparr>) s"
  have i: "life_ok ?i A" by (rule same_life_ok [OF assms(1)]) (simp add: same_life_def upd_cr_def)
  have iou: "life_ok (s_iou_cancel op s) A" for op
    by (rule same_life_ok [OF assms(1)]) (simp add: same_life_def s_iou_cancel_def)
  have dw: "life_ok (deliver_wake c x) A \<and> running (deliver_wake c x) = main_cr (deliver_wake c x)"
    if "x = s \<or> x = ?i" for x using that deliver_wake_life [OF assms] deliver_wake_life [OF i] assms(2,3) by (auto simp: upd_cr_def)
  show ?thesis
    using won lost dw iou assms(2) w
    by (cases won) (auto simp: s_inbox_deliver_def s_iou_cancel_def split: option.split)
qed

lemma leave_life:
  assumes "life_ok s A" and "c \<in> set (live_crs s) \<union> set (zombies s)"
  shows "life_ok (worker_leave c s) A \<and> running_ok (worker_leave c s)"
proof -
  let ?s = "s\<lparr>running := main_cr s\<rparr>" and ?u = "upd_cr c (\<lambda>r. r\<lparr>pending_wake := False\<rparr>) (s\<lparr>running := main_cr s\<rparr>)"
  have s: "life_ok ?s A" using assms(1) by (simp add: life_defs)
  have u: "life_ok ?u A" by (rule same_life_ok [OF assms(1)]) (simp add: same_life_def upd_cr_def)
  have "c \<in> set (live_crs s)" if "cr_state (crs s c) \<noteq> DONE" using assms that by (auto simp: life_defs)
  then have "life_ok (s_inbox_deliver c ?u) A \<and> running (s_inbox_deliver c ?u) = main_cr (s_inbox_deliver c ?u)"
    if "cr_state (crs s c) \<noteq> DONE" using that by (intro deliver_life [OF u]) (simp_all add: upd_cr_def)
  with s show ?thesis by (auto simp: worker_leave_def running_ok_def Let_def)
qed

subsection \<open>Runs\<close>

text \<open>The steps of a process with one worker: spawns that succeed or fail, the scheduler's switch to a coroutine and
  its way back, yields, suspensions, resumptions of live coroutines, exits and reaping. The allocator hands out
  memory that is not in use.\<close>

inductive life_step :: "process \<Rightarrow> process \<Rightarrow> bool" where
  spawn: "c \<notin> pr_arenas p \<Longrightarrow> c \<noteq> main_cr_storage (pr_rt p) \<Longrightarrow> s_spawn_impl arena stack c func qos dmn (pr_rt p) = (Some c, t) \<Longrightarrow>
     life_step p (p\<lparr>pr_rt := t, pr_arenas := insert c (pr_arenas p)\<rparr>)"
| spawn_fails: "c \<notin> pr_arenas p \<Longrightarrow> c \<noteq> main_cr_storage (pr_rt p) \<Longrightarrow> s_spawn_impl arena stack c func qos dmn (pr_rt p) = (None, t) \<Longrightarrow>
     life_step p (p\<lparr>pr_rt := t\<rparr>)"
| switch: "running (pr_rt p) = main_cr (pr_rt p) \<Longrightarrow> main_cr (pr_rt p) \<noteq> None \<Longrightarrow> worker_pick 0 (pr_rt p) = (Some c, t) \<Longrightarrow>
     life_step p (p\<lparr>pr_rt := worker_enter c t\<rparr>)"
| comes_back: "c \<in> set (live_crs (pr_rt p)) \<union> set (zombies (pr_rt p)) \<Longrightarrow> running (pr_rt p) = main_cr (pr_rt p) \<Longrightarrow>
     life_step p (on_rt (worker_leave c) p)"
| yields: "life_step p (on_rt suspenders_yield p)"
| suspends: "life_step p (on_rt suspenders_suspend p)"
| resumes: "c \<in> set (live_crs (pr_rt p)) \<Longrightarrow> life_step p (on_rt (suspenders_resume c) p)"
| exits: "suspenders_self (pr_rt p) = Some c \<Longrightarrow> life_step p (on_rt suspenders_exit p)"
| reaps: "running (pr_rt p) = main_cr (pr_rt p) \<Longrightarrow> life_step p (reap s_zombie_reap p)"

definition life_inv :: "process \<Rightarrow> bool" where
  "life_inv p \<longleftrightarrow> life_ok (pr_rt p) (pr_arenas p) \<and> running_ok (pr_rt p) \<and> \<not> bad_free p"

text \<open>A process after a successful \<open>suspenders_init\<close> with one worker.\<close>

definition life_init :: "process \<Rightarrow> bool" where
  "life_init p \<longleftrightarrow> pr_init p \<and> pr_arenas p = {} \<and> \<not> bad_free p \<and> worker_ok (pr_rt p) \<and> live_crs (pr_rt p) = [] \<and> zombies (pr_rt p) = [] \<and>
     ready_all (ready (pr_rt p)) = [] \<and> active_coroutines (pr_rt p) = 0 \<and> main_cr (pr_rt p) = None \<and> running (pr_rt p) = None \<and>
     (\<forall>c. status (nodes (pr_rt p) (Emb c)) \<noteq> S_WQ_WAITING)"

lemma destroy_all_effect:
  "destroy_all cs p = p\<lparr>pr_arenas := pr_arenas p - set cs, bad_free := (bad_free p \<or> \<not> (distinct cs \<and> set cs \<subseteq> pr_arenas p))\<rparr>"
proof (induction cs arbitrary: p)
  case (Cons c cs)
  have "pr_arenas p - {c} - set cs = pr_arenas p - set (c # cs)" by auto
  moreover have "(bad_free p \<or> c \<notin> pr_arenas p \<or> \<not> (distinct cs \<and> set cs \<subseteq> pr_arenas p - {c})) =
      (bad_free p \<or> \<not> (distinct (c # cs) \<and> set (c # cs) \<subseteq> pr_arenas p))" by auto
  ultimately show ?case by (simp only: destroy_all.simps(2) Cons.IH) (simp add: s_cr_arena_destroy_def)
qed simp

lemma reap_life:
  assumes "life_inv p" and "running (pr_rt p) = main_cr (pr_rt p)"
  shows "life_inv (reap s_zombie_reap p)"
proof -
  have "pr_arenas p - set (zombies (pr_rt p)) = set (live_crs (pr_rt p))" "distinct (zombies (pr_rt p))" "set (zombies (pr_rt p)) \<subseteq> pr_arenas p"
    using assms(1) by (auto simp: life_inv_def life_defs)
  with assms show ?thesis
    by (auto simp: life_inv_def reap_def s_zombie_reap_def on_rt_def destroy_all_effect life_defs running_ok_def)
qed

interpretation life: machine life_init life_step life_inv
proof
  fix p assume "life_init p"
  then show "life_inv p" by (auto simp: life_init_def life_inv_def life_defs running_ok_def)
next
  fix p p' assume i: "life_inv p" and s: "life_step p p'"
  then have ok: "life_ok (pr_rt p) (pr_arenas p)" "running_ok (pr_rt p)" "\<not> bad_free p" by (simp_all add: life_inv_def)
  from s show "life_inv p'"
  proof cases
    case (spawn c arena stack func qos dmn t)
    with spawn_life [OF ok(1,2)] ok(3) show ?thesis by (fastforce simp: life_inv_def)
  next
    case (spawn_fails c arena stack func qos dmn t)
    with spawn_life [OF ok(1,2)] ok(3) show ?thesis by (fastforce simp: life_inv_def)
  next
    case (switch c t)
    with pick_life [OF ok(1)] ok(3) show ?thesis by (simp add: life_inv_def)
  next
    case (comes_back c)
    with leave_life [OF ok(1)] ok(3) show ?thesis by (simp add: life_inv_def on_rt_def)
  next
    case yields
    with yield_life [OF ok(1,2)] ok(3) show ?thesis by (simp add: life_inv_def on_rt_def)
  next
    case suspends
    with suspend_life [OF ok(1,2)] ok(3) show ?thesis by (simp add: life_inv_def on_rt_def)
  next
    case (resumes c)
    with resume_life [OF ok(1,2)] ok(3) show ?thesis by (simp add: life_inv_def on_rt_def)
  next
    case (exits c)
    with exit_life [OF ok(1,2)] ok(3) show ?thesis by (simp add: life_inv_def on_rt_def)
  next
    case reaps
    with reap_life [OF i] show ?thesis by simp
  qed
qed

lemma step_init: "life_step p p' \<Longrightarrow> pr_init p' = pr_init p"
  by (cases rule: life_step.cases, assumption) (auto simp: on_rt_def reap_def destroy_all_effect s_zombie_reap_def)

lemma reach_pr_init: "reach life_init life_step p \<Longrightarrow> pr_init p"
  by (induction rule: reach.induct) (auto simp: life_init_def step_init)

lemma shutdown_effect:
  assumes "life_inv p" and "pr_init p"
  shows "pr_arenas (suspenders_shutdown p) = {} \<and> \<not> bad_free (suspenders_shutdown p)"
proof -
  have e: "ready_all (injector (pr_rt p)) = []" "set (live_crs (pr_rt p)) \<union> set (zombies (pr_rt p)) = pr_arenas p"
    "distinct (live_crs (pr_rt p))" "distinct (zombies (pr_rt p))" "set (live_crs (pr_rt p)) \<inter> set (zombies (pr_rt p)) = {}" "\<not> bad_free p"
    using assms(1) by (auto simp: life_inv_def life_defs)
  then show ?thesis using assms(2)
    by (auto simp: suspenders_shutdown_def drop_injector_def reap_def s_zombie_reap_def s_live_reap_def on_rt_def destroy_all_effect Let_def)
qed


text \<open>A process that has spawned one coroutine.\<close>

definition start_process :: process where
  "start_process = \<lparr>pr_rt = blank_rt, pr_init = True, pr_backend = True, pr_hint = 256,
     pr_queues = \<lparr>queues = (\<lambda>_. None), global_queues = (\<lambda>_. None), orphan_queues = [], next_queue = 0\<rparr>, pr_arenas = {}, bad_free = False\<rparr>"

definition one_spawned :: process where
  "one_spawned = start_process\<lparr>pr_rt := snd (s_spawn_impl True True 9 7 2 False blank_rt), pr_arenas := {9}\<rparr>"


section \<open>Initialization and shutdown\<close>

text \<open>No runtime: nothing is held and nothing is up.\<close>

definition clean :: "process \<Rightarrow> bool" where
  "clean p \<longleftrightarrow> \<not> pr_init p \<and> \<not> pr_backend p \<and> \<not> runtime_up (pr_rt p) \<and> num_workers (pr_rt p) = 0 \<and> s_worker (pr_rt p) = None \<and>
     \<not> s_stop (pr_rt p) \<and> (\<forall>i. wake_fd (pr_rt p) i = None)"

lemma rollback_clean:
  assumes "\<not> pr_init p" "\<not> runtime_up (pr_rt p)" "s_worker (pr_rt p) = None" "\<not> s_stop (pr_rt p)"
    "\<forall>i \<ge> n. wake_fd (pr_rt p) i = None"
  shows "clean (snd (init_rollback n e p)) \<and> errno (pr_rt (snd (init_rollback n e p))) = e \<and> fst (init_rollback n e p) = e"
  using assms by (simp add: clean_def init_rollback_def on_rt_def set_errno_def destroy_wake_fds_def)

lemma shutdown_clean:
  assumes "pr_init p" and "\<forall>i \<ge> num_workers (pr_rt p). wake_fd (pr_rt p) i = None"
  shows "clean (suspenders_shutdown p)"
proof -
  have d: "pr_init (destroy_all cs q) = pr_init q" "pr_rt (destroy_all cs q) = pr_rt q" for cs q by (simp_all add: destroy_all_effect)
  show ?thesis using assms
    by (simp add: clean_def suspenders_shutdown_def drop_injector_def reap_def s_zombie_reap_def s_live_reap_def on_rt_def
        destroy_wake_fds_def d Let_def)
qed


definition no_process :: process where
  "no_process = start_process\<lparr>pr_init := False, pr_backend := False,
     pr_rt := blank_rt\<lparr>runtime_up := False, num_workers := 0, s_worker := None, wake_fd := (\<lambda>_. None)\<rparr>\<rparr>"


section \<open>Helper workers\<close>

text \<open>The thread function of helper worker \<open>w\<close>, with the thread-local part of the state as its own \<open>process\<close>: what it does
  before the loop (\<open>None\<close> when it returns at once for lack of a heap or a backend; the wake descriptor is
  registered in the \<open>Backend\<close> theory), and the teardown after the loop.\<close>

definition worker_thread_begin :: "bool \<Rightarrow> bool \<Rightarrow> nat \<Rightarrow> process \<Rightarrow> process option \<times> process" where
  "worker_thread_begin heap backend w p =
     (let p1 = on_rt (\<lambda>s. s\<lparr>s_worker := Some w\<rparr>) p in
      if \<not> heap then (None, p1)
      else if \<not> backend then (None, p1\<lparr>pr_backend := False\<rparr>)
      else
        (let p2 = on_rt (\<lambda>s. (let s1 = s_main_cr_get s in
               upd_cr (the (main_cr s1)) (\<lambda>r. r\<lparr>cr_state := RUNNING\<rparr>) (s1\<lparr>running := main_cr s1\<rparr>))) (p1\<lparr>pr_backend := True\<rparr>)
         in (Some (p2\<lparr>pr_init := True\<rparr>), p2\<lparr>pr_init := True\<rparr>)))"

definition worker_thread_end :: "process \<Rightarrow> process" where
  "worker_thread_end p =
     (let p1 = reap s_live_reap (reap s_zombie_reap p)
      in (on_rt (\<lambda>s. s\<lparr>timer_heap := timer_heap_empty, main_cr := None, running := None\<rparr>) p1)\<lparr>pr_backend := False, pr_init := False\<rparr>)"

text \<open>The teardown of a worker gives back the arenas of its zombies and of its coroutines that are still parked, each
  once, and nothing else, and leaves no timer armed.\<close>

lemma worker_thread_end_frees:
  assumes "distinct (live_crs (pr_rt p) @ zombies (pr_rt p))" and "set (live_crs (pr_rt p) @ zombies (pr_rt p)) \<subseteq> pr_arenas p"
    and "\<not> bad_free p"
  shows "let q = worker_thread_end p in
    pr_arenas q = pr_arenas p - set (live_crs (pr_rt p) @ zombies (pr_rt p)) \<and> \<not> bad_free q \<and> live_crs (pr_rt q) = [] \<and>
    zombies (pr_rt q) = [] \<and> th_data (timer_heap (pr_rt q)) = [] \<and> \<not> pr_init q \<and> \<not> pr_backend q"
  using assms
  by (auto simp: worker_thread_end_def reap_def s_live_reap_def s_zombie_reap_def on_rt_def destroy_all_effect timer_heap_empty_def Let_def)

lemma worker_thread_begin_runs:
  "fst (worker_thread_begin heap backend w p) = Some q \<Longrightarrow>
     heap \<and> backend \<and> pr_init q \<and> pr_backend q \<and> s_worker (pr_rt q) = Some w \<and> running (pr_rt q) = main_cr (pr_rt q) \<and> main_cr (pr_rt q) \<noteq> None"
  by (auto simp: worker_thread_begin_def on_rt_def s_main_cr_get_def upd_cr_def Let_def split: if_splits option.splits)

end
