(* ===== verification/Facade_Guards.thy ===== *)
theory Facade_Guards
  imports Lifecycle Timers Sync
begin

text \<open>
  The scoped objects and the coroutine handles of the C++ facade (\<open>suspenders.hpp\<close>): \<open>CleanupGuard\<close>, which is
  registered on the cleanup stack of its coroutine and must run whether its scope ends or the coroutine exits;
  \<open>LockGuard\<close>; \<open>Timer\<close> with its callable; \<open>Context\<close>, \<open>Task\<close>, \<open>spawn\<close> and the utilities of the current coroutine.
\<close>

section \<open>CleanupGuard\<close>

text \<open>The runtime, the callable of each guard (by the address of the guard; \<open>None\<close> when it is empty), and the
  callables that have been run.\<close>

record guarded =
  gu_rt :: rt
  gu_fn :: "ptr \<Rightarrow> fn option"
  gu_runs :: "fn list"

definition GUARD_TRAMPOLINE :: fn where "GUARD_TRAMPOLINE = 3"

definition run_fn :: "ptr \<Rightarrow> guarded \<Rightarrow> guarded" where
  "run_fn p g = (case gu_fn g p of None \<Rightarrow> g | Some f \<Rightarrow> g\<lparr>gu_runs := gu_runs g @ [f]\<rparr>)"

definition CleanupGuard_ctor :: "ptr \<Rightarrow> fn \<Rightarrow> guarded \<Rightarrow> guarded" where
  "CleanupGuard_ctor p f g =
     (let g1 = g\<lparr>gu_fn := (gu_fn g)(p := Some f)\<rparr>
      in g1\<lparr>gu_rt := suspenders_cleanup_push True GUARD_TRAMPOLINE p (gu_rt g1)\<rparr>)"

definition CleanupGuard_dtor :: "ptr \<Rightarrow> guarded \<Rightarrow> guarded" where
  "CleanupGuard_dtor p g = run_fn p (g\<lparr>gu_rt := suspenders_cleanup_pop False (gu_rt g)\<rparr>)"

definition CleanupGuard_release :: "ptr \<Rightarrow> guarded \<Rightarrow> guarded" where
  "CleanupGuard_release p g = g\<lparr>gu_fn := (gu_fn g)(p := None)\<rparr>"

text \<open>The trampoline runs for each handler the runtime calls; handlers of others are not ours.\<close>

definition CleanupGuard_trampoline :: "fn \<times> ptr \<Rightarrow> guarded \<Rightarrow> guarded" where
  "CleanupGuard_trampoline h g = (if fst h = GUARD_TRAMPOLINE then run_fn (snd h) g else g)"

text \<open>The coroutine exits: the runtime calls the handlers left on the stack.\<close>

definition exit_with_guards :: "guarded \<Rightarrow> guarded" where
  "exit_with_guards g =
     (let s = suspenders_exit (gu_rt g)
      in fold CleanupGuard_trampoline (drop (length (calls (gu_rt g))) (calls s)) (g\<lparr>gu_rt := s\<rparr>))"

text \<open>The body of a coroutine as far as guards are concerned: a scope with a guard, a release, an exit.\<close>

datatype stmt = Scope ptr fn "stmt list" | Release ptr | Exit

fun exec :: "stmt list \<Rightarrow> guarded \<Rightarrow> bool \<times> guarded" where
  "exec [] g = (False, g)"
| "exec (Exit # ss) g = (True, exit_with_guards g)"
| "exec (Release p # ss) g = exec ss (CleanupGuard_release p g)"
| "exec (Scope p f body # ss) g =
     (case exec body (CleanupGuard_ctor p f g) of
        (True, g1) \<Rightarrow> (True, g1)
      | (False, g1) \<Rightarrow> exec ss (CleanupGuard_dtor p g1))"

text \<open>What scopes mean, with no reference to a cleanup stack: leaving a scope runs its callable, and exiting runs
  the callables of all open scopes from the inside out.\<close>

definition armed_fns :: "(ptr \<Rightarrow> fn option) \<Rightarrow> ptr list \<Rightarrow> fn list" where
  "armed_fns m ps = concat (map (\<lambda>p. case m p of None \<Rightarrow> [] | Some f \<Rightarrow> [f]) ps)"

fun unwind :: "stmt list \<Rightarrow> ptr list \<Rightarrow> (ptr \<Rightarrow> fn option) \<Rightarrow> bool \<times> fn list \<times> (ptr \<Rightarrow> fn option)" where
  "unwind [] op m = (False, [], m)"
| "unwind (Exit # ss) op m = (True, armed_fns m op, m)"
| "unwind (Release p # ss) op m = unwind ss op (m(p := None))"
| "unwind (Scope p f body # ss) op m =
     (case unwind body (p # op) (m(p := Some f)) of
        (True, r, m1) \<Rightarrow> (True, r, m1)
      | (False, r, m1) \<Rightarrow>
          (case unwind ss op m1 of (ex, r2, m2) \<Rightarrow> (ex, r @ armed_fns m1 [p] @ r2, m2)))"

text \<open>The coroutine \<open>c\<close> runs, and its cleanup stack holds the guards of the open scopes.\<close>

definition guards_open :: "cr_ref \<Rightarrow> ptr list \<Rightarrow> guarded \<Rightarrow> bool" where
  "guards_open c op g \<longleftrightarrow> suspenders_self (gu_rt g) = Some c \<and> main_cr (gu_rt g) \<noteq> None \<and> cr_state (crs (gu_rt g) c) \<noteq> DONE \<and>
     cleanup_head (crs (gu_rt g) c) = map (Pair GUARD_TRAMPOLINE) op"

lemma run_fn_fields [simp]:
  "gu_rt (run_fn p g) = gu_rt g" "gu_fn (run_fn p g) = gu_fn g" "gu_runs (run_fn p g) = gu_runs g @ armed_fns (gu_fn g) [p]"
  by (simp_all add: run_fn_def armed_fns_def split: option.split)

lemma upd_cr_fields [simp]:
  "suspenders_self (upd_cr c f s) = suspenders_self s" "main_cr (upd_cr c f s) = main_cr s"
  "crs (upd_cr c f s) = (crs s)(c := f (crs s c))"
  by (simp_all add: suspenders_self_def upd_cr_def)

lemma ctor_open:
  assumes "guards_open c op g"
  shows "guards_open c (p # op) (CleanupGuard_ctor p f g)" "gu_fn (CleanupGuard_ctor p f g) = (gu_fn g)(p := Some f)"
    "gu_runs (CleanupGuard_ctor p f g) = gu_runs g"
proof -
  have "suspenders_self (gu_rt g) = Some c" using assms by (simp add: guards_open_def)
  then have u: "gu_rt (CleanupGuard_ctor p f g) = upd_cr c (\<lambda>r. r\<lparr>cleanup_head := (GUARD_TRAMPOLINE, p) # cleanup_head r\<rparr>) (gu_rt g)"
    by (simp add: CleanupGuard_ctor_def suspenders_cleanup_push_def Let_def)
  show "guards_open c (p # op) (CleanupGuard_ctor p f g)"
    using assms unfolding guards_open_def u by simp
qed (simp_all add: CleanupGuard_ctor_def Let_def)

lemma dtor_open:
  assumes "guards_open c (p # op) g"
  shows "guards_open c op (CleanupGuard_dtor p g)" "gu_fn (CleanupGuard_dtor p g) = gu_fn g"
    "gu_runs (CleanupGuard_dtor p g) = gu_runs g @ armed_fns (gu_fn g) [p]"
proof -
  have u: "suspenders_cleanup_pop False (gu_rt g) = upd_cr c (\<lambda>r. r\<lparr>cleanup_head := map (Pair GUARD_TRAMPOLINE) op\<rparr>) (gu_rt g)"
    using assms by (simp add: guards_open_def suspenders_cleanup_pop_def)
  show "guards_open c op (CleanupGuard_dtor p g)"
    using assms unfolding guards_open_def CleanupGuard_dtor_def by (simp add: u)
qed (simp_all add: CleanupGuard_dtor_def)

lemma release_open: "guards_open c op g \<Longrightarrow> guards_open c op (CleanupGuard_release p g)"
  by (simp add: guards_open_def CleanupGuard_release_def)

lemma trampolines:
  "gu_runs (fold CleanupGuard_trampoline (map (Pair GUARD_TRAMPOLINE) ps) g) = gu_runs g @ armed_fns (gu_fn g) ps"
  "gu_fn (fold CleanupGuard_trampoline (map (Pair GUARD_TRAMPOLINE) ps) g) = gu_fn g"
  by (induction ps arbitrary: g) (simp_all add: CleanupGuard_trampoline_def armed_fns_def)

lemma exit_open:
  assumes "guards_open c op g"
  shows "gu_runs (exit_with_guards g) = gu_runs g @ armed_fns (gu_fn g) op" "gu_fn (exit_with_guards g) = gu_fn g"
proof -
  let ?s = "gu_rt g"
  have self: "suspenders_self ?s = Some c" "cr_state (crs ?s c) \<noteq> DONE" and h: "cleanup_head (crs ?s c) = map (Pair GUARD_TRAMPOLINE) op"
    using assms by (simp_all add: guards_open_def)
  from assms obtain m where m: "main_cr ?s = Some m" by (auto simp: guards_open_def)
  have run: "running ?s = Some c" using self(1) by (auto simp: suspenders_self_def split: if_splits)
  have "filter (\<lambda>h. 0 < fst h) (map (Pair GUARD_TRAMPOLINE) op) = map (Pair GUARD_TRAMPOLINE) op"
    by (simp add: GUARD_TRAMPOLINE_def filter_map comp_def)
  then have "calls (suspenders_exit ?s) = calls ?s @ map (Pair GUARD_TRAMPOLINE) op"
    using exit_effect(1) [OF run m self(2)] self(1) h by (simp add: suspenders_exit_def)
  then show "gu_runs (exit_with_guards g) = gu_runs g @ armed_fns (gu_fn g) op" "gu_fn (exit_with_guards g) = gu_fn g"
    by (simp_all add: exit_with_guards_def Let_def trampolines)
qed

lemma exec_unwind:
  assumes "guards_open c op g" and "exec ss g = (ex, g')" and "unwind ss op (gu_fn g) = (ex', r, m)"
  shows "ex = ex' \<and> gu_runs g' = gu_runs g @ r \<and> gu_fn g' = m \<and> (\<not> ex \<longrightarrow> guards_open c op g')"
  using assms
proof (induction ss g arbitrary: op ex g' ex' r m rule: exec.induct)
  case (2 ss g)
  then show ?case using exit_open [of c op g] by auto
next
  case (3 p ss g)
  have "gu_fn (CleanupGuard_release p g) = (gu_fn g)(p := None)" "gu_runs (CleanupGuard_release p g) = gu_runs g"
    by (simp_all add: CleanupGuard_release_def)
  with 3(1) [OF release_open [OF 3(2)], of ex g' ex' r m] 3(3,4) show ?case by (simp add: fun_upd_def)
next
  case (4 p f body ss g)
  note o = ctor_open [OF 4(3), of p f]
  obtain e1 g1 where e1: "exec body (CleanupGuard_ctor p f g) = (e1, g1)" by force
  obtain e2 r1 m1 where u1: "unwind body (p # op) ((gu_fn g)(p := Some f)) = (e2, r1, m1)" by (metis prod_cases3)
  note b = 4(1) [OF o(1) e1] 
  from b [of e2 r1 m1] u1 o have B: "e1 = e2" "gu_runs g1 = gu_runs g @ r1" "gu_fn g1 = m1" "\<not> e1 \<longrightarrow> guards_open c (p # op) g1"
    by (simp_all add: fun_upd_def)
  show ?case
  proof (cases e1)
    case True
    with 4(4,5) e1 u1 B show ?thesis by simp
  next
    case False
    obtain e3 r3 m3 where u3: "unwind ss op m1 = (e3, r3, m3)" by (metis prod_cases3)
    have d: "guards_open c (p # op) g1" using B False by simp
    have "exec ss (CleanupGuard_dtor p g1) = (ex, g')" using 4(4) e1 False by simp
    with 4(2) [of e1 g1 op ex g' e3 r3 m3] e1 False dtor_open [OF d] u3 B
    have "ex = e3 \<and> gu_runs g' = gu_runs g @ r1 @ armed_fns m1 [p] @ r3 \<and> gu_fn g' = m3 \<and> (\<not> ex \<longrightarrow> guards_open c op g')" by simp
    with 4(5) u1 u3 B False show ?thesis by simp
  qed
qed auto

text \<open>C36. Guards behave like scopes: whatever the body of a coroutine does with nested guards, releases and exits in
  the middle of scopes, the callables that run, and their order, are those of leaving the scopes one by one
  from the inside out, each armed guard's callable exactly once; a guard that has been unregistered by its
  destructor is not run again by the exit.\<close>

theorem cleanup_guards_unwind:
  assumes "suspenders_self (gu_rt g) = Some c" and "main_cr (gu_rt g) \<noteq> None" and "cr_state (crs (gu_rt g) c) \<noteq> DONE"
    and "cleanup_head (crs (gu_rt g) c) = []" and "exec ss g = (ex, g')"
  shows "unwind ss [] (gu_fn g) = (ex, drop (length (gu_runs g)) (gu_runs g'), gu_fn g') \<and> take (length (gu_runs g)) (gu_runs g') = gu_runs g"
proof -
  have o: "guards_open c [] g" using assms by (simp add: guards_open_def)
  obtain e r m where u: "unwind ss [] (gu_fn g) = (e, r, m)" by (metis prod_cases3)
  from exec_unwind [OF o assms(5) u] u show ?thesis by simp
qed

definition guard_demo :: guarded where
  "guard_demo = \<lparr>gu_rt = run_on 5 blank_rt, gu_fn = (\<lambda>_. None), gu_runs = []\<rparr>"

definition guard_body :: "stmt list" where
  "guard_body = [Scope 1 11 [Scope 2 12 [], Scope 3 13 [Release 3], Scope 4 14 [Exit]], Scope 5 15 []]"

theorem cleanup_guards_unwind_witness:
  "gu_runs (snd (exec guard_body guard_demo)) = [12, 14, 11]"
proof -
  obtain ex g' where e: "exec guard_body guard_demo = (ex, g')" by force
  have "suspenders_self (gu_rt guard_demo) = Some 5" "main_cr (gu_rt guard_demo) \<noteq> None" "cr_state (crs (gu_rt guard_demo) 5) \<noteq> DONE"
    "cleanup_head (crs (gu_rt guard_demo) 5) = []"
    by (simp_all add: guard_demo_def run_on_def suspenders_self_def blank_rt_def zero_coroutine_def)
  from cleanup_guards_unwind [OF this e] e show ?thesis by (simp add: guard_demo_def guard_body_def armed_fns_def)
qed

section \<open>Mutex and LockGuard\<close>

text \<open>The methods of \<open>Mutex\<close> call the C functions on the mutex inside the object.\<close>

definition Mutex_ctor :: "nat \<Rightarrow> rt \<Rightarrow> rt" where "Mutex_ctor m s = snd (suspenders_mutex_init (Some m) s)"
definition Mutex_lock :: "nat \<Rightarrow> rt \<Rightarrow> int option \<times> rt" where "Mutex_lock m s = suspenders_mutex_lock (Some m) s"
definition Mutex_lock_dl :: "nat \<Rightarrow> u64 \<Rightarrow> rt \<Rightarrow> int option \<times> rt" where "Mutex_lock_dl m dl s = suspenders_mutex_lock_dl (Some m) dl s"
definition Mutex_try_lock :: "nat \<Rightarrow> rt \<Rightarrow> int option \<times> rt" where "Mutex_try_lock m s = suspenders_mutex_trylock (Some m) s"
definition Mutex_unlock :: "nat \<Rightarrow> rt \<Rightarrow> int option \<times> rt" where "Mutex_unlock m s = suspenders_mutex_unlock (Some m) s"

text \<open>The constructor drops the status; \<open>True\<close> says that it has returned, so that the body of the scope runs.\<close>

definition LockGuard_ctor :: "nat \<Rightarrow> rt \<Rightarrow> bool \<times> rt" where
  "LockGuard_ctor m s = (let (r, s1) = Mutex_lock m s in (r \<noteq> None, s1))"

definition LockGuard_dtor :: "nat \<Rightarrow> rt \<Rightarrow> rt" where
  "LockGuard_dtor m s = snd (Mutex_unlock m s)"

text \<open>A free mutex is held for exactly the scope of the guard.\<close>

lemma lock_guard_scope:
  assumes "suspenders_self s = Some c" and "owner s m = None" and "\<not> cancel_requested (crs s c)" and "\<not> deadline_armed (crs s c)"
    and "wlists s (LMutex m) = []"
  shows "\<exists>s1. LockGuard_ctor m s = (True, s1) \<and> owner s1 m = Some c \<and> owner (LockGuard_dtor m s1) = owner s"
proof -
  have "running s = Some c" "main_cr s \<noteq> Some c" using assms(1) by (auto simp: suspenders_self_def split: if_splits)
  with assms(2-5) show ?thesis
    by (auto simp: LockGuard_ctor_def LockGuard_dtor_def Mutex_lock_def Mutex_unlock_def suspenders_mutex_lock_def suspenders_mutex_lock_dl_def
        suspenders_mutex_unlock_def s_block_begin_def s_pre_block_def upd_cr_def Let_def)
qed

text \<open>With a cancellation pending the constructor returns without the mutex, which another coroutine may be
  holding, and the body runs all the same; the destructor's unlock is then refused.\<close>

lemma lock_guard_unprotected:
  assumes "suspenders_self s = Some c" and "owner s m = Some w" and "w \<noteq> c" and "cancel_requested (crs s c)"
  shows "\<exists>s1. LockGuard_ctor m s = (True, s1) \<and> owner s1 m = Some w \<and> owner (LockGuard_dtor m s1) m = Some w \<and>
    errno (LockGuard_dtor m s1) = SUSPENDERS_PERM"
proof -
  have "running s = Some c" "main_cr s \<noteq> Some c" using assms(1) by (auto simp: suspenders_self_def split: if_splits)
  with assms(2-4) show ?thesis
    by (auto simp: LockGuard_ctor_def LockGuard_dtor_def Mutex_lock_def Mutex_unlock_def suspenders_mutex_lock_def suspenders_mutex_lock_dl_def
        suspenders_mutex_unlock_def s_block_begin_def s_pre_block_def upd_cr_def set_errno_def fail_def Let_def)
qed

section \<open>Timer\<close>

definition TIMER_TRAMPOLINE :: fn where "TIMER_TRAMPOLINE = 4"

text \<open>The constructor with the address \<open>p\<close> of the copy of the callable: the timer and the address, or the exception,
  before which the copy is deleted (the list holds what is deleted).\<close>

definition Timer_ctor :: "nat option \<Rightarrow> int \<Rightarrow> bool \<Rightarrow> ptr \<Rightarrow> rt \<Rightarrow> (ptr list + timer_ref \<times> ptr) \<times> rt" where
  "Timer_ctor new ms rep p s =
     (case suspenders_timer_create new ms rep (Some (TIMER_TRAMPOLINE, p)) s of
        (None, s1) \<Rightarrow> (Inl [p], s1)
      | (Some t, s1) \<Rightarrow> (Inr (t, p), s1))"

text \<open>\<open>cancel\<close>, and with it the destructor: the runtime afterwards and the callable deleted.\<close>

definition Timer_cancel_all :: "timer_ref option \<Rightarrow> ptr option \<Rightarrow> rt \<Rightarrow> ptr list \<times> rt" where
  "Timer_cancel_all t p s =
     ((case p of None \<Rightarrow> [] | Some a \<Rightarrow> [a]), (case t of None \<Rightarrow> s | Some _ \<Rightarrow> snd (suspenders_timer_cancel t s)))"

lemma disarm_timers_ok:
  assumes ok: "timers_ok s"
  shows "timers_ok (s_timer_disarm t s)" "\<not> active (timers (s_timer_disarm t s) t)"
    "calls (s_timer_disarm t s) = calls s" "\<And>x. cb (timers (s_timer_disarm t s) x) = cb (timers s x)"
    "\<And>x. active (timers (s_timer_disarm t s) x) \<Longrightarrow> active (timers s x)"
proof -
  let ?s1 = "upd_timer t (\<lambda>x. x\<lparr>active := False\<rparr>) s" let ?h = "suspenders_timer_heap_remove (timer_key ?s1) (timer_heap s) t"
  have k: "timer_key ?s1 = timer_key s" by (auto simp: timer_key_def upd_timer_def fun_eq_iff)
  have inv: "theap_inv (timer_key ?s1) (timer_heap s)" "distinct (th_data (timer_heap s))" using ok by (simp_all add: timers_ok_def k)
  note r = remove_result [OF inv(1), of t]
  have e: "mset (th_data ?h) = mset (remove1 t (th_data (timer_heap s)))" using r by simp
  have "distinct (th_data ?h)" using e inv(2) by (metis distinct_remove1 mset_eq_imp_distinct_iff)
  moreover have "set (th_data ?h) = set (th_data (timer_heap s)) - {t}" using e inv(2) by (metis mset_eq_setD set_remove1_eq)
  moreover have "timer_key (?s1\<lparr>timer_heap := ?h\<rparr>) = timer_key s" by (auto simp: timer_key_def upd_timer_def fun_eq_iff)
  ultimately show "timers_ok (s_timer_disarm t s)"
    using ok r k by (auto simp: timers_ok_def s_timer_disarm_def Let_def upd_timer_def)
qed (auto simp: s_timer_disarm_def upd_timer_def Let_def split: if_splits)

text \<open>After a timer of the facade has been cancelled or destroyed its callable, which is deleted, is never called
  by the runtime again: at whatever time the overdue timers are fired next, the calls made do not include it
  (no other timer carries the address of the callable).\<close>

theorem timer_cancel_silences:
  assumes "timers_ok s" and "\<forall>x. x \<noteq> t \<and> active (timers s x) \<longrightarrow> cb (timers s x) \<noteq> UserCb TIMER_TRAMPOLINE p"
    and "Timer_cancel_all (Some t) (Some p) s = (freed, s1)" and "clock_ok now"
  shows "freed = [p] \<and> timers_ok s1 \<and>
    (\<exists>u. suspenders_timer_fire_expired (s1\<lparr>now_ns := now\<rparr>) = Some u \<and> take (length (calls s)) (calls u) = calls s \<and>
       (TIMER_TRAMPOLINE, p) \<notin> set (drop (length (calls s)) (calls u)))"
proof -
  have s1: "s1 = s_timer_disarm t s" and f: "freed = [p]" using assms(3) by (auto simp: Timer_cancel_all_def suspenders_timer_cancel_def)
  note d = disarm_timers_ok [OF assms(1), of t, folded s1]
  let ?s = "s1\<lparr>now_ns := now\<rparr>"
  have "timer_key ?s = timer_key s1" by (simp add: timer_key_def fun_eq_iff)
  then have ok: "timers_ok ?s" using d(1) by (simp add: timers_ok_def)
  from fire_loop_correct [OF this assms(4)] obtain u fs where u: "fire_loop now ?s = Some u" "mset fs = mset (expired now ?s)"
    "calls u = calls s1 @ concat (map (\<lambda>x. user_calls (cb (timers s1 x))) fs)" by auto
  have "cb (timers s1 x) \<noteq> UserCb TIMER_TRAMPOLINE p" if "x \<in> set fs" for x
  proof -
    have "x \<in> set (th_data (timer_heap ?s))" using that u(2) by (metis expired_def filter_is_subset mset_eq_setD subsetD)
    then have "active (timers s1 x)" using ok by (simp add: timers_ok_def)
    with d assms(2) show ?thesis by metis
  qed
  then have "(TIMER_TRAMPOLINE, p) \<notin> set (concat (map (\<lambda>x. user_calls (cb (timers s1 x))) fs))"
    by (auto simp: user_calls_def split: timer_cb.splits) metis
  with u d(1,3) f show ?thesis by (auto simp: suspenders_timer_fire_expired_def)
qed

definition timer_demo :: rt where
  "timer_demo = blank_rt\<lparr>timers := (timers blank_rt)(THeap 1 := \<lparr>deadline_ns = 4000000, period_ms = 3, repeat = True, active = True,
       heap_allocated = True, cb = UserCb TIMER_TRAMPOLINE 9\<rparr>), timer_heap := \<lparr>th_data = [THeap 1], th_cap = 16\<rparr>\<rparr>"

theorem timer_cancel_silences_witness:
  "\<exists>u. suspenders_timer_fire_expired ((snd (Timer_cancel_all (Some (THeap 1)) (Some 9) timer_demo))\<lparr>now_ns := 5000000\<rparr>) = Some u \<and>
     (TIMER_TRAMPOLINE, 9) \<notin> set (calls u)"
proof -
  have "timers_ok timer_demo"
    by (auto simp: timers_ok_def timer_demo_def blank_rt_def theap_inv_def heap_ok_def edge_ok_def timer_key_def)
  moreover have "\<forall>x. x \<noteq> THeap 1 \<and> active (timers timer_demo x) \<longrightarrow> cb (timers timer_demo x) \<noteq> UserCb TIMER_TRAMPOLINE 9"
    by (simp add: timer_demo_def blank_rt_def)
  moreover have "clock_ok 5000000" by (simp add: clock_ok_def)
  moreover have "calls timer_demo = []" by (simp add: timer_demo_def blank_rt_def)
  ultimately show ?thesis using timer_cancel_silences [OF _ _ prod.collapse [symmetric]] by force
qed

section \<open>Context, Task and spawn\<close>

text \<open>The constructor of \<open>Context\<close> does not look at the status of \<open>suspenders_init\<close>.\<close>

definition Context_ctor ::
    "bool \<Rightarrow> bool \<Rightarrow> bool \<Rightarrow> (nat \<Rightarrow> bool) \<Rightarrow> (nat \<Rightarrow> bool) \<Rightarrow> nat \<Rightarrow> nat \<Rightarrow> process \<Rightarrow> process" where
  "Context_ctor heap backend wmem wfds threads nworkers hint p = snd (suspenders_init heap backend wmem wfds threads nworkers hint p)"

definition Context_dtor :: "process \<Rightarrow> process" where
  "Context_dtor p = suspenders_shutdown p"

text \<open>\<open>run\<close> up to the worker loop, whose passes are those of \<open>Lifecycle\<close>; \<open>None\<close> when it returns at once.\<close>

definition Context_run :: "process \<Rightarrow> process option" where
  "Context_run p = run_begin p"

text \<open>After a failed initialization \<open>run\<close> does nothing, and the destructor neither.\<close>

lemma context_without_runtime:
  assumes "\<not> pr_init p" and "fst (suspenders_init heap backend wmem wfds threads nworkers hint p) \<noteq> SUSPENDERS_OK"
  shows "let q = Context_ctor heap backend wmem wfds threads nworkers hint p in Context_run q = None \<and> Context_dtor q = q"
  using assms by (auto simp: Context_ctor_def Context_run_def Context_dtor_def suspenders_init_def init_rollback_def on_rt_def run_begin_def suspenders_shutdown_def Let_def
      split: if_splits)

text \<open>A \<open>Task\<close> is the address of a coroutine or null; it owns nothing.\<close>

definition Task_resume :: "cr_ref option \<Rightarrow> rt \<Rightarrow> rt" where
  "Task_resume t s = (case t of None \<Rightarrow> s | Some c \<Rightarrow> suspenders_resume c s)"

definition Task_boost :: "cr_ref option \<Rightarrow> int \<Rightarrow> rt \<Rightarrow> rt" where
  "Task_boost t q s = (case t of None \<Rightarrow> s | Some c \<Rightarrow> suspenders_boost c q s)"

definition Task_cancel :: "cr_ref option \<Rightarrow> rt \<Rightarrow> rt" where
  "Task_cancel t s = (case t of None \<Rightarrow> s | Some c \<Rightarrow> snd (suspenders_cancel (Some c) s))"

text \<open>The state is read from the record of the coroutine; \<open>None\<close> is a read of memory that has been given back.\<close>

definition Task_state :: "cr_ref option \<Rightarrow> process \<Rightarrow> cr_state option" where
  "Task_state t p =
     (case t of None \<Rightarrow> Some DONE | Some c \<Rightarrow> if c \<in> pr_arenas p then Some (cr_state (crs (pr_rt p) c)) else None)"

definition Task_done :: "cr_ref option \<Rightarrow> process \<Rightarrow> bool option" where
  "Task_done t p = map_option (\<lambda>st. st = DONE) (Task_state t p)"

text \<open>As long as a coroutine has not been reaped \<open>done\<close> tells whether it has finished; the scheduler's next idle pass
  reaps it, and from then on the question reads freed memory.\<close>

lemma task_done_dangles:
  assumes "c \<in> pr_arenas p" and "c \<in> set (zombies (pr_rt p))" and "cr_state (crs (pr_rt p) c) = DONE"
  shows "Task_done (Some c) p = Some True \<and> Task_done (Some c) (reap s_zombie_reap p) = None"
proof -
  have "pr_arenas (destroy_all cs q) = pr_arenas q - set cs" for cs q
    by (induction cs arbitrary: q) (auto simp: s_cr_arena_destroy_def)
  with assms show ?thesis by (simp add: Task_done_def Task_state_def reap_def s_zombie_reap_def on_rt_def)
qed

text \<open>\<open>spawn\<close> of a callable copied to address \<open>p\<close>: the task, or the exception with the copy deleted.\<close>

definition CO_TRAMPOLINE :: fn where "CO_TRAMPOLINE = 5"

definition spawn_callable :: "bool \<Rightarrow> bool \<Rightarrow> cr_ref \<Rightarrow> ptr \<Rightarrow> int \<Rightarrow> rt \<Rightarrow> (ptr list + cr_ref) \<times> rt" where
  "spawn_callable arena stack c p qos s =
     (case suspenders_spawn arena stack c CO_TRAMPOLINE qos s of
        (None, s1) \<Rightarrow> (Inl [p], s1)
      | (Some c1, s1) \<Rightarrow> (Inr c1, s1))"

definition spawn_function :: "bool \<Rightarrow> bool \<Rightarrow> cr_ref \<Rightarrow> fn \<Rightarrow> int \<Rightarrow> rt \<Rightarrow> cr_ref option \<times> rt" where
  "spawn_function arena stack c f qos s = suspenders_spawn arena stack c f qos s"

text \<open>The trampoline of a coroutine: the callable is deleted when it returns, not when it exits the coroutine.\<close>

definition coroutine_trampoline :: "bool \<Rightarrow> ptr \<Rightarrow> ptr list" where
  "coroutine_trampoline exits_inside p = (if exits_inside then [] else [p])"

section \<open>Utilities\<close>

definition current_task :: "rt \<Rightarrow> cr_ref option" where "current_task s = running s"
definition yield :: "rt \<Rightarrow> rt" where "yield s = suspenders_yield s"
definition suspend :: "rt \<Rightarrow> rt" where "suspend s = suspenders_suspend s"

text \<open>\<open>static_cast<uint64_t>(ms) * 1000000ULL\<close> does not wrap for an \<open>int\<close>.\<close>

definition sleep_ms :: "int \<Rightarrow> rt \<Rightarrow> rt" where
  "sleep_ms ms s = (if ms > 0 then snd (suspenders_sleep_ns (word_of_int ms * 1000000) s) else s)"

definition sleep_for :: "int \<Rightarrow> rt \<Rightarrow> rt" where
  "sleep_for ns s = (if ns > 0 then snd (suspenders_sleep_ns (word_of_int ns) s) else s)"

lemma sleep_ms_exact:
  assumes "0 \<le> ms" and "ms < 2 ^ 31"
  shows "unat (word_of_int ms * 1000000 :: u64) = nat ms * 1000000"
proof -
  obtain k where k: "ms = int k" "k < 2 ^ 31" using assms by (metis int_nat_eq of_nat_less_iff of_nat_numeral of_nat_power nat_less_iff)
  then show ?thesis by (simp add: unat_word_ariths unat_of_nat)
qed

end
