(* ===== verification/Facade_Queue.thy ===== *)
theory Facade_Queue
  imports Task_Queue
begin

text \<open>
  The queue and pool classes of the C++ facade (\<open>suspenders.hpp\<close>) with the closures they allocate. A callable
  handed to \<open>Queue::async\<close>, \<open>barrier_async\<close>, \<open>after\<close> or \<open>Pool::submit\<close> is copied to the free store and its address
  travels through the queue as the argument of a trampoline, which calls and deletes it; \<open>Queue::sync\<close> keeps it
  in the caller's frame.

  The model runs the facade on top of the steps of \<open>Task_Queue\<close>: objects are numbers, a call or a deletion of an
  object that does not exist (any more) raises \<open>fault\<close>, and a submitter whose send fails is resumed in a step of
  its own. The theorems say that no callable is used after its deletion or deleted twice, and which callables
  are never deleted.
\<close>

section \<open>Objects\<close>

text \<open>Next to the queue and whether the handle refers to it (\<open>q_\<close> or \<open>pool_\<close> is not null): the objects in the free store and in frames of \<open>sync\<close> callers, the logs of allocations,
  deletions and calls, the callables whose submitter does not look at the status (\<open>careless\<close>), the submitters
  whose send has failed and who have not run since, the coroutines of \<open>after\<close> that still sleep, the wait groups
  of \<open>sync\<close> that have been completed, and the callables nobody refers to any more.\<close>

record cxx_queue =
  cq :: task_queue
  q_valid :: bool
  next_obj :: nat
  heap_objs :: "nat list"
  frame_objs :: "nat list"
  news :: "nat list"
  deletes :: "nat list"
  calls :: "nat list"
  fault :: bool
  careless :: "nat list"
  failed :: "(task \<times> int) list"
  afters :: "nat list"
  wg_done :: "nat list"
  lost :: "nat list"

definition TRAMPOLINE :: nat where "TRAMPOLINE = 1"
definition SYNC_CALL :: nat where "SYNC_CALL = 2"

definition new_function :: "cxx_queue \<Rightarrow> nat \<times> cxx_queue" where
  "new_function s = (next_obj s, s\<lparr>next_obj := Suc (next_obj s), heap_objs := next_obj s # heap_objs s, news := news s @ [next_obj s]\<rparr>)"

definition frame_function :: "cxx_queue \<Rightarrow> nat \<times> cxx_queue" where
  "frame_function s = (next_obj s, s\<lparr>next_obj := Suc (next_obj s), frame_objs := next_obj s # frame_objs s\<rparr>)"

definition call_function :: "nat \<Rightarrow> cxx_queue \<Rightarrow> cxx_queue" where
  "call_function p s = (if p \<in> set (heap_objs s @ frame_objs s) then s\<lparr>calls := calls s @ [p]\<rparr> else s\<lparr>fault := True\<rparr>)"

definition delete_function :: "nat \<Rightarrow> cxx_queue \<Rightarrow> cxx_queue" where
  "delete_function p s =
     (if p \<in> set (heap_objs s) then s\<lparr>heap_objs := remove1 p (heap_objs s), deletes := deletes s @ [p]\<rparr> else s\<lparr>fault := True\<rparr>)"

definition leave_frame :: "nat \<Rightarrow> cxx_queue \<Rightarrow> cxx_queue" where
  "leave_frame p s = (if p \<in> set (frame_objs s) then s\<lparr>frame_objs := remove1 p (frame_objs s)\<rparr> else s\<lparr>fault := True\<rparr>)"

section \<open>The methods\<close>

text \<open>What \<open>async\<close> and \<open>barrier_async\<close> do after the submission: a parked submitter (\<open>None\<close>) has not returned yet.\<close>

definition async_status :: "nat \<Rightarrow> int option \<times> task_queue \<Rightarrow> cxx_queue \<Rightarrow> int option \<times> cxx_queue" where
  "async_status p r s =
     (let s1 = s\<lparr>cq := snd r\<rparr> in
      case fst r of
        None \<Rightarrow> (None, s1)
      | Some st \<Rightarrow> (Some st, if st \<noteq> SUSPENDERS_OK then delete_function p s1 else s1))"

definition Queue_async :: "bool \<Rightarrow> cxx_queue \<Rightarrow> int option \<times> cxx_queue" where
  "Queue_async in_cr s =
     (if \<not> q_valid s then (Some SUSPENDERS_INVAL, s)
      else (let (p, s1) = new_function s in async_status p (suspenders_queue_async in_cr TRAMPOLINE p (cq s1)) s1))"

definition Queue_barrier_async :: "bool \<Rightarrow> cxx_queue \<Rightarrow> int option \<times> cxx_queue" where
  "Queue_barrier_async in_cr s =
     (if \<not> q_valid s then (Some SUSPENDERS_INVAL, s)
      else (let (p, s1) = new_function s in async_status p (suspenders_queue_barrier_async in_cr TRAMPOLINE p (cq s1)) s1))"

text \<open>\<open>sync\<close>: the callable is a local variable, and the wait group of the C function is in a frame below it. A
  refused call returns at once; otherwise the caller waits (\<open>None\<close>).\<close>

definition Queue_sync :: "bool \<Rightarrow> cxx_queue \<Rightarrow> int option \<times> cxx_queue" where
  "Queue_sync in_cr s =
     (if \<not> q_valid s then (Some SUSPENDERS_INVAL, s)
      else
        (let (p, s1) = frame_function s;
             r = suspenders_queue_sync in_cr p SYNC_CALL p (cq s1);
             s2 = s1\<lparr>cq := snd r\<rparr>
         in case fst r of
              Some st \<Rightarrow> if st \<noteq> SUSPENDERS_OK then (Some st, leave_frame p s2) else (None, s2)
            | None \<Rightarrow> (None, s2)))"

text \<open>\<open>after\<close>: the coroutine that sleeps owns the address; when it wakes up it submits and ignores the status.\<close>

definition Queue_after :: "bool \<Rightarrow> int option \<Rightarrow> cxx_queue \<Rightarrow> int \<times> cxx_queue" where
  "Queue_after mem spawn_err s =
     (if \<not> q_valid s then (SUSPENDERS_INVAL, s)
      else
        (let (p, s1) = new_function s;
             st = suspenders_queue_after mem spawn_err TRAMPOLINE
         in (st, if st \<noteq> SUSPENDERS_OK then delete_function p s1 else s1\<lparr>afters := afters s1 @ [p], careless := p # careless s1\<rparr>)))"

definition lose :: "nat \<Rightarrow> cxx_queue \<Rightarrow> cxx_queue" where
  "lose p s = s\<lparr>lost := p # lost s\<rparr>"

definition careless_status :: "nat \<Rightarrow> int option \<times> task_queue \<Rightarrow> cxx_queue \<Rightarrow> cxx_queue" where
  "careless_status p r s =
     (let s1 = s\<lparr>cq := snd r\<rparr> in
      case fst r of None \<Rightarrow> s1 | Some st \<Rightarrow> if st \<noteq> SUSPENDERS_OK then lose p s1 else s1)"

definition after_expires :: "nat \<Rightarrow> cxx_queue \<Rightarrow> cxx_queue" where
  "after_expires i s =
     (let p = afters s ! i; s1 = s\<lparr>afters := take i (afters s) @ drop (Suc i) (afters s)\<rparr>
      in careless_status p (s_queue_after_cr TRAMPOLINE p (cq s1)) s1)"

definition Pool_submit :: "bool \<Rightarrow> cxx_queue \<Rightarrow> cxx_queue" where
  "Pool_submit in_cr s =
     (if \<not> q_valid s then s
      else
        (let (p, s1) = new_function s; s2 = s1\<lparr>careless := p # careless s1\<rparr>
         in careless_status p (suspenders_queue_async in_cr TRAMPOLINE p (cq s2)) s2))"

text \<open>Making handles: \<open>None\<close> is the exception. The handle of a global queue does not own it (the flag).\<close>

definition Queue_ctor :: "bool \<Rightarrow> bool \<Rightarrow> bool \<Rightarrow> bool list \<Rightarrow> string option \<Rightarrow> int \<Rightarrow> nat \<Rightarrow> (task_queue \<times> bool) option" where
  "Queue_ctor up mem chan_ok spawns lbl qos conc =
     (case suspenders_queue_create up mem chan_ok spawns lbl qos conc of Inl e \<Rightarrow> None | Inr q \<Rightarrow> Some (q, True))"

definition Queue_global ::
    "bool \<Rightarrow> bool \<Rightarrow> bool \<Rightarrow> bool list \<Rightarrow> nat \<Rightarrow> int \<Rightarrow> queue_table \<Rightarrow> (nat option \<times> bool) \<times> queue_table" where
  "Queue_global up mem chan_ok spawns workers qos h =
     (case suspenders_get_global_queue up mem chan_ok spawns workers qos h of
        (Inl e, h1) \<Rightarrow> ((None, False), h1)
      | (Inr k, h1) \<Rightarrow> ((Some k, False), h1))"

definition Pool_ctor ::
    "bool \<Rightarrow> bool \<Rightarrow> bool \<Rightarrow> bool \<Rightarrow> bool list \<Rightarrow> int \<Rightarrow> nat \<Rightarrow> queue_table \<Rightarrow> nat option \<times> queue_table" where
  "Pool_ctor pool_mem up mem chan_ok spawns qos nworkers h =
     (case suspenders_pool_create pool_mem up mem chan_ok spawns qos nworkers h of
        (Inl e, h1) \<Rightarrow> (None, h1)
      | (Inr k, h1) \<Rightarrow> (Some k, h1))"

text \<open>The send of a parked submitter fails, and later the submitter goes on: \<open>async\<close> deletes, \<open>sync\<close> returns and
  its frame is gone, the others lose the address.\<close>

definition submitter_canceled :: "nat \<Rightarrow> cxx_queue \<Rightarrow> cxx_queue" where
  "submitter_canceled i s =
     s\<lparr>cq := cancel_submit i (cq s), failed := failed s @ [(parked (cq s) ! i, SUSPENDERS_CANCELED)]\<rparr>"

definition Queue_close :: "cxx_queue \<Rightarrow> cxx_queue" where
  "Queue_close s =
     s\<lparr>cq := queue_close (cq s), failed := failed s @ map (\<lambda>t. (t, SUSPENDERS_CLOSED)) (parked (cq s))\<rparr>"

definition submitter_returns :: "nat \<Rightarrow> cxx_queue \<Rightarrow> cxx_queue" where
  "submitter_returns i s =
     (let t = fst (failed s ! i); s1 = s\<lparr>failed := take i (failed s) @ drop (Suc i) (failed s)\<rparr>
      in if t_sync t \<noteq> None then leave_frame (t_arg t) s1
         else if t_arg t \<in> set (careless s1) then lose (t_arg t) s1
         else delete_function (t_arg t) s1)"

text \<open>A task runs: the trampoline calls the object and, when the call returns, deletes it; the function that
  \<open>sync\<close> passes only calls it, and the object has to last until it returns.\<close>

definition trampoline_end :: "task \<Rightarrow> cxx_queue \<Rightarrow> cxx_queue" where
  "trampoline_end t s =
     (if t_fn t = TRAMPOLINE then delete_function (t_arg t) s
      else if t_arg t \<in> set (frame_objs s) then s else s\<lparr>fault := True\<rparr>)"

fun run_event :: "tq_event \<Rightarrow> cxx_queue \<Rightarrow> cxx_queue" where
  "run_event (Accept t) s = s"
| "run_event (Start t) s = call_function (t_arg t) s"
| "run_event (Finish t) s = trampoline_end t s"

definition complete_sync :: "drainer \<Rightarrow> cxx_queue \<Rightarrow> cxx_queue" where
  "complete_sync d s = (case d of DDone t \<Rightarrow> (case t_sync t of Some w \<Rightarrow> s\<lparr>wg_done := wg_done s @ [w]\<rparr> | None \<Rightarrow> s) | _ \<Rightarrow> s)"

definition drainer_runs :: "nat \<Rightarrow> cxx_queue \<Rightarrow> cxx_queue" where
  "drainer_runs i s =
     (case s_queue_drainer i (cq s) of
        None \<Rightarrow> s
      | Some (ev, q') \<Rightarrow> complete_sync (drainers (cq s) ! i) (fold run_event ev (s\<lparr>cq := q'\<rparr>)))"

text \<open>The caller of \<open>sync\<close> leaves when its wait group is completed.\<close>

definition sync_returns :: "nat \<Rightarrow> cxx_queue \<Rightarrow> cxx_queue" where
  "sync_returns i s = leave_frame (wg_done s ! i) (s\<lparr>wg_done := take i (wg_done s) @ drop (Suc i) (wg_done s)\<rparr>)"

section \<open>Runs\<close>

inductive cx_step :: "cxx_queue \<Rightarrow> cxx_queue \<Rightarrow> bool" where
  cx_async: "cx_step s (snd (Queue_async in_cr s))"
| cx_barrier: "cx_step s (snd (Queue_barrier_async in_cr s))"
| cx_sync: "cx_step s (snd (Queue_sync in_cr s))"
| cx_after: "cx_step s (snd (Queue_after mem spawn_err s))"
| cx_submit: "cx_step s (Pool_submit in_cr s)"
| cx_expire: "i < length (afters s) \<Longrightarrow> cx_step s (after_expires i s)"
| cx_cancel: "i < length (parked (cq s)) \<Longrightarrow> cx_step s (submitter_canceled i s)"
| cx_return: "i < length (failed s) \<Longrightarrow> cx_step s (submitter_returns i s)"
| cx_drain: "i < length (drainers (cq s)) \<Longrightarrow> cx_step s (drainer_runs i s)"
| cx_stray: "i < length (drainers (cq s)) \<Longrightarrow> cx_step s (s\<lparr>cq := set_drainer i (wake (drainers (cq s) ! i)) (cq s)\<rparr>)"
| cx_close: "cx_step s (Queue_close s)"
| cx_sync_return: "i < length (wg_done s) \<Longrightarrow> cx_step s (sync_returns i s)"

definition cx_start :: "bool \<Rightarrow> task_queue \<Rightarrow> cxx_queue" where
  "cx_start v q = \<lparr>cq = q, q_valid = v, next_obj = 1, heap_objs = [], frame_objs = [], news = [], deletes = [], calls = [], fault = False,
     careless = [], failed = [], afters = [], wg_done = [], lost = []\<rparr>"

definition cx_init :: "cxx_queue \<Rightarrow> bool" where
  "cx_init s \<longleftrightarrow> tq_fresh (cq s) \<and> s = cx_start (q_valid s) (cq s)"

text \<open>The queue has been drained and every caller has returned.\<close>

definition quiet :: "cxx_queue \<Rightarrow> bool" where
  "quiet s \<longleftrightarrow> drained (cq s) \<and> failed s = [] \<and> afters s = [] \<and> wg_done s = []"

section \<open>Who holds which object\<close>

definition owns :: "drainer \<Rightarrow> task multiset" where
  "owns d = (case d of DDone t \<Rightarrow> if t_sync t = None then {#} else {#t#} | _ \<Rightarrow> unfinished d)"

definition tasks_of :: "task_queue \<Rightarrow> task multiset" where
  "tasks_of q = mset (buffered q) + mset (parked q) + sum_list (map owns (drainers q))"

definition good_task :: "task \<Rightarrow> bool" where
  "good_task t \<longleftrightarrow> (case t_sync t of None \<Rightarrow> t_fn t = TRAMPOLINE | Some w \<Rightarrow> t_fn t = SYNC_CALL \<and> w = t_arg t)"

definition pending :: "cxx_queue \<Rightarrow> task multiset" where
  "pending s = tasks_of (cq s) + mset (map fst (failed s))"

definition args_of :: "(task \<Rightarrow> bool) \<Rightarrow> task multiset \<Rightarrow> nat multiset" where
  "args_of P M = image_mset t_arg (filter_mset P M)"

abbreviation heap_args :: "task multiset \<Rightarrow> nat multiset" where "heap_args \<equiv> args_of (\<lambda>t. t_sync t = None)"
abbreviation frame_args :: "task multiset \<Rightarrow> nat multiset" where "frame_args \<equiv> args_of (\<lambda>t. t_sync t \<noteq> None)"

text \<open>Every object in the free store is the argument of exactly one task or sleeper, or lost; every object in a
  frame belongs to one synchronous task or completed wait group; nothing deleted is among them.\<close>

definition cx_inv :: "cxx_queue \<Rightarrow> bool" where
  "cx_inv s \<longleftrightarrow>
     heap_args (pending s) + mset (afters s) + mset (lost s) = mset (heap_objs s) \<and>
     frame_args (pending s) + mset (wg_done s) = mset (frame_objs s) \<and>
     (\<forall>t \<in># pending s. good_task t) \<and>
     distinct (heap_objs s @ frame_objs s @ deletes s) \<and>
     (\<forall>p \<in> set (heap_objs s @ frame_objs s @ deletes s). p < next_obj s) \<and>
     mset (news s) = mset (heap_objs s) + mset (deletes s) \<and>
     set (afters s) \<union> set (lost s) \<subseteq> set (careless s) \<and> \<not> fault s"

lemma args_of_simps [simp]:
  "args_of P {#} = {#}" "args_of P (M + N) = args_of P M + args_of P N"
  "args_of P (add_mset t M) = (if P t then add_mset (t_arg t) (args_of P M) else args_of P M)"
  by (simp_all add: args_of_def)

lemma args_of_mem: "t \<in># M \<Longrightarrow> P t \<Longrightarrow> t_arg t \<in># args_of P M"
  by (simp add: args_of_def)

section \<open>Submissions\<close>

text \<open>A submission either puts a task with the given address into the queue or leaves the queue's tasks alone.\<close>

definition handed_over :: "nat \<Rightarrow> nat option \<Rightarrow> task_queue \<Rightarrow> int option \<times> task_queue \<Rightarrow> bool" where
  "handed_over p w q r \<longleftrightarrow>
     (case fst r of
        Some st \<Rightarrow> st \<noteq> SUSPENDERS_OK \<and> tasks_of (snd r) = tasks_of q
      | None \<Rightarrow> False) \<or>
     ((fst r = None \<or> fst r = Some SUSPENDERS_OK) \<and>
      (\<exists>t. tasks_of (snd r) = add_mset t (tasks_of q) \<and> t_arg t = p \<and> t_sync t = w \<and> good_task t))"

lemma submit_handed_over:
  "good_task t \<Longrightarrow> handed_over (t_arg t) (t_sync t) q (s_queue_submit in_cr t q)"
  by (auto simp: s_queue_submit_def Let_def handed_over_def tasks_of_def)

lemma queue_calls_hand_over:
  "handed_over p None q (suspenders_queue_async in_cr TRAMPOLINE p q)"
  "handed_over p None q (suspenders_queue_barrier_async in_cr TRAMPOLINE p q)"
  "handed_over p None q (s_queue_after_cr TRAMPOLINE p q)"
  "handed_over p (Some p) q (suspenders_queue_sync in_cr p SYNC_CALL p q)"
  using submit_handed_over [of "\<lparr>t_fn = TRAMPOLINE, t_arg = p, t_barrier = _, t_sync = None\<rparr>" q]
    submit_handed_over [of "\<lparr>t_fn = SYNC_CALL, t_arg = p, t_barrier = _, t_sync = Some p\<rparr>" q]
  by (auto simp: suspenders_queue_async_def suspenders_queue_barrier_async_def suspenders_queue_sync_def s_queue_after_cr_def
      TRAMPOLINE_def SYNC_CALL_def good_task_def handed_over_def)

lemma heap_object_fresh: "cx_inv s \<Longrightarrow> next_obj s \<notin> set (heap_objs s) \<union> set (frame_objs s) \<union> set (deletes s)"
  by (auto simp: cx_inv_def)

lemma new_status_inv:
  assumes "cx_inv s" and "new_function s = (p, s1)" and "handed_over p None (cq s1) r"
  shows "cx_inv (snd (async_status p r s1))" "cx_inv (careless_status p r (s1\<lparr>careless := p # careless s1\<rparr>))"
proof -
  note fresh = heap_object_fresh [OF assms(1)]
  have s1: "p = next_obj s" "s1 = s\<lparr>next_obj := Suc p, heap_objs := p # heap_objs s, news := news s @ [p]\<rparr>"
    using assms(2) by (auto simp: new_function_def)
  show "cx_inv (snd (async_status p r s1))" "cx_inv (careless_status p r (s1\<lparr>careless := p # careless s1\<rparr>))"
    using assms(1,3) fresh
    by (auto simp: s1 async_status_def careless_status_def lose_def delete_function_def handed_over_def pending_def cx_inv_def Let_def
        less_Suc_eq simp del: SUSPENDERS_OK_def split: option.splits)
qed

lemma Queue_async_inv: "cx_inv s \<Longrightarrow> cx_inv (snd (Queue_async in_cr s))"
  using new_status_inv(1) queue_calls_hand_over(1) by (auto simp: Queue_async_def split: prod.split)

lemma Queue_barrier_async_inv: "cx_inv s \<Longrightarrow> cx_inv (snd (Queue_barrier_async in_cr s))"
  using new_status_inv(1) queue_calls_hand_over(2) by (auto simp: Queue_barrier_async_def split: prod.split)

lemma Pool_submit_inv: "cx_inv s \<Longrightarrow> cx_inv (Pool_submit in_cr s)"
  using new_status_inv(2) queue_calls_hand_over(1) by (auto simp: Pool_submit_def Let_def split: prod.split)

lemma Queue_sync_inv:
  assumes "cx_inv s"
  shows "cx_inv (snd (Queue_sync in_cr s))"
proof -
  note fresh = heap_object_fresh [OF assms]
  show ?thesis
    using assms fresh queue_calls_hand_over(4) [of "next_obj s" "cq s" in_cr]
    by (auto simp: Queue_sync_def frame_function_def leave_frame_def handed_over_def pending_def cx_inv_def Let_def
        less_Suc_eq simp del: SUSPENDERS_OK_def split: option.splits)
qed

lemma Queue_after_inv:
  assumes "cx_inv s"
  shows "cx_inv (snd (Queue_after mem spawn_err s))"
  using assms heap_object_fresh [OF assms]
  by (auto simp: Queue_after_def new_function_def delete_function_def pending_def cx_inv_def Let_def less_Suc_eq
      simp del: SUSPENDERS_OK_def)

lemma after_expires_inv:
  assumes inv: "cx_inv s" and i: "i < length (afters s)"
  shows "cx_inv (after_expires i s)"
proof -
  have "afters s ! i \<in> set (careless s)" using i inv by (auto simp: cx_inv_def)
  moreover have "set (take i (afters s) @ drop (Suc i) (afters s)) \<subseteq> set (careless s)"
    using inv mset_take_drop [OF i] by (auto simp: cx_inv_def dest: in_set_takeD in_set_dropD)
  ultimately show ?thesis
    using inv mset_take_drop [OF i] queue_calls_hand_over(3) [of "afters s ! i" "cq s"]
    by (auto simp: after_expires_def careless_status_def lose_def handed_over_def pending_def cx_inv_def Let_def
        simp del: SUSPENDERS_OK_def split: option.splits)
qed

section \<open>Failed submitters\<close>

lemma submitter_canceled_inv:
  assumes inv: "cx_inv s" and i: "i < length (parked (cq s))"
  shows "cx_inv (submitter_canceled i s)"
proof -
  have "pending (submitter_canceled i s) = pending s"
    using mset_take_drop [OF i] by (simp add: submitter_canceled_def pending_def tasks_of_def cancel_submit_def)
  with inv show ?thesis by (simp add: cx_inv_def) (simp add: submitter_canceled_def)
qed

lemma Queue_close_inv:
  assumes "cx_inv s"
  shows "cx_inv (Queue_close s)"
proof -
  have "pending (Queue_close s) = pending s"
    by (simp add: Queue_close_def pending_def tasks_of_def queue_close_def comp_def)
  with assms show ?thesis by (simp add: cx_inv_def) (simp add: Queue_close_def)
qed

text \<open>The objects of pending tasks exist, and what becomes of an object when its task leaves.\<close>

lemma pending_objects:
  assumes "cx_inv s" and "t \<in># pending s"
  shows "t_sync t = None \<Longrightarrow> t_arg t \<in> set (heap_objs s)" "t_sync t \<noteq> None \<Longrightarrow> t_arg t \<in> set (frame_objs s)"
proof -
  from assms(1) have "heap_args (pending s) \<subseteq># mset (heap_objs s)" "frame_args (pending s) \<subseteq># mset (frame_objs s)"
    unfolding cx_inv_def by (metis mset_subset_eq_add_left add.assoc)+
  then have e: "set_mset (heap_args (pending s)) \<subseteq> set (heap_objs s)" "set_mset (frame_args (pending s)) \<subseteq> set (frame_objs s)"
    by (metis set_mset_mono set_mset_mset)+
  show "t_sync t = None \<Longrightarrow> t_arg t \<in> set (heap_objs s)" "t_sync t \<noteq> None \<Longrightarrow> t_arg t \<in> set (frame_objs s)"
    using e args_of_mem [OF assms(2), of "\<lambda>t. t_sync t = None"] args_of_mem [OF assms(2), of "\<lambda>t. t_sync t \<noteq> None"] by auto
qed

lemma pending_other [simp]:
  "pending (s\<lparr>frame_objs := x\<rparr>) = pending s" "pending (s\<lparr>lost := x\<rparr>) = pending s" "pending (s\<lparr>wg_done := x\<rparr>) = pending s"
  "pending (s\<lparr>heap_objs := x\<rparr>) = pending s" "pending (s\<lparr>deletes := x\<rparr>) = pending s" "pending (s\<lparr>calls := x\<rparr>) = pending s"
  "pending (s\<lparr>fault := b\<rparr>) = pending s"
  by (simp_all add: pending_def)

lemma mset_remove1_eq: "add_mset x M = mset xs \<Longrightarrow> mset xs - {#x#} = M"
  by (metis add_mset_remove_trivial)

lemma release:
  assumes inv: "cx_inv s" and s1: "s1 = s\<lparr>cq := q, failed := f\<rparr>" and p: "pending s = add_mset t (pending s1)"
  shows "t_sync t \<noteq> None \<Longrightarrow> cx_inv (leave_frame (t_arg t) s1)"
    and "t_sync t = None \<Longrightarrow> cx_inv (delete_function (t_arg t) s1)"
    and "t_sync t = None \<Longrightarrow> t_arg t \<in> set (careless s1) \<Longrightarrow> cx_inv (lose (t_arg t) s1)"
    and "t_sync t = Some w \<Longrightarrow> cx_inv (s1\<lparr>wg_done := wg_done s1 @ [w]\<rparr>)"
proof -
  have e: "heap_args (pending s) + mset (afters s) + mset (lost s) = mset (heap_objs s)"
    "frame_args (pending s) + mset (wg_done s) = mset (frame_objs s)" and g: "good_task t" and o: "t \<in># pending s"
    using inv p by (simp_all add: cx_inv_def)
  note here = pending_objects [OF inv o]
  show "cx_inv (leave_frame (t_arg t) s1)" if "t_sync t \<noteq> None"
    using inv p e here(2) [OF that] that unfolding cx_inv_def
    by (auto simp: leave_frame_def s1 mset_remove1_eq)
  show "cx_inv (delete_function (t_arg t) s1)" if "t_sync t = None"
    using inv p e here(1) [OF that] that unfolding cx_inv_def
    by (auto simp: delete_function_def s1 mset_remove1_eq)
  show "cx_inv (lose (t_arg t) s1)" if "t_sync t = None" "t_arg t \<in> set (careless s1)"
    using inv p e that unfolding cx_inv_def by (auto simp: lose_def s1)
  show "cx_inv (s1\<lparr>wg_done := wg_done s1 @ [w]\<rparr>)" if "t_sync t = Some w"
    using inv p e g that unfolding cx_inv_def by (auto simp: good_task_def s1)
qed

lemma submitter_returns_inv:
  assumes inv: "cx_inv s" and i: "i < length (failed s)"
  shows "cx_inv (submitter_returns i s)"
proof -
  define s1 where "s1 = s\<lparr>cq := cq s, failed := take i (failed s) @ drop (Suc i) (failed s)\<rparr>"
  have "pending s = add_mset (fst (failed s ! i)) (pending s1)"
    using arg_cong [OF mset_take_drop [OF i], of "image_mset fst"] by (simp add: pending_def s1_def)
  from release [OF inv s1_def this] show ?thesis by (simp add: submitter_returns_def Let_def s1_def)
qed

section \<open>Drainers\<close>

lemma tasks_set:
  "i < length (drainers q) \<Longrightarrow> tasks_of (set_drainer i d q) + owns (drainers q ! i) = tasks_of q + owns d"
  using sum_update [of i "drainers q" owns d] by (simp add: tasks_of_def set_drainer_def ac_simps)

lemma tasks_other [simp]:
  "tasks_of (q\<lparr>active := a\<rparr>) = tasks_of q" "tasks_of (q\<lparr>barrier_pending := b\<rparr>) = tasks_of q" "tasks_of (q\<lparr>q_work := w\<rparr>) = tasks_of q"
  "tasks_of (broadcast q) = tasks_of q"
proof -
  have "owns (wake d) = owns d" for d by (simp add: owns_def unfinished_def wake_def split: drainer.splits)
  then show "tasks_of (broadcast q) = tasks_of q" by (simp add: tasks_of_def broadcast_def comp_def)
qed (simp_all add: tasks_of_def)

lemma tasks_same: "i < length (drainers q) \<Longrightarrow> owns d = owns (drainers q ! i) \<Longrightarrow> tasks_of (set_drainer i d q) = tasks_of q"
  using tasks_set [of i q d] by simp

lemma owned_task: "i < length (drainers q) \<Longrightarrow> t \<in># owns (drainers q ! i) \<Longrightarrow> t \<in># tasks_of q"
  using arg_cong [OF tasks_set [of i q DRecv], of "\<lambda>M. t \<in># M"] by (simp add: owns_def unfinished_def)

text \<open>What a step of a drainer does to the tasks around.\<close>

lemma drain_waiting:
  assumes i: "i < length (drainers q)" and d: "drainers q ! i \<in> {DGot t, DBlocked t b, DQuiesce t b}"
    and s: "s_queue_drainer i q = Some (ev, q')"
  shows "tasks_of q' = tasks_of q \<and> (ev = [] \<or> ev = [Start t]) \<and> t \<in># tasks_of q"
proof -
  have "owns (drainers q ! i) = {#t#}" using d by (auto simp: owns_def unfinished_def)
  moreover from this have "t \<in># tasks_of q" using owned_task [OF i] by simp
  moreover have "owns (DBlocked t c) = {#t#}" "owns (DQuiesce t c) = {#t#}" "owns (DRun t) = {#t#}" for c by (simp_all add: owns_def unfinished_def)
  ultimately show ?thesis using i d s
    by (auto simp: s_queue_drainer_def drainer_enter_def drainer_quiesce_def tasks_same split: if_splits)
qed

lemma drain_recv:
  assumes i: "i < length (drainers q)" and d: "drainers q ! i = DRecv" and s: "s_queue_drainer i q = Some (ev, q')"
  shows "tasks_of q' = tasks_of q \<and> (\<forall>e \<in> set ev. \<exists>t. e = Accept t)"
proof -
  have o: "owns DRecv = {#}" "owns DExit = {#}" "owns (DGot t) = {#t#}" for t by (simp_all add: owns_def unfinished_def)
  have "tasks_of (set_drainer i (DGot t) q1) = add_mset t (tasks_of q1)" if "drainers q1 = drainers q" for t q1
    using tasks_set [of i q1 "DGot t"] that i d o by simp
  then show ?thesis using s d i o tasks_same [OF i, of DExit]
    by (auto simp: s_queue_drainer_def drainer_recv_def tasks_of_def split: list.splits if_splits)
qed

lemma drain_leave:
  assumes "i < length (drainers q)" and "drainers q ! i = DDone t"
  shows "tasks_of (drainer_leave i t q) + owns (DDone t) = tasks_of q"
proof -
  have "tasks_of (set_drainer i DRecv q1) + owns (DDone t) = tasks_of q1"
    if "drainers q1 = drainers q \<or> drainers q1 = map wake (drainers q)" for q1
    using tasks_set [of i q1 DRecv] that assms by (auto simp: wake_def owns_def unfinished_def)
  note w = this [of "q\<lparr>q_work := x\<rparr>" for x] this [of "q\<lparr>active := a, q_work := x\<rparr>" for a x]
    this [of "broadcast (q\<lparr>barrier_pending := b\<rparr>)\<lparr>q_work := x\<rparr>" for b x] this [of "broadcast (q\<lparr>active := a\<rparr>)\<lparr>q_work := x\<rparr>" for a x]
  show ?thesis using w by (simp add: drainer_leave_def Let_def) (simp add: broadcast_def)
qed

lemma fold_accept: "\<forall>e \<in> set ev. \<exists>t. e = Accept t \<Longrightarrow> fold run_event ev s = s"
  by (induction ev arbitrary: s) auto

lemma cq_only: "cx_inv s \<Longrightarrow> tasks_of q = tasks_of (cq s) \<Longrightarrow> cx_inv (s\<lparr>cq := q\<rparr>)"
  by (simp add: cx_inv_def pending_def)

lemma call_inv: "cx_inv s \<Longrightarrow> t \<in># pending s \<Longrightarrow> cx_inv (call_function (t_arg t) s)"
  using pending_objects [of s t] by (auto simp: call_function_def cx_inv_def)

lemma drainer_runs_inv:
  assumes inv: "cx_inv s" and i: "i < length (drainers (cq s))"
  shows "cx_inv (drainer_runs i s)"
proof (cases "s_queue_drainer i (cq s)")
  case (Some r)
  obtain ev q' where r: "r = (ev, q')" by force
  note st = Some [unfolded r]
  have run: "drainer_runs i s = complete_sync (drainers (cq s) ! i) (fold run_event ev (s\<lparr>cq := q'\<rparr>))"
    by (simp add: drainer_runs_def st)
  have wait: ?thesis if d: "drainers (cq s) ! i \<in> {DGot t, DBlocked t b, DQuiesce t b}" for t b
    using drain_waiting [OF i d st] d cq_only [OF inv, of q'] call_inv [of "s\<lparr>cq := q'\<rparr>" t]
    by (auto simp: run complete_sync_def pending_def)
  show ?thesis
  proof (cases "drainers (cq s) ! i")
    case DRecv
    with drain_recv [OF i DRecv st] cq_only [OF inv, of q'] show ?thesis by (simp add: run complete_sync_def fold_accept)
  next
    case (DRun t)
    from st DRun have e: "ev = [Finish t]" "q' = set_drainer i (DDone t) (cq s)" by (simp_all add: s_queue_drainer_def)
    have o: "tasks_of q' + {#t#} = tasks_of (cq s) + owns (DDone t)" using tasks_set [OF i, of "DDone t"] DRun
      by (simp add: e owns_def unfinished_def)
    have m: "t \<in># pending s" using owned_task [OF i, of t] DRun by (simp add: pending_def owns_def unfinished_def)
    then have g: "good_task t" using inv by (simp add: cx_inv_def)
    show ?thesis
    proof (cases "t_sync t")
      case None
      with o have p: "pending s = add_mset t (pending (s\<lparr>cq := q', failed := failed s\<rparr>))" by (simp add: pending_def owns_def)
      from release(2) [OF inv refl p None] g None DRun show ?thesis
        by (simp add: run e(1) complete_sync_def trampoline_end_def good_task_def)
    next
      case (Some w)
      with o have "tasks_of q' = tasks_of (cq s)" by (simp add: owns_def)
      with cq_only [OF inv] pending_objects(2) [OF inv m] g Some DRun show ?thesis
        by (simp add: run e(1) complete_sync_def trampoline_end_def good_task_def SYNC_CALL_def TRAMPOLINE_def)
    qed
  next
    case (DDone t)
    from st DDone have e: "ev = []" "q' = drainer_leave i t (cq s)" by (simp_all add: s_queue_drainer_def)
    have o: "tasks_of q' + owns (DDone t) = tasks_of (cq s)"
      using drain_leave [OF i DDone] by (simp add: e)
    show ?thesis
    proof (cases "t_sync t")
      case None
      with o cq_only [OF inv, of q'] DDone show ?thesis by (simp add: run e(1) complete_sync_def owns_def)
    next
      case (Some w)
      with o have p: "pending s = add_mset t (pending (s\<lparr>cq := q', failed := failed s\<rparr>))"
        by (simp add: pending_def owns_def flip: o)
      from release(4) [OF inv refl p Some] Some DDone show ?thesis by (simp add: run e(1) complete_sync_def)
    qed
  qed (use wait st in \<open>auto simp: s_queue_drainer_def\<close>)
qed (simp add: drainer_runs_def inv)

lemma stray_inv:
  assumes "cx_inv s" and i: "i < length (drainers (cq s))"
  shows "cx_inv (s\<lparr>cq := set_drainer i (wake (drainers (cq s) ! i)) (cq s)\<rparr>)"
proof -
  have "owns (wake d) = owns d" for d by (simp add: owns_def unfinished_def wake_def split: drainer.splits)
  then show ?thesis by (intro cq_only [OF assms(1)] tasks_same [OF i])
qed

lemma sync_returns_inv:
  assumes inv: "cx_inv s" and i: "i < length (wg_done s)"
  shows "cx_inv (sync_returns i s)"
proof -
  let ?p = "wg_done s ! i"
  have e: "add_mset ?p (frame_args (pending s) + mset (take i (wg_done s) @ drop (Suc i) (wg_done s))) = mset (frame_objs s)"
    using inv mset_take_drop [OF i] by (simp add: cx_inv_def)
  have "?p \<in> set (frame_objs s)" using arg_cong [OF e, of set_mset] by auto
  with inv mset_remove1_eq [OF e] show ?thesis unfolding cx_inv_def
    by (auto simp: sync_returns_def leave_frame_def pending_def)
qed

lemma cx_step_inv: "cx_step s s' \<Longrightarrow> cx_inv s \<Longrightarrow> cx_inv s'"
  by (induction rule: cx_step.induct)
    (simp_all add: Queue_async_inv Queue_barrier_async_inv Queue_sync_inv Queue_after_inv Pool_submit_inv after_expires_inv
      submitter_canceled_inv submitter_returns_inv drainer_runs_inv stray_inv Queue_close_inv sync_returns_inv)

lemma fresh_tasks: "tq_fresh q \<Longrightarrow> tasks_of q = {#}"
proof -
  have "sum_list (replicate n (owns DRecv)) = {#}" for n by (induction n) (simp_all add: owns_def unfinished_def)
  then show "tq_fresh q \<Longrightarrow> tasks_of q = {#}"
    by (auto simp: tq_fresh_def suspenders_queue_create_def Let_def tasks_of_def split: if_splits)
qed

lemma cx_start_inv: "cx_init s \<Longrightarrow> cx_inv s"
proof -
  assume "cx_init s"
  then have "tasks_of (cq s) = {#}" "s = cx_start (q_valid s) (cq s)" by (auto simp: cx_init_def fresh_tasks)
  moreover have "cx_inv (cx_start v q)" if "tasks_of q = {#}" for v q
    using that by (simp add: cx_inv_def cx_start_def pending_def)
  ultimately show ?thesis by metis
qed

interpretation cxm: machine cx_init cx_step cx_inv
  by unfold_locales (auto simp: cx_start_inv cx_step_inv)

section \<open>The queue below\<close>

text \<open>Every step of the facade is a step of the queue or leaves the queue alone.\<close>

lemma object_steps_cq [simp]:
  "cq (delete_function p s) = cq s" "cq (leave_frame p s) = cq s" "cq (lose p s) = cq s" "cq (call_function p s) = cq s"
  "cq (run_event e s) = cq s" "cq (complete_sync d s) = cq s" "cq (fold run_event es s) = cq s"
proof -
  show 1: "cq (delete_function p s) = cq s" "cq (leave_frame p s) = cq s" "cq (lose p s) = cq s" "cq (call_function p s) = cq s"
    "cq (complete_sync d s) = cq s" for p s d
    by (simp_all add: delete_function_def leave_frame_def lose_def call_function_def complete_sync_def split: drainer.split option.split)
  show 2: "cq (run_event e s) = cq s" for e s by (cases e) (simp_all add: 1 trampoline_end_def)
  show "cq (fold run_event es s) = cq s" by (induction es arbitrary: s) (simp_all add: 2)
qed

lemma async_cq: "cq (snd (async_status p r s)) = snd r" "cq (careless_status p r s) = snd r"
  by (auto simp: async_status_def careless_status_def Let_def split: option.split)

lemma queue_calls_step:
  "snd (suspenders_queue_async in_cr f p q) = q \<or> tq_any q (snd (suspenders_queue_async in_cr f p q))"
  "snd (suspenders_queue_barrier_async in_cr f p q) = q \<or> tq_any q (snd (suspenders_queue_barrier_async in_cr f p q))"
  "snd (suspenders_queue_sync in_cr w f p q) = q \<or> tq_any q (snd (suspenders_queue_sync in_cr w f p q))"
  "snd (s_queue_after_cr f p q) = q \<or> tq_any q (snd (s_queue_after_cr f p q))"
proof -
  have "tq_any q (snd (s_queue_submit c t q))" for c t
    unfolding tq_any_def by (rule exI, rule tq_step.submit [OF prod.collapse [symmetric]])
  then show
    "snd (suspenders_queue_async in_cr f p q) = q \<or> tq_any q (snd (suspenders_queue_async in_cr f p q))"
    "snd (suspenders_queue_barrier_async in_cr f p q) = q \<or> tq_any q (snd (suspenders_queue_barrier_async in_cr f p q))"
    "snd (suspenders_queue_sync in_cr w f p q) = q \<or> tq_any q (snd (suspenders_queue_sync in_cr w f p q))"
    "snd (s_queue_after_cr f p q) = q \<or> tq_any q (snd (s_queue_after_cr f p q))"
    by (simp_all add: suspenders_queue_async_def suspenders_queue_barrier_async_def suspenders_queue_sync_def s_queue_after_cr_def)
qed

lemma cx_step_cq: "cx_step s s' \<Longrightarrow> cq s' = cq s \<or> tq_any (cq s) (cq s')"
proof (induction rule: cx_step.induct)
  case (cx_sync s in_cr)
  have "cq (snd (Queue_sync in_cr s)) = cq s \<or>
      cq (snd (Queue_sync in_cr s)) = snd (suspenders_queue_sync in_cr (next_obj s) SYNC_CALL (next_obj s) (cq s))"
    by (auto simp: Queue_sync_def frame_function_def Let_def split: option.split)
  then show ?case using queue_calls_step(3) by metis
next
  case (cx_drain i s)
  then show ?case by (cases "s_queue_drainer i (cq s)") (auto simp: drainer_runs_def tq_any_def dest: tq_step.drain)
next
  case (cx_stray i s)
  then show ?case by (auto simp: tq_any_def intro: tq_step.stray)
next
  case (cx_cancel i s)
  then show ?case by (auto simp: tq_any_def submitter_canceled_def intro: tq_step.cancel)
next
  case (cx_close s)
  then show ?case by (auto simp: tq_any_def Queue_close_def intro: tq_step.close)
qed (simp_all add: queue_calls_step Queue_async_def Queue_barrier_async_def Queue_after_def Pool_submit_def new_function_def
    after_expires_def submitter_returns_def sync_returns_def async_cq Let_def)

lemma cx_reach_cq: "reach cx_init cx_step s \<Longrightarrow> reach tq_fresh tq_any (cq s)"
proof (induction rule: reach.induct)
  case (reach_init s)
  then show ?case by (simp add: cx_init_def reach.reach_init)
next
  case (reach_step s t)
  with cx_step_cq [of s t] show ?case by (metis reach.reach_step)
qed

section \<open>Callables are deleted once\<close>

text \<open>C34. Whatever the order of submissions, cancellations, drainers, closes and returning callers, the facade
  never calls or deletes a callable that has been deleted and never deletes one twice. Once the queue has been
  drained and all callers have returned, no frame is referred to any more and every callable that was
  allocated has been deleted, except those that an expired \<open>after\<close> or a \<open>Pool::submit\<close> could not hand over.\<close>

theorem callables_deleted_once:
  assumes "reach cx_init cx_step s"
  shows "\<not> fault s \<and> distinct (deletes s) \<and> set (lost s) \<subseteq> set (careless s) \<and>
    (quiet s \<longrightarrow> frame_objs s = [] \<and> mset (news s) = mset (deletes s) + mset (lost s))"
proof -
  have inv: "cx_inv s" by (rule cxm.reach_inv [OF assms])
  have "frame_objs s = [] \<and> mset (news s) = mset (deletes s) + mset (lost s)" if q: "quiet s"
  proof -
    have d: "\<forall>d \<in> set (drainers (cq s)). d = DExit" using q by (simp add: quiet_def drained_def)
    have w: "work_inv (cq s)" using tqm.reach_inv [OF cx_reach_cq [OF assms]] by (simp add: tq_inv_def)
    then have "DExit \<in> set (drainers (cq s))" using d hd_in_set [of "drainers (cq s)"] by (fastforce simp: work_inv_def)
    with w have "buffered (cq s) = []" "parked (cq s) = []" by (auto simp: work_inv_def)
    moreover have "sum_list (map owns ds) = {#}" if "\<forall>d \<in> set ds. d = DExit" for ds
      using that by (induction ds) (simp_all add: owns_def unfinished_def)
    ultimately have "pending s = {#}" using q d by (simp add: pending_def tasks_of_def quiet_def)
    with inv q show ?thesis by (simp add: cx_inv_def quiet_def)
  qed
  with inv show ?thesis by (simp add: cx_inv_def)
qed

text \<open>Two cases in which a callable is lost: a delay that ends after the queue has been closed, and a submission
  to a full pool from outside a coroutine.\<close>

lemma after_loses_callable:
  "chan_closed (cq s) \<Longrightarrow> lost (after_expires i s) = afters s ! i # lost s \<and> deletes (after_expires i s) = deletes s"
  by (simp add: after_expires_def careless_status_def s_queue_after_cr_def suspenders_queue_async_def TRAMPOLINE_def s_queue_submit_def
      lose_def Let_def)

lemma submit_loses_callable:
  "q_valid s \<Longrightarrow> length (buffered (cq s)) = SUSPENDERS_QUEUE_CAP \<Longrightarrow>
     lost (Pool_submit False s) = next_obj s # lost s \<and> tasks_of (cq (Pool_submit False s)) = tasks_of (cq s)"
  by (simp add: Pool_submit_def new_function_def careless_status_def suspenders_queue_async_def TRAMPOLINE_def s_queue_submit_def
      lose_def tasks_of_def Let_def)

section \<open>Example\<close>

datatype cx_move = DoAsync bool | DoSync | DoAfter | DoExpire nat | DoDrain nat | DoClose | DoSyncReturn nat

fun cx_do :: "cx_move \<Rightarrow> cxx_queue \<Rightarrow> cxx_queue option" where
  "cx_do (DoAsync c) s = Some (snd (Queue_async c s))"
| "cx_do DoSync s = Some (snd (Queue_sync True s))"
| "cx_do DoAfter s = Some (snd (Queue_after True None s))"
| "cx_do (DoExpire i) s = (if i < length (afters s) then Some (after_expires i s) else None)"
| "cx_do (DoDrain i) s = (if i < length (drainers (cq s)) then Some (drainer_runs i s) else None)"
| "cx_do DoClose s = Some (Queue_close s)"
| "cx_do (DoSyncReturn i) s = (if i < length (wg_done s) then Some (sync_returns i s) else None)"

fun cx_play :: "cx_move list \<Rightarrow> cxx_queue \<Rightarrow> cxx_queue option" where
  "cx_play [] s = Some s"
| "cx_play (m # ms) s = (case cx_do m s of None \<Rightarrow> None | Some s1 \<Rightarrow> cx_play ms s1)"

lemma cx_do_step: "cx_do m s = Some s' \<Longrightarrow> cx_step s s'"
  by (cases m) (auto intro: cx_step.intros split: if_splits)

lemma cx_play_reach: "cx_play ms s = Some s' \<Longrightarrow> reach cx_init cx_step s \<Longrightarrow> reach cx_init cx_step s'"
  by (induction ms arbitrary: s) (auto split: option.splits intro: reach_step dest: cx_do_step)

text \<open>A callable that is run, one of \<open>sync\<close>, a delayed one and one submitted after the close; the delay ends too late.\<close>

definition cx_script :: "cx_move list" where
  "cx_script = [DoAsync True, DoSync, DoAfter, DoDrain 0, DoDrain 0, DoDrain 0, DoDrain 0, DoClose, DoAsync True, DoExpire 0,
     DoDrain 0, DoDrain 0, DoDrain 0, DoDrain 0, DoDrain 0, DoSyncReturn 0]"

definition cx_end :: cxx_queue where
  "cx_end = (cx_start True (one_drainer\<lparr>chan_closed := True, drainers := [DExit]\<rparr>))\<lparr>next_obj := 5, heap_objs := [3], news := [1, 3, 4],
     deletes := [1, 4], calls := [1, 2], careless := [3], lost := [3]\<rparr>"

lemma cx_script_end: "cx_play cx_script (cx_start True one_drainer) = Some cx_end"
  by (simp add: cx_script_def cx_end_def cx_start_def one_drainer_def play_defs Queue_async_def Queue_sync_def Queue_after_def
      new_function_def frame_function_def async_status_def careless_status_def suspenders_queue_async_def suspenders_queue_sync_def
      suspenders_queue_after_def s_queue_after_cr_def TRAMPOLINE_def SYNC_CALL_def after_expires_def drainer_runs_def Queue_close_def
      sync_returns_def leave_frame_def delete_function_def call_function_def trampoline_end_def complete_sync_def lose_def Let_def)

theorem callables_deleted_once_witness:
  "\<not> fault cx_end \<and> quiet cx_end \<and> mset (news cx_end) = mset (deletes cx_end) + mset (lost cx_end) \<and> lost cx_end = [3]"
proof -
  have "cx_init (cx_start True one_drainer)" by (simp add: cx_init_def one_drainer_fresh) (simp add: cx_start_def one_drainer_fresh)
  then have "reach cx_init cx_step cx_end" by (rule cx_play_reach [OF cx_script_end reach_init])
  moreover have "quiet cx_end" "lost cx_end = [3]" by (simp_all add: quiet_def cx_end_def cx_start_def drained_def)
  ultimately show ?thesis using callables_deleted_once [of cx_end] by blast
qed

end
